(* ===== verification/Prelude.thy ===== *)
theory Prelude
  imports Main "HOL-Library.Word" "HOL-Library.Signed_Division"
begin

text \<open>
  The vocabulary shared by every component: the outcomes of a C++ operation that may fail, the
  byte strings that buffers and strings hold, the \<^verbatim>\<open>std::copy\<close>, \<^verbatim>\<open>resize\<close>, \<^verbatim>\<open>memmem\<close> and
  \<^verbatim>\<open>memchr\<close> of the standard library on lists, and lemmas about them.

  Arithmetic. A \<open>size_t\<close> or \<open>int\<close> that stays far from its limits is a \<^typ>\<open>nat\<close> or
  \<^typ>\<open>int\<close>. The length of an object in memory is below \<open>2 ^ 63\<close>, so that sums of two lengths do
  not wrap around; differences of \<open>size_t\<close> values do when the first is the smaller one, and
  \<open>size_sub\<close> writes this out. Signed division and remainder truncate towards zero: they are
  \<open>sdiv\<close> and \<open>smod\<close>.
\<close>

section \<open>Collections of rules\<close>

named_theorems buffer_simps \<open>unfolding rules of the operations on a network buffer\<close>

section \<open>Outcomes\<close>

text \<open>
  What may happen instead of a result: an \<^verbatim>\<open>assert\<close> whose condition is false (the process
  aborts; with \<open>NDEBUG\<close> the caller has broken the contract), a \<^verbatim>\<open>std::out_of_range\<close>, an
  access outside a vector or array, an access to an object that has been destroyed, another
  exception.
\<close>

datatype gg_error =
    Assert_failed
  | Out_of_range
  | Out_of_bounds
  | Dangling
  | Logic_error string
  | Bad_any_cast
  | Abort

type_synonym 'a result = "gg_error + 'a"
type_synonym bytes = "char list"

definition check :: "bool \<Rightarrow> 'a result \<Rightarrow> 'a result" where
  "check c r = (if c then r else Inl Assert_failed)"

fun and_then :: "'a result \<Rightarrow> ('a \<Rightarrow> 'b result) \<Rightarrow> 'b result" where
  "and_then (Inl e) f = Inl e"
| "and_then (Inr x) f = f x"

lemma check_eq_Inr [simp]: "check c r = Inr x \<longleftrightarrow> c \<and> r = Inr x"
  by (auto simp: check_def)

lemma check_True [simp]: "c \<Longrightarrow> check c r = r"
  by (simp add: check_def)

lemma check_False [simp]: "\<not> c \<Longrightarrow> check c r = Inl Assert_failed"
  by (simp add: check_def)

lemma and_then_eq_Inr [simp]:
  "and_then r f = Inr y \<longleftrightarrow> (\<exists>x. r = Inr x \<and> f x = Inr y)"
  by (cases r) auto

lemma and_then_assoc: "and_then (and_then r f) g = and_then r (\<lambda>x. and_then (f x) g)"
  by (cases r) auto

lemma map_sum_eq_Inr [simp]: "map_sum id f x = Inr y \<longleftrightarrow> (\<exists>z. x = Inr z \<and> f z = y)"
  by (cases x) auto

lemma map_sum_eq_Inl [simp]: "map_sum id f x = Inl e \<longleftrightarrow> x = Inl e"
  by (cases x) auto

section \<open>Unsigned differences\<close>

definition size_sub :: "nat \<Rightarrow> nat \<Rightarrow> nat" where
  "size_sub a b = (if b \<le> a then a - b else a + 2 ^ 64 - b)"

lemma size_sub_le [simp]: "b \<le> a \<Longrightarrow> size_sub a b = a - b"
  by (simp add: size_sub_def)

section \<open>Vectors of bytes\<close>

text \<open>\<open>subrange i j xs\<close> is the range \<open>[i, j)\<close> of \<open>xs\<close>.\<close>

definition subrange :: "nat \<Rightarrow> nat \<Rightarrow> 'a list \<Rightarrow> 'a list" where
  "subrange i j xs = take (j - i) (drop i xs)"

text \<open>\<open>std::copy\<close> of \<open>ys\<close> to position \<open>i\<close> of \<open>xs\<close>; writing past the end is an error.\<close>

definition copy_to :: "nat \<Rightarrow> 'a list \<Rightarrow> 'a list \<Rightarrow> 'a list result" where
  "copy_to i ys xs =
     (if i + length ys \<le> length xs
      then Inr (take i xs @ ys @ drop (i + length ys) xs)
      else Inl Out_of_bounds)"

text \<open>\<open>std::vector<char>::resize\<close>: new elements are value-initialised, so zero.\<close>

definition resize :: "nat \<Rightarrow> bytes \<Rightarrow> bytes" where
  "resize n xs = take n xs @ replicate (n - length xs) (CHR 0x00)"

lemma length_subrange [simp]: "j \<le> length xs \<Longrightarrow> length (subrange i j xs) = j - i"
  by (simp add: subrange_def)

lemma subrange_empty [simp]: "j \<le> i \<Longrightarrow> subrange i j xs = []"
  by (simp add: subrange_def)

lemma subrange_append:
  "i \<le> j \<Longrightarrow> j \<le> k \<Longrightarrow> subrange i j xs @ subrange j k xs = subrange i k xs"
proof -
  assume ij: "i \<le> j" and jk: "j \<le> k"
  have "subrange i k xs = take ((j - i) + (k - j)) (drop i xs)"
    using ij jk by (simp add: subrange_def)
  also have "\<dots> = take (j - i) (drop i xs) @ take (k - j) (drop (j - i) (drop i xs))"
    by (rule take_add)
  finally show ?thesis using ij by (simp add: subrange_def)
qed

lemma drop_subrange: "drop n (subrange i j xs) = subrange (i + n) j xs"
  by (simp add: subrange_def drop_take add.commute diff_diff_add)

lemma take_subrange: "i + n \<le> j \<Longrightarrow> take n (subrange i j xs) = subrange i (i + n) xs"
  by (simp add: subrange_def)

lemma nth_subrange: "k < j - i \<Longrightarrow> j \<le> length xs \<Longrightarrow> subrange i j xs ! k = xs ! (i + k)"
  by (simp add: subrange_def)

lemma copy_to_defined: "i + length ys \<le> length xs \<Longrightarrow> \<exists>zs. copy_to i ys xs = Inr zs"
  by (simp add: copy_to_def)

lemma length_copy_to: "copy_to i ys xs = Inr zs \<Longrightarrow> length zs = length xs"
  by (auto simp: copy_to_def split: if_splits)

lemma subrange_copy_to:
  assumes "copy_to i ys xs = Inr zs"
  shows subrange_copy_to_at: "subrange i (i + length ys) zs = ys"
    and subrange_copy_to_before: "k \<le> i \<Longrightarrow> subrange j k zs = subrange j k xs"
    and subrange_copy_to_after: "i + length ys \<le> j \<Longrightarrow> subrange j k zs = subrange j k xs"
proof -
  from assms have len: "i + length ys \<le> length xs"
    and zs: "zs = take i xs @ ys @ drop (i + length ys) xs"
    by (auto simp: copy_to_def split: if_splits)
  show "subrange i (i + length ys) zs = ys"
    using len by (simp add: zs subrange_def)
  show "subrange j k zs = subrange j k xs" if "k \<le> i"
    using len that by (auto simp: zs subrange_def list_eq_iff_nth_eq nth_append)
  show "subrange j k zs = subrange j k xs" if "i + length ys \<le> j"
    using len that by (simp add: zs subrange_def)
qed

lemma length_resize [simp]: "length (resize n xs) = n"
  by (simp add: resize_def)

lemma subrange_resize: "k \<le> length xs \<Longrightarrow> k \<le> n \<Longrightarrow> subrange j k (resize n xs) = subrange j k xs"
  by (auto simp: resize_def subrange_def list_eq_iff_nth_eq nth_append drop_take)

section \<open>Searching\<close>

text \<open>\<open>memchr\<close> and \<open>memmem\<close>: the index of the first match, if there is one.\<close>

fun memchr :: "'a list \<Rightarrow> 'a \<Rightarrow> nat option" where
  "memchr [] c = None"
| "memchr (x # xs) c = (if x = c then Some 0 else map_option Suc (memchr xs c))"

fun memmem :: "'a list \<Rightarrow> 'a list \<Rightarrow> nat option" where
  "memmem [] needle = (if needle = [] then Some 0 else None)"
| "memmem (x # xs) needle =
     (if take (length needle) (x # xs) = needle then Some 0
      else map_option Suc (memmem xs needle))"

lemma memchr_Some:
  "memchr xs c = Some k \<Longrightarrow> k < length xs \<and> xs ! k = c \<and> c \<notin> set (take k xs)"
  by (induction xs arbitrary: k) (auto split: if_splits)

lemma memchr_None: "memchr xs c = None \<longleftrightarrow> c \<notin> set xs"
  by (induction xs) auto

lemma memchr_append: "c \<notin> set xs \<Longrightarrow> memchr (xs @ c # ys) c = Some (length xs)"
  by (induction xs) auto

lemma memmem_Some:
  "memmem xs ys = Some k \<Longrightarrow>
     k + length ys \<le> length xs \<and> take (length ys) (drop k xs) = ys"
proof (induction xs arbitrary: k)
  case Nil
  then show ?case by (auto split: if_splits)
next
  case (Cons x xs)
  show ?case
  proof (cases "take (length ys) (x # xs) = ys")
    case True
    then have "length ys \<le> length (x # xs)"
      by (metis length_take min.cobounded1)
    with True Cons.prems show ?thesis by auto
  next
    case False
    with Cons.prems obtain k' where "memmem xs ys = Some k'" "k = Suc k'"
      by auto
    with Cons.IH show ?thesis by auto
  qed
qed

lemma memmem_first:
  "memmem xs ys = Some k \<Longrightarrow> j < k \<Longrightarrow> take (length ys) (drop j xs) \<noteq> ys"
proof (induction xs arbitrary: k j)
  case Nil
  then show ?case by (auto split: if_splits)
next
  case (Cons x xs)
  then show ?case by (cases j) (auto split: if_splits)
qed

lemma memmem_None:
  "memmem xs ys = None \<Longrightarrow> ys \<noteq> [] \<Longrightarrow> take (length ys) (drop j xs) \<noteq> ys"
proof (induction xs arbitrary: j)
  case Nil
  then show ?case by auto
next
  case (Cons x xs)
  then show ?case by (cases j) (auto split: if_splits)
qed

text \<open>Searching a longer string finds a match of the shorter one at the same place.\<close>

lemma memmem_append:
  "memmem xs ys = Some k \<Longrightarrow> memmem (xs @ zs) ys = Some k"
proof (induction xs arbitrary: k)
  case Nil
  then show ?case by (cases zs) (auto split: if_splits)
next
  case (Cons x xs)
  show ?case
  proof (cases "take (length ys) (x # xs) = ys")
    case True
    then have "length ys \<le> length (x # xs)"
      by (metis length_take min.cobounded1)
    then have "take (length ys) (x # xs @ zs) = take (length ys) (x # xs)"
      by (metis append_Cons append_Nil2 diff_is_0_eq take0 take_append)
    with True Cons.prems show ?thesis by simp
  next
    case False
    with Cons.prems obtain k' where k': "memmem xs ys = Some k'" "k = Suc k'"
      by auto
    from k'(1) have len: "length ys \<le> length xs" using memmem_Some by fastforce
    then have "take (length ys) (x # xs @ zs) = take (length ys) (x # xs)"
      by (metis append_Cons append_Nil2 diff_is_0_eq le_SucI length_Cons take0 take_append)
    with False k' Cons.IH show ?thesis by simp
  qed
qed

section \<open>C strings and printing\<close>

text \<open>
  \<open>c_str\<close>: what a \<^verbatim>\<open>const char *\<close> taken from a string stands for, everything before the first NUL.
  \<open>show_nat\<close> and \<open>show_int\<close>: the conversions \<^verbatim>\<open>%zu\<close> and \<^verbatim>\<open>%d\<close>. \<open>snprintf\<close>: at most \<open>n - 1\<close>
  characters are stored.
\<close>

definition c_str :: "bytes \<Rightarrow> bytes" where
  "c_str s = takeWhile (\<lambda>c. c \<noteq> CHR 0x00) s"

definition digit_char :: "nat \<Rightarrow> char" where
  "digit_char d = char_of (48 + d)"

fun show_nat :: "nat \<Rightarrow> string" where
  "show_nat n =
     (if n < 10 then [digit_char n] else show_nat (n div 10) @ [digit_char (n mod 10)])"

declare show_nat.simps [simp del]

definition show_int :: "int \<Rightarrow> string" where
  "show_int i = (if i < 0 then CHR ''-'' # show_nat (nat (- i)) else show_nat (nat i))"

definition snprintf :: "nat \<Rightarrow> string \<Rightarrow> string" where
  "snprintf n s = take (n - 1) s"

text \<open>The value of a string of digits, with which printing is inverted.\<close>

definition digits_value :: "string \<Rightarrow> nat" where
  "digits_value s = foldl (\<lambda>v c. 10 * v + (of_char c - 48)) 0 s"

lemma of_char_digit_char: "d < 10 \<Longrightarrow> (of_char (digit_char d) :: nat) = 48 + d"
  by (simp add: digit_char_def)

lemma digits_value_snoc: "digits_value (s @ [c]) = 10 * digits_value s + (of_char c - 48)"
  by (simp add: digits_value_def)

lemma digits_value_show_nat: "digits_value (show_nat n) = n"
proof (induction n rule: show_nat.induct)
  case (1 n)
  show ?case
  proof (cases "n < 10")
    case True
    then show ?thesis
      by (simp add: show_nat.simps [of n] digits_value_def of_char_digit_char)
  next
    case False
    with 1 show ?thesis
      by (simp add: show_nat.simps [of n] digits_value_snoc of_char_digit_char)
  qed
qed

lemma show_nat_nonempty: "show_nat n \<noteq> []"
  by (subst show_nat.simps) simp

lemma length_show_nat: "n < 10 ^ k \<Longrightarrow> 0 < k \<Longrightarrow> length (show_nat n) \<le> k"
proof (induction k arbitrary: n)
  case 0
  then show ?case by simp
next
  case (Suc k)
  show ?case
  proof (cases "n < 10")
    case True
    then show ?thesis by (simp add: show_nat.simps [of n])
  next
    case False
    with Suc.prems have "n div 10 < 10 ^ k" and "0 < k"
      by (auto simp: less_mult_imp_div_less mult.commute intro: Suc_lessI gr0I)
    with Suc.IH have "length (show_nat (n div 10)) \<le> k" by blast
    with False show ?thesis by (simp add: show_nat.simps [of n])
  qed
qed

end
