(* ===== verification/Runs.thy ===== *)
theory Runs
  imports Prelude
begin

text \<open>
  Sequences of operations, once for all components. \<open>sequential\<close> is the contract of a function that
  performs a list of operations one after the other and stops at the first error; \<open>guarded\<close> adds
  operations that are allowed in certain states only; \<open>interleaving\<close> is the contract of a relation
  that performs the atomic steps of several threads, each of which is possible in certain states only.
  Every component whose state is changed by a sequence of calls interprets one of them.
\<close>

section \<open>Calls one after the other\<close>

locale sequential =
  fixes step :: "'op \<Rightarrow> 's \<Rightarrow> 's result"
    and run :: "'op list \<Rightarrow> 's \<Rightarrow> 's result"
  assumes run_Nil: "run [] s = Inr s"
    and run_Cons: "run (op # ops) s = and_then (step op s) (run ops)"
begin

lemma run_append: "run (ops @ ops') s = and_then (run ops s) (run ops')"
proof (induction ops arbitrary: s)
  case (Cons op ops)
  then show ?case by (cases "step op s") (simp_all add: run_Cons)
qed (simp add: run_Nil)

lemma run_single: "run [op] s = step op s"
  by (cases "step op s") (simp_all add: run_Nil run_Cons)

text \<open>What every step keeps and every step relates, the whole run keeps and relates.\<close>

lemma run_sound:
  fixes inv :: "'s \<Rightarrow> bool" and rel :: "'s \<Rightarrow> 's \<Rightarrow> bool" and err :: "gg_error \<Rightarrow> bool"
  assumes step: "\<And>op s. op \<in> set ops \<Longrightarrow> inv s \<Longrightarrow>
      case step op s of Inl e \<Rightarrow> err e | Inr s' \<Rightarrow> inv s' \<and> rel s s'"
    and refl: "\<And>s. rel s s" and trans: "\<And>s s' s''. rel s s' \<Longrightarrow> rel s' s'' \<Longrightarrow> rel s s''"
    and "inv s"
  shows "case run ops s of Inl e \<Rightarrow> err e | Inr s' \<Rightarrow> inv s' \<and> rel s s'"
  using step assms(4)
proof (induction ops arbitrary: s)
  case Nil
  then show ?case by (simp add: run_Nil refl)
next
  case (Cons op ops)
  note first = Cons.prems(1) [of op s]
  show ?case
  proof (cases "step op s")
    case (Inl e)
    with first Cons.prems(2) show ?thesis by (simp add: run_Cons)
  next
    case (Inr s1)
    with first Cons.prems(2) have s1: "inv s1" "rel s s1" by simp_all
    from Cons.IH [OF Cons.prems(1) s1(1)] Inr s1(2) show ?thesis
      by (auto simp: run_Cons split: sum.splits intro: trans)
  qed
qed

text \<open>The run simulates a run of the specification on the abstract values.\<close>

lemma run_refines:
  fixes inv :: "'s \<Rightarrow> bool" and abs :: "'s \<Rightarrow> 't" and err :: "gg_error \<Rightarrow> bool"
  assumes step: "\<And>op s. inv s \<Longrightarrow> case step op s of Inl e \<Rightarrow> err e | Inr s' \<Rightarrow> inv s' \<and> abs s' = spec op (abs s)"
    and "inv s"
  shows "case run ops s of Inl e \<Rightarrow> err e | Inr s' \<Rightarrow> inv s' \<and> abs s' = fold spec ops (abs s)"
  using assms(2)
proof (induction ops arbitrary: s)
  case Nil
  then show ?case by (simp add: run_Nil)
next
  case (Cons op ops)
  show ?case
  proof (cases "step op s")
    case (Inl e)
    with step [OF Cons.prems, of op] show ?thesis by (simp add: run_Cons)
  next
    case (Inr s1)
    with step [OF Cons.prems, of op] Cons.IH [of s1] show ?thesis by (auto simp: run_Cons split: sum.splits)
  qed
qed

end

section \<open>Calls that are allowed in certain states\<close>

locale guarded = sequential step run
  for step :: "'op \<Rightarrow> 's \<Rightarrow> 's result" and run :: "'op list \<Rightarrow> 's \<Rightarrow> 's result" +
  fixes guard :: "'op \<Rightarrow> 's \<Rightarrow> bool"
    and allowed :: "'op list \<Rightarrow> 's \<Rightarrow> bool"
    and inv :: "'s \<Rightarrow> bool"
  assumes allowed_Cons: "allowed (op # ops) s \<longleftrightarrow> guard op s \<and> (case step op s of Inl e \<Rightarrow> True | Inr s' \<Rightarrow> allowed ops s')"
    and step_total: "inv s \<Longrightarrow> guard op s \<Longrightarrow> \<exists>s'. step op s = Inr s' \<and> inv s'"
begin

lemma run_total: "inv s \<Longrightarrow> allowed ops s \<Longrightarrow> \<exists>s'. run ops s = Inr s' \<and> inv s'"
proof (induction ops arbitrary: s)
  case Nil
  then show ?case by (simp add: run_Nil)
next
  case (Cons op ops)
  then obtain s1 where "step op s = Inr s1" "inv s1" using step_total allowed_Cons by blast
  with Cons show ?case by (simp add: run_Cons allowed_Cons)
qed

end

section \<open>Steps of several threads\<close>

locale interleaving =
  fixes exec :: "'a \<Rightarrow> 's \<Rightarrow> 's result option"
    and steps :: "'s \<Rightarrow> 'a list \<Rightarrow> 's result \<Rightarrow> bool"
  assumes steps_Nil: "steps s [] r \<longleftrightarrow> r = Inr s"
    and steps_Cons: "steps s (a # as) r \<longleftrightarrow>
      (\<exists>s1. exec a s = Some (Inr s1) \<and> steps s1 as r) \<or> (\<exists>e. exec a s = Some (Inl e) \<and> r = Inl e)"
begin

lemma steps_append: "steps s as (Inr s1) \<Longrightarrow> steps s1 bs r \<Longrightarrow> steps s (as @ bs) r"
  by (induction as arbitrary: s) (auto simp: steps_Nil steps_Cons)

lemma steps_one: "exec a s = Some (Inr s') \<Longrightarrow> steps s [a] (Inr s')"
  by (simp add: steps_Nil steps_Cons)

lemma steps_snoc: "steps s as (Inr s1) \<Longrightarrow> exec a s1 = Some (Inr s') \<Longrightarrow> steps s (as @ [a]) (Inr s')"
  by (rule steps_append [OF _ steps_one])

text \<open>What no step of any thread breaks.\<close>

lemma steps_inv:
  fixes inv :: "'s \<Rightarrow> bool"
  assumes step: "\<And>a s r. inv s \<Longrightarrow> exec a s = Some r \<Longrightarrow> \<exists>s'. r = Inr s' \<and> inv s'"
    and "steps s as r" and "inv s"
  shows "\<exists>s'. r = Inr s' \<and> inv s'"
  using assms(2,3)
proof (induction as arbitrary: s)
  case Nil
  then show ?case by (simp add: steps_Nil)
next
  case (Cons a as)
  from Cons.prems(1) consider (on) s1 where "exec a s = Some (Inr s1)" "steps s1 as r"
    | (fail) e where "exec a s = Some (Inl e)" by (auto simp: steps_Cons)
  then show ?case
  proof cases
    case on
    with step [OF Cons.prems(2)] Cons.IH show ?thesis by blast
  next
    case fail
    with step [OF Cons.prems(2)] show ?thesis by blast
  qed
qed

text \<open>The same when a step may fail.\<close>

lemma steps_sound:
  fixes inv :: "'s \<Rightarrow> bool" and err :: "gg_error \<Rightarrow> bool"
  assumes step: "\<And>a s r. a \<in> set as \<Longrightarrow> inv s \<Longrightarrow> exec a s = Some r \<Longrightarrow>
      case r of Inl e \<Rightarrow> err e | Inr s' \<Rightarrow> inv s'"
    and "steps s as r" and "inv s"
  shows "case r of Inl e \<Rightarrow> err e | Inr s' \<Rightarrow> inv s'"
  using step assms(2,3)
proof (induction as arbitrary: s)
  case Nil
  then show ?case by (simp add: steps_Nil)
next
  case (Cons a as)
  from Cons.prems(2) consider (on) s1 where "exec a s = Some (Inr s1)" "steps s1 as r"
    | (fail) e where "exec a s = Some (Inl e)" "r = Inl e" by (auto simp: steps_Cons)
  then show ?case
  proof cases
    case on
    from Cons.prems(1) [OF _ Cons.prems(3) on(1)] have "inv s1" by simp
    show ?thesis by (rule Cons.IH [OF _ on(2) \<open>inv s1\<close>]) (rule Cons.prems(1), simp_all)
  next
    case fail
    with Cons.prems(1) [OF _ Cons.prems(3) fail(1)] show ?thesis by simp
  qed
qed

text \<open>What every step keeps, once it holds.\<close>

lemma steps_keep:
  assumes step: "\<And>a s s'. a \<in> set as \<Longrightarrow> P s \<Longrightarrow> exec a s = Some (Inr s') \<Longrightarrow> P s'"
    and "steps s as (Inr s')" and "P s"
  shows "P s'"
  using step assms(2,3)
proof (induction as arbitrary: s)
  case (Cons a as)
  then obtain s1 where s1: "exec a s = Some (Inr s1)" "steps s1 as (Inr s')" by (auto simp: steps_Cons)
  from Cons.prems(1) [OF _ Cons.prems(3) s1(1)] have "P s1" by simp
  show ?case by (rule Cons.IH [OF _ s1(2) \<open>P s1\<close>]) (rule Cons.prems(1), simp_all)
qed (simp add: steps_Nil)

end

end
