(* ===== verification/Buffer.thy ===== *)
theory Buffer
  imports Runs
begin

text \<open>
  The network buffer of \<^verbatim>\<open>include/gg_lib/net/Buffer.h\<close>: a vector of bytes with a read and a write
  index. Every public operation is a definition here; an operation with an \<^verbatim>\<open>assert\<close> returns a
  \<open>result\<close>. Pointers into the buffer (\<^verbatim>\<open>peek()\<close>, \<^verbatim>\<open>beginWrite()\<close>, the result of \<^verbatim>\<open>findCRLF\<close>) are
  indices of the vector. The abstraction is \<open>toStringView\<close>, the bytes still to be read; the
  locale \<open>byte_queue\<close> states what the clients (the HTTP parser, a connection's output) rely on.
\<close>

section \<open>State\<close>

record buffer =
  vec :: bytes
  readerIndex :: nat
  writerIndex :: nat

definition kCheapPrepend :: nat where
  "kCheapPrepend = 8"

definition kInitialSize :: nat where
  "kInitialSize = 1024"

definition kCRLF :: bytes where
  "kCRLF = [CHR 0x0D, CHR 0x0A]"

definition Buffer_new :: "nat \<Rightarrow> buffer" where
  "Buffer_new initialSize =
     \<lparr>vec = resize (kCheapPrepend + initialSize) [],
      readerIndex = kCheapPrepend, writerIndex = kCheapPrepend\<rparr>"

section \<open>Observers\<close>

definition readableBytes :: "buffer \<Rightarrow> nat" where
  "readableBytes b = size_sub (writerIndex b) (readerIndex b)"

definition writableBytes :: "buffer \<Rightarrow> nat" where
  "writableBytes b = size_sub (length (vec b)) (writerIndex b)"

definition prependableBytes :: "buffer \<Rightarrow> nat" where
  "prependableBytes b = readerIndex b"

definition peek :: "buffer \<Rightarrow> nat" where
  "peek b = readerIndex b"

definition beginWrite :: "buffer \<Rightarrow> nat" where
  "beginWrite b = writerIndex b"

definition toStringView :: "buffer \<Rightarrow> bytes" where
  "toStringView b = take (readableBytes b) (drop (peek b) (vec b))"

definition findCRLF :: "nat option \<Rightarrow> buffer \<Rightarrow> nat option result" where
  "findCRLF begin_opt b =
     (let start = (case begin_opt of Some p \<Rightarrow> p | None \<Rightarrow> peek b) in
      check (peek b \<le> start) (check (start \<le> beginWrite b)
        (let crlf = map_option ((+) start) (memmem (subrange start (beginWrite b) (vec b)) kCRLF)
         in Inr (if crlf = Some (beginWrite b) then None else crlf))))"

definition findEOL :: "nat option \<Rightarrow> buffer \<Rightarrow> nat option result" where
  "findEOL begin_opt b =
     (let start = (case begin_opt of Some p \<Rightarrow> p | None \<Rightarrow> peek b) in
      check (peek b \<le> start) (check (start \<le> beginWrite b)
        (Inr (map_option ((+) start)
          (memchr (subrange start (beginWrite b) (vec b)) (CHR 0x0A))))))"

section \<open>Retrieving\<close>

definition retrieveAll :: "buffer \<Rightarrow> buffer" where
  "retrieveAll b = b\<lparr>readerIndex := kCheapPrepend, writerIndex := kCheapPrepend\<rparr>"

definition retrieve :: "nat \<Rightarrow> buffer \<Rightarrow> buffer result" where
  "retrieve len b =
     check (len \<le> readableBytes b)
       (if len < readableBytes b then Inr (b\<lparr>readerIndex := readerIndex b + len\<rparr>)
        else Inr (retrieveAll b))"

definition retrieveUntil :: "nat \<Rightarrow> buffer \<Rightarrow> buffer result" where
  "retrieveUntil end_ptr b =
     check (peek b \<le> end_ptr) (check (end_ptr \<le> beginWrite b)
       (retrieve (end_ptr - peek b) b))"

definition retrieveAsString :: "nat \<Rightarrow> buffer \<Rightarrow> (bytes \<times> buffer) result" where
  "retrieveAsString len b =
     check (len \<le> readableBytes b)
       (let s = take len (drop (peek b) (vec b))
        in and_then (retrieve len b) (\<lambda>b'. Inr (s, b')))"

definition retrieveAllAsString :: "buffer \<Rightarrow> (bytes \<times> buffer) result" where
  "retrieveAllAsString b = retrieveAsString (readableBytes b) b"

section \<open>Writing\<close>

definition makeSpace :: "nat \<Rightarrow> buffer \<Rightarrow> buffer result" where
  "makeSpace len b =
     (let b1 = (if writableBytes b + prependableBytes b < len + kCheapPrepend
                then b\<lparr>vec := resize (writerIndex b + len) (vec b)\<rparr> else b) in
      if kCheapPrepend < readerIndex b1
      then let readable = readableBytes b1 in
           and_then (copy_to kCheapPrepend
                       (subrange (readerIndex b1) (writerIndex b1) (vec b1)) (vec b1))
             (\<lambda>v. let b2 = \<lparr>vec = v, readerIndex = kCheapPrepend,
                            writerIndex = kCheapPrepend + readable\<rparr>
                  in check (readable = readableBytes b2) (Inr b2))
      else Inr b1)"

definition ensureWritableBytes :: "nat \<Rightarrow> buffer \<Rightarrow> buffer result" where
  "ensureWritableBytes len b =
     and_then (if writableBytes b < len then makeSpace len b else Inr b)
       (\<lambda>b'. check (writableBytes b' \<ge> len) (Inr b'))"

definition hasWritten :: "nat \<Rightarrow> buffer \<Rightarrow> buffer result" where
  "hasWritten len b =
     check (len \<le> writableBytes b) (Inr (b\<lparr>writerIndex := writerIndex b + len\<rparr>))"

definition unWrite :: "nat \<Rightarrow> buffer \<Rightarrow> buffer result" where
  "unWrite len b =
     check (len \<le> readableBytes b) (Inr (b\<lparr>writerIndex := writerIndex b - len\<rparr>))"

definition append_bytes :: "bytes \<Rightarrow> buffer \<Rightarrow> buffer result" where
  "append_bytes data b =
     and_then (ensureWritableBytes (length data) b) (\<lambda>b1.
     and_then (copy_to (beginWrite b1) data (vec b1)) (\<lambda>v.
       hasWritten (length data) (b1\<lparr>vec := v\<rparr>)))"

definition prepend :: "bytes \<Rightarrow> buffer \<Rightarrow> buffer result" where
  "prepend data b =
     check (length data \<le> prependableBytes b)
       (let r = readerIndex b - length data in
        and_then (copy_to r data (vec b)) (\<lambda>v. Inr (b\<lparr>vec := v, readerIndex := r\<rparr>)))"

definition swap_buffer :: "buffer \<Rightarrow> buffer \<Rightarrow> buffer \<times> buffer" where
  "swap_buffer this rhs = (rhs, this)"

definition shrink :: "nat \<Rightarrow> buffer \<Rightarrow> buffer result" where
  "shrink reserve b =
     and_then (ensureWritableBytes (readableBytes b + reserve) (Buffer_new kInitialSize))
       (\<lambda>other. and_then (append_bytes (toStringView b) other)
         (\<lambda>other'. Inr (fst (swap_buffer b other'))))"

text \<open>\<open>reset\<close>, marked as only for debugging, clears the vector and keeps the indices.\<close>

definition reset_buffer :: "buffer \<Rightarrow> buffer" where
  "reset_buffer b = \<lparr>vec = [], readerIndex = kCheapPrepend, writerIndex = kCheapPrepend\<rparr>"

section \<open>Reading from a descriptor\<close>

text \<open>
  The outcome of \<^verbatim>\<open>readv(2)\<close> is an argument: the error number, or the bytes that it stored, at
  most \<open>readFd_capacity\<close> of them: \<open>writableBytes\<close> in the vector and, if these are fewer than
  65536, as many again in \<open>extrabuf\<close>. The result holds the value returned and the value stored
  in \<open>savedErrno\<close>, if one is.
\<close>

datatype read_outcome = Read_error int | Read_bytes bytes

definition extrabuf_size :: nat where
  "extrabuf_size = 65536"

definition readFd_capacity :: "buffer \<Rightarrow> nat" where
  "readFd_capacity b =
     writableBytes b + (if writableBytes b < extrabuf_size then extrabuf_size else 0)"

definition readFd :: "read_outcome \<Rightarrow> buffer \<Rightarrow> (int \<times> int option \<times> buffer) result" where
  "readFd outcome b =
     (let writable = writableBytes b in
      case outcome of
        Read_error e \<Rightarrow> Inr (-1, Some e, b)
      | Read_bytes data \<Rightarrow>
          and_then (copy_to (writerIndex b) (take writable data) (vec b)) (\<lambda>v.
            let n = length data; b1 = b\<lparr>vec := v\<rparr> in
            if n \<le> writable
            then Inr (int n, None, b1\<lparr>writerIndex := writerIndex b + n\<rparr>)
            else and_then (append_bytes (drop writable data) (b1\<lparr>writerIndex := length v\<rparr>))
                   (\<lambda>b2. Inr (int n, None, b2))))"

lemmas [buffer_simps] =
  readableBytes_def writableBytes_def prependableBytes_def peek_def beginWrite_def
  kCheapPrepend_def

section \<open>The invariant\<close>

text \<open>
  \<open>buffer_inv\<close> is what every operation keeps: the indices are in order and inside the vector,
  and the vector has room for the cheap prepend area.
\<close>

definition buffer_inv :: "buffer \<Rightarrow> bool" where
  "buffer_inv b \<longleftrightarrow>
     readerIndex b \<le> writerIndex b \<and> writerIndex b \<le> length (vec b) \<and>
     kCheapPrepend \<le> length (vec b)"

lemma buffer_invD:
  assumes "buffer_inv b"
  shows buffer_inv_rw: "readerIndex b \<le> writerIndex b"
    and buffer_inv_wl: "writerIndex b \<le> length (vec b)"
    and buffer_inv_kl: "kCheapPrepend \<le> length (vec b)"
  using assms by (simp_all add: buffer_inv_def)

lemma toStringView_subrange:
  "buffer_inv b \<Longrightarrow> toStringView b = subrange (readerIndex b) (writerIndex b) (vec b)"
  by (simp add: toStringView_def subrange_def buffer_inv_def buffer_simps)

lemma length_toStringView [simp]: "buffer_inv b \<Longrightarrow> length (toStringView b) = readableBytes b"
  by (simp add: toStringView_subrange buffer_inv_def buffer_simps)

lemma buffer_inv_new [simp]: "buffer_inv (Buffer_new n)"
  by (simp add: Buffer_new_def buffer_inv_def)

lemma toStringView_new [simp]: "toStringView (Buffer_new n) = []"
  by (simp add: Buffer_new_def toStringView_def readableBytes_def)

lemma buffer_new_sizes:
  "readableBytes (Buffer_new n) = 0" "writableBytes (Buffer_new n) = n"
  "prependableBytes (Buffer_new n) = kCheapPrepend"
  by (simp_all add: Buffer_new_def readableBytes_def writableBytes_def prependableBytes_def)

section \<open>Retrieving consumes a prefix\<close>

lemma retrieveAll_correct [simp]:
  "buffer_inv b \<Longrightarrow> buffer_inv (retrieveAll b)" "toStringView (retrieveAll b) = []"
  by (simp_all add: retrieveAll_def buffer_inv_def toStringView_def readableBytes_def)

lemma retrieve_correct:
  assumes "buffer_inv b" and "len \<le> readableBytes b"
  obtains b' where "retrieve len b = Inr b'" and "buffer_inv b'"
    and "toStringView b' = drop len (toStringView b)"
proof (cases "len < readableBytes b")
  case True
  let ?b = "b\<lparr>readerIndex := readerIndex b + len\<rparr>"
  have "buffer_inv ?b" using assms True by (simp add: buffer_inv_def buffer_simps)
  moreover have "toStringView ?b = drop len (toStringView b)"
    using assms(1) calculation by (simp add: toStringView_subrange drop_subrange)
  moreover have "retrieve len b = Inr ?b" using True by (simp add: retrieve_def)
  ultimately show thesis by (intro that)
next
  case False
  with assms have "drop len (toStringView b) = []" by simp
  with False assms show thesis by (intro that [of "retrieveAll b"]) (simp_all add: retrieve_def)
qed

lemma retrieve_too_much: "readableBytes b < len \<Longrightarrow> retrieve len b = Inl Assert_failed"
  by (simp add: retrieve_def)

lemma retrieveUntil_correct:
  assumes "buffer_inv b" and "peek b \<le> p" and "p \<le> beginWrite b"
  obtains b' where "retrieveUntil p b = Inr b'" and "buffer_inv b'"
    and "toStringView b' = drop (p - peek b) (toStringView b)"
proof -
  from assms have "p - peek b \<le> readableBytes b"
    by (simp add: buffer_simps buffer_inv_def)
  with assms(1) obtain b' where "retrieve (p - peek b) b = Inr b'" and "buffer_inv b'"
    and "toStringView b' = drop (p - peek b) (toStringView b)"
    by (rule retrieve_correct)
  with assms(2,3) show thesis by (intro that) (simp_all add: retrieveUntil_def)
qed

lemma retrieveAsString_correct:
  assumes "buffer_inv b" and "len \<le> readableBytes b"
  obtains b' where "retrieveAsString len b = Inr (take len (toStringView b), b')"
    and "buffer_inv b'" and "toStringView b' = drop len (toStringView b)"
proof -
  from assms obtain b' where "retrieve len b = Inr b'" and "buffer_inv b'"
    and "toStringView b' = drop len (toStringView b)"
    by (rule retrieve_correct)
  moreover have "take len (drop (peek b) (vec b)) = take len (toStringView b)"
    using assms(2) by (simp add: toStringView_def)
  ultimately show thesis
    using assms(2) by (intro that) (simp_all add: retrieveAsString_def)
qed

lemma retrieveAllAsString_correct:
  assumes "buffer_inv b"
  obtains b' where "retrieveAllAsString b = Inr (toStringView b, b')"
    and "buffer_inv b'" and "toStringView b' = []"
proof -
  from assms obtain b' where "retrieveAsString (readableBytes b) b =
      Inr (take (readableBytes b) (toStringView b), b')" "buffer_inv b'"
    "toStringView b' = drop (readableBytes b) (toStringView b)"
    by (rule retrieveAsString_correct [OF _ order_refl])
  with assms show thesis by (intro that) (simp_all add: retrieveAllAsString_def)
qed

section \<open>Writing keeps what is there\<close>

text \<open>
  Moving the readable bytes to the front is the second half of \<open>makeSpace\<close>: it runs when the
  read index is beyond the cheap prepend area, and leaves \<open>writable + prependable - 8\<close> bytes.
\<close>

lemma move_to_front:
  assumes inv: "buffer_inv b" and r: "kCheapPrepend < readerIndex b"
    and cp: "copy_to kCheapPrepend (subrange (readerIndex b) (writerIndex b) (vec b)) (vec b) = Inr v"
  defines "b' \<equiv> \<lparr>vec = v, readerIndex = kCheapPrepend,
                   writerIndex = kCheapPrepend + readableBytes b\<rparr>"
  shows "buffer_inv b' \<and> toStringView b' = toStringView b \<and>
         writableBytes b' = writableBytes b + prependableBytes b - kCheapPrepend"
proof -
  have lv: "length v = length (vec b)" using cp by (rule length_copy_to)
  have inv': "buffer_inv b'"
    using inv r lv by (auto simp: b'_def buffer_inv_def buffer_simps)
  have ls: "length (subrange (readerIndex b) (writerIndex b) (vec b)) = readableBytes b"
    using inv by (simp add: buffer_inv_def buffer_simps)
  have "toStringView b' = subrange kCheapPrepend (kCheapPrepend + readableBytes b) v"
    using inv' by (simp add: toStringView_subrange) (simp add: b'_def)
  also have "\<dots> = toStringView b"
    using subrange_copy_to_at [OF cp] inv by (simp add: ls toStringView_subrange)
  finally show ?thesis
    using inv inv' r lv by (simp add: b'_def buffer_simps buffer_inv_def)
qed

lemma copy_to_front_defined:
  "buffer_inv b \<Longrightarrow> kCheapPrepend < readerIndex b \<Longrightarrow>
   \<exists>v. copy_to kCheapPrepend (subrange (readerIndex b) (writerIndex b) (vec b)) (vec b) = Inr v"
  by (rule copy_to_defined) (auto simp: buffer_inv_def)

lemma grow_correct:
  assumes "buffer_inv b" and "writableBytes b < len"
  defines "b' \<equiv> b\<lparr>vec := resize (writerIndex b + len) (vec b)\<rparr>"
  shows "buffer_inv b' \<and> toStringView b' = toStringView b \<and> writableBytes b' = len"
proof -
  have inv': "buffer_inv b'" using assms by (auto simp: b'_def buffer_inv_def buffer_simps)
  have "subrange (readerIndex b) (writerIndex b) (vec b') = subrange (readerIndex b) (writerIndex b) (vec b)"
    using assms(1) by (simp add: b'_def subrange_resize buffer_inv_def)
  then have "toStringView b' = toStringView b"
    using assms(1) inv' by (simp add: toStringView_subrange) (simp add: b'_def)
  then show ?thesis using inv' by (simp add: b'_def buffer_simps)
qed

lemma makeSpace_correct:
  assumes inv: "buffer_inv b" and need: "writableBytes b < len"
  obtains b' where "makeSpace len b = Inr b'" and "buffer_inv b'"
    and "toStringView b' = toStringView b" and "len \<le> writableBytes b'"
    and "len + kCheapPrepend \<le> writableBytes b + prependableBytes b \<Longrightarrow>
           length (vec b') = length (vec b)"
proof -
  define grow where "grow \<longleftrightarrow> writableBytes b + prependableBytes b < len + kCheapPrepend"
  define b1 where "b1 = (if grow then b\<lparr>vec := resize (writerIndex b + len) (vec b)\<rparr> else b)"
  have b1: "buffer_inv b1" "toStringView b1 = toStringView b"
    "grow \<Longrightarrow> writableBytes b1 = len" "\<not> grow \<Longrightarrow> b1 = b" "readerIndex b1 = readerIndex b"
    using grow_correct [OF assms] inv by (auto simp: b1_def)
  show thesis
  proof (cases "kCheapPrepend < readerIndex b1")
    case True
    then obtain v where cp: "copy_to kCheapPrepend
        (subrange (readerIndex b1) (writerIndex b1) (vec b1)) (vec b1) = Inr v"
      using copy_to_front_defined b1(1) by blast
    let ?b2 = "\<lparr>vec = v, readerIndex = kCheapPrepend,
                writerIndex = kCheapPrepend + readableBytes b1\<rparr>"
    have b2: "buffer_inv ?b2" "toStringView ?b2 = toStringView b1"
      "writableBytes ?b2 = writableBytes b1 + prependableBytes b1 - kCheapPrepend"
      using move_to_front [OF b1(1) True cp] by simp_all
    have run: "makeSpace len b = Inr ?b2"
      using True cp by (simp add: makeSpace_def Let_def flip: grow_def b1_def)
        (simp add: readableBytes_def)
    have "len \<le> writableBytes ?b2"
      using b1(3,4) b2(3) True by (cases grow) (auto simp: grow_def prependableBytes_def)
    moreover have "\<not> grow \<Longrightarrow> length v = length (vec b)"
      using length_copy_to [OF cp] b1(4) by simp
    ultimately show thesis
      using run b1(2) b2 by (intro that [of ?b2]) (simp_all add: grow_def)
  next
    case False
    then have run: "makeSpace len b = Inr b1"
      by (simp add: makeSpace_def Let_def flip: grow_def b1_def)
    have grow
      using False need b1(5) by (auto simp: grow_def prependableBytes_def)
    with run b1 show thesis by (intro that [of b1]) (simp_all add: grow_def)
  qed
qed

lemma ensureWritableBytes_correct:
  assumes "buffer_inv b"
  obtains b' where "ensureWritableBytes len b = Inr b'" and "buffer_inv b'"
    and "toStringView b' = toStringView b" and "len \<le> writableBytes b'"
proof (cases "writableBytes b < len")
  case True
  with assms obtain b' where "makeSpace len b = Inr b'" "buffer_inv b'"
    "toStringView b' = toStringView b" "len \<le> writableBytes b'"
    by (rule makeSpace_correct)
  with True show thesis by (intro that [of b']) (simp_all add: ensureWritableBytes_def)
next
  case False
  with assms show thesis by (intro that [of b]) (simp_all add: ensureWritableBytes_def)
qed

text \<open>Storing bytes at the write index and advancing it appends them to the readable bytes.\<close>

lemma store_and_advance:
  assumes inv: "buffer_inv b" and cp: "copy_to (writerIndex b) data (vec b) = Inr v"
  defines "b' \<equiv> b\<lparr>vec := v, writerIndex := writerIndex b + length data\<rparr>"
  shows "buffer_inv b' \<and> toStringView b' = toStringView b @ data"
proof -
  have lv: "length v = length (vec b)" using cp by (rule length_copy_to)
  have fits: "writerIndex b + length data \<le> length (vec b)"
    using cp by (auto simp: copy_to_def split: if_splits)
  have inv': "buffer_inv b'" using inv fits lv by (simp add: b'_def buffer_inv_def)
  have "toStringView b' = subrange (readerIndex b) (writerIndex b + length data) v"
    using inv' by (simp add: toStringView_subrange) (simp add: b'_def)
  also have "\<dots> = subrange (readerIndex b) (writerIndex b) v
               @ subrange (writerIndex b) (writerIndex b + length data) v"
    using inv by (simp add: subrange_append buffer_inv_def)
  also have "\<dots> = toStringView b @ data"
    using inv subrange_copy_to_at [OF cp] subrange_copy_to_before [OF cp order_refl]
    by (simp add: toStringView_subrange)
  finally show ?thesis using inv' by simp
qed

lemma append_bytes_correct:
  assumes "buffer_inv b"
  obtains b' where "append_bytes data b = Inr b'" and "buffer_inv b'"
    and "toStringView b' = toStringView b @ data"
proof -
  from assms obtain b1 where b1: "ensureWritableBytes (length data) b = Inr b1" "buffer_inv b1"
    "toStringView b1 = toStringView b" "length data \<le> writableBytes b1"
    by (rule ensureWritableBytes_correct)
  from b1(2,4) have "writerIndex b1 + length data \<le> length (vec b1)"
    by (auto simp: buffer_inv_def buffer_simps)
  then obtain v where cp: "copy_to (writerIndex b1) data (vec b1) = Inr v"
    using copy_to_defined by blast
  let ?b = "b1\<lparr>vec := v, writerIndex := writerIndex b1 + length data\<rparr>"
  have "append_bytes data b = Inr ?b"
    using b1(1,4) cp length_copy_to [OF cp]
    by (simp add: append_bytes_def hasWritten_def beginWrite_def writableBytes_def)
  with store_and_advance [OF b1(2) cp] b1(3) show thesis by (intro that [of ?b]) simp_all
qed

lemma prepend_correct:
  assumes inv: "buffer_inv b" and len: "length data \<le> prependableBytes b"
  obtains b' where "prepend data b = Inr b'" and "buffer_inv b'"
    and "toStringView b' = data @ toStringView b"
proof -
  let ?r = "readerIndex b - length data"
  from inv len have "?r + length data \<le> length (vec b)"
    by (auto simp: buffer_inv_def buffer_simps)
  then obtain v where cp: "copy_to ?r data (vec b) = Inr v"
    using copy_to_defined by blast
  let ?b = "b\<lparr>vec := v, readerIndex := ?r\<rparr>"
  have r: "?r + length data = readerIndex b" using len by (simp add: prependableBytes_def)
  have inv': "buffer_inv ?b" using inv length_copy_to [OF cp] by (auto simp: buffer_inv_def)
  have "toStringView ?b = subrange ?r (readerIndex b) v @ subrange (readerIndex b) (writerIndex b) v"
    using inv inv' by (simp add: toStringView_subrange subrange_append buffer_inv_def)
  also have "\<dots> = data @ toStringView b"
    using subrange_copy_to_at [OF cp] subrange_copy_to_after [OF cp, of "readerIndex b"] inv
    by (simp add: r toStringView_subrange)
  finally show thesis
    using inv' cp len by (intro that [of ?b]) (simp_all add: prepend_def Let_def)
qed

lemma shrink_correct:
  assumes "buffer_inv b"
  obtains b' where "shrink reserve b = Inr b'" and "buffer_inv b'"
    and "toStringView b' = toStringView b"
proof -
  obtain o1 where o1: "ensureWritableBytes (readableBytes b + reserve) (Buffer_new kInitialSize)
      = Inr o1" "buffer_inv o1" "toStringView o1 = []"
    using ensureWritableBytes_correct [OF buffer_inv_new] toStringView_new by metis
  from o1(2) obtain b' where "append_bytes (toStringView b) o1 = Inr b'" "buffer_inv b'"
    "toStringView b' = toStringView o1 @ toStringView b"
    by (rule append_bytes_correct)
  with o1 show thesis by (intro that [of b']) (simp_all add: shrink_def swap_buffer_def)
qed

lemma hasWritten_inv:
  "buffer_inv b \<Longrightarrow> hasWritten len b = Inr b' \<Longrightarrow> buffer_inv b'"
  by (auto simp: hasWritten_def buffer_inv_def buffer_simps)

lemma unWrite_correct:
  assumes "buffer_inv b" and "len \<le> readableBytes b"
  obtains b' where "unWrite len b = Inr b'" and "buffer_inv b'"
    and "toStringView b' = take (readableBytes b - len) (toStringView b)"
proof -
  let ?b = "b\<lparr>writerIndex := writerIndex b - len\<rparr>"
  have inv': "buffer_inv ?b" using assms by (auto simp: buffer_inv_def buffer_simps)
  have "readerIndex b + (readableBytes b - len) = writerIndex b - len"
    using assms by (auto simp: buffer_inv_def buffer_simps)
  then have "toStringView ?b = take (readableBytes b - len) (toStringView b)"
    using assms(1) inv' by (simp add: toStringView_subrange take_subrange)
  with inv' assms(2) show thesis by (intro that [of ?b]) (simp_all add: unWrite_def)
qed

lemma readFd_bytes_correct:
  assumes inv: "buffer_inv b"
  obtains b' where "readFd (Read_bytes data) b = Inr (int (length data), None, b')"
    and "buffer_inv b'" and "toStringView b' = toStringView b @ data"
proof -
  let ?w = "writableBytes b"
  have w: "writerIndex b + ?w = length (vec b)" using inv by (simp add: buffer_inv_def buffer_simps)
  then have "writerIndex b + length (take ?w data) \<le> length (vec b)" by simp
  then obtain v where cp: "copy_to (writerIndex b) (take ?w data) (vec b) = Inr v"
    using copy_to_defined by blast
  let ?b = "b\<lparr>vec := v, writerIndex := writerIndex b + length (take ?w data)\<rparr>"
  have b: "buffer_inv ?b" "toStringView ?b = toStringView b @ take ?w data"
    using store_and_advance [OF inv cp] by simp_all
  show thesis
  proof (cases "length data \<le> ?w")
    case True
    with cp b show thesis by (intro that [of ?b]) (simp_all add: readFd_def Let_def)
  next
    case False
    from b(1) obtain b' where b': "append_bytes (drop ?w data) ?b = Inr b'" "buffer_inv b'"
      "toStringView b' = toStringView ?b @ drop ?w data"
      by (rule append_bytes_correct)
    moreover have "?b = b\<lparr>vec := v, writerIndex := length v\<rparr>"
      using False w length_copy_to [OF cp] by simp
    ultimately show thesis
      using False cp b(2) by (intro that [of b']) (simp_all add: readFd_def Let_def)
  qed
qed

section \<open>Searching the readable bytes\<close>

lemma start_in_view:
  assumes "buffer_inv b" and "peek b \<le> p" and "p \<le> beginWrite b"
  shows "subrange p (beginWrite b) (vec b) = drop (p - peek b) (toStringView b)"
  using assms by (simp add: toStringView_subrange drop_subrange peek_def beginWrite_def)

lemma findCRLF_view:
  assumes inv: "buffer_inv b"
  shows "findCRLF None b = Inr (map_option ((+) (peek b)) (memmem (toStringView b) kCRLF))"
proof -
  have le: "peek b \<le> beginWrite b" using inv by (simp add: buffer_inv_def buffer_simps)
  have view: "subrange (peek b) (beginWrite b) (vec b) = toStringView b"
    using start_in_view [OF inv order_refl le] by simp
  have "peek b + k < beginWrite b" if "memmem (toStringView b) kCRLF = Some k" for k
    using memmem_Some [OF that] inv
    by (auto simp: kCRLF_def readableBytes_def beginWrite_def peek_def buffer_inv_def)
  then show ?thesis
    using le view by (cases "memmem (toStringView b) kCRLF") (auto simp: findCRLF_def Let_def)
qed

lemma findEOL_view:
  assumes inv: "buffer_inv b"
  shows "findEOL None b = Inr (map_option ((+) (peek b)) (memchr (toStringView b) (CHR 0x0A)))"
proof -
  have le: "peek b \<le> beginWrite b" using inv by (simp add: buffer_inv_def buffer_simps)
  then show ?thesis
    using start_in_view [OF inv order_refl le] by (simp add: findEOL_def)
qed

section \<open>The interface of a byte queue\<close>

text \<open>
  What the clients of the buffer use: bytes are added at the end and removed at the front, and
  removing more than there is fails the assertion. \<open>run_queue\<close> performs a sequence of both.
\<close>

datatype queue_op = Put bytes | Get nat

fun run_queue ::
  "(bytes \<Rightarrow> 'q \<Rightarrow> 'q result) \<Rightarrow> (nat \<Rightarrow> 'q \<Rightarrow> 'q result) \<Rightarrow> queue_op list \<Rightarrow> 'q \<Rightarrow> 'q result"
where
  "run_queue put get [] q = Inr q"
| "run_queue put get (Put d # ops) q = and_then (put d q) (run_queue put get ops)"
| "run_queue put get (Get n # ops) q = and_then (get n q) (run_queue put get ops)"

fun spec_queue :: "queue_op list \<Rightarrow> bytes \<Rightarrow> bytes result" where
  "spec_queue [] xs = Inr xs"
| "spec_queue (Put d # ops) xs = spec_queue ops (xs @ d)"
| "spec_queue (Get n # ops) xs = check (n \<le> length xs) (spec_queue ops (drop n xs))"

locale byte_queue =
  fixes inv :: "'q \<Rightarrow> bool"
    and content :: "'q \<Rightarrow> bytes"
    and put :: "bytes \<Rightarrow> 'q \<Rightarrow> 'q result"
    and get :: "nat \<Rightarrow> 'q \<Rightarrow> 'q result"
  assumes put_ok: "inv q \<Longrightarrow> \<exists>q'. put d q = Inr q' \<and> inv q' \<and> content q' = content q @ d"
    and get_ok: "inv q \<Longrightarrow> n \<le> length (content q) \<Longrightarrow>
      \<exists>q'. get n q = Inr q' \<and> inv q' \<and> content q' = drop n (content q)"
    and get_fail: "inv q \<Longrightarrow> length (content q) < n \<Longrightarrow> get n q = Inl Assert_failed"
begin

lemma put_then_get_all:
  assumes "inv q" and "content q = []"
  obtains q1 q2 where "put d q = Inr q1" and "content q1 = d"
    and "get (length d) q1 = Inr q2" and "inv q2" and "content q2 = []"
proof -
  obtain q1 where q1: "put d q = Inr q1" "inv q1" "content q1 = d"
    using put_ok [OF assms(1)] assms(2) by force
  moreover from this obtain q2 where "get (length d) q1 = Inr q2" "inv q2" "content q2 = []"
    using get_ok [of q1 "length d"] by auto
  ultimately show thesis by (intro that)
qed

lemma run_queue_refines:
  "inv q \<Longrightarrow> map_sum id content (run_queue put get ops q) = spec_queue ops (content q)"
proof (induction ops arbitrary: q)
  case Nil
  then show ?case by simp
next
  case (Cons op ops)
  show ?case
  proof (cases op)
    case (Put d)
    obtain q' where "put d q = Inr q'" "inv q'" "content q' = content q @ d"
      using put_ok [OF Cons.prems] by blast
    with Put Cons.IH [of q'] show ?thesis by simp
  next
    case (Get n)
    show ?thesis
    proof (cases "n \<le> length (content q)")
      case True
      then obtain q' where "get n q = Inr q'" "inv q'" "content q' = drop n (content q)"
        using get_ok [OF Cons.prems] by blast
      with Get True Cons.IH [of q'] show ?thesis by simp
    next
      case False
      with Get get_fail [OF Cons.prems] show ?thesis by simp
    qed
  qed
qed

end

interpretation bq: byte_queue buffer_inv toStringView append_bytes retrieve
proof unfold_locales
  fix q d n
  assume inv: "buffer_inv q"
  show "\<exists>q'. append_bytes d q = Inr q' \<and> buffer_inv q' \<and> toStringView q' = toStringView q @ d"
    using append_bytes_correct [OF inv] by metis
  show "\<exists>q'. retrieve n q = Inr q' \<and> buffer_inv q' \<and> toStringView q' = drop n (toStringView q)"
    if "n \<le> length (toStringView q)"
    using retrieve_correct [OF inv] that inv by (metis length_toStringView)
  show "retrieve n q = Inl Assert_failed" if "length (toStringView q) < n"
    using retrieve_too_much that inv by simp
qed

section \<open>A run of the public operations\<close>

text \<open>
  Every operation that changes a buffer, and what it does to the bytes to be read. \<open>Op_readFd\<close> is
  a \<^verbatim>\<open>readv\<close> that delivers the given bytes.
\<close>

datatype buffer_op =
    Op_append bytes
  | Op_prepend bytes
  | Op_retrieve nat
  | Op_retrieveAll
  | Op_ensure nat
  | Op_unWrite nat
  | Op_shrink nat
  | Op_readFd bytes

fun buffer_step :: "buffer_op \<Rightarrow> buffer \<Rightarrow> buffer result" where
  "buffer_step (Op_append d) b = append_bytes d b"
| "buffer_step (Op_prepend d) b = prepend d b"
| "buffer_step (Op_retrieve n) b = retrieve n b"
| "buffer_step Op_retrieveAll b = Inr (retrieveAll b)"
| "buffer_step (Op_ensure n) b = ensureWritableBytes n b"
| "buffer_step (Op_unWrite n) b = unWrite n b"
| "buffer_step (Op_shrink n) b = shrink n b"
| "buffer_step (Op_readFd d) b = map_sum id (\<lambda>(n, err, b'). b') (readFd (Read_bytes d) b)"

fun buffer_run :: "buffer_op list \<Rightarrow> buffer \<Rightarrow> buffer result" where
  "buffer_run [] b = Inr b"
| "buffer_run (op # ops) b = and_then (buffer_step op b) (buffer_run ops)"

fun view_step :: "buffer_op \<Rightarrow> bytes \<Rightarrow> bytes" where
  "view_step (Op_append d) s = s @ d"
| "view_step (Op_prepend d) s = d @ s"
| "view_step (Op_retrieve n) s = drop n s"
| "view_step Op_retrieveAll s = []"
| "view_step (Op_ensure n) s = s"
| "view_step (Op_unWrite n) s = take (length s - n) s"
| "view_step (Op_shrink n) s = s"
| "view_step (Op_readFd d) s = s @ d"

text \<open>The verdict on one operation: it may fail its assertion, it never leaves the vector.\<close>

definition buffer_sound :: "bytes \<Rightarrow> buffer result \<Rightarrow> bool" where
  "buffer_sound s r = (case r of Inl e \<Rightarrow> e = Assert_failed
     | Inr b \<Rightarrow> buffer_inv b \<and> toStringView b = s)"

lemma buffer_sound_simps [simp]:
  "buffer_sound s (Inl e) \<longleftrightarrow> e = Assert_failed"
  "buffer_sound s (Inr b) \<longleftrightarrow> buffer_inv b \<and> toStringView b = s"
  by (simp_all add: buffer_sound_def)

lemma buffer_step_sound:
  assumes inv: "buffer_inv b"
  shows "buffer_sound (view_step op (toStringView b)) (buffer_step op b)"
proof (cases op)
  case (Op_append d)
  then show ?thesis using append_bytes_correct [OF inv, of d] by force
next
  case (Op_prepend d)
  then show ?thesis using prepend_correct [OF inv, of d]
    by (cases "length d \<le> prependableBytes b") (force, simp add: prepend_def check_def)
next
  case (Op_retrieve n)
  then show ?thesis using retrieve_correct [OF inv, of n]
    by (cases "n \<le> readableBytes b") (force, simp add: retrieve_def check_def)
next
  case Op_retrieveAll
  with inv show ?thesis by simp
next
  case (Op_ensure n)
  then show ?thesis using ensureWritableBytes_correct [OF inv, of n] by force
next
  case (Op_unWrite n)
  show ?thesis
  proof (cases "n \<le> readableBytes b")
    case True
    then obtain b' where "unWrite n b = Inr b'" "buffer_inv b'"
      "toStringView b' = take (readableBytes b - n) (toStringView b)"
      by (rule unWrite_correct [OF inv])
    with Op_unWrite inv show ?thesis by simp
  qed (simp add: Op_unWrite unWrite_def check_def)
next
  case (Op_shrink n)
  obtain b' where "shrink n b = Inr b'" "buffer_inv b'" "toStringView b' = toStringView b"
    by (rule shrink_correct [OF inv])
  with Op_shrink show ?thesis by simp
next
  case (Op_readFd d)
  obtain b' where "readFd (Read_bytes d) b = Inr (int (length d), None, b')"
    "buffer_inv b'" "toStringView b' = toStringView b @ d"
    by (rule readFd_bytes_correct [OF inv])
  with Op_readFd show ?thesis by simp
qed

interpretation br: sequential buffer_step buffer_run
  by unfold_locales simp_all

section \<open>Properties\<close>

text \<open>
  A sequence of appends and retrieves on a new buffer of any size behaves as the same sequence
  on a byte string: same outcome, an assertion failure for a retrieve of more than there is, same
  bytes. Growing, moving data to the front and resetting the indices are not observable.
\<close>

theorem buffer_is_byte_queue:
  "map_sum id toStringView (run_queue append_bytes retrieve ops (Buffer_new n)) = spec_queue ops []"
  using bq.run_queue_refines [OF buffer_inv_new, of ops n] by simp



text \<open>
  \<open>makeSpace\<close> never loses or changes a readable byte and makes the room that was asked for; when
  the room is there in front of and behind the data, it moves the data and does not grow the vector.
\<close>

theorem makeSpace_makes_room:
  assumes "buffer_inv b" and "writableBytes b < len"
  shows "\<exists>b'. makeSpace len b = Inr b' \<and> buffer_inv b' \<and> toStringView b' = toStringView b \<and>
     len \<le> writableBytes b' \<and>
     (len + kCheapPrepend \<le> writableBytes b + prependableBytes b \<longrightarrow> length (vec b') = length (vec b))"
  using makeSpace_correct [OF assms] by metis

theorem makeSpace_makes_room_witness:
  "\<exists>b'. makeSpace 3 \<lparr>vec = replicate 20 (CHR 0x01), readerIndex = 16, writerIndex = 18\<rparr> = Inr b' \<and>
     length (vec b') = 20"
proof -
  let ?b = "\<lparr>vec = replicate 20 (CHR 0x01), readerIndex = 16, writerIndex = 18\<rparr>"
  have "buffer_inv ?b" by (simp add: buffer_inv_def kCheapPrepend_def)
  moreover have "writableBytes ?b < 3" by (simp add: writableBytes_def)
  ultimately obtain b' where "makeSpace 3 ?b = Inr b'"
    "3 + kCheapPrepend \<le> writableBytes ?b + prependableBytes ?b \<longrightarrow> length (vec b') = length (vec ?b)"
    using makeSpace_makes_room [of ?b 3] by blast
  then show ?thesis by (simp add: buffer_simps)
qed

text \<open>
  \<open>readFd\<close> adds exactly the bytes that \<^verbatim>\<open>readv\<close> delivered, wherever they were stored (in the
  vector, or partly in the extra buffer on the stack), and returns their number; a failing
  \<^verbatim>\<open>readv\<close> leaves the buffer as it is and saves the error number.
\<close>

theorem readFd_appends:
  assumes "buffer_inv b"
  shows "(\<exists>b'. readFd (Read_bytes data) b = Inr (int (length data), None, b') \<and> buffer_inv b' \<and>
            toStringView b' = toStringView b @ data) \<and>
         readFd (Read_error e) b = Inr (-1, Some e, b)"
  using readFd_bytes_correct [OF assms, of data] by (auto simp: readFd_def)

theorem readFd_appends_witness:
  "\<exists>b'. readFd (Read_bytes ''hello'') (Buffer_new 2) = Inr (5, None, b') \<and>
     toStringView b' = ''hello''"
  using readFd_appends [OF buffer_inv_new, of "''hello''" 2] by auto

text \<open>
  \<open>reset\<close>, meant for debugging only, leaves a buffer whose free space is computed as almost
  \<open>2 ^ 64\<close> bytes, so that the next append of anything writes outside the vector.
\<close>

theorem append_after_reset_out_of_bounds:
  assumes "data \<noteq> []" and "length data < 2 ^ 63"
  shows "append_bytes data (reset_buffer b) = Inl Out_of_bounds"
proof -
  let ?r = "reset_buffer b"
  have w: "writableBytes ?r = 2 ^ 64 - 8"
    by (simp add: reset_buffer_def writableBytes_def size_sub_def kCheapPrepend_def)
  have "length data \<le> writableBytes ?r" using assms(2) unfolding w by simp
  then have "ensureWritableBytes (length data) ?r = Inr ?r"
    by (simp add: ensureWritableBytes_def)
  moreover have "copy_to (beginWrite ?r) data (vec ?r) = Inl Out_of_bounds"
    using assms(1) by (simp add: copy_to_def reset_buffer_def beginWrite_def kCheapPrepend_def)
  ultimately show ?thesis by (simp add: append_bytes_def)
qed

theorem append_after_reset_out_of_bounds_witness:
  "append_bytes ''a'' (reset_buffer (Buffer_new 16)) = Inl Out_of_bounds"
  by (rule append_after_reset_out_of_bounds) simp_all

end
