(* ===== verification/Endian.thy ===== *)
theory Endian
  imports Prelude
begin

text \<open>
  Byte order: the representation of an unsigned integer in the memory of a little-endian machine,
  and the conversions \<^verbatim>\<open>hostToNetwork*\<close> and \<^verbatim>\<open>networkToHost*\<close> of
  \<^verbatim>\<open>include/gg_lib/net/SocketsHelper.h\<close>, which reverse it (\<^verbatim>\<open>htobe64\<close> and its kin on such a
  machine). An \<^verbatim>\<open>int64_t\<close> and a \<^verbatim>\<open>uint64_t\<close> are both a \<^typ>\<open>64 word\<close>.
\<close>

section \<open>Integers in memory\<close>

fun le_bytes :: "nat \<Rightarrow> nat \<Rightarrow> bytes" where
  "le_bytes 0 v = []"
| "le_bytes (Suc k) v = char_of (v mod 256) # le_bytes k (v div 256)"

fun le_value :: "bytes \<Rightarrow> nat" where
  "le_value [] = 0"
| "le_value (c # cs) = of_char c + 256 * le_value cs"

definition object_bytes :: "'a::len word \<Rightarrow> bytes" where
  "object_bytes w = le_bytes (LENGTH('a) div 8) (unat w)"

definition bytes_object :: "bytes \<Rightarrow> 'a::len word" where
  "bytes_object bs = of_nat (le_value bs)"

definition byteswap :: "'a::len word \<Rightarrow> 'a word" where
  "byteswap w = bytes_object (rev (object_bytes w))"

definition hostToNetwork64 :: "64 word \<Rightarrow> 64 word" where
  "hostToNetwork64 host = byteswap host"

definition hostToNetwork32 :: "32 word \<Rightarrow> 32 word" where
  "hostToNetwork32 host = byteswap host"

definition hostToNetwork16 :: "16 word \<Rightarrow> 16 word" where
  "hostToNetwork16 host = byteswap host"

definition networkToHost64 :: "64 word \<Rightarrow> 64 word" where
  "networkToHost64 net = byteswap net"

definition networkToHost32 :: "32 word \<Rightarrow> 32 word" where
  "networkToHost32 net = byteswap net"

definition networkToHost16 :: "16 word \<Rightarrow> 16 word" where
  "networkToHost16 net = byteswap net"

section \<open>Encoding and decoding are inverse\<close>

lemma length_le_bytes [simp]: "length (le_bytes k v) = k"
  by (induction k arbitrary: v) auto

lemma le_value_bound: "le_value bs < 256 ^ length bs"
proof (induction bs)
  case Nil
  then show ?case by simp
next
  case (Cons c cs)
  have step: "u + 256 * a < 256 * b" if "a < b" "u < 256" for u a b :: nat
    using that by linarith
  show ?case using step [OF Cons, of "of_char c"] by simp
qed

lemma le_value_le_bytes: "le_value (le_bytes k v) = v mod 256 ^ k"
proof (induction k arbitrary: v)
  case 0
  then show ?case by simp
next
  case (Suc k)
  have "v mod (256 * 256 ^ k) = v mod 256 + 256 * (v div 256 mod 256 ^ k)"
    by (simp add: mod_mult2_eq)
  with Suc show ?case by simp
qed

lemma le_bytes_le_value: "le_bytes (length bs) (le_value bs) = bs"
proof (induction bs)
  case Nil
  then show ?case by simp
next
  case (Cons c cs)
  have c: "(of_char c :: nat) < 256" by simp
  then have "(of_char c + 256 * le_value cs) div 256 = le_value cs"
    and "(of_char c + 256 * le_value cs) mod 256 = (of_char c :: nat)"
    by simp_all
  with Cons show ?case by simp
qed

lemma length_object_bytes [simp]: "length (object_bytes (w :: 'a::len word)) = LENGTH('a) div 8"
  by (simp add: object_bytes_def)

lemma power_256_octets: "8 dvd LENGTH('a::len) \<Longrightarrow> (256::nat) ^ (LENGTH('a) div 8) = 2 ^ LENGTH('a)"
proof -
  assume "8 dvd LENGTH('a)"
  then obtain k where k: "LENGTH('a) = 8 * k" by (rule dvdE)
  then show ?thesis by (simp add: power_mult)
qed

lemma bytes_object_bytes:
  "8 dvd LENGTH('a) \<Longrightarrow> bytes_object (object_bytes w) = (w :: 'a::len word)"
  by (simp add: bytes_object_def object_bytes_def le_value_le_bytes power_256_octets)

lemma object_bytes_object:
  assumes "8 dvd LENGTH('a)" and "length bs = LENGTH('a) div 8"
  shows "object_bytes (bytes_object bs :: 'a::len word) = bs"
proof -
  have "le_value bs < 2 ^ LENGTH('a)"
    using le_value_bound [of bs] assms power_256_octets [where 'a='a] by simp
  then have "unat (of_nat (le_value bs) :: 'a word) = le_value bs"
    by (simp add: unat_of_nat)
  then show ?thesis
    using le_bytes_le_value [of bs] assms(2) by (simp add: object_bytes_def bytes_object_def)
qed

lemma object_bytes_byteswap:
  "8 dvd LENGTH('a) \<Longrightarrow> object_bytes (byteswap w :: 'a::len word) = rev (object_bytes w)"
  by (simp add: byteswap_def object_bytes_object)

lemma byteswap_byteswap: "8 dvd LENGTH('a) \<Longrightarrow> byteswap (byteswap w) = (w :: 'a::len word)"
  by (simp add: byteswap_def [of "byteswap w"] object_bytes_byteswap bytes_object_bytes)

lemma byteswap_bytes_object:
  "8 dvd LENGTH('a) \<Longrightarrow> length bs = LENGTH('a) div 8 \<Longrightarrow>
   byteswap (bytes_object bs :: 'a::len word) = bytes_object (rev bs)"
  by (simp add: byteswap_def object_bytes_object)

lemmas network_defs =
  hostToNetwork64_def hostToNetwork32_def hostToNetwork16_def
  networkToHost64_def networkToHost32_def networkToHost16_def

end
