(* ===== verification/BufferInts.thy ===== *)
theory BufferInts
  imports Buffer Endian
begin

text \<open>
  The integers that \<^verbatim>\<open>Buffer\<close> stores and loads in network byte order: \<^verbatim>\<open>appendInt*\<close>,
  \<^verbatim>\<open>prependInt*\<close>, \<^verbatim>\<open>peekInt*\<close>, \<^verbatim>\<open>retrieveInt*\<close> and \<^verbatim>\<open>readInt*\<close> of
  \<^verbatim>\<open>include/gg_lib/net/Buffer.h\<close>, at their four widths.
\<close>

section \<open>Operations\<close>

definition appendInt64 :: "64 word \<Rightarrow> buffer \<Rightarrow> buffer result" where
  "appendInt64 x b = (let be64 = hostToNetwork64 x in append_bytes (object_bytes be64) b)"

definition appendInt32 :: "32 word \<Rightarrow> buffer \<Rightarrow> buffer result" where
  "appendInt32 x b = (let be32 = hostToNetwork32 x in append_bytes (object_bytes be32) b)"

definition appendInt16 :: "16 word \<Rightarrow> buffer \<Rightarrow> buffer result" where
  "appendInt16 x b = (let be16 = hostToNetwork16 x in append_bytes (object_bytes be16) b)"

definition appendInt8 :: "8 word \<Rightarrow> buffer \<Rightarrow> buffer result" where
  "appendInt8 x b = append_bytes (object_bytes x) b"

definition peekInt64 :: "buffer \<Rightarrow> 64 word result" where
  "peekInt64 b =
     check (readableBytes b \<ge> 8)
       (let be64 = bytes_object (take 8 (drop (peek b) (vec b))) in Inr (networkToHost64 be64))"

definition peekInt32 :: "buffer \<Rightarrow> 32 word result" where
  "peekInt32 b =
     check (readableBytes b \<ge> 4)
       (let be32 = bytes_object (take 4 (drop (peek b) (vec b))) in Inr (networkToHost32 be32))"

definition peekInt16 :: "buffer \<Rightarrow> 16 word result" where
  "peekInt16 b =
     check (readableBytes b \<ge> 2)
       (let be16 = bytes_object (take 2 (drop (peek b) (vec b))) in Inr (networkToHost16 be16))"

definition peekInt8 :: "buffer \<Rightarrow> 8 word result" where
  "peekInt8 b =
     check (readableBytes b \<ge> 1)
       (let x = bytes_object (take 1 (drop (peek b) (vec b))) in Inr x)"

definition retrieveInt64 :: "buffer \<Rightarrow> buffer result" where
  "retrieveInt64 b = retrieve 8 b"

definition retrieveInt32 :: "buffer \<Rightarrow> buffer result" where
  "retrieveInt32 b = retrieve 4 b"

definition retrieveInt16 :: "buffer \<Rightarrow> buffer result" where
  "retrieveInt16 b = retrieve 2 b"

definition retrieveInt8 :: "buffer \<Rightarrow> buffer result" where
  "retrieveInt8 b = retrieve 1 b"

definition readInt64 :: "buffer \<Rightarrow> (64 word \<times> buffer) result" where
  "readInt64 b = and_then (peekInt64 b) (\<lambda>r. and_then (retrieveInt64 b) (\<lambda>b'. Inr (r, b')))"

definition readInt32 :: "buffer \<Rightarrow> (32 word \<times> buffer) result" where
  "readInt32 b = and_then (peekInt32 b) (\<lambda>r. and_then (retrieveInt32 b) (\<lambda>b'. Inr (r, b')))"

definition readInt16 :: "buffer \<Rightarrow> (16 word \<times> buffer) result" where
  "readInt16 b = and_then (peekInt16 b) (\<lambda>r. and_then (retrieveInt16 b) (\<lambda>b'. Inr (r, b')))"

definition readInt8 :: "buffer \<Rightarrow> (8 word \<times> buffer) result" where
  "readInt8 b = and_then (peekInt8 b) (\<lambda>r. and_then (retrieveInt8 b) (\<lambda>b'. Inr (r, b')))"

definition prependInt64 :: "64 word \<Rightarrow> buffer \<Rightarrow> buffer result" where
  "prependInt64 x b = (let be64 = hostToNetwork64 x in prepend (object_bytes be64) b)"

definition prependInt32 :: "32 word \<Rightarrow> buffer \<Rightarrow> buffer result" where
  "prependInt32 x b = (let be32 = hostToNetwork32 x in prepend (object_bytes be32) b)"

definition prependInt16 :: "16 word \<Rightarrow> buffer \<Rightarrow> buffer result" where
  "prependInt16 x b = (let be16 = hostToNetwork16 x in prepend (object_bytes be16) b)"

definition prependInt8 :: "8 word \<Rightarrow> buffer \<Rightarrow> buffer result" where
  "prependInt8 x b = prepend (object_bytes x) b"

section \<open>The bytes on the wire\<close>

text \<open>
  A value of one of the four types, the width it has, and its bytes in network order: those of
  memory, reversed.
\<close>

datatype net_int = Int64 "64 word" | Int32 "32 word" | Int16 "16 word" | Int8 "8 word"

datatype net_width = Width64 | Width32 | Width16 | Width8

fun width_of :: "net_int \<Rightarrow> net_width" where
  "width_of (Int64 x) = Width64"
| "width_of (Int32 x) = Width32"
| "width_of (Int16 x) = Width16"
| "width_of (Int8 x) = Width8"

fun wire_bytes :: "net_int \<Rightarrow> bytes" where
  "wire_bytes (Int64 x) = rev (object_bytes x)"
| "wire_bytes (Int32 x) = rev (object_bytes x)"
| "wire_bytes (Int16 x) = rev (object_bytes x)"
| "wire_bytes (Int8 x) = rev (object_bytes x)"

fun append_int :: "net_int \<Rightarrow> buffer \<Rightarrow> buffer result" where
  "append_int (Int64 x) b = appendInt64 x b"
| "append_int (Int32 x) b = appendInt32 x b"
| "append_int (Int16 x) b = appendInt16 x b"
| "append_int (Int8 x) b = appendInt8 x b"

fun prepend_int :: "net_int \<Rightarrow> buffer \<Rightarrow> buffer result" where
  "prepend_int (Int64 x) b = prependInt64 x b"
| "prepend_int (Int32 x) b = prependInt32 x b"
| "prepend_int (Int16 x) b = prependInt16 x b"
| "prepend_int (Int8 x) b = prependInt8 x b"

fun read_int :: "net_width \<Rightarrow> buffer \<Rightarrow> (net_int \<times> buffer) result" where
  "read_int Width64 b = map_sum id (map_prod Int64 id) (readInt64 b)"
| "read_int Width32 b = map_sum id (map_prod Int32 id) (readInt32 b)"
| "read_int Width16 b = map_sum id (map_prod Int16 id) (readInt16 b)"
| "read_int Width8 b = map_sum id (map_prod Int8 id) (readInt8 b)"

fun append_ints :: "net_int list \<Rightarrow> buffer \<Rightarrow> buffer result" where
  "append_ints [] b = Inr b"
| "append_ints (v # vs) b = and_then (append_int v b) (append_ints vs)"

fun read_ints :: "net_width list \<Rightarrow> buffer \<Rightarrow> (net_int list \<times> buffer) result" where
  "read_ints [] b = Inr ([], b)"
| "read_ints (w # ws) b =
     and_then (read_int w b) (\<lambda>(v, b1). and_then (read_ints ws b1) (\<lambda>(vs, b2). Inr (v # vs, b2)))"

lemma rev_object_bytes8: "rev (object_bytes (x :: 8 word)) = object_bytes x"
  by (simp add: object_bytes_def)

lemma append_int_wire: "append_int v b = append_bytes (wire_bytes v) b"
  by (cases v) (simp_all add: appendInt64_def appendInt32_def appendInt16_def appendInt8_def
      network_defs object_bytes_byteswap rev_object_bytes8 Let_def)

lemma prepend_int_wire: "prepend_int v b = prepend (wire_bytes v) b"
  by (cases v) (simp_all add: prependInt64_def prependInt32_def prependInt16_def prependInt8_def
      network_defs object_bytes_byteswap rev_object_bytes8 Let_def)

section \<open>Reading back\<close>

text \<open>The bytes at the read position, for a buffer whose readable bytes start with \<open>bs\<close>.\<close>

lemma front_bytes:
  assumes "buffer_inv b" and "toStringView b = bs @ rest"
  shows "take (length bs) (drop (peek b) (vec b)) = bs" and "length bs \<le> readableBytes b"
proof -
  show le: "length bs \<le> readableBytes b"
    using assms by (metis le_add1 length_append length_toStringView)
  have "take (length bs) (drop (peek b) (vec b)) = take (length bs) (toStringView b)"
    using le by (simp add: toStringView_def)
  then show "take (length bs) (drop (peek b) (vec b)) = bs" by (simp add: assms(2))
qed

lemma bytes_object_wire:
  "byteswap (bytes_object (wire_bytes (Int64 x))) = x"
  "byteswap (bytes_object (wire_bytes (Int32 y))) = y"
  "byteswap (bytes_object (wire_bytes (Int16 z))) = z"
  "bytes_object (wire_bytes (Int8 u)) = u"
  by (simp_all add: byteswap_bytes_object bytes_object_bytes rev_object_bytes8)

lemma read_int_peek:
  assumes "buffer_inv b" and "toStringView b = wire_bytes v @ rest"
    and "retrieve (length (wire_bytes v)) b = Inr b'"
  shows "read_int (width_of v) b = Inr (v, b')"
proof -
  note front = front_bytes [OF assms(1,2)]
  show ?thesis
    using front assms(3) bytes_object_wire
    by (cases v) (simp_all add: readInt64_def readInt32_def readInt16_def readInt8_def
        peekInt64_def peekInt32_def peekInt16_def peekInt8_def network_defs
        retrieveInt64_def retrieveInt32_def retrieveInt16_def retrieveInt8_def)
qed

lemma read_int_correct:
  assumes "buffer_inv b" and "toStringView b = wire_bytes v @ rest"
  obtains b' where "read_int (width_of v) b = Inr (v, b')" and "buffer_inv b'"
    and "toStringView b' = rest"
proof -
  obtain b' where b': "retrieve (length (wire_bytes v)) b = Inr b'" "buffer_inv b'"
    "toStringView b' = drop (length (wire_bytes v)) (toStringView b)"
    using retrieve_correct [OF assms(1) front_bytes(2) [OF assms]] by blast
  with read_int_peek [OF assms b'(1)] assms(2) show thesis by (intro that) simp_all
qed

lemma append_ints_correct:
  assumes "buffer_inv b"
  obtains b' where "append_ints vs b = Inr b'" and "buffer_inv b'"
    and "toStringView b' = toStringView b @ concat (map wire_bytes vs)"
  using assms
proof (induction vs arbitrary: b thesis)
  case Nil
  then show ?case by simp
next
  case (Cons v vs)
  obtain b1 where b1: "append_int v b = Inr b1" "buffer_inv b1"
    "toStringView b1 = toStringView b @ wire_bytes v"
    using append_bytes_correct [OF Cons.prems(2), of "wire_bytes v"] append_int_wire by metis
  show ?case by (rule Cons.IH [OF _ b1(2)]) (rule Cons.prems(1), simp_all add: b1)
qed

lemma read_ints_correct:
  assumes "buffer_inv b" and "toStringView b = concat (map wire_bytes vs) @ rest"
  obtains b' where "read_ints (map width_of vs) b = Inr (vs, b')" and "buffer_inv b'"
    and "toStringView b' = rest"
  using assms
proof (induction vs arbitrary: b thesis)
  case Nil
  then show ?case by simp
next
  case (Cons v vs)
  from Cons.prems(3) have "toStringView b = wire_bytes v @ concat (map wire_bytes vs) @ rest"
    by simp
  with Cons.prems(2) obtain b1 where b1: "read_int (width_of v) b = Inr (v, b1)" "buffer_inv b1"
    "toStringView b1 = concat (map wire_bytes vs) @ rest"
    by (rule read_int_correct)
  show ?case by (rule Cons.IH [OF _ b1(2,3)]) (rule Cons.prems(1), simp_all add: b1)
qed

section \<open>Properties\<close>

text \<open>
  C20. Integers of any mix of the four widths, appended one after the other to an empty buffer, are
  read back unchanged and in order by the read operations of the same widths, which leave the
  buffer empty.
\<close>

theorem ints_round_trip:
  assumes "buffer_inv b" and "toStringView b = []"
  shows "\<exists>b'. and_then (append_ints vs b) (read_ints (map width_of vs)) = Inr (vs, b') \<and>
     buffer_inv b' \<and> toStringView b' = []"
proof -
  obtain b1 where b1: "append_ints vs b = Inr b1" "buffer_inv b1"
    "toStringView b1 = concat (map wire_bytes vs) @ []"
    using append_ints_correct [OF assms(1), of vs] assms(2) by auto
  from read_ints_correct [OF b1(2,3)] b1(1) show ?thesis by auto
qed

theorem ints_round_trip_witness:
  "\<exists>b'. and_then (append_ints [Int8 255, Int16 65534, Int32 7] (Buffer_new 0))
          (read_ints [Width8, Width16, Width32]) = Inr ([Int8 255, Int16 65534, Int32 7], b')"
  using ints_round_trip [OF buffer_inv_new [of 0] toStringView_new,
      of "[Int8 255, Int16 65534, Int32 7]"]
  by (simp del: and_then_eq_Inr) blast

text \<open>
  An integer prepended to a message (a length header, say) is stored in front of it in network
  byte order, most significant byte first, without touching the message.
\<close>

theorem prepend_int_frames:
  assumes "buffer_inv b" and "8 \<le> prependableBytes b"
  shows "\<exists>b'. prepend_int v b = Inr b' \<and> buffer_inv b' \<and>
     toStringView b' = wire_bytes v @ toStringView b \<and>
     read_int (width_of v) b' = map_sum id (\<lambda>b''. (v, b'')) (retrieve (length (wire_bytes v)) b')"
proof -
  have "length (wire_bytes v) \<le> prependableBytes b" using assms(2) by (cases v) simp_all
  then obtain b' where b': "prepend_int v b = Inr b'" "buffer_inv b'"
    "toStringView b' = wire_bytes v @ toStringView b"
    using prepend_correct [OF assms(1)] prepend_int_wire by metis
  obtain b'' where "retrieve (length (wire_bytes v)) b' = Inr b''"
    using retrieve_correct [OF b'(2) front_bytes(2) [OF b'(2,3)]] by blast
  with b' read_int_peek [OF b'(2,3)] show ?thesis by simp
qed

theorem prepend_int_frames_witness:
  "\<exists>b'. prepend_int (Int32 258) (Buffer_new 4) = Inr b' \<and>
     toStringView b' = [CHR 0x00, CHR 0x00, CHR 0x01, CHR 0x02]"
proof -
  have "8 \<le> prependableBytes (Buffer_new 4)" by (simp add: buffer_new_sizes kCheapPrepend_def)
  moreover have "wire_bytes (Int32 258) = [CHR 0x00, CHR 0x00, CHR 0x01, CHR 0x02]" by code_simp
  ultimately show ?thesis
    using prepend_int_frames [OF buffer_inv_new, of 4 "Int32 258"] by auto
qed

end
