(* ===== verification/StringView.thy ===== *)
theory StringView
  imports Prelude
begin

text \<open>
  The part of \<^verbatim>\<open>third_party/string_view.h\<close> (\<^verbatim>\<open>nonstd::basic_string_view\<close>) that the HTTP parser
  calls. A view is the string of its characters. A position is a \<^typ>\<open>nat\<close>; \<^verbatim>\<open>npos\<close>, which is
  larger than the size of every view, is \<open>None\<close>, and \<^verbatim>\<open>npos + 1\<close>, which wraps around to zero, is
  \<open>next_pos None\<close>. \<^verbatim>\<open>substr\<close> throws \<^verbatim>\<open>std::out_of_range\<close> for a position beyond the size.
\<close>

definition next_pos :: "nat option \<Rightarrow> nat" where
  "next_pos p = (case p of None \<Rightarrow> 0 | Some k \<Rightarrow> k + 1)"

definition substr :: "bytes \<Rightarrow> nat option \<Rightarrow> nat option \<Rightarrow> bytes result" where
  "substr sv pos n =
     (case pos of
        None \<Rightarrow> Inl Out_of_range
      | Some p \<Rightarrow> if p > length sv then Inl Out_of_range
                 else Inr (case n of None \<Rightarrow> drop p sv | Some k \<Rightarrow> take k (drop p sv)))"

definition starts_with :: "bytes \<Rightarrow> bytes \<Rightarrow> bool" where
  "starts_with sv v \<longleftrightarrow> length sv \<ge> length v \<and> take (length v) sv = v"

text \<open>\<open>search\<close>: the position of the needle, \<open>None\<close> for \<^verbatim>\<open>haystack.end()\<close>.\<close>

fun sv_search :: "bytes \<Rightarrow> bytes \<Rightarrow> nat option" where
  "sv_search haystack needle =
     (if starts_with haystack needle then Some 0
      else if haystack = [] then None
      else map_option Suc (sv_search (tl haystack) needle))"

declare sv_search.simps [simp del]

definition sv_find_view :: "bytes \<Rightarrow> bytes \<Rightarrow> nat \<Rightarrow> nat option" where
  "sv_find_view sv v pos =
     (if pos \<ge> length sv then None
      else map_option ((+) pos) (sv_search (drop pos sv) v))"

definition sv_find :: "bytes \<Rightarrow> char \<Rightarrow> nat \<Rightarrow> nat option" where
  "sv_find sv c pos = sv_find_view sv [c] pos"

text \<open>\<open>find_if\<close> with the predicate "is not \<open>c\<close>", forwards and backwards.\<close>

fun first_other :: "bytes \<Rightarrow> char \<Rightarrow> nat option" where
  "first_other [] c = None"
| "first_other (x # xs) c = (if x \<noteq> c then Some 0 else map_option Suc (first_other xs c))"

definition find_first_not_of :: "bytes \<Rightarrow> char \<Rightarrow> nat \<Rightarrow> nat option" where
  "find_first_not_of sv c pos =
     (if pos \<ge> length sv then None
      else map_option ((+) pos) (first_other (drop pos sv) c))"

definition find_last_not_of :: "bytes \<Rightarrow> char \<Rightarrow> nat option" where
  "find_last_not_of sv c =
     (if sv = [] then None
      else map_option (\<lambda>k. length sv - 1 - k) (first_other (rev sv) c))"

section \<open>Facts about searching\<close>

lemma sv_search_char: "sv_search xs [c] = memchr xs c"
proof (induction xs)
  case Nil
  then show ?case by (simp add: sv_search.simps [of "[]"] starts_with_def)
next
  case (Cons x xs)
  then show ?case by (simp add: sv_search.simps [of "x # xs"] starts_with_def)
qed

lemma sv_find_memchr:
  "sv_find sv c pos = (if pos \<ge> length sv then None
                       else map_option ((+) pos) (memchr (drop pos sv) c))"
  by (simp add: sv_find_def sv_find_view_def sv_search_char)

lemma sv_find_first: "c \<notin> set xs \<Longrightarrow> sv_find (xs @ c # ys) c 0 = Some (length xs)"
  by (simp add: sv_find_memchr memchr_append)

lemma sv_find_from:
  "c \<notin> set ys \<Longrightarrow> n = length xs \<Longrightarrow> sv_find (xs @ ys @ c # zs) c n = Some (length xs + length ys)"
  by (simp add: sv_find_memchr memchr_append)

lemma sv_find_absent: "c \<notin> set xs \<Longrightarrow> sv_find xs c 0 = None"
  by (simp add: sv_find_memchr memchr_None)

lemma sv_find_Some:
  "sv_find sv c 0 = Some k \<Longrightarrow>
     sv = take k sv @ c # drop (Suc k) sv \<and> k < length sv \<and> c \<notin> set (take k sv)"
  using memchr_Some [of sv c k] id_take_nth_drop [of k sv]
  by (auto simp: sv_find_memchr split: if_splits)

lemma sv_find_None: "sv_find sv c 0 = None \<longleftrightarrow> c \<notin> set sv"
  by (auto simp: sv_find_memchr memchr_None)

lemma sv_find_bounds: "sv_find sv c pos = Some k \<Longrightarrow> pos \<le> k \<and> k < length sv"
  by (auto simp: sv_find_memchr split: if_splits dest!: memchr_Some)

lemma substr_in [simp]:
  "p \<le> length sv \<Longrightarrow> substr sv (Some p) (Some k) = Inr (take k (drop p sv))"
  "p \<le> length sv \<Longrightarrow> substr sv (Some p) None = Inr (drop p sv)"
  by (simp_all add: substr_def)

lemma substr_npos [simp]: "substr sv None n = Inl Out_of_range"
  by (simp add: substr_def)

lemma first_other_None: "first_other xs c = None \<longleftrightarrow> set xs \<subseteq> {c}"
  by (induction xs) auto

lemma first_other_Some: "first_other xs c = Some k \<Longrightarrow> k < length xs \<and> xs ! k \<noteq> c"
  by (induction xs arbitrary: k) (auto split: if_splits)

lemma first_other_here: "x \<noteq> c \<Longrightarrow> first_other (x # xs) c = Some 0"
  by simp

lemma first_other_skip: "x \<noteq> c \<Longrightarrow> first_other (replicate n c @ x # xs) c = Some n"
  by (induction n) auto

lemma find_first_not_of_at:
  "x \<noteq> c \<Longrightarrow> find_first_not_of (xs @ replicate n c @ x # ys) c (length xs) = Some (length xs + n)"
  by (simp add: find_first_not_of_def first_other_skip)

lemma find_first_not_of_blank:
  "set ys \<subseteq> {c} \<Longrightarrow> find_first_not_of (xs @ ys) c (length xs) = None"
  by (simp add: find_first_not_of_def first_other_None)

lemma find_last_not_of_snoc:
  "x \<noteq> c \<Longrightarrow> find_last_not_of (xs @ [x] @ replicate n c) c = Some (length xs)"
  using first_other_skip [of x c n "rev xs"] by (simp add: find_last_not_of_def)

end
