(* ===== verification/HttpRequest.thy ===== *)
theory HttpRequest
  imports Prelude
begin

text \<open>
  The request object of \<^verbatim>\<open>include/gg_lib/net/http/HttpRequest.h\<close>. A \<^verbatim>\<open>std::unordered_map\<close> is a map;
  a \<^verbatim>\<open>Timestamp\<close> is its number of microseconds.
\<close>

datatype http_method = kInvalid | kGet | kPost | kHead | kPut | kDelete

datatype http_version = kUnknown | kHttp10 | kHttp11

record http_request =
  req_method :: http_method
  req_version :: http_version
  req_path :: string
  req_query :: string
  req_receiveTime :: int
  req_headers :: "string \<rightharpoonup> string"

definition HttpRequest_new :: http_request where
  "HttpRequest_new =
     \<lparr>req_method = kInvalid, req_version = kUnknown, req_path = '''', req_query = '''',
      req_receiveTime = 0, req_headers = Map.empty\<rparr>"

definition setVersion :: "http_version \<Rightarrow> http_request \<Rightarrow> http_request" where
  "setVersion v r = r\<lparr>req_version := v\<rparr>"

text \<open>The last branch repeats \<^verbatim>\<open>HEAD\<close>, as the code does; no branch accepts \<^verbatim>\<open>DELETE\<close>.\<close>

definition setMethod :: "string \<Rightarrow> http_request \<Rightarrow> bool \<times> http_request" where
  "setMethod m r =
     (let r' = (if m = ''GET'' then r\<lparr>req_method := kGet\<rparr>
                else if m = ''POST'' then r\<lparr>req_method := kPost\<rparr>
                else if m = ''HEAD'' then r\<lparr>req_method := kHead\<rparr>
                else if m = ''PUT'' then r\<lparr>req_method := kPut\<rparr>
                else if m = ''HEAD'' then r\<lparr>req_method := kHead\<rparr>
                else r)
      in (req_method r' \<noteq> kInvalid, r'))"

fun methodString_of :: "http_method \<Rightarrow> string" where
  "methodString_of kGet = ''GET''"
| "methodString_of kPost = ''POST''"
| "methodString_of kHead = ''HEAD''"
| "methodString_of kPut = ''PUT''"
| "methodString_of kDelete = ''DELETE''"
| "methodString_of kInvalid = ''UNKNOWN''"

definition methodString :: "http_request \<Rightarrow> string" where
  "methodString r = methodString_of (req_method r)"

definition setPath :: "string \<Rightarrow> http_request \<Rightarrow> http_request" where
  "setPath p r = r\<lparr>req_path := p\<rparr>"

definition setQuery :: "string \<Rightarrow> http_request \<Rightarrow> http_request" where
  "setQuery q r = r\<lparr>req_query := q\<rparr>"

definition setReceiveTime :: "int \<Rightarrow> http_request \<Rightarrow> http_request" where
  "setReceiveTime t r = r\<lparr>req_receiveTime := t\<rparr>"

definition addHeader :: "string \<Rightarrow> string \<Rightarrow> http_request \<Rightarrow> http_request" where
  "addHeader key v r = r\<lparr>req_headers := (req_headers r)(key \<mapsto> v)\<rparr>"

definition getHeader :: "string \<Rightarrow> http_request \<Rightarrow> string" where
  "getHeader key r = (case req_headers r key of Some v \<Rightarrow> v | None \<Rightarrow> '''')"

definition swap_request :: "http_request \<Rightarrow> http_request \<Rightarrow> http_request \<times> http_request" where
  "swap_request this rhs = (rhs, this)"

lemmas request_defs =
  setVersion_def setPath_def setQuery_def setReceiveTime_def addHeader_def getHeader_def

section \<open>Methods\<close>

text \<open>The methods that a request line can name.\<close>

definition method_known :: "http_method \<Rightarrow> bool" where
  "method_known m \<longleftrightarrow> m \<in> {kGet, kPost, kHead, kPut}"

lemma setMethod_known:
  "method_known m \<Longrightarrow> setMethod (methodString_of m) r = (True, r\<lparr>req_method := m\<rparr>)"
  by (auto simp: method_known_def setMethod_def)

lemma setMethod_new:
  "setMethod s HttpRequest_new = (True, r') \<Longrightarrow>
     \<exists>m. method_known m \<and> s = methodString_of m \<and> r' = HttpRequest_new\<lparr>req_method := m\<rparr>"
proof -
  assume run: "setMethod s HttpRequest_new = (True, r')"
  have new: "req_method HttpRequest_new = kInvalid" by (simp add: HttpRequest_new_def)
  consider "s = ''GET''" | "s = ''POST''" | "s = ''HEAD''" | "s = ''PUT''"
    using run new by (fastforce simp: setMethod_def simp del: list.inject split: if_splits)
  then show ?thesis
  proof cases
    case 1
    with run show ?thesis by (intro exI [of _ kGet]) (simp add: setMethod_def method_known_def)
  next
    case 2
    with run show ?thesis by (intro exI [of _ kPost]) (simp add: setMethod_def method_known_def)
  next
    case 3
    with run show ?thesis by (intro exI [of _ kHead]) (simp add: setMethod_def method_known_def)
  next
    case 4
    with run show ?thesis by (intro exI [of _ kPut]) (simp add: setMethod_def method_known_def)
  qed
qed

lemma methodString_of_no_space: "CHR '' '' \<notin> set (methodString_of m)"
  by (cases m) auto

lemma getHeader_addHeader:
  "getHeader k (addHeader k' v r) = (if k = k' then v else getHeader k r)"
  by (simp add: request_defs)

end
