(* ===== verification/HttpContext.thy ===== *)
theory HttpContext
  imports Buffer StringView HttpRequest
begin

text \<open>
  The incremental parser of \<^verbatim>\<open>gg_lib/net/http/HttpContext.cc\<close>. \<open>parse_step\<close> is one turn of the
  loop of \<^verbatim>\<open>HttpContext::parseRequest\<close>, \<open>parse_loop\<close> the loop: \<open>None\<close> is a loop that does not
  return, \<open>Some (Inl e)\<close> an exception that leaves it. \<open>spec_parse\<close> is the same parser as a
  recursive function on the bytes to be read; \<open>parse_loop_refines\<close> relates the two.
\<close>

section \<open>The parser\<close>

datatype parse_state = kExpectRequestLine | kExpectHeaders | kExpectBody | kGotAll

record http_context =
  ctx_state :: parse_state
  ctx_request :: http_request
  ctx_check :: "http_request \<Rightarrow> bool"

definition HttpContext_new :: "(http_request \<Rightarrow> bool) \<Rightarrow> http_context" where
  "HttpContext_new cb =
     \<lparr>ctx_state = kExpectRequestLine, ctx_request = HttpRequest_new, ctx_check = cb\<rparr>"

definition gotAll :: "http_context \<Rightarrow> bool" where
  "gotAll c \<longleftrightarrow> ctx_state c = kGotAll"

definition reset_context :: "http_context \<Rightarrow> http_context" where
  "reset_context c =
     (let c' = c\<lparr>ctx_state := kExpectRequestLine\<rparr>; dummy = HttpRequest_new
      in c'\<lparr>ctx_request := fst (swap_request (ctx_request c) dummy)\<rparr>)"

definition processRequestLine :: "bytes \<Rightarrow> http_request \<Rightarrow> (bool \<times> http_request) result" where
  "processRequestLine sv r =
     (case sv_find sv (CHR '' '') 0 of
        None \<Rightarrow> Inr (False, r)
      | Some space \<Rightarrow>
     and_then (substr sv (Some 0) (Some space)) (\<lambda>m.
     case setMethod m r of (known, r1) \<Rightarrow>
     if \<not> known then Inr (False, r1) else
     (let start = space + 1 in
      case sv_find sv (CHR '' '') start of
        None \<Rightarrow> Inr (False, r1)
      | Some space2 \<Rightarrow>
     and_then (substr sv (Some start) (Some (space2 - start))) (\<lambda>pathQuery.
     and_then (case sv_find pathQuery (CHR ''?'') 0 of
                 Some questionMark \<Rightarrow>
                   and_then (substr pathQuery (Some 0) (Some questionMark)) (\<lambda>p.
                   and_then (substr pathQuery (Some questionMark) None) (\<lambda>q.
                     Inr (setQuery q (setPath p r1))))
               | None \<Rightarrow> Inr (setPath pathQuery r1)) (\<lambda>r2.
     and_then (substr sv (Some (space2 + 1)) None) (\<lambda>version.
       if length version = 8 \<and> starts_with version ''HTTP/1.'' then
         if version ! 7 = CHR ''1'' then Inr (True, setVersion kHttp11 r2)
         else if version ! 7 = CHR ''0'' then Inr (True, setVersion kHttp10 r2)
         else Inr (False, r2)
       else Inr (False, r2)))))))"

text \<open>
  A header line: \<open>None\<close> for the line that ends the headers, which is any line without a colon.
  The value runs from \<open>valueBegin\<close> to \<open>valueEnd\<close>; the subtraction is the one of \<^verbatim>\<open>size_t\<close>.
\<close>

definition processHeaderLine :: "bytes \<Rightarrow> http_request \<Rightarrow> http_request option result" where
  "processHeaderLine sv r =
     (let colon = sv_find sv (CHR '':'') 0;
          valueBegin = find_first_not_of sv (CHR '' '') (next_pos colon);
          valueEnd = find_last_not_of sv (CHR '' '')
      in case colon of
           None \<Rightarrow> Inr None
         | Some c \<Rightarrow>
             and_then (substr sv (Some 0) (Some c)) (\<lambda>key.
             and_then (case (valueBegin, valueEnd) of
                         (Some vb, Some ve) \<Rightarrow>
                           substr sv (Some vb) (Some (size_sub (ve + 1) vb))
                       | _ \<Rightarrow> substr sv valueBegin None) (\<lambda>v.
               Inr (Some (addHeader key v r)))))"

definition parse_step ::
  "int \<Rightarrow> http_context \<Rightarrow> buffer \<Rightarrow> (bool \<times> bool \<times> http_context \<times> buffer) result"
where
  "parse_step receiveTime c buf =
     (case ctx_state c of
        kExpectRequestLine \<Rightarrow>
          and_then (findCRLF None buf) (\<lambda>crlf_opt.
            case crlf_opt of
              Some crlf \<Rightarrow>
                (let sv = subrange (peek buf) crlf (vec buf) in
                 and_then (processRequestLine sv (ctx_request c)) (\<lambda>(succeed, r).
                   if succeed \<and> ctx_check c r then
                     and_then (retrieveUntil (crlf + 2) buf) (\<lambda>buf'.
                       Inr (True, True,
                            c\<lparr>ctx_request := setReceiveTime receiveTime r,
                              ctx_state := kExpectHeaders\<rparr>, buf'))
                   else Inr (False, False, c\<lparr>ctx_request := r\<rparr>, buf)))
            | None \<Rightarrow> Inr (True, False, c, buf))
      | kExpectHeaders \<Rightarrow>
          and_then (findCRLF None buf) (\<lambda>crlf_opt.
            case crlf_opt of
              Some crlf \<Rightarrow>
                (let sv = subrange (peek buf) crlf (vec buf) in
                 and_then (processHeaderLine sv (ctx_request c)) (\<lambda>header.
                 and_then (retrieveUntil (crlf + 2) buf) (\<lambda>buf'.
                   case header of
                     Some r \<Rightarrow> Inr (True, True, c\<lparr>ctx_request := r\<rparr>, buf')
                   | None \<Rightarrow> Inr (True, False, c\<lparr>ctx_state := kGotAll\<rparr>, buf'))))
            | None \<Rightarrow> Inr (True, False, c, buf))
      | kExpectBody \<Rightarrow> Inr (True, True, c, buf)
      | kGotAll \<Rightarrow> Inr (True, True, c, buf))"

partial_function (option) parse_loop ::
  "int \<Rightarrow> http_context \<Rightarrow> buffer \<Rightarrow> (bool \<times> http_context \<times> buffer) result option"
where
  "parse_loop receiveTime c buf =
     (case parse_step receiveTime c buf of
        Inl e \<Rightarrow> Some (Inl e)
      | Inr (ok, hasMore, c', buf') \<Rightarrow>
          if hasMore then parse_loop receiveTime c' buf' else Some (Inr (ok, c', buf')))"

definition parseRequest ::
  "int \<Rightarrow> http_context \<Rightarrow> buffer \<Rightarrow> (bool \<times> http_context \<times> buffer) result option"
where
  "parseRequest receiveTime c buf = parse_loop receiveTime c buf"

section \<open>The parser on byte strings\<close>

definition next_line :: "bytes \<Rightarrow> (bytes \<times> bytes) option" where
  "next_line s = (case memmem s kCRLF of None \<Rightarrow> None | Some k \<Rightarrow> Some (take k s, drop (k + 2) s))"

lemma next_line_length: "next_line s = Some (line, rest) \<Longrightarrow> length rest < length s"
  using memmem_Some [of s kCRLF] by (auto simp: next_line_def kCRLF_def split: option.splits)

lemma next_line_append:
  "next_line s = Some (line, rest) \<Longrightarrow> next_line (s @ t) = Some (line, rest @ t)"
proof -
  assume "next_line s = Some (line, rest)"
  then obtain k where k: "memmem s kCRLF = Some k" "line = take k s" "rest = drop (k + 2) s"
    by (auto simp: next_line_def split: option.splits)
  then have "k + 2 \<le> length s" using memmem_Some [OF k(1)] by (simp add: kCRLF_def)
  with k memmem_append [OF k(1), of t] show ?thesis by (simp add: next_line_def)
qed

function spec_headers :: "http_request \<Rightarrow> bytes \<Rightarrow> (parse_state \<times> http_request \<times> bytes) result"
where
  "spec_headers r s =
     (case next_line s of
        None \<Rightarrow> Inr (kExpectHeaders, r, s)
      | Some (line, rest) \<Rightarrow>
          (case processHeaderLine line r of
             Inl e \<Rightarrow> Inl e
           | Inr None \<Rightarrow> Inr (kGotAll, r, rest)
           | Inr (Some r') \<Rightarrow> spec_headers r' rest))"
  by pat_completeness auto
termination
  by (relation "measure (\<lambda>(r, s). length s)") (auto dest: next_line_length)

declare spec_headers.simps [simp del]

fun spec_parse ::
  "(http_request \<Rightarrow> bool) \<Rightarrow> int \<Rightarrow> parse_state \<Rightarrow> http_request \<Rightarrow> bytes \<Rightarrow>
     (bool \<times> parse_state \<times> http_request \<times> bytes) result"
where
  "spec_parse chk t kExpectRequestLine r s =
     (case next_line s of
        None \<Rightarrow> Inr (True, kExpectRequestLine, r, s)
      | Some (line, rest) \<Rightarrow>
          and_then (processRequestLine line r) (\<lambda>(succeed, r1).
            if succeed \<and> chk r1
            then map_sum id (\<lambda>x. (True, x)) (spec_headers (setReceiveTime t r1) rest)
            else Inr (False, kExpectRequestLine, r1, s)))"
| "spec_parse chk t st r s = map_sum id (\<lambda>x. (True, x)) (spec_headers r s)"

section \<open>The loop computes the specification\<close>

lemma crlf_line:
  assumes inv: "buffer_inv buf" and line: "next_line (toStringView buf) = Some (line, rest)"
  obtains p buf' where "findCRLF None buf = Inr (Some p)"
    and "subrange (peek buf) p (vec buf) = line"
    and "retrieveUntil (p + 2) buf = Inr buf'" and "buffer_inv buf'" and "toStringView buf' = rest"
proof -
  obtain k where k: "memmem (toStringView buf) kCRLF = Some k"
    and line_rest: "line = take k (toStringView buf)" "rest = drop (k + 2) (toStringView buf)"
    using line by (auto simp: next_line_def split: option.splits)
  have le: "k + 2 \<le> readableBytes buf"
    using memmem_Some [OF k] inv by (simp add: kCRLF_def)
  let ?p = "peek buf + k"
  have find: "findCRLF None buf = Inr (Some ?p)" using findCRLF_view [OF inv] k by simp
  have wr: "peek buf + readableBytes buf = beginWrite buf"
    using inv by (simp add: buffer_inv_def buffer_simps)
  have sub: "subrange (peek buf) ?p (vec buf) = line"
    using le by (simp add: line_rest subrange_def toStringView_def)
  have end_le: "?p + 2 \<le> beginWrite buf" using le wr by simp
  obtain buf' where buf': "retrieveUntil (?p + 2) buf = Inr buf'" "buffer_inv buf'"
    "toStringView buf' = drop (?p + 2 - peek buf) (toStringView buf)"
    using retrieveUntil_correct [OF inv _ end_le] by force
  show thesis using find sub buf' by (intro that) (simp_all add: line_rest)
qed

lemma no_crlf_line:
  "buffer_inv buf \<Longrightarrow> next_line (toStringView buf) = None \<Longrightarrow> findCRLF None buf = Inr None"
  by (simp add: findCRLF_view next_line_def split: option.splits)

text \<open>The outcome of the loop as the specification sees it.\<close>

definition parsed ::
  "(bool \<times> http_context \<times> buffer) result \<Rightarrow> (bool \<times> parse_state \<times> http_request \<times> bytes) result"
where
  "parsed res =
     map_sum id (\<lambda>(ok, c, buf). (ok, ctx_state c, ctx_request c, toStringView buf)) res"

definition parses_to ::
  "int \<Rightarrow> http_context \<Rightarrow> buffer \<Rightarrow> (bool \<times> parse_state \<times> http_request \<times> bytes) result \<Rightarrow> bool"
where
  "parses_to t c buf spec \<longleftrightarrow>
     (\<exists>res. parse_loop t c buf = Some res \<and> parsed res = spec \<and>
       (\<forall>ok c' buf'. res = Inr (ok, c', buf') \<longrightarrow> buffer_inv buf' \<and> ctx_check c' = ctx_check c))"

lemma parses_to_stop:
  assumes "parse_step t c buf = Inr (ok, False, c', buf')"
    and "buffer_inv buf'" and "ctx_check c' = ctx_check c"
  shows "parses_to t c buf (Inr (ok, ctx_state c', ctx_request c', toStringView buf'))"
  using assms by (simp add: parses_to_def parsed_def parse_loop.simps [of t c buf])

lemma parses_to_throw:
  "parse_step t c buf = Inl e \<Longrightarrow> parses_to t c buf (Inl e)"
  by (simp add: parses_to_def parsed_def parse_loop.simps [of t c buf])

lemma parses_to_continue:
  assumes "parse_step t c buf = Inr (ok, True, c', buf')" and "parses_to t c' buf' spec"
    and "ctx_check c' = ctx_check c"
  shows "parses_to t c buf spec"
  using assms by (simp add: parses_to_def parse_loop.simps [of t c buf])

lemma parse_headers_refines:
  assumes "buffer_inv buf" and "ctx_state c = kExpectHeaders"
  shows "parses_to t c buf
    (map_sum id (\<lambda>x. (True, x)) (spec_headers (ctx_request c) (toStringView buf)))"
  using assms
proof (induction "length (toStringView buf)" arbitrary: c buf rule: less_induct)
  case less
  note inv = less.prems(1) and st = less.prems(2)
  show ?case
  proof (cases "next_line (toStringView buf)")
    case None
    have "parse_step t c buf = Inr (True, False, c, buf)"
      using st no_crlf_line [OF inv None] by (simp add: parse_step_def)
    from parses_to_stop [OF this inv refl] show ?thesis
      using None st by (simp add: spec_headers.simps [of "ctx_request c"])
  next
    case (Some lr)
    obtain line rest where lr: "lr = (line, rest)" by (cases lr)
    from Some lr have nl: "next_line (toStringView buf) = Some (line, rest)" by simp
    obtain p buf' where p: "findCRLF None buf = Inr (Some p)"
      "subrange (peek buf) p (vec buf) = line" "retrieveUntil (p + 2) buf = Inr buf'"
      "buffer_inv buf'" "toStringView buf' = rest"
      using crlf_line [OF inv nl] by blast
    note step = st p(1,2) p(3) [unfolded add_2_eq_Suc'] parse_step_def Let_def
    show ?thesis
    proof (cases "processHeaderLine line (ctx_request c)")
      case (Inl e)
      then have "parse_step t c buf = Inl e" by (simp add: step)
      from parses_to_throw [OF this] show ?thesis
        using nl Inl by (simp add: spec_headers.simps [of "ctx_request c"])
    next
      case (Inr header)
      show ?thesis
      proof (cases header)
        case None
        with Inr have "parse_step t c buf = Inr (True, False, c\<lparr>ctx_state := kGotAll\<rparr>, buf')"
          by (simp add: step)
        from parses_to_stop [OF this p(4)] show ?thesis
          using nl Inr None p(5) by (simp add: spec_headers.simps [of "ctx_request c"])
      next
        case (Some r)
        let ?c = "c\<lparr>ctx_request := r\<rparr>"
        have run: "parse_step t c buf = Inr (True, True, ?c, buf')"
          using Inr Some by (simp add: step)
        have "length (toStringView buf') < length (toStringView buf)"
          using next_line_length [OF nl] p(5) by simp
        then have "parses_to t ?c buf' (map_sum id (\<lambda>x. (True, x)) (spec_headers r rest))"
          using less.hyps [of buf' ?c] p(4,5) st by simp
        from parses_to_continue [OF run this] show ?thesis
          using nl Inr Some by (simp add: spec_headers.simps [of "ctx_request c"])
      qed
    qed
  qed
qed

lemma parse_loop_refines:
  assumes inv: "buffer_inv buf" and st: "ctx_state c \<in> {kExpectRequestLine, kExpectHeaders}"
  shows "parses_to t c buf
    (spec_parse (ctx_check c) t (ctx_state c) (ctx_request c) (toStringView buf))"
proof (cases "ctx_state c = kExpectHeaders")
  case True
  with parse_headers_refines [OF inv True] show ?thesis by simp
next
  case False
  with st have rl: "ctx_state c = kExpectRequestLine" by simp
  show ?thesis
  proof (cases "next_line (toStringView buf)")
    case None
    have "parse_step t c buf = Inr (True, False, c, buf)"
      using rl no_crlf_line [OF inv None] by (simp add: parse_step_def)
    from parses_to_stop [OF this inv refl] show ?thesis using None rl by simp
  next
    case (Some lr)
    obtain line rest where lr: "lr = (line, rest)" by (cases lr)
    from Some lr have nl: "next_line (toStringView buf) = Some (line, rest)" by simp
    obtain p buf' where p: "findCRLF None buf = Inr (Some p)"
      "subrange (peek buf) p (vec buf) = line" "retrieveUntil (p + 2) buf = Inr buf'"
      "buffer_inv buf'" "toStringView buf' = rest"
      using crlf_line [OF inv nl] by blast
    note step = rl p(1,2) p(3) [unfolded add_2_eq_Suc'] parse_step_def Let_def
    show ?thesis
    proof (cases "processRequestLine line (ctx_request c)")
      case (Inl e)
      then have "parse_step t c buf = Inl e" by (simp add: step)
      from parses_to_throw [OF this] show ?thesis using nl Inl rl by simp
    next
      case (Inr x)
      obtain succeed r where x: "x = (succeed, r)" by (cases x)
      show ?thesis
      proof (cases "succeed \<and> ctx_check c r")
        case True
        let ?c = "c\<lparr>ctx_request := setReceiveTime t r, ctx_state := kExpectHeaders\<rparr>"
        have run: "parse_step t c buf = Inr (True, True, ?c, buf')"
          using Inr True x by (simp add: step)
        have "parses_to t ?c buf'
            (map_sum id (\<lambda>y. (True, y)) (spec_headers (setReceiveTime t r) rest))"
          using parse_headers_refines [OF p(4), of ?c t] p(5) by simp
        from parses_to_continue [OF run this] show ?thesis using nl Inr True x rl by simp
      next
        case False
        with Inr x have "parse_step t c buf = Inr (False, False, c\<lparr>ctx_request := r\<rparr>, buf)"
          by (auto simp: step)
        from parses_to_stop [OF this inv] show ?thesis using nl Inr False x rl by auto
      qed
    qed
  qed
qed

end
