(* ===== verification/HttpParsing.thy ===== *)
theory HttpParsing
  imports HttpContext
begin

text \<open>
  What \<^verbatim>\<open>HttpContext::parseRequest\<close> guarantees: it returns unless it is called in a state whose
  \<^verbatim>\<open>case\<close> does nothing, the way the stream is cut into packets does not matter, a request that is
  printed is parsed back, and the only exception is the one for a header with an empty value.
\<close>

section \<open>A stream in pieces\<close>

lemma spec_headers_rest:
  "spec_headers r s = Inr (st, r', rest) \<Longrightarrow>
     st = kGotAll \<or> st = kExpectHeaders \<and> next_line rest = None"
proof (induction r s rule: spec_headers.induct)
  case (1 r s)
  then show ?case
    by (subst (asm) (2) spec_headers.simps)
      (auto split: option.splits sum.splits prod.splits)
qed

lemma spec_headers_append:
  "spec_headers r (s @ t) =
     (case spec_headers r s of
        Inl e \<Rightarrow> Inl e
      | Inr (st, r', rest) \<Rightarrow>
          if st = kGotAll then Inr (st, r', rest @ t) else spec_headers r' (rest @ t))"
proof (induction r s rule: spec_headers.induct)
  case (1 r s)
  show ?case
  proof (cases "next_line s")
    case None
    then show ?thesis by (simp add: spec_headers.simps [of r s])
  next
    case (Some lr)
    obtain line rest where lr: "lr = (line, rest)" by (cases lr)
    have nl: "next_line (s @ t) = Some (line, rest @ t)"
      using next_line_append Some lr by simp
    show ?thesis
    proof (cases "processHeaderLine line r")
      case (Inl e)
      then show ?thesis
        using nl Some lr by (simp add: spec_headers.simps [of r s] spec_headers.simps [of r "s @ t"])
    next
      case (Inr header)
      then show ?thesis
        using nl Some lr "1.IH" [OF Some lr [symmetric] Inr]
        by (cases header)
          (simp_all add: spec_headers.simps [of r s] spec_headers.simps [of r "s @ t"])
    qed
  qed
qed

text \<open>
  Parsing \<open>s @ t\<close> is parsing \<open>s\<close> and then, unless a request is complete or refused, going on with
  what \<open>s\<close> left and \<open>t\<close>.
\<close>

lemma spec_parse_append:
  assumes "st \<in> {kExpectRequestLine, kExpectHeaders}"
  shows "spec_parse chk u st r (s @ t) =
     (case spec_parse chk u st r s of
        Inl e \<Rightarrow> Inl e
      | Inr (ok, st', r', rest) \<Rightarrow>
          if ok \<and> st' \<noteq> kGotAll then spec_parse chk u st' r' (rest @ t)
          else Inr (ok, st', r', rest @ t))"
proof (cases "st = kExpectRequestLine")
  case False
  with assms have st: "st = kExpectHeaders" by simp
  show ?thesis
    using spec_headers_rest [of r s] spec_headers_append [of r s t]
    by (auto simp: st split: sum.splits)
next
  case True
  show ?thesis
  proof (cases "next_line s")
    case None
    with True show ?thesis by simp
  next
    case (Some lr)
    obtain line rest where lr: "lr = (line, rest)" by (cases lr)
    have nl: "next_line (s @ t) = Some (line, rest @ t)"
      using next_line_append Some lr by simp
    show ?thesis
    proof (cases "processRequestLine line r")
      case (Inl e)
      with True nl Some lr show ?thesis by simp
    next
      case (Inr x)
      obtain succeed r1 where x: "x = (succeed, r1)" by (cases x)
      with True nl Some lr Inr spec_headers_rest [of "setReceiveTime u r1" rest]
        spec_headers_append [of "setReceiveTime u r1" rest t] show ?thesis
        by (auto split: sum.splits)
    qed
  qed
qed

section \<open>States that do nothing\<close>

lemma parse_loop_stuck:
  assumes "ctx_state c \<in> {kExpectBody, kGotAll}"
  shows "parse_loop t c buf = None"
proof (rule ccontr)
  assume "parse_loop t c buf \<noteq> None"
  then obtain res where ret: "parse_loop t c buf = Some res" by blast
  have "ctx_state c \<notin> {kExpectBody, kGotAll}"
  proof (rule parse_loop.raw_induct
      [where P = "\<lambda>t c buf res. ctx_state c \<notin> {kExpectBody, kGotAll}", OF _ ret])
    fix f t c buf and res :: "(bool \<times> http_context \<times> buffer) result"
    assume IH: "\<And>t c buf res. f t c buf = Some res \<Longrightarrow> ctx_state c \<notin> {kExpectBody, kGotAll}"
      and eq: "(case parse_step t c buf of
        Inl e \<Rightarrow> Some (Inl e)
      | Inr (ok, hasMore, c', buf') \<Rightarrow>
          if hasMore then f t c' buf' else Some (Inr (ok, c', buf'))) = Some res"
    show "ctx_state c \<notin> {kExpectBody, kGotAll}"
    proof
      assume st: "ctx_state c \<in> {kExpectBody, kGotAll}"
      then have "parse_step t c buf = Inr (True, True, c, buf)"
        by (auto simp: parse_step_def)
      with eq have "f t c buf = Some res" by simp
      from IH [OF this] st show False by simp
    qed
  qed
  with assms show False by simp
qed

section \<open>Request lines\<close>

definition no_chars :: "char list \<Rightarrow> bytes \<Rightarrow> bool" where
  "no_chars cs s \<longleftrightarrow> (\<forall>c \<in> set cs. c \<notin> set s)"

fun version_char :: "http_version \<Rightarrow> char" where
  "version_char kHttp11 = CHR ''1''"
| "version_char _ = CHR ''0''"

definition render_request_line :: "http_method \<Rightarrow> bytes \<Rightarrow> bytes \<Rightarrow> http_version \<Rightarrow> bytes" where
  "render_request_line m p q v =
     methodString_of m @ CHR '' '' # (p @ q) @ CHR '' '' # ''HTTP/1.'' @ [version_char v]"

definition query_ok :: "bytes \<Rightarrow> bool" where
  "query_ok q \<longleftrightarrow> q = [] \<or> hd q = CHR ''?''"

lemma split_path_query:
  assumes "CHR ''?'' \<notin> set p" and "query_ok q"
  shows "(case sv_find (p @ q) (CHR ''?'') 0 of
            Some k \<Rightarrow>
              and_then (substr (p @ q) (Some 0) (Some k)) (\<lambda>p'.
              and_then (substr (p @ q) (Some k) None) (\<lambda>q'.
                Inr (setQuery q' (setPath p' r))))
          | None \<Rightarrow> Inr (setPath (p @ q) r))
         = Inr (if q = [] then setPath p r else setQuery q (setPath p r))"
proof (cases q)
  case Nil
  with assms(1) show ?thesis by (simp add: sv_find_absent)
next
  case (Cons x xs)
  with assms(2) have x: "x = CHR ''?''" by (simp add: query_ok_def)
  have "sv_find (p @ q) (CHR ''?'') 0 = Some (length p)"
    using sv_find_first [OF assms(1)] by (simp add: Cons x)
  then show ?thesis by (simp add: Cons x)
qed

lemma version_tail:
  assumes "v \<in> {kHttp10, kHttp11}"
  shows "(if length (''HTTP/1.'' @ [version_char v]) = 8
            \<and> starts_with (''HTTP/1.'' @ [version_char v]) ''HTTP/1.'' then
            if (''HTTP/1.'' @ [version_char v]) ! 7 = CHR ''1'' then Inr (True, setVersion kHttp11 r)
            else if (''HTTP/1.'' @ [version_char v]) ! 7 = CHR ''0''
              then Inr (True, setVersion kHttp10 r)
            else Inr (False, r)
          else Inr (False, r)) = (Inr (True, setVersion v r) :: (bool \<times> http_request) result)"
  using assms by (auto simp: starts_with_def)

lemma processRequestLine_render:
  assumes m: "method_known m" and v: "v \<in> {kHttp10, kHttp11}"
    and p: "no_chars [CHR '' '', CHR ''?''] p" and q: "no_chars [CHR '' ''] q" "query_ok q"
  shows "processRequestLine (render_request_line m p q v) r =
     Inr (True, setVersion v ((if q = [] then setPath p else setQuery q \<circ> setPath p)
                                (r\<lparr>req_method := m\<rparr>)))"
proof -
  let ?m = "methodString_of m"
  let ?line = "render_request_line m p q v"
  let ?ver = "''HTTP/1.'' @ [version_char v]"
  have line: "?line = ?m @ CHR '' '' # (p @ q) @ CHR '' '' # ?ver"
    by (simp add: render_request_line_def)
  have f1: "sv_find ?line (CHR '' '') 0 = Some (length ?m)"
    unfolding line by (rule sv_find_first) (rule methodString_of_no_space)
  have nsp: "CHR '' '' \<notin> set (p @ q)" using p q(1) by (simp add: no_chars_def)
  have "?line = (?m @ [CHR '' '']) @ (p @ q) @ CHR '' '' # ?ver" by (simp add: line)
  then have f2: "sv_find ?line (CHR '' '') (length ?m + 1) = Some (length ?m + 1 + length (p @ q))"
    using sv_find_from [OF nsp, of "length ?m + 1" "?m @ [CHR '' '']" ?ver] by simp
  have s1: "substr ?line (Some 0) (Some (length ?m)) = Inr ?m" by (simp add: line)
  have s2: "substr ?line (Some (length ?m + 1)) (Some (length (p @ q))) = Inr (p @ q)"
    by (simp add: line)
  have s3: "substr ?line (Some (length ?m + 1 + length (p @ q) + 1)) None = Inr ?ver"
    by (simp add: line)
  have np: "CHR ''?'' \<notin> set p" using p by (simp add: no_chars_def)
  note known = setMethod_known [OF m, of r]
  have "processRequestLine ?line r =
    and_then (Inr (if q = [] then setPath p (r\<lparr>req_method := m\<rparr>)
                   else setQuery q (setPath p (r\<lparr>req_method := m\<rparr>))))
      (\<lambda>r2. Inr (True, setVersion v r2))"
    unfolding processRequestLine_def f1 option.case s1 and_then.simps known prod.case Let_def f2
    by (simp only: not_True_eq_False if_False option.case diff_add_inverse s2 and_then.simps
        split_path_query [OF np q(2)] s3 version_tail [OF v])
  then show ?thesis by simp
qed

section \<open>Header lines\<close>

text \<open>A value that survives the trimming of blanks: not empty, no blank at either end.\<close>

definition trimmed :: "bytes \<Rightarrow> bool" where
  "trimmed v \<longleftrightarrow> v \<noteq> [] \<and> hd v \<noteq> CHR '' '' \<and> last v \<noteq> CHR '' ''"

lemma processHeaderLine_value:
  assumes k: "CHR '':'' \<notin> set k" and v: "trimmed v"
  shows "processHeaderLine (k @ CHR '':'' # replicate m (CHR '' '') @ v @ replicate n (CHR '' '')) r
       = Inr (Some (addHeader k v r))"
proof -
  let ?blank = "CHR '' ''"
  let ?line = "k @ CHR '':'' # replicate m ?blank @ v @ replicate n ?blank"
  obtain x xs where hd: "v = x # xs" "x \<noteq> ?blank" using v by (cases v) (auto simp: trimmed_def)
  obtain ys y where last: "v = ys @ [y]" "y \<noteq> ?blank"
    using v by (cases v rule: rev_cases) (auto simp: trimmed_def)
  have colon: "sv_find ?line (CHR '':'') 0 = Some (length k)" by (rule sv_find_first [OF k])
  have vb: "find_first_not_of ?line ?blank (length k + 1) = Some (length k + 1 + m)"
    using find_first_not_of_at [OF hd(2), of "k @ [CHR '':'']" m "xs @ replicate n ?blank"]
    by (simp add: hd(1))
  have ve: "find_last_not_of ?line ?blank = Some (length k + m + length v)"
    using find_last_not_of_snoc [OF last(2), of "k @ CHR '':'' # replicate m ?blank @ ys" n]
    by (simp add: last(1))
  have len: "size_sub (length k + m + length v + 1) (length k + 1 + m) = length v"
    using hd(1) by simp
  have sub: "substr ?line (Some (length k + 1 + m)) (Some (length v)) = Inr v" by simp
  show ?thesis
    unfolding processHeaderLine_def Let_def colon next_pos_def option.case vb ve
      prod.case len sub
    by simp
qed

lemma processHeaderLine_no_colon:
  "CHR '':'' \<notin> set line \<Longrightarrow> processHeaderLine line r = Inr None"
  by (simp add: processHeaderLine_def sv_find_absent)

lemma processHeaderLine_blank:
  assumes "CHR '':'' \<notin> set k"
  shows "processHeaderLine (k @ CHR '':'' # replicate n (CHR '' '')) r = Inl Out_of_range"
proof -
  have colon: "sv_find (k @ CHR '':'' # replicate n (CHR '' '')) (CHR '':'') 0 = Some (length k)"
    by (rule sv_find_first [OF assms])
  have "find_first_not_of (k @ CHR '':'' # replicate n (CHR '' '')) (CHR '' '') (length k + 1) = None"
    using find_first_not_of_blank [of "replicate n (CHR '' '')" "CHR '' ''" "k @ [CHR '':'']"]
    by (auto simp: set_replicate_conv_if)
  with colon show ?thesis by (simp add: processHeaderLine_def next_pos_def)
qed

text \<open>A string is blanks only, or blanks around a trimmed string.\<close>

lemma blanks_or_trimmed:
  "(\<exists>n. s = replicate n (CHR '' '')) \<or>
   (\<exists>m v n. s = replicate m (CHR '' '') @ v @ replicate n (CHR '' '') \<and> trimmed v)"
proof (induction s)
  case Nil
  then show ?case by (metis replicate_0)
next
  case (Cons x xs)
  show ?case
  proof (cases "x = CHR '' ''")
    case True
    with Cons.IH show ?thesis by (metis append_Cons replicate_Suc)
  next
    case False
    consider n where "xs = replicate n (CHR '' '')"
      | m v n where "xs = replicate m (CHR '' '') @ v @ replicate n (CHR '' '')" "trimmed v"
      using Cons.IH by blast
    then show ?thesis
    proof cases
      case (1 n)
      then have "x # xs = replicate 0 (CHR '' '') @ [x] @ replicate n (CHR '' '')" by simp
      moreover have "trimmed [x]" using False by (simp add: trimmed_def)
      ultimately show ?thesis by blast
    next
      case (2 m v n)
      let ?v = "x # replicate m (CHR '' '') @ v"
      have "x # xs = replicate 0 (CHR '' '') @ ?v @ replicate n (CHR '' '')" using 2(1) by simp
      moreover have "trimmed ?v" using False 2(2) by (simp add: trimmed_def)
      ultimately show ?thesis by blast
    qed
  qed
qed

lemma processHeaderLine_Inl:
  "processHeaderLine line r = Inl e \<longleftrightarrow>
     e = Out_of_range \<and>
     (\<exists>k n. CHR '':'' \<notin> set k \<and> line = k @ CHR '':'' # replicate n (CHR '' ''))"
proof (cases "CHR '':'' \<in> set line")
  case False
  then show ?thesis by (auto simp: processHeaderLine_no_colon)
next
  case True
  then obtain k t where kt: "line = k @ CHR '':'' # t" "CHR '':'' \<notin> set k"
    by (metis split_list_first)
  consider n where "t = replicate n (CHR '' '')"
    | m v n where "t = replicate m (CHR '' '') @ v @ replicate n (CHR '' '')" "trimmed v"
    using blanks_or_trimmed [of t] by blast
  then show ?thesis
  proof cases
    case 1
    with kt processHeaderLine_blank [OF kt(2)] show ?thesis by auto
  next
    case (2 m v n)
    have ok: "processHeaderLine line r = Inr (Some (addHeader k v r))"
      using processHeaderLine_value [OF kt(2) 2(2)] kt(1) 2(1) by simp
    have "\<not> (\<exists>k n. CHR '':'' \<notin> set k \<and> line = k @ CHR '':'' # replicate n (CHR '' ''))"
      using ok processHeaderLine_blank by (metis Inl_Inr_False)
    with ok show ?thesis by simp
  qed
qed

lemma processRequestLine_total: "\<exists>x. processRequestLine line r = Inr x"
proof (cases "sv_find line (CHR '' '') 0")
  case None
  then have "processRequestLine line r = Inr (False, r)" by (simp add: processRequestLine_def)
  then show ?thesis ..
next
  case (Some k)
  obtain known r1 where km: "setMethod (take k line) r = (known, r1)" by fastforce
  have sub1: "substr line (Some 0) (Some k) = Inr (take k line)" by simp
  show ?thesis
  proof (cases "known \<and> sv_find line (CHR '' '') (k + 1) \<noteq> None")
    case False
    with Some sub1 km show ?thesis
      by (cases known) (auto simp: processRequestLine_def)
  next
    case True
    then obtain k2 where k2: "sv_find line (CHR '' '') (k + 1) = Some k2" by blast
    from sv_find_bounds [OF this] have le: "k + 1 \<le> length line" "k2 + 1 \<le> length line" by simp_all
    let ?pq = "take (k2 - (k + 1)) (drop (k + 1) line)"
    have sub2: "substr line (Some (k + 1)) (Some (k2 - (k + 1))) = Inr ?pq"
      using le(1) by simp
    have sub3: "substr line (Some (k2 + 1)) None = Inr (drop (k2 + 1) line)"
      using le(2) by simp
    show ?thesis
    proof (cases "sv_find ?pq (CHR ''?'') 0")
      case None
      show ?thesis
        unfolding processRequestLine_def Some option.case sub1 and_then.simps km prod.case Let_def
          k2 sub2 None sub3 by auto
    next
      case (Some q)
      have "q \<le> length ?pq" using sv_find_bounds [OF Some] by simp
      then have sub4: "substr ?pq (Some 0) (Some q) = Inr (take q ?pq)"
        "substr ?pq (Some q) None = Inr (drop q ?pq)"
        by (simp_all only: substr_in le0 drop0)
      show ?thesis
        unfolding processRequestLine_def \<open>sv_find line (CHR '' '') 0 = Some k\<close> option.case sub1
          and_then.simps km prod.case Let_def k2 sub2 Some sub4 sub3 by auto
    qed
  qed
qed

section \<open>Printing a request and parsing it back\<close>

lemma next_line_no_LF:
  "CHR 0x0A \<notin> set line \<Longrightarrow> next_line (line @ kCRLF @ rest) = Some (line, rest)"
proof -
  assume "CHR 0x0A \<notin> set line"
  then have "memmem (line @ kCRLF @ rest) kCRLF = Some (length line)"
  proof (induction line)
    case Nil
    then show ?case by (simp add: kCRLF_def)
  next
    case (Cons x line)
    then have "take 2 (x # line @ kCRLF @ rest) \<noteq> kCRLF"
      by (cases line) (auto simp: kCRLF_def)
    with Cons show ?case by (simp add: kCRLF_def)
  qed
  then show ?thesis by (simp add: next_line_def kCRLF_def)
qed

definition render_header :: "bytes \<times> bytes \<Rightarrow> bytes" where
  "render_header kv = fst kv @ CHR '':'' # CHR '' '' # snd kv @ kCRLF"

definition render_request ::
  "http_method \<Rightarrow> bytes \<Rightarrow> bytes \<Rightarrow> http_version \<Rightarrow> (bytes \<times> bytes) list \<Rightarrow> bytes"
where
  "render_request m p q v hs =
     render_request_line m p q v @ kCRLF @ concat (map render_header hs) @ kCRLF"

definition header_ok :: "bytes \<times> bytes \<Rightarrow> bool" where
  "header_ok kv \<longleftrightarrow> no_chars [CHR '':'', CHR 0x0A] (fst kv) \<and>
     no_chars [CHR 0x0A] (snd kv) \<and> trimmed (snd kv)"

definition target_ok :: "bytes \<Rightarrow> bytes \<Rightarrow> bool" where
  "target_ok p q \<longleftrightarrow> no_chars [CHR '' '', CHR ''?'', CHR 0x0A] p \<and>
     no_chars [CHR '' '', CHR 0x0A] q \<and> query_ok q"

text \<open>The request that such a text stands for.\<close>

definition request_of ::
  "http_method \<Rightarrow> bytes \<Rightarrow> bytes \<Rightarrow> http_version \<Rightarrow> int \<Rightarrow> (bytes \<times> bytes) list \<Rightarrow> http_request"
where
  "request_of m p q v t hs =
     \<lparr>req_method = m, req_version = v, req_path = p, req_query = q, req_receiveTime = t,
      req_headers = map_of (rev hs)\<rparr>"

lemma spec_headers_render:
  "list_all header_ok hs \<Longrightarrow>
     spec_headers r (concat (map render_header hs) @ kCRLF @ rest)
     = Inr (kGotAll, r\<lparr>req_headers := req_headers r ++ map_of (rev hs)\<rparr>, rest)"
proof (induction hs arbitrary: r)
  case Nil
  have "next_line (kCRLF @ rest) = Some ([], rest)" using next_line_no_LF [of "[]"] by simp
  then show ?case
    by (simp add: spec_headers.simps [of r] processHeaderLine_no_colon)
next
  case (Cons kv hs)
  obtain k v where kv: "kv = (k, v)" by (cases kv)
  let ?rest = "concat (map render_header hs) @ kCRLF @ rest"
  let ?line = "k @ CHR '':'' # CHR '' '' # v"
  from Cons.prems have ok: "CHR '':'' \<notin> set k" "trimmed v" "CHR 0x0A \<notin> set ?line"
    by (simp_all add: kv header_ok_def no_chars_def)
  have print_eq: "concat (map render_header (kv # hs)) @ kCRLF @ rest = ?line @ kCRLF @ ?rest"
    by (simp add: kv render_header_def)
  have header: "processHeaderLine ?line r = Inr (Some (addHeader k v r))"
    using processHeaderLine_value [OF ok(1,2), of 1 0 r] by simp
  have upd: "(addHeader k v r)\<lparr>req_headers := req_headers (addHeader k v r) ++ map_of (rev hs)\<rparr>
      = r\<lparr>req_headers := req_headers r ++ map_of (rev (kv # hs))\<rparr>"
    by (simp add: addHeader_def kv)
  have "spec_headers r (?line @ kCRLF @ ?rest) = spec_headers (addHeader k v r) ?rest"
    using next_line_no_LF [OF ok(3)] header by (simp add: spec_headers.simps [of r])
  also have "\<dots> = Inr (kGotAll, (addHeader k v r)
      \<lparr>req_headers := req_headers (addHeader k v r) ++ map_of (rev hs)\<rparr>, rest)"
    using Cons.IH Cons.prems by simp
  finally show ?case unfolding print_eq upd .
qed

lemma render_line_no_LF:
  "target_ok p q \<Longrightarrow> CHR 0x0A \<notin> set (render_request_line m p q v)"
  by (cases m; cases v) (auto simp: render_request_line_def target_ok_def no_chars_def)

lemma spec_parse_render:
  assumes m: "method_known m" and v: "v \<in> {kHttp10, kHttp11}" and pq: "target_ok p q"
    and hs: "list_all header_ok hs"
    and chk: "chk ((request_of m p q v 0 []))"
  shows "spec_parse chk t kExpectRequestLine HttpRequest_new (render_request m p q v hs @ rest)
       = Inr (True, kGotAll, request_of m p q v t hs, rest)"
proof -
  let ?line = "render_request_line m p q v"
  let ?rest = "concat (map render_header hs) @ kCRLF @ rest"
  have pq': "no_chars [CHR '' '', CHR ''?''] p" "no_chars [CHR '' ''] q" "query_ok q"
    using pq by (auto simp: target_ok_def no_chars_def)
  have nl: "next_line (render_request m p q v hs @ rest) = Some (?line, ?rest)"
    using next_line_no_LF [OF render_line_no_LF [OF pq]] by (simp add: render_request_def)
  have req: "processRequestLine ?line HttpRequest_new = Inr (True, request_of m p q v 0 [])"
    using processRequestLine_render [OF m v pq', of HttpRequest_new]
    by (simp add: request_of_def HttpRequest_new_def request_defs)
  show ?thesis
    using nl req chk spec_headers_render [OF hs, of "setReceiveTime t (request_of m p q v 0 [])"]
    by (simp add: request_of_def request_defs)
qed

section \<open>At the level of the buffer\<close>

lemma parseRequest_spec:
  assumes "buffer_inv buf" and "ctx_state c \<in> {kExpectRequestLine, kExpectHeaders}"
  obtains res where "parseRequest t c buf = Some res"
    and "parsed res = spec_parse (ctx_check c) t (ctx_state c) (ctx_request c) (toStringView buf)"
    and "\<And>ok c' buf'. res = Inr (ok, c', buf') \<Longrightarrow> buffer_inv buf' \<and> ctx_check c' = ctx_check c"
  using parse_loop_refines [OF assms, of t] by (auto simp: parses_to_def parseRequest_def)

lemma parsed_eq_Inr:
  "parsed res = Inr (ok, st, r, s) \<longleftrightarrow>
     (\<exists>c buf. res = Inr (ok, c, buf) \<and> ctx_state c = st \<and> ctx_request c = r \<and> toStringView buf = s)"
  by (cases res) (auto simp: parsed_def)

lemma parsed_eq_Inl: "parsed res = Inl e \<longleftrightarrow> res = Inl e"
  by (cases res) (auto simp: parsed_def)

lemma spec_headers_state:
  "spec_headers r s = Inr (st, r', rest) \<Longrightarrow> st \<in> {kExpectHeaders, kGotAll} \<and> length rest \<le> length s"
proof (induction r s rule: spec_headers.induct)
  case (1 r s)
  note IH = "1.IH"
  show ?case
  proof (cases "next_line s")
    case None
    with "1.prems" show ?thesis by (simp add: spec_headers.simps [of r s])
  next
    case (Some lr)
    obtain line tl where lr: "lr = (line, tl)" by (cases lr)
    have len: "length tl < length s" using next_line_length Some lr by simp
    show ?thesis
      using "1.prems" Some lr len IH [OF Some lr [symmetric]]
      by (fastforce simp: spec_headers.simps [of r s] split: sum.splits option.splits)
  qed
qed

text \<open>A successful parse stays ready or is complete; a complete one has consumed something.\<close>

lemma spec_parse_state:
  assumes "spec_parse chk t st r s = Inr (True, st', r', rest)"
    and "st \<in> {kExpectRequestLine, kExpectHeaders}"
  shows "st' \<in> {kExpectRequestLine, kExpectHeaders, kGotAll}"
    and "st' = kGotAll \<Longrightarrow> length rest < length s"
proof -
  have headers: "spec_headers r0 s0 = Inr (kGotAll, r1, s1) \<Longrightarrow> length s1 < length s0" for r0 s0 r1 s1
  proof (induction r0 s0 rule: spec_headers.induct)
    case (1 r0 s0)
    then show ?case
      by (subst (asm) (2) spec_headers.simps)
        (fastforce split: option.splits sum.splits prod.splits dest: next_line_length)
  qed
  show "st' \<in> {kExpectRequestLine, kExpectHeaders, kGotAll}"
    using assms
    by (auto split: option.splits if_splits prod.splits sum.splits dest!: spec_headers_state)
  show "length rest < length s" if "st' = kGotAll"
    using assms that
    by (auto split: option.splits if_splits prod.splits sum.splits
        dest!: headers next_line_length)
qed

lemma spec_headers_Inl: "spec_headers r s = Inl e \<Longrightarrow> e = Out_of_range"
proof (induction r s rule: spec_headers.induct)
  case (1 r s)
  then show ?case
    by (subst (asm) (2) spec_headers.simps)
      (auto simp: processHeaderLine_Inl split: option.splits sum.splits prod.splits)
qed

lemma spec_parse_Inl: "spec_parse chk t st r s = Inl e \<Longrightarrow> e = Out_of_range"
proof (cases "st = kExpectRequestLine")
  case False
  assume "spec_parse chk t st r s = Inl e"
  with False show ?thesis
    by (cases st) (auto dest: spec_headers_Inl)
next
  case True
  assume run: "spec_parse chk t st r s = Inl e"
  show ?thesis
  proof (cases "next_line s")
    case None
    with run True show ?thesis by simp
  next
    case (Some lr)
    obtain line rest where lr: "lr = (line, rest)" by (cases lr)
    obtain ok r1 where "processRequestLine line r = Inr (ok, r1)"
      using processRequestLine_total [of line r] by auto
    with run True Some lr show ?thesis by (auto dest: spec_headers_Inl split: if_splits)
  qed
qed

section \<open>Properties\<close>

declare spec_parse.simps [simp del]

text \<open>
  C18. A request printed with any known method, version, path, query and headers and put into the
  input buffer, with anything after it, is parsed back to exactly that request; what follows it
  stays in the buffer, and the parser is at the end of a request.
\<close>

theorem parse_printed_request:
  assumes "buffer_inv buf" and "toStringView buf = render_request m p q v hs @ rest"
    and "method_known m" and "v \<in> {kHttp10, kHttp11}" and "target_ok p q"
    and "list_all header_ok hs" and "chk (request_of m p q v 0 [])"
  shows "\<exists>c' buf'. parseRequest t (HttpContext_new chk) buf = Some (Inr (True, c', buf')) \<and>
     gotAll c' \<and> ctx_request c' = request_of m p q v t hs \<and>
     buffer_inv buf' \<and> toStringView buf' = rest"
proof -
  let ?c = "HttpContext_new chk"
  have c: "ctx_state ?c = kExpectRequestLine" "ctx_request ?c = HttpRequest_new" "ctx_check ?c = chk"
    by (simp_all add: HttpContext_new_def)
  obtain res where res: "parseRequest t ?c buf = Some res"
    "parsed res = spec_parse chk t kExpectRequestLine HttpRequest_new (toStringView buf)"
    "\<And>ok c' buf'. res = Inr (ok, c', buf') \<Longrightarrow> buffer_inv buf' \<and> ctx_check c' = ctx_check ?c"
    using parseRequest_spec [OF assms(1), of ?c t] unfolding c by auto
  have "parsed res = Inr (True, kGotAll, request_of m p q v t hs, rest)"
    using res(2) spec_parse_render [where chk = chk, OF assms(3-7)] assms(2) by simp
  with res(1,3) show ?thesis by (auto simp: parsed_eq_Inr gotAll_def)
qed

theorem parse_printed_request_witness:
  "\<exists>buf c' buf'. parseRequest 7 (HttpContext_new (\<lambda>_. True)) buf = Some (Inr (True, c', buf')) \<and>
     ctx_request c' = request_of kGet ''/a'' ''?x=1'' kHttp11 7 [(''Host'', ''b'')] \<and>
     toStringView buf' = ''tail''"
proof -
  let ?text = "render_request kGet ''/a'' ''?x=1'' kHttp11 [(''Host'', ''b'')] @ ''tail''"
  obtain buf where buf: "buffer_inv buf" "toStringView buf = ?text"
    using append_bytes_correct [OF buffer_inv_new, of ?text] by auto
  have pre: "method_known kGet" "kHttp11 \<in> {kHttp10, kHttp11}" "target_ok ''/a'' ''?x=1''"
    "list_all header_ok [(''Host'', ''b'')]"
    by (simp_all add: method_known_def target_ok_def query_ok_def no_chars_def header_ok_def trimmed_def)
  show ?thesis using parse_printed_request [OF buf pre, of "\<lambda>_. True" 7] by blast
qed

text \<open>
  C17. The parser may be fed in pieces: parsing what has arrived, then appending more and parsing
  again, ends with the same verdict, state, request and unread bytes as parsing everything at once.
\<close>

theorem parse_in_pieces:
  assumes "buffer_inv buf" and "ctx_state c \<in> {kExpectRequestLine, kExpectHeaders}"
    and "parseRequest t c buf = Some (Inr (True, c1, buf1))" and "\<not> gotAll c1"
    and "append_bytes extra buf1 = Inr buf2" and "append_bytes extra buf = Inr whole"
  shows "\<exists>res all. parseRequest t c1 buf2 = Some res \<and> parseRequest t c whole = Some all \<and>
     parsed res = parsed all"
proof -
  obtain res1 where "parseRequest t c buf = Some res1"
    and spec1: "parsed res1 = spec_parse (ctx_check c) t (ctx_state c) (ctx_request c) (toStringView buf)"
    and keep: "\<And>ok c' buf'. res1 = Inr (ok, c', buf') \<Longrightarrow> buffer_inv buf' \<and> ctx_check c' = ctx_check c"
    using parseRequest_spec [OF assms(1,2), of t] by blast
  with assms(3) have res1: "res1 = Inr (True, c1, buf1)" by simp
  with keep have c1: "buffer_inv buf1" "ctx_check c1 = ctx_check c" by simp_all
  have p1: "spec_parse (ctx_check c) t (ctx_state c) (ctx_request c) (toStringView buf)
      = Inr (True, ctx_state c1, ctx_request c1, toStringView buf1)"
    using spec1 by (simp add: res1 parsed_def)
  have st1: "ctx_state c1 \<in> {kExpectRequestLine, kExpectHeaders}"
    using spec_parse_state(1) [OF p1 assms(2)] assms(4) by (simp add: gotAll_def)
  have buf2: "buffer_inv buf2" "toStringView buf2 = toStringView buf1 @ extra"
    using append_bytes_correct [OF c1(1), of extra] assms(5) by auto
  have whole: "buffer_inv whole" "toStringView whole = toStringView buf @ extra"
    using append_bytes_correct [OF assms(1), of extra] assms(6) by auto
  obtain res where res: "parseRequest t c1 buf2 = Some res"
    "parsed res = spec_parse (ctx_check c) t (ctx_state c1) (ctx_request c1) (toStringView buf2)"
    using parseRequest_spec [OF buf2(1) st1, of t] unfolding c1(2) by metis
  obtain all where all: "parseRequest t c whole = Some all"
    "parsed all = spec_parse (ctx_check c) t (ctx_state c) (ctx_request c) (toStringView whole)"
    by (rule parseRequest_spec [OF whole(1) assms(2), of t])
  have "parsed all = parsed res"
    unfolding all(2) res(2) whole(2) buf2(2)
    using spec_parse_append [OF assms(2), of "ctx_check c" t "ctx_request c"] p1 assms(4)
    by (simp add: gotAll_def)
  with res(1) all(1) show ?thesis by auto
qed

theorem parse_in_pieces_witness:
  "\<exists>buf c1 buf1 buf2 res. parseRequest 0 (HttpContext_new (\<lambda>_. True)) buf = Some (Inr (True, c1, buf1)) \<and>
     append_bytes (''ET / HTTP/1.0'' @ kCRLF @ kCRLF) buf1 = Inr buf2 \<and>
     parseRequest 0 c1 buf2 = Some res \<and>
     parsed res = Inr (True, kGotAll, request_of kGet ''/'' [] kHttp10 0 [], [])"
proof -
  let ?c = "HttpContext_new (\<lambda>_. True)"
  let ?extra = "''ET / HTTP/1.0'' @ kCRLF @ kCRLF"
  have st: "ctx_state ?c \<in> {kExpectRequestLine, kExpectHeaders}" by (simp add: HttpContext_new_def)
  obtain buf where buf: "buffer_inv buf" "toStringView buf = ''G''"
    using append_bytes_correct [OF buffer_inv_new, of "''G''"] by auto
  obtain res1 where r1: "parseRequest 0 ?c buf = Some res1"
    "parsed res1 = spec_parse (ctx_check ?c) 0 (ctx_state ?c) (ctx_request ?c) ''G''"
    "\<And>ok c' buf'. res1 = Inr (ok, c', buf') \<Longrightarrow> buffer_inv buf' \<and> ctx_check c' = ctx_check ?c"
    using parseRequest_spec [OF buf(1) st, of 0] unfolding buf(2) by blast
  have "next_line ''G'' = None" by code_simp
  with r1(2) have "parsed res1 = Inr (True, kExpectRequestLine, HttpRequest_new, ''G'')"
    by (simp add: HttpContext_new_def spec_parse.simps)
  then obtain c1 buf1 where c1: "res1 = Inr (True, c1, buf1)" "ctx_state c1 = kExpectRequestLine"
    "toStringView buf1 = ''G''"
    by (auto simp: parsed_eq_Inr)
  have inv1: "buffer_inv buf1" using r1(3) c1(1) by simp
  obtain buf2 where buf2: "append_bytes ?extra buf1 = Inr buf2"
    using append_bytes_correct [OF inv1] by blast
  obtain whole where whole: "append_bytes ?extra buf = Inr whole" "buffer_inv whole"
    "toStringView whole = ''G'' @ ?extra"
    using append_bytes_correct [OF buf(1)] buf(2) by metis
  have run: "parseRequest 0 ?c buf = Some (Inr (True, c1, buf1))" "\<not> gotAll c1"
    using r1(1) c1 by (simp_all add: gotAll_def)
  obtain res al where res: "parseRequest 0 c1 buf2 = Some res" "parseRequest 0 ?c whole = Some al"
    "parsed res = parsed al"
    using parse_in_pieces [OF buf(1) st run buf2 whole(1)] by blast
  have pre: "method_known kGet" "kHttp10 \<in> {kHttp10, kHttp11}" "target_ok ''/'' []" "list_all header_ok []"
    by (simp_all add: method_known_def target_ok_def query_ok_def no_chars_def)
  have "''G'' @ ?extra = render_request kGet ''/'' [] kHttp10 [] @ []"
    by (simp add: render_request_def render_request_line_def)
  with spec_parse_render [OF pre, of "\<lambda>_. True" 0 "[]"]
  have "spec_parse (\<lambda>_. True) 0 kExpectRequestLine HttpRequest_new (''G'' @ ?extra)
      = Inr (True, kGotAll, request_of kGet ''/'' [] kHttp10 0 [], [])" by simp
  moreover obtain al' where "parseRequest 0 ?c whole = Some al'"
    "parsed al' = spec_parse (ctx_check ?c) 0 (ctx_state ?c) (ctx_request ?c) (toStringView whole)"
    by (rule parseRequest_spec [OF whole(2) st, of 0])
  ultimately have "parsed al = Inr (True, kGotAll, request_of kGet ''/'' [] kHttp10 0 [], [])"
    using res(2) whole(3) by (simp add: HttpContext_new_def)
  with run(1) buf2 res show ?thesis by metis
qed

text \<open>
  The loop of \<open>parseRequest\<close> returns exactly when a request line or headers are expected; when it
  returns, either the exception is the \<open>out_of_range\<close> of \<open>substr\<close>, or the parser is in one of these
  states again or at the end of a request and the buffer is in order. At the end of a request (that
  was not reset) or in the body state the loop never returns.
\<close>

theorem parseRequest_returns:
  assumes "buffer_inv buf"
  shows "(parseRequest t c buf \<noteq> None \<longleftrightarrow> ctx_state c \<in> {kExpectRequestLine, kExpectHeaders}) \<and>
     (\<forall>e. parseRequest t c buf = Some (Inl e) \<longrightarrow> e = Out_of_range) \<and>
     (\<forall>c' buf'. parseRequest t c buf = Some (Inr (True, c', buf')) \<longrightarrow>
        ctx_state c' \<in> {kExpectRequestLine, kExpectHeaders, kGotAll} \<and> buffer_inv buf')"
proof (cases "ctx_state c \<in> {kExpectRequestLine, kExpectHeaders}")
  case True
  obtain res where res: "parseRequest t c buf = Some res"
    "parsed res = spec_parse (ctx_check c) t (ctx_state c) (ctx_request c) (toStringView buf)"
    "\<And>ok c' buf'. res = Inr (ok, c', buf') \<Longrightarrow> buffer_inv buf' \<and> ctx_check c' = ctx_check c"
    using parseRequest_spec [OF assms True, of t] by blast
  have "e = Out_of_range" if "res = Inl e" for e
    using that res(2) spec_parse_Inl by (metis parsed_eq_Inl)
  moreover have "ctx_state c' \<in> {kExpectRequestLine, kExpectHeaders, kGotAll}"
    if "res = Inr (True, c', buf')" for c' buf'
    using that res(2) spec_parse_state(1) [OF _ True] by (metis parsed_eq_Inr)
  ultimately show ?thesis using True res(1,3) by auto
next
  case False
  then have "ctx_state c \<in> {kExpectBody, kGotAll}" by (cases "ctx_state c") simp_all
  from parse_loop_stuck [OF this] False show ?thesis by (simp add: parseRequest_def)
qed

theorem parseRequest_returns_witness:
  "parseRequest 0 (HttpContext_new (\<lambda>_. True)) (Buffer_new 0) \<noteq> None \<and>
   parseRequest 0 ((HttpContext_new (\<lambda>_. True))\<lparr>ctx_state := kGotAll\<rparr>) (Buffer_new 0) = None"
  using parseRequest_returns [OF buffer_inv_new [of 0], of 0 "HttpContext_new (\<lambda>_. True)"]
    parseRequest_returns [OF buffer_inv_new [of 0], of 0 "(HttpContext_new (\<lambda>_. True))\<lparr>ctx_state := kGotAll\<rparr>"]
  by (simp add: HttpContext_new_def)

text \<open>
  C21. A header line whose value is empty or blank, which HTTP allows, makes \<open>parseRequest\<close> throw
  \<open>std::out_of_range\<close>: \<open>valueBegin\<close> is \<open>npos\<close> and \<open>substr\<close> is called with it. Nothing above
  catches the exception.
\<close>

theorem blank_header_value_throws:
  assumes "buffer_inv buf" and "ctx_state c = kExpectHeaders"
    and "no_chars [CHR '':'', CHR 0x0A] k"
    and "toStringView buf = k @ CHR '':'' # replicate n (CHR '' '') @ kCRLF @ rest"
  shows "parseRequest t c buf = Some (Inl Out_of_range)"
proof -
  let ?line = "k @ CHR '':'' # replicate n (CHR '' '')"
  have "CHR 0x0A \<notin> set ?line" using assms(3) by (simp add: no_chars_def)
  from next_line_no_LF [OF this, of rest]
  have "next_line (toStringView buf) = Some (?line, rest)" by (simp add: assms(4))
  moreover have "processHeaderLine ?line (ctx_request c) = Inl Out_of_range"
    using processHeaderLine_blank [of k n "ctx_request c"] assms(3) by (simp add: no_chars_def)
  ultimately have "spec_parse (ctx_check c) t (ctx_state c) (ctx_request c) (toStringView buf)
      = Inl Out_of_range"
    by (simp add: assms(2) spec_parse.simps spec_headers.simps [of "ctx_request c"])
  moreover have st: "ctx_state c \<in> {kExpectRequestLine, kExpectHeaders}" by (simp add: assms(2))
  ultimately show ?thesis
    using parseRequest_spec [OF assms(1) st, of t] by (metis parsed_eq_Inl)
qed

theorem blank_header_value_throws_witness:
  "\<exists>buf. toStringView buf = ''Accept:'' @ kCRLF \<and>
     parseRequest 0 ((HttpContext_new (\<lambda>_. True))\<lparr>ctx_state := kExpectHeaders\<rparr>) buf = Some (Inl Out_of_range)"
proof -
  obtain buf where buf: "buffer_inv buf" "toStringView buf = ''Accept:'' @ kCRLF"
    using append_bytes_correct [OF buffer_inv_new, of "''Accept:'' @ kCRLF"] by auto
  let ?c = "(HttpContext_new (\<lambda>_. True))\<lparr>ctx_state := kExpectHeaders\<rparr>"
  have "parseRequest 0 ?c buf = Some (Inl Out_of_range)"
    by (rule blank_header_value_throws [OF buf(1), where k = "''Accept''" and n = 0 and rest = "[]"])
      (simp_all add: buf(2) no_chars_def)
  with buf(2) show ?thesis by blast
qed

text \<open>
  \<open>DELETE\<close> is one of the methods of \<open>HttpRequest\<close>, but no request line with it is accepted:
  \<open>setMethod\<close> compares with \<open>HEAD\<close> a second time instead.
\<close>

theorem delete_is_refused:
  "processRequestLine (methodString_of kDelete @ CHR '' '' # target) HttpRequest_new
     = Inr (False, HttpRequest_new)"
proof -
  have find: "sv_find (''DELETE'' @ CHR '' '' # target) (CHR '' '') 0 = Some 6"
    using sv_find_first [of "CHR '' ''" "''DELETE''" target] by simp
  have "substr (''DELETE'' @ CHR '' '' # target) (Some 0) (Some 6) = Inr ''DELETE''" by simp
  moreover have "setMethod ''DELETE'' HttpRequest_new = (False, HttpRequest_new)"
    by (simp add: setMethod_def HttpRequest_new_def)
  ultimately show ?thesis
    using find by (simp only: processRequestLine_def methodString_of.simps option.case and_then.simps
        prod.case) simp
qed

end
