(* ===== verification/HttpResponse.thy ===== *)
theory HttpResponse
  imports Buffer
begin

text \<open>
  The response object of \<^verbatim>\<open>include/gg_lib/net/http/HttpResponse.h\<close> and its printing in
  \<^verbatim>\<open>gg_lib/net/http/HttpResponse.cc\<close>. The order in which \<^verbatim>\<open>std::unordered_map\<close> is traversed and the
  text that \<^verbatim>\<open>strftime\<close> produces for a second are arguments (\<open>order\<close>, \<open>date_text\<close>), as is the
  time that \<^verbatim>\<open>Timestamp::now()\<close> returns.
\<close>

record http_response =
  resp_headers :: "string \<rightharpoonup> string"
  statusCode :: int
  statusMessage :: string
  resp_body :: string
  closeConnection :: bool

definition HttpResponse_new :: "bool \<Rightarrow> http_response" where
  "HttpResponse_new close =
     \<lparr>resp_headers = Map.empty, statusCode = 0, statusMessage = '''', resp_body = '''',
      closeConnection = close\<rparr>"

definition setStatusCode :: "int \<Rightarrow> http_response \<Rightarrow> http_response" where
  "setStatusCode code r = r\<lparr>statusCode := code\<rparr>"

definition setStatusMessage :: "string \<Rightarrow> http_response \<Rightarrow> http_response" where
  "setStatusMessage message r = r\<lparr>statusMessage := message\<rparr>"

definition setCloseConnection :: "bool \<Rightarrow> http_response \<Rightarrow> http_response" where
  "setCloseConnection on r = r\<lparr>closeConnection := on\<rparr>"

definition resp_addHeader :: "string \<Rightarrow> string \<Rightarrow> http_response \<Rightarrow> http_response" where
  "resp_addHeader key v r = r\<lparr>resp_headers := (resp_headers r)(c_str key \<mapsto> c_str v)\<rparr>"

definition setContentType :: "string \<Rightarrow> http_response \<Rightarrow> http_response" where
  "setContentType contentType r = resp_addHeader ''Content-Type'' contentType r"

definition setBody :: "string \<Rightarrow> http_response \<Rightarrow> http_response" where
  "setBody b r = r\<lparr>resp_body := b\<rparr>"

definition reset_response :: "http_response \<Rightarrow> http_response" where
  "reset_response r =
     r\<lparr>resp_headers := Map.empty, statusMessage := '''', resp_body := '''', statusCode := 0,
       closeConnection := False\<rparr>"

section \<open>The date line, cached for the current second\<close>

record date_cache =
  t_dateTime :: bytes
  t_dateLastSecond :: int

definition refreshDateTime ::
  "(int \<Rightarrow> bytes) \<Rightarrow> int \<Rightarrow> date_cache \<Rightarrow> date_cache result"
where
  "refreshDateTime date_text now d =
     (let seconds = now sdiv 1000000 in
      if seconds \<noteq> t_dateLastSecond d
      then check (length (date_text seconds) = 37)
             (Inr \<lparr>t_dateTime = date_text seconds, t_dateLastSecond = seconds\<rparr>)
      else Inr d)"

section \<open>Printing\<close>

fun append_all :: "bytes list \<Rightarrow> buffer \<Rightarrow> buffer result" where
  "append_all [] b = Inr b"
| "append_all (s # ss) b = and_then (append_bytes s b) (append_all ss)"

definition status_parts :: "http_response \<Rightarrow> bytes list" where
  "status_parts r =
     [snprintf 32 (''HTTP/1.1 '' @ show_int (statusCode r) @ '' ''), statusMessage r, kCRLF]
     @ (if closeConnection r then [''Connection: close'' @ kCRLF]
        else [snprintf 32 (''Content-Length: '' @ show_nat (length (resp_body r)) @ kCRLF),
              ''Connection: Keep-Alive'' @ kCRLF])"

definition header_parts :: "(string \<times> string) list \<Rightarrow> bytes list" where
  "header_parts hs = concat (map (\<lambda>(k, v). [k, '': '', v, kCRLF]) hs)"

definition appendToBuffer ::
  "((string \<rightharpoonup> string) \<Rightarrow> (string \<times> string) list) \<Rightarrow> (int \<Rightarrow> bytes) \<Rightarrow> int \<Rightarrow>
     http_response \<Rightarrow> date_cache \<Rightarrow> buffer \<Rightarrow> (date_cache \<times> buffer) result"
where
  "appendToBuffer order date_text now r d output =
     and_then (append_all (status_parts r) output) (\<lambda>b1.
     and_then (append_all (header_parts (order (resp_headers r))) b1) (\<lambda>b2.
     and_then (refreshDateTime date_text now d) (\<lambda>d'.
     and_then (append_all [t_dateTime d', kCRLF, resp_body r] b2) (\<lambda>b3. Inr (d', b3)))))"

section \<open>What is printed\<close>

lemma append_all_correct:
  assumes "buffer_inv b"
  obtains b' where "append_all ss b = Inr b'" and "buffer_inv b'"
    and "toStringView b' = toStringView b @ concat ss"
  using assms
proof (induction ss arbitrary: b thesis)
  case Nil
  then show ?case by simp
next
  case (Cons s ss)
  obtain b1 where b1: "append_bytes s b = Inr b1" "buffer_inv b1"
    "toStringView b1 = toStringView b @ s"
    using append_bytes_correct [OF Cons.prems(2)] by blast
  show ?case by (rule Cons.IH [OF _ b1(2)]) (rule Cons.prems(1), simp_all add: b1)
qed

text \<open>The text of a response, given the date line.\<close>

definition response_text ::
  "((string \<rightharpoonup> string) \<Rightarrow> (string \<times> string) list) \<Rightarrow> bytes \<Rightarrow> http_response \<Rightarrow> bytes"
where
  "response_text order date r =
     concat (status_parts r) @ concat (header_parts (order (resp_headers r))) @ date @ kCRLF
     @ resp_body r"

text \<open>The cache holds the line of its second, once there is one.\<close>

definition date_cache_ok :: "(int \<Rightarrow> bytes) \<Rightarrow> date_cache \<Rightarrow> bool" where
  "date_cache_ok date_text d \<longleftrightarrow>
     t_dateLastSecond d \<noteq> 0 \<longrightarrow> t_dateTime d = date_text (t_dateLastSecond d)"

lemma refreshDateTime_correct:
  assumes "date_cache_ok date_text d" and "\<And>s. length (date_text s) = 37"
    and "now sdiv 1000000 \<noteq> 0"
  obtains d' where "refreshDateTime date_text now d = Inr d'" and "date_cache_ok date_text d'"
    and "t_dateTime d' = date_text (now sdiv 1000000)"
  using assms by (cases "now sdiv 1000000 = t_dateLastSecond d")
    (auto simp: refreshDateTime_def date_cache_ok_def Let_def)

lemma appendToBuffer_correct:
  assumes "buffer_inv b" and "date_cache_ok date_text d" and "\<And>s. length (date_text s) = 37"
    and "now sdiv 1000000 \<noteq> 0"
  obtains d' b' where "appendToBuffer order date_text now r d b = Inr (d', b')"
    and "date_cache_ok date_text d'" and "buffer_inv b'"
    and "toStringView b' =
           toStringView b @ response_text order (date_text (now sdiv 1000000)) r"
proof -
  obtain b1 where b1: "append_all (status_parts r) b = Inr b1" "buffer_inv b1"
    "toStringView b1 = toStringView b @ concat (status_parts r)"
    using append_all_correct [OF assms(1)] by blast
  obtain b2 where b2: "append_all (header_parts (order (resp_headers r))) b1 = Inr b2"
    "buffer_inv b2"
    "toStringView b2 = toStringView b1 @ concat (header_parts (order (resp_headers r)))"
    using append_all_correct [OF b1(2)] by blast
  obtain d' where d': "refreshDateTime date_text now d = Inr d'" "date_cache_ok date_text d'"
    "t_dateTime d' = date_text (now sdiv 1000000)"
    using refreshDateTime_correct [OF assms(2-4)] by blast
  obtain b3 where b3: "append_all [t_dateTime d', kCRLF, resp_body r] b2 = Inr b3" "buffer_inv b3"
    "toStringView b3 = toStringView b2 @ concat [t_dateTime d', kCRLF, resp_body r]"
    using append_all_correct [OF b2(2)] by blast
  have "appendToBuffer order date_text now r d b = Inr (d', b3)"
    using b1(1) b2(1) d'(1) b3(1) by (simp add: appendToBuffer_def del: append_all.simps)
  then show thesis
    using b1(3) b2(3) d' b3 by (intro that) (simp_all add: response_text_def)
qed

end
