(* ===== verification/HttpServer.thy ===== *)
theory HttpServer
  imports HttpParsing HttpResponse
begin

text \<open>
  The server side of a connection, \<^verbatim>\<open>gg_lib/net/http/HttpServer.cc\<close>: the context that a new
  connection gets, the choice of the callback, and the loop of \<^verbatim>\<open>onMessage\<close> that answers every
  complete request in the input buffer.
\<close>

section \<open>The server\<close>

text \<open>A \<^verbatim>\<open>std::function\<close> may be empty: \<open>None\<close>.\<close>

type_synonym http_callback = "(http_request \<Rightarrow> http_response \<Rightarrow> http_response) option"
type_synonym callback_map = "string \<rightharpoonup> http_callback"

text \<open>What the library and the platform contribute: see theory \<open>HttpResponse\<close>.\<close>

record http_env =
  env_order :: "(string \<rightharpoonup> string) \<Rightarrow> (string \<times> string) list"
  env_date_text :: "int \<Rightarrow> bytes"
  env_clock :: "nat \<Rightarrow> int"

definition setGetCallback :: "string \<Rightarrow> http_callback \<Rightarrow> callback_map \<Rightarrow> callback_map" where
  "setGetCallback path cb m = m(c_str path \<mapsto> cb)"

definition checkGetCallback :: "string \<Rightarrow> callback_map \<Rightarrow> bool" where
  "checkGetCallback path m \<longleftrightarrow> m (c_str path) \<noteq> None"

definition getCallback :: "string \<Rightarrow> callback_map \<Rightarrow> http_callback" where
  "getCallback path m = (case m (c_str path) of Some cb \<Rightarrow> cb | None \<Rightarrow> None)"

text \<open>The context that \<^verbatim>\<open>onConnection\<close> installs.\<close>

definition check_request :: "callback_map \<Rightarrow> http_request \<Rightarrow> bool" where
  "check_request m request \<longleftrightarrow>
     req_method request = kGet \<and> checkGetCallback (req_path request) m"

definition onConnection :: "callback_map \<Rightarrow> http_context" where
  "onConnection m = HttpContext_new (check_request m)"

definition onRequest :: "callback_map \<Rightarrow> http_request \<Rightarrow> http_response \<Rightarrow> http_response" where
  "onRequest m req resp =
     (let connection = getHeader ''Connection'' req;
          close = (connection = ''close'' \<or>
                   (req_version req = kHttp10 \<and> connection \<noteq> ''Keep-Alive''));
          resp1 = setCloseConnection close resp
      in if req_method req = kGet
         then case getCallback (req_path req) m of Some f \<Rightarrow> f req resp1 | None \<Rightarrow> resp1
         else resp1)"

definition bad_request :: bytes where
  "bad_request = ''HTTP/1.1 400 Bad Request'' @ kCRLF @ kCRLF"

text \<open>
  The loop. \<open>k\<close> counts the responses printed, to read the clock; the result is \<open>needClose\<close>, the
  context, the rest of the input, the output and the date cache.
\<close>

partial_function (option) message_loop ::
  "http_env \<Rightarrow> callback_map \<Rightarrow> int \<Rightarrow> nat \<Rightarrow> http_context \<Rightarrow> buffer \<Rightarrow> buffer \<Rightarrow> http_response \<Rightarrow>
     date_cache \<Rightarrow> (bool \<times> http_context \<times> buffer \<times> buffer \<times> date_cache) result option"
where
  "message_loop env m receiveTime k c buf outBuf response d =
     Option.bind (parseRequest receiveTime c buf) (\<lambda>res.
       case res of
         Inl e \<Rightarrow> Some (Inl e)
       | Inr (ok, c1, buf1) \<Rightarrow>
           if \<not> ok then
             (case append_bytes bad_request outBuf of
                Inl e \<Rightarrow> Some (Inl e)
              | Inr out1 \<Rightarrow> Some (Inr (True, reset_context c1, buf1, out1, d)))
           else if gotAll c1 then
             (let response1 = onRequest m (ctx_request c1) response in
              case appendToBuffer (env_order env) (env_date_text env) (env_clock env k)
                     response1 d outBuf of
                Inl e \<Rightarrow> Some (Inl e)
              | Inr (d1, out1) \<Rightarrow>
                  if closeConnection response1
                  then Some (Inr (True, reset_context c1, buf1, out1, d1))
                  else message_loop env m receiveTime (Suc k) (reset_context c1) buf1 out1
                         (reset_response response1) d1)
           else Some (Inr (False, c1, buf1, outBuf, d)))"

text \<open>
  \<^verbatim>\<open>onMessage\<close>: what is sent, whether the connection is then closed by force, and the state kept.
\<close>

definition onMessage ::
  "http_env \<Rightarrow> callback_map \<Rightarrow> int \<Rightarrow> http_context \<Rightarrow> buffer \<Rightarrow> date_cache \<Rightarrow>
     (bytes \<times> bool \<times> http_context \<times> buffer \<times> date_cache) result option"
where
  "onMessage env m receiveTime c buf d =
     Option.bind (message_loop env m receiveTime 0 c buf (Buffer_new kInitialSize)
                    (HttpResponse_new False) d)
       (\<lambda>res. Some (and_then res (\<lambda>(needClose, c', buf', outBuf, d').
          Inr (toStringView outBuf, needClose, c', buf', d'))))"

section \<open>The loop returns\<close>

definition env_ok :: "http_env \<Rightarrow> bool" where
  "env_ok env \<longleftrightarrow> (\<forall>s. length (env_date_text env s) = 37) \<and> (\<forall>k. env_clock env k sdiv 1000000 \<noteq> 0)"

definition context_ready :: "http_context \<Rightarrow> bool" where
  "context_ready c \<longleftrightarrow> ctx_state c \<in> {kExpectRequestLine, kExpectHeaders}"

lemma context_ready_new [simp]: "context_ready (onConnection m)"
  by (simp add: context_ready_def onConnection_def HttpContext_new_def)

lemma context_ready_reset [simp]: "context_ready (reset_context c)"
  by (simp add: context_ready_def reset_context_def)

lemma ctx_check_reset [simp]: "ctx_check (reset_context c) = ctx_check c"
  by (simp add: reset_context_def)

text \<open>
  The loop on byte strings: what is answered, whether the connection is closed, what is left.
\<close>

function spec_messages ::
  "http_env \<Rightarrow> callback_map \<Rightarrow> (http_request \<Rightarrow> bool) \<Rightarrow> int \<Rightarrow> nat \<Rightarrow> parse_state \<Rightarrow> http_request \<Rightarrow>
     bytes \<Rightarrow> (bool \<times> parse_state \<times> http_request \<times> bytes \<times> bytes) result"
where
  "spec_messages env m chk t k st r s =
     (if st \<notin> {kExpectRequestLine, kExpectHeaders} then Inr (False, st, r, s, [])
      else case spec_parse chk t st r s of
        Inl e \<Rightarrow> Inl e
      | Inr (ok, st1, r1, s1) \<Rightarrow>
          if \<not> ok then Inr (True, kExpectRequestLine, HttpRequest_new, s1, bad_request)
          else if st1 = kGotAll then
            (let resp = onRequest m r1 (HttpResponse_new False);
                 answer = response_text (env_order env)
                            (env_date_text env (env_clock env k sdiv 1000000)) resp
             in if closeConnection resp
                then Inr (True, kExpectRequestLine, HttpRequest_new, s1, answer)
                else map_sum id (\<lambda>(nc, st', r', s', out). (nc, st', r', s', answer @ out))
                       (spec_messages env m chk t (Suc k) kExpectRequestLine HttpRequest_new s1))
          else Inr (False, st1, r1, s1, []))"
  by pat_completeness auto
termination
  by (relation "measure (\<lambda>(env, m, chk, t, k, st, r, s). length s)")
    (auto dest: spec_parse_state(2))

declare spec_messages.simps [simp del]

lemma reset_response_new: "reset_response r = HttpResponse_new False"
  by (simp add: reset_response_def HttpResponse_new_def)

definition messaged ::
  "(bool \<times> http_context \<times> buffer \<times> buffer \<times> date_cache) result \<Rightarrow>
     (bool \<times> parse_state \<times> http_request \<times> bytes \<times> bytes) result"
where
  "messaged res = map_sum id (\<lambda>(nc, c, b, out, d).
     (nc, ctx_state c, ctx_request c, toStringView b, toStringView out)) res"

definition messages_to ::
  "http_env \<Rightarrow> callback_map \<Rightarrow> int \<Rightarrow> nat \<Rightarrow> http_context \<Rightarrow> buffer \<Rightarrow> buffer \<Rightarrow> date_cache \<Rightarrow>
     (bool \<times> parse_state \<times> http_request \<times> bytes \<times> bytes) result \<Rightarrow> bool"
where
  "messages_to env m t k c buf out d spec \<longleftrightarrow>
     (\<exists>res. message_loop env m t k c buf out (HttpResponse_new False) d = Some res \<and>
        messaged res =
          map_sum id (\<lambda>(nc, st, r, s, o'). (nc, st, r, s, toStringView out @ o')) spec \<and>
        (\<forall>nc c' b' out' d'. res = Inr (nc, c', b', out', d') \<longrightarrow>
           context_ready c' \<and> ctx_check c' = ctx_check c \<and> buffer_inv b' \<and> buffer_inv out' \<and>
           date_cache_ok (env_date_text env) d'))"

lemma message_loop_refines:
  assumes "env_ok env" and "context_ready c" and "buffer_inv buf" and "buffer_inv out"
    and "date_cache_ok (env_date_text env) d"
  shows "messages_to env m t k c buf out d
    (spec_messages env m (ctx_check c) t k (ctx_state c) (ctx_request c) (toStringView buf))"
  using assms(2-5)
proof (induction "length (toStringView buf)" arbitrary: k c buf out d rule: less_induct)
  case less
  note ready = less.prems(1) and inv = less.prems(2) and out = less.prems(3) and d = less.prems(4)
  let ?s = "toStringView buf"
  let ?parse = "spec_parse (ctx_check c) t (ctx_state c) (ctx_request c) ?s"
  have st: "ctx_state c \<in> {kExpectRequestLine, kExpectHeaders}"
    using ready by (simp add: context_ready_def)
  obtain res where res: "parseRequest t c buf = Some res" "parsed res = ?parse"
    "\<And>ok c' buf'. res = Inr (ok, c', buf') \<Longrightarrow> buffer_inv buf' \<and> ctx_check c' = ctx_check c"
    using parseRequest_spec [OF inv st, of t] by blast
  note unfold = messages_to_def messaged_def message_loop.simps [of env m t k c buf] res(1)
    spec_messages.simps [of env m "ctx_check c" t k "ctx_state c" "ctx_request c"]
  show ?case
  proof (cases res)
    case (Inl e)
    then have "?parse = Inl e" using res(2) parsed_eq_Inl by metis
    with Inl st show ?thesis by (simp add: unfold)
  next
    case (Inr x)
    obtain ok c1 buf1 where x: "x = (ok, c1, buf1)" by (cases x)
    have p: "?parse = Inr (ok, ctx_state c1, ctx_request c1, toStringView buf1)"
      using res(2) by (simp add: Inr x parsed_def)
    have inv1: "buffer_inv buf1" "ctx_check c1 = ctx_check c" using res(3) Inr x by simp_all
    show ?thesis
    proof (cases ok)
      case False
      obtain out1 where "append_bytes bad_request out = Inr out1" "buffer_inv out1"
        "toStringView out1 = toStringView out @ bad_request"
        using append_bytes_correct [OF out] by blast
      with False st p Inr x inv1 d show ?thesis
        by (auto simp: unfold reset_context_def swap_request_def context_ready_def)
    next
      case True
      have pT: "?parse = Inr (True, ctx_state c1, ctx_request c1, toStringView buf1)"
        using p True by simp
      show ?thesis
      proof (cases "gotAll c1")
        case False
        with spec_parse_state(1) [OF pT st] have "context_ready c1"
          by (simp add: context_ready_def gotAll_def)
        with True False st p Inr x inv1 out d show ?thesis
          by (auto simp: unfold gotAll_def)
      next
        case got: True
        let ?resp = "onRequest m (ctx_request c1) (HttpResponse_new False)"
        let ?date = "env_date_text env (env_clock env k sdiv 1000000)"
        obtain d1 out1 where print: "appendToBuffer (env_order env) (env_date_text env)
            (env_clock env k) ?resp d out = Inr (d1, out1)"
          "date_cache_ok (env_date_text env) d1" "buffer_inv out1"
          "toStringView out1 = toStringView out @ response_text (env_order env) ?date ?resp"
          using appendToBuffer_correct [OF out d] assms(1) unfolding env_ok_def by blast
        have shorter: "length (toStringView buf1) < length ?s"
          using spec_parse_state(2) [OF pT st] got by (simp add: gotAll_def)
        let ?c = "reset_context c1"
        have c: "ctx_state ?c = kExpectRequestLine" "ctx_request ?c = HttpRequest_new"
          by (simp_all add: reset_context_def swap_request_def)
        show ?thesis
        proof (cases "closeConnection ?resp")
          case True
          with \<open>ok\<close> got st p Inr x inv1 print c show ?thesis
            by (auto simp: unfold Let_def gotAll_def)
        next
          case False
          have "messages_to env m t (Suc k) ?c buf1 out1 d1 (spec_messages env m (ctx_check c) t
              (Suc k) kExpectRequestLine HttpRequest_new (toStringView buf1))"
            using less.hyps [OF shorter, of ?c out1 d1 "Suc k"] inv1 print c by simp
          then obtain res' where res': "message_loop env m t (Suc k) ?c buf1 out1
              (HttpResponse_new False) d1 = Some res'"
            "messaged res' = map_sum id (\<lambda>(nc, st, r, s, o'). (nc, st, r, s, toStringView out1 @ o'))
               (spec_messages env m (ctx_check c) t (Suc k) kExpectRequestLine HttpRequest_new
                  (toStringView buf1))"
            "\<forall>nc c' b' out' d'. res' = Inr (nc, c', b', out', d') \<longrightarrow>
               context_ready c' \<and> ctx_check c' = ctx_check c \<and> buffer_inv b' \<and> buffer_inv out' \<and>
               date_cache_ok (env_date_text env) d'"
            using inv1 by (auto simp: messages_to_def)
          have run: "message_loop env m t k c buf out (HttpResponse_new False) d = Some res'"
            using \<open>ok\<close> got False Inr x print(1) res'(1)
            by (simp add: message_loop.simps [of env m t k c buf] res(1) Let_def reset_response_new)
          have spec: "spec_messages env m (ctx_check c) t k (ctx_state c) (ctx_request c) ?s =
              map_sum id (\<lambda>(nc, st', r', s', o'). (nc, st', r', s',
                  response_text (env_order env) ?date ?resp @ o'))
                (spec_messages env m (ctx_check c) t (Suc k) kExpectRequestLine HttpRequest_new
                  (toStringView buf1))"
            using \<open>ok\<close> got False st p
            by (simp add: spec_messages.simps [of env m "ctx_check c" t k "ctx_state c"] Let_def gotAll_def)
          show ?thesis
            unfolding messages_to_def
            using run res'(2,3) print(4)
            by (simp add: spec sum.map_comp comp_def case_prod_beta' id_def)
        qed
      qed
    qed
  qed
qed

lemma messaged_eq_Inr:
  "messaged res = Inr (nc, st, r, s, o') \<longleftrightarrow>
     (\<exists>c b out d. res = Inr (nc, c, b, out, d) \<and> ctx_state c = st \<and> ctx_request c = r \<and>
        toStringView b = s \<and> toStringView out = o')"
  by (cases res) (auto simp: messaged_def)

lemma messaged_eq_Inl: "messaged res = Inl e \<longleftrightarrow> res = Inl e"
  by (cases res) (auto simp: messaged_def)

lemma spec_messages_Inl: "spec_messages env m chk t k st r s = Inl e \<Longrightarrow> e = Out_of_range"
proof (induction env m chk t k st r s rule: spec_messages.induct)
  case (1 env m chk t k st r s)
  then show ?case
    by (subst (asm) (2) spec_messages.simps)
      (auto simp: Let_def split: if_splits sum.splits prod.splits dest: spec_parse_Inl)
qed

text \<open>What \<open>onMessage\<close> returns, from the specification on byte strings.\<close>

lemma onMessage_spec:
  assumes "env_ok env" and "context_ready c" and "buffer_inv buf"
    and "date_cache_ok (env_date_text env) d"
  shows "case spec_messages env m (ctx_check c) t 0 (ctx_state c) (ctx_request c) (toStringView buf) of
     Inl e \<Rightarrow> onMessage env m t c buf d = Some (Inl e)
   | Inr (nc, st, r, s, out) \<Rightarrow> \<exists>c' buf' d'.
       onMessage env m t c buf d = Some (Inr (out, nc, c', buf', d')) \<and> context_ready c' \<and>
       ctx_check c' = ctx_check c \<and> ctx_state c' = st \<and> ctx_request c' = r \<and> buffer_inv buf' \<and>
       toStringView buf' = s \<and> date_cache_ok (env_date_text env) d'"
proof -
  obtain res where res: "message_loop env m t 0 c buf (Buffer_new kInitialSize) (HttpResponse_new False) d
      = Some res"
    "messaged res = map_sum id (\<lambda>(nc, st, r, s, o'). (nc, st, r, s, o'))
       (spec_messages env m (ctx_check c) t 0 (ctx_state c) (ctx_request c) (toStringView buf))"
    "\<And>nc c' b' out' d'. res = Inr (nc, c', b', out', d') \<Longrightarrow>
       context_ready c' \<and> ctx_check c' = ctx_check c \<and> buffer_inv b' \<and> buffer_inv out' \<and>
       date_cache_ok (env_date_text env) d'"
    using message_loop_refines [OF assms(1-3) buffer_inv_new assms(4), of m t 0 kInitialSize]
    by (simp add: messages_to_def) blast
  show ?thesis
  proof (cases "spec_messages env m (ctx_check c) t 0 (ctx_state c) (ctx_request c) (toStringView buf)")
    case (Inl e)
    with res(1,2) show ?thesis by (auto simp: messaged_eq_Inl onMessage_def)
  next
    case (Inr x)
    with res show ?thesis by (cases x) (fastforce simp: messaged_eq_Inr onMessage_def)
  qed
qed

section \<open>Properties\<close>

text \<open>
  C1. On every input \<open>onMessage\<close> returns: its loop ends, whatever bytes the peer sent and wherever
  the parser stood. The outcome is the \<open>out_of_range\<close> exception of the header parser, or an answer
  and a connection whose parser is ready for the next bytes (never left at the end of a request,
  where it would loop) and whose input buffer is in order.
\<close>

theorem onMessage_returns:
  assumes "env_ok env" and "context_ready c" and "buffer_inv buf"
    and "date_cache_ok (env_date_text env) d"
  shows "\<exists>res. onMessage env m t c buf d = Some res \<and>
     (case res of
        Inl e \<Rightarrow> e = Out_of_range
      | Inr (out, needClose, c', buf', d') \<Rightarrow> context_ready c' \<and> ctx_check c' = ctx_check c \<and>
          buffer_inv buf' \<and> date_cache_ok (env_date_text env) d')"
proof (cases "spec_messages env m (ctx_check c) t 0 (ctx_state c) (ctx_request c) (toStringView buf)")
  case (Inl e)
  with onMessage_spec [OF assms, of m t] spec_messages_Inl show ?thesis by fastforce
next
  case (Inr x)
  with onMessage_spec [OF assms, of m t] show ?thesis by (cases x) fastforce
qed

text \<open>An instance of what the platform contributes, for the witnesses.\<close>

definition sample_env :: http_env where
  "sample_env = \<lparr>env_order = (\<lambda>_. []), env_date_text = (\<lambda>_. replicate 37 (CHR ''d'')),
     env_clock = (\<lambda>_. 1000000)\<rparr>"

definition sample_date :: date_cache where
  "sample_date = \<lparr>t_dateTime = [], t_dateLastSecond = 0\<rparr>"

lemma sample_env_ok [simp]:
  "env_ok sample_env" "date_cache_ok (env_date_text sample_env) sample_date"
  by (simp_all add: env_ok_def sample_env_def date_cache_ok_def sample_date_def signed_divide_int_def)

theorem onMessage_returns_witness:
  "\<exists>res. onMessage sample_env Map.empty 0 (onConnection Map.empty) (Buffer_new 0) sample_date = Some res"
  using onMessage_returns [OF sample_env_ok(1) context_ready_new buffer_inv_new sample_env_ok(2)]
  by blast

text \<open>A \<open>GET\<close> request as its parts, its text, and the response that it gets.\<close>

type_synonym get_request = "bytes \<times> bytes \<times> http_version \<times> (bytes \<times> bytes) list"

definition get_text :: "get_request \<Rightarrow> bytes" where
  "get_text = (\<lambda>(p, q, v, hs). render_request kGet p q v hs)"

definition get_response :: "callback_map \<Rightarrow> int \<Rightarrow> get_request \<Rightarrow> http_response" where
  "get_response m t = (\<lambda>(p, q, v, hs). onRequest m (request_of kGet p q v t hs) (HttpResponse_new False))"

definition get_ok :: "callback_map \<Rightarrow> int \<Rightarrow> get_request \<Rightarrow> bool" where
  "get_ok m t g = (case g of (p, q, v, hs) \<Rightarrow> v \<in> {kHttp10, kHttp11} \<and> target_ok p q \<and>
     list_all header_ok hs \<and> checkGetCallback p m \<and> \<not> closeConnection (get_response m t g))"

fun answers :: "http_env \<Rightarrow> callback_map \<Rightarrow> int \<Rightarrow> nat \<Rightarrow> get_request list \<Rightarrow> bytes" where
  "answers env m t k [] = []"
| "answers env m t k (g # gs) =
     response_text (env_order env) (env_date_text env (env_clock env k sdiv 1000000)) (get_response m t g)
     @ answers env m t (Suc k) gs"

lemma spec_messages_gets:
  "list_all (get_ok m t) gs \<Longrightarrow>
     spec_messages env m (check_request m) t k kExpectRequestLine HttpRequest_new (concat (map get_text gs))
     = Inr (False, kExpectRequestLine, HttpRequest_new, [], answers env m t k gs)"
proof (induction gs arbitrary: k)
  case Nil
  have "next_line [] = None" by code_simp
  then show ?case by (simp add: spec_messages.simps [of env m] spec_parse.simps)
next
  case (Cons g gs)
  obtain p q v hs where g: "g = (p, q, v, hs)" by (cases g)
  have ok: "v \<in> {kHttp10, kHttp11}" "target_ok p q" "list_all header_ok hs"
    "checkGetCallback p m" "\<not> closeConnection (get_response m t g)"
    using Cons.prems by (auto simp: g get_ok_def)
  have get: "method_known kGet" by (simp add: method_known_def)
  have chk: "check_request m (request_of kGet p q v 0 [])"
    using ok(4) by (simp add: check_request_def request_of_def)
  have parse: "spec_parse (check_request m) t kExpectRequestLine HttpRequest_new
      (concat (map get_text (g # gs)))
     = Inr (True, kGotAll, request_of kGet p q v t hs, concat (map get_text gs))"
    using spec_parse_render [where chk = "check_request m", OF get ok(1-3) chk]
    by (simp add: g get_text_def)
  have resp: "onRequest m (request_of kGet p q v t hs) (HttpResponse_new False) = get_response m t g"
    by (simp add: g get_response_def)
  have IH: "spec_messages env m (check_request m) t (Suc k) kExpectRequestLine HttpRequest_new
      (concat (map get_text gs))
     = Inr (False, kExpectRequestLine, HttpRequest_new, [], answers env m t (Suc k) gs)"
    using Cons.IH [of "Suc k"] Cons.prems by simp
  show ?case
    by (subst spec_messages.simps)
      (simp only: parse sum.case prod.case resp IH ok(5) Let_def, simp)
qed

text \<open>
  Requests for registered paths that arrive in one message are all answered, in the order of
  their arrival, each by the response of its callback; nothing is left in the input buffer and the
  connection stays open, provided no response asks for it to be closed.
\<close>

theorem pipelined_gets_answered:
  assumes "env_ok env" and "buffer_inv buf" and "date_cache_ok (env_date_text env) d"
    and "toStringView buf = concat (map get_text gs)" and "list_all (get_ok m t) gs"
  shows "\<exists>c' buf' d'. onMessage env m t (onConnection m) buf d =
       Some (Inr (answers env m t 0 gs, False, c', buf', d')) \<and>
     context_ready c' \<and> buffer_inv buf' \<and> toStringView buf' = []"
proof -
  have c: "ctx_state (onConnection m) = kExpectRequestLine"
    "ctx_request (onConnection m) = HttpRequest_new" "ctx_check (onConnection m) = check_request m"
    by (simp_all add: onConnection_def HttpContext_new_def)
  show ?thesis
    using onMessage_spec [OF assms(1) context_ready_new [of m] assms(2,3), of m t]
    unfolding c assms(4) spec_messages_gets [OF assms(5)] by auto
qed

theorem pipelined_gets_answered_witness:
  "\<exists>buf c' buf' d'. toStringView buf = get_text (''/'', [], kHttp11, []) @ get_text (''/'', [], kHttp11, []) \<and>
     onMessage sample_env [''/'' \<mapsto> Some (\<lambda>req resp. setBody ''hi'' resp)] 0
       (onConnection [''/'' \<mapsto> Some (\<lambda>req resp. setBody ''hi'' resp)]) buf sample_date =
     Some (Inr (answers sample_env [''/'' \<mapsto> Some (\<lambda>req resp. setBody ''hi'' resp)] 0 0
                  [(''/'', [], kHttp11, []), (''/'', [], kHttp11, [])], False, c', buf', d'))"
proof -
  let ?g = "(''/'', [], kHttp11, []) :: get_request"
  let ?m = "[''/'' \<mapsto> Some (\<lambda>req resp. setBody ''hi'' resp)] :: callback_map"
  obtain buf where buf: "buffer_inv buf" "toStringView buf = concat (map get_text [?g, ?g])"
    using append_bytes_correct [OF buffer_inv_new, of "concat (map get_text [?g, ?g])"] by auto
  have "get_ok ?m 0 ?g"
    by (simp add: get_ok_def target_ok_def no_chars_def query_ok_def checkGetCallback_def c_str_def
        get_response_def onRequest_def request_of_def getHeader_def setCloseConnection_def
        getCallback_def setBody_def HttpResponse_new_def Let_def)
  with pipelined_gets_answered [OF sample_env_ok(1) buf(1) sample_env_ok(2) buf(2), of ?m 0] buf(2)
  show ?thesis by (simp only: list_all_def set_simps) (simp, blast)
qed

text \<open>
  A request whose path has no callback, or whose method is not \<open>GET\<close>, is answered by
  \<open>400 Bad Request\<close> as soon as its request line is complete, the connection is closed, and the
  parser is reset.
\<close>

theorem unregistered_refused:
  assumes "env_ok env" and "buffer_inv buf" and "date_cache_ok (env_date_text env) d"
    and "toStringView buf = render_request_line meth p q v @ kCRLF @ rest"
    and "method_known meth" and "v \<in> {kHttp10, kHttp11}" and "target_ok p q"
    and "meth \<noteq> kGet \<or> \<not> checkGetCallback p m"
  shows "\<exists>c' buf' d'. onMessage env m t (onConnection m) buf d =
       Some (Inr (bad_request, True, c', buf', d')) \<and> context_ready c'"
proof -
  have c: "ctx_state (onConnection m) = kExpectRequestLine"
    "ctx_request (onConnection m) = HttpRequest_new" "ctx_check (onConnection m) = check_request m"
    by (simp_all add: onConnection_def HttpContext_new_def)
  have "next_line (render_request_line meth p q v @ kCRLF @ rest) = Some (render_request_line meth p q v, rest)"
    by (rule next_line_no_LF [OF render_line_no_LF [OF assms(7)]])
  moreover have "processRequestLine (render_request_line meth p q v) HttpRequest_new =
      Inr (True, setVersion v ((if q = [] then setPath p else setQuery q \<circ> setPath p)
                                (HttpRequest_new\<lparr>req_method := meth\<rparr>)))"
    using assms(7) by (intro processRequestLine_render [OF assms(5,6)])
      (auto simp: target_ok_def no_chars_def)
  ultimately have "\<exists>r1 s1. spec_parse (check_request m) t kExpectRequestLine HttpRequest_new
      (toStringView buf) = Inr (False, kExpectRequestLine, r1, s1)"
    using assms(8) by (auto simp: spec_parse.simps assms(4) check_request_def request_defs)
  then have "\<exists>s1. spec_messages env m (check_request m) t 0 kExpectRequestLine HttpRequest_new
      (toStringView buf) = Inr (True, kExpectRequestLine, HttpRequest_new, s1, bad_request)"
    by (subst spec_messages.simps) auto
  then show ?thesis
    using onMessage_spec [OF assms(1) context_ready_new [of m] assms(2,3), of m t] unfolding c by auto
qed

theorem unregistered_refused_witness:
  "\<exists>buf c' buf' d'. onMessage sample_env Map.empty 0 (onConnection Map.empty) buf sample_date =
     Some (Inr (bad_request, True, c', buf', d'))"
proof -
  let ?text = "render_request_line kPost ''/x'' [] kHttp11 @ kCRLF @ []"
  obtain buf where buf: "buffer_inv buf" "toStringView buf = ?text"
    using append_bytes_correct [OF buffer_inv_new, of ?text] by auto
  have "target_ok ''/x'' []" by (simp add: target_ok_def query_ok_def no_chars_def)
  with unregistered_refused [OF sample_env_ok(1) buf(1) sample_env_ok(2) buf(2), of Map.empty 0]
  show ?thesis by (auto simp: method_known_def)
qed

text \<open>
  The response of a connection that is kept alive can be cut out of the stream: the number that
  its \<open>Content-Length\<close> line shows is the length of its body, and the body is what follows the header
  lines.
\<close>

theorem content_length_frames:
  assumes "\<not> closeConnection r" and "length (resp_body r) < 10 ^ 13"
  shows "\<exists>hd n tl. response_text order date r =
       hd @ ''Content-Length: '' @ n @ kCRLF @ tl @ kCRLF @ resp_body r \<and>
     digits_value n = length (resp_body r)"
proof -
  let ?n = "show_nat (length (resp_body r))"
  have "length ?n \<le> 13" using assms(2) by (intro length_show_nat) simp_all
  then have line: "snprintf 32 (''Content-Length: '' @ ?n @ kCRLF) = ''Content-Length: '' @ ?n @ kCRLF"
    by (simp add: snprintf_def kCRLF_def)
  have "response_text order date r =
      (snprintf 32 (''HTTP/1.1 '' @ show_int (statusCode r) @ '' '') @ statusMessage r @ kCRLF)
      @ ''Content-Length: '' @ ?n @ kCRLF
      @ (''Connection: Keep-Alive'' @ kCRLF @ concat (header_parts (order (resp_headers r))) @ date)
      @ kCRLF @ resp_body r"
    using assms(1) line by (simp add: response_text_def status_parts_def)
  with digits_value_show_nat show ?thesis by blast
qed

theorem content_length_frames_witness:
  "\<exists>hd n tl. response_text (\<lambda>_. []) ''Date'' (setBody ''hello'' (HttpResponse_new False)) =
       hd @ ''Content-Length: '' @ n @ kCRLF @ tl @ kCRLF @ ''hello'' \<and> digits_value n = 5"
proof -
  let ?r = "setBody ''hello'' (HttpResponse_new False)"
  have r: "\<not> closeConnection ?r" "resp_body ?r = ''hello''"
    by (simp_all add: setBody_def HttpResponse_new_def)
  have len: "length ''hello'' = 5" "(5::nat) < 10 ^ 13" by simp_all
  show ?thesis
    using content_length_frames [OF r(1), of "\<lambda>_. []" "''Date''"] unfolding r(2) len(1)
    using len(2) by blast
qed

end
