(* ===== verification/HttpStream.thy ===== *)
theory HttpStream
  imports HttpServer
begin

text \<open>
  Requests that arrive in segments: \<open>onMessage\<close> is called after every segment of the stream, wherever the
  network has cut it, and answers the requests that are complete by then.
\<close>

section \<open>Requests in segments\<close>

text \<open>
  \<open>answered order date m gs out\<close>: \<open>out\<close> consists of the responses to the requests \<open>gs\<close> in order, each with
  some receive time and some date.
\<close>

inductive answered ::
  "((string \<rightharpoonup> string) \<Rightarrow> (string \<times> string) list) \<Rightarrow> (int \<Rightarrow> bytes) \<Rightarrow> callback_map \<Rightarrow> get_request list \<Rightarrow> bytes \<Rightarrow> bool"
  for order date m where
  no_request: "answered order date m [] []"
| one_request: "answered order date m gs out \<Longrightarrow>
    answered order date m (g # gs) (response_text order (date sec) (get_response m t g) @ out)"

inductive_simps answered_Nil [simp]: "answered order date m [] out"
inductive_simps answered_Cons: "answered order date m (g # gs) out"

lemma answered_append:
  "answered order date m gs out \<Longrightarrow> answered order date m gs' out' \<Longrightarrow> answered order date m (gs @ gs') (out @ out')"
  by (induction rule: answered.induct) (auto intro: answered.one_request)

lemma answered_alone: "answered order date m gs out \<Longrightarrow> gs = [] \<Longrightarrow> out = []"
  by simp

text \<open>
  The parser stands in the middle of the requests \<open>gs\<close>: with the rest \<open>y\<close> of their text it would get the
  first of them, and then the text of the others.
\<close>

fun expects :: "callback_map \<Rightarrow> parse_state \<Rightarrow> http_request \<Rightarrow> bytes \<Rightarrow> bytes \<Rightarrow> get_request list \<Rightarrow> bool" where
  "expects m st r s y [] \<longleftrightarrow> st = kExpectRequestLine \<and> r = HttpRequest_new \<and> s = [] \<and> y = []"
| "expects m st r s y ((p, q, v, hs) # gs) \<longleftrightarrow> st \<in> {kExpectRequestLine, kExpectHeaders} \<and>
     (\<forall>t. \<exists>t'. spec_parse (check_request m) t st r (s @ y) =
        Inr (True, kGotAll, request_of kGet p q v t' hs, concat (map get_text gs)))"

definition always_ok :: "callback_map \<Rightarrow> get_request \<Rightarrow> bool" where
  "always_ok m g \<longleftrightarrow> (\<forall>t. get_ok m t g)"

lemma expects_start:
  assumes "list_all (always_ok m) gs" and "s @ y = concat (map get_text gs)"
  shows "expects m kExpectRequestLine HttpRequest_new s y gs"
proof (cases gs)
  case Nil
  with assms show ?thesis by simp
next
  case (Cons g gs')
  obtain p q v hs where g: "g = (p, q, v, hs)" by (cases g)
  have ok: "v \<in> {kHttp10, kHttp11}" "target_ok p q" "list_all header_ok hs" "checkGetCallback p m"
    using assms(1) by (auto simp: Cons g always_ok_def get_ok_def)
  have get: "method_known kGet" by (simp add: method_known_def)
  have chk: "check_request m (request_of kGet p q v 0 [])"
    using ok(4) by (simp add: check_request_def request_of_def)
  show ?thesis
    using spec_parse_render [where chk = "check_request m", OF get ok(1-3) chk] assms(2)
    by (auto simp: Cons g get_text_def)
qed

lemma spec_parse_headers_time: "spec_parse chk t kExpectHeaders r s = spec_parse chk t' kExpectHeaders r s"
  by (simp add: spec_parse.simps)

lemma spec_parse_line_stays:
  "spec_parse chk t st r s = Inr (True, kExpectRequestLine, r', s') \<Longrightarrow> st \<in> {kExpectRequestLine, kExpectHeaders} \<Longrightarrow>
   st = kExpectRequestLine \<and> r' = r \<and> s' = s"
  by (auto simp: spec_parse.simps split: option.splits prod.splits sum.splits if_splits dest!: spec_headers_state)

lemma spec_messages_segment:
  assumes "expects m st r s (seg @ y) gs" and "list_all (always_ok m) gs"
  shows "\<exists>gs1 gs2 st' r' s' out. gs = gs1 @ gs2 \<and>
     spec_messages env m (check_request m) t k st r (s @ seg) = Inr (False, st', r', s', out) \<and>
     answered (env_order env) (env_date_text env) m gs1 out \<and> expects m st' r' s' y gs2 \<and> (y = [] \<longrightarrow> gs2 = [])"
  using assms
proof (induction gs arbitrary: st r s seg k)
  case Nil
  have "next_line [] = None" by code_simp
  with Nil show ?case
    by (intro exI [of _ "[]"]) (simp add: spec_messages.simps [of env m] spec_parse.simps)
next
  case (Cons g gs)
  obtain p q v hs where g: "g = (p, q, v, hs)" by (cases g)
  have st: "st \<in> {kExpectRequestLine, kExpectHeaders}" using Cons.prems(1) by (simp add: g)
  let ?chk = "check_request m" and ?x = "s @ seg"
  have all: "\<exists>t'. spec_parse ?chk t st r (?x @ y) = Inr (True, kGotAll, request_of kGet p q v t' hs, concat (map get_text gs))" for t
    using Cons.prems(1) by (simp add: g)
  note split = spec_parse_append [OF st, of ?chk t r ?x y]
  obtain ok st1 r1 s1 where P: "spec_parse ?chk t st r ?x = Inr (ok, st1, r1, s1)"
    using all [of t] split by (cases "spec_parse ?chk t st r ?x") auto
  have ok using all [of t] split P by (cases ok) auto
  note parse = P [unfolded \<open>ok\<close> [THEN eqTrueI]]
  show ?case
  proof (cases "st1 = kGotAll")
    case False
    have st1: "st1 \<in> {kExpectRequestLine, kExpectHeaders}" using spec_parse_state(1) [OF parse st] False by simp
    have "\<exists>t'. spec_parse ?chk u st1 r1 (s1 @ y) = Inr (True, kGotAll, request_of kGet p q v t' hs, concat (map get_text gs))" for u
    proof (cases "st1 = kExpectRequestLine")
      case True
      with spec_parse_line_stays [OF parse [unfolded True] st] all [of u] show ?thesis by simp
    next
      case headers: False
      with st1 have "st1 = kExpectHeaders" by simp
      moreover have "spec_parse ?chk t st r (?x @ y) = spec_parse ?chk t st1 r1 (s1 @ y)"
        using split False \<open>ok\<close> by (simp add: P)
      ultimately show ?thesis using all [of t] spec_parse_headers_time [of ?chk u r1 "s1 @ y" t] by simp
    qed
    then have "expects m st1 r1 s1 y (g # gs)" using st1 by (simp add: g)
    moreover have "spec_messages env m ?chk t k st r ?x = Inr (False, st1, r1, s1, [])"
      using st False by (subst spec_messages.simps) (simp add: parse)
    moreover have "y \<noteq> []" using all [of t] P False by auto
    ultimately show ?thesis by (intro exI [of _ "[]"] exI [of _ "g # gs"]) simp
  next
    case True
    obtain t' where R: "r1 = request_of kGet p q v t' hs" "s1 @ y = concat (map get_text gs)"
      using all [of t] split P True \<open>ok\<close> by auto
    have resp: "onRequest m r1 (HttpResponse_new False) = get_response m t' g" by (simp add: R g get_response_def)
    have open_conn: "\<not> closeConnection (get_response m t' g)"
      using Cons.prems(2) by (auto simp: always_ok_def get_ok_def g)
    have "expects m kExpectRequestLine HttpRequest_new s1 ([] @ y) gs"
      using expects_start [of m gs s1 y] Cons.prems(2) R(2) by simp
    from Cons.IH [OF this, of "Suc k"] Cons.prems(2) obtain gs1 gs2 st' r' s' out where IH: "gs = gs1 @ gs2"
      "spec_messages env m ?chk t (Suc k) kExpectRequestLine HttpRequest_new s1 = Inr (False, st', r', s', out)"
      "answered (env_order env) (env_date_text env) m gs1 out" "expects m st' r' s' y gs2" "y = [] \<longrightarrow> gs2 = []" by auto
    let ?text = "response_text (env_order env) (env_date_text env (env_clock env k sdiv 1000000)) (get_response m t' g)"
    have "spec_messages env m ?chk t k st r ?x = Inr (False, st', r', s', ?text @ out)"
      using st open_conn by (subst spec_messages.simps) (simp add: parse True resp IH(2))
    with IH show ?thesis
      by (intro exI [of _ "g # gs1"] exI [of _ gs2]) (auto intro: answered.one_request)
  qed
qed

text \<open>One call of \<open>onMessage\<close>, on the bytes that were left and a further segment.\<close>

lemma onMessage_segment:
  assumes "env_ok env" and "context_ready c" and "ctx_check c = check_request m" and "buffer_inv buf"
    and "date_cache_ok (env_date_text env) d" and "toStringView buf = s @ seg"
    and "expects m (ctx_state c) (ctx_request c) s (seg @ y) gs" and "list_all (always_ok m) gs"
  obtains gs1 gs2 out c' buf' d' where "gs = gs1 @ gs2"
    and "onMessage env m t c buf d = Some (Inr (out, False, c', buf', d'))"
    and "answered (env_order env) (env_date_text env) m gs1 out"
    and "expects m (ctx_state c') (ctx_request c') (toStringView buf') y gs2" and "y = [] \<longrightarrow> gs2 = []"
    and "context_ready c'" and "ctx_check c' = check_request m" and "buffer_inv buf'"
    and "date_cache_ok (env_date_text env) d'"
proof -
  from spec_messages_segment [OF assms(7,8), of env t 0] obtain gs1 gs2 st' r' s' out where sp: "gs = gs1 @ gs2"
    "spec_messages env m (check_request m) t 0 (ctx_state c) (ctx_request c) (s @ seg) = Inr (False, st', r', s', out)"
    "answered (env_order env) (env_date_text env) m gs1 out" "expects m st' r' s' y gs2" "y = [] \<longrightarrow> gs2 = []" by blast
  from onMessage_spec [OF assms(1,2,4,5), of m t] obtain c' buf' d' where
    "onMessage env m t c buf d = Some (Inr (out, False, c', buf', d'))" "context_ready c'"
    "ctx_check c' = check_request m" "ctx_state c' = st'" "ctx_request c' = r'" "buffer_inv buf'"
    "toStringView buf' = s'" "date_cache_ok (env_date_text env) d'"
    unfolding assms(3,6) sp(2) by auto
  with sp show thesis by (intro that) simp_all
qed

end
