(* ===== verification/Channel.thy ===== *)
theory Channel
  imports Prelude "HOL-Library.Word"
begin

text \<open>
  \<^verbatim>\<open>include/gg_lib/net/Channel.h\<close> and \<^verbatim>\<open>gg_lib/net/Channel.cc\<close>: the events of interest of a file
  descriptor as the bits of an \<^verbatim>\<open>int\<close>, and the dispatch of the events that happened to the
  callbacks. Channels are objects with an address: \<open>heap\<close> holds them, and \<open>channels\<close>, the map of the
  base class \<^verbatim>\<open>Poller\<close>, holds addresses. \<open>poller\<close> is the state of the derived class.
\<close>

unbundle bit_operations_syntax

section \<open>Event bits\<close>

type_synonym event_bits = "32 word"

definition POLLIN :: event_bits where "POLLIN = 0x001"

definition POLLPRI :: event_bits where "POLLPRI = 0x002"

definition POLLOUT :: event_bits where "POLLOUT = 0x004"

definition POLLERR :: event_bits where "POLLERR = 0x008"

definition POLLHUP :: event_bits where "POLLHUP = 0x010"

definition POLLNVAL :: event_bits where "POLLNVAL = 0x020"

definition POLLRDHUP :: event_bits where "POLLRDHUP = 0x2000"

definition kNoneEvent :: event_bits where "kNoneEvent = 0"

definition kReadEvent :: event_bits where "kReadEvent = POLLIN OR POLLPRI"

definition kWriteEvent :: event_bits where "kWriteEvent = POLLOUT"

lemmas event_defs = POLLIN_def POLLPRI_def POLLOUT_def POLLERR_def POLLHUP_def POLLNVAL_def
  POLLRDHUP_def kNoneEvent_def kReadEvent_def kWriteEvent_def

section \<open>Channels\<close>

record channel =
  fd :: int
  events :: event_bits
  revents :: event_bits
  index :: int
  logHup :: bool
  tied :: bool
  eventHandling :: bool
  addedToLoop :: bool

definition Channel_new :: "int \<Rightarrow> channel" where
  "Channel_new f = \<lparr>fd = f, events = 0, revents = 0, index = -1, logHup = True, tied = False,
     eventHandling = False, addedToLoop = False\<rparr>"

definition isNoneEvent :: "channel \<Rightarrow> bool" where
  "isNoneEvent c \<longleftrightarrow> events c = kNoneEvent"

definition isWriting :: "channel \<Rightarrow> bool" where
  "isWriting c \<longleftrightarrow> events c AND kWriteEvent \<noteq> 0"

definition isReading :: "channel \<Rightarrow> bool" where
  "isReading c \<longleftrightarrow> events c AND kReadEvent \<noteq> 0"

definition tie :: "channel \<Rightarrow> channel" where
  "tie c = c\<lparr>tied := True\<rparr>"

datatype event_change = EnableReading | DisableReading | EnableWriting | DisableWriting | DisableAll

fun changed :: "event_change \<Rightarrow> event_bits \<Rightarrow> event_bits" where
  "changed EnableReading e = e OR kReadEvent"
| "changed DisableReading e = e AND NOT kReadEvent"
| "changed EnableWriting e = e OR kWriteEvent"
| "changed DisableWriting e = e AND NOT kWriteEvent"
| "changed DisableAll e = kNoneEvent"

section \<open>Channels in the loop\<close>

type_synonym address = nat

record 'p io =
  heap :: "address \<rightharpoonup> channel"
  channels :: "int \<rightharpoonup> address"
  poller :: 'p

definition the_channel :: "'p io \<Rightarrow> address \<Rightarrow> channel result" where
  "the_channel s a = (case heap s a of Some c \<Rightarrow> Inr c | None \<Rightarrow> Inl Dangling)"

definition put_channel :: "address \<Rightarrow> channel \<Rightarrow> 'p io \<Rightarrow> 'p io" where
  "put_channel a c s = s\<lparr>heap := (heap s)(a \<mapsto> c)\<rparr>"

text \<open>\<open>updateChannel\<close> and \<open>removeChannel\<close> of the poller are arguments.\<close>

definition channel_update ::
  "(address \<Rightarrow> 'p io \<Rightarrow> 'p io result) \<Rightarrow> address \<Rightarrow> 'p io \<Rightarrow> 'p io result"
where
  "channel_update updateChannel a s =
     and_then (the_channel s a) (\<lambda>c. updateChannel a (put_channel a (c\<lparr>addedToLoop := True\<rparr>) s))"

definition change_events ::
  "(address \<Rightarrow> 'p io \<Rightarrow> 'p io result) \<Rightarrow> event_change \<Rightarrow> address \<Rightarrow> 'p io \<Rightarrow> 'p io result"
where
  "change_events updateChannel ch a s =
     and_then (the_channel s a) (\<lambda>c.
       channel_update updateChannel a (put_channel a (c\<lparr>events := changed ch (events c)\<rparr>) s))"

definition channel_remove ::
  "(address \<Rightarrow> 'p io \<Rightarrow> 'p io result) \<Rightarrow> address \<Rightarrow> 'p io \<Rightarrow> 'p io result"
where
  "channel_remove removeChannel a s =
     and_then (the_channel s a) (\<lambda>c.
       check (isNoneEvent c) (removeChannel a (put_channel a (c\<lparr>addedToLoop := False\<rparr>) s)))"

definition hasChannel :: "address \<Rightarrow> 'p io \<Rightarrow> bool result" where
  "hasChannel a s = and_then (the_channel s a) (\<lambda>c. Inr (channels s (fd c) = Some a))"

section \<open>Dispatch\<close>

text \<open>Callbacks act on a state \<open>'s\<close>; an empty \<^verbatim>\<open>std::function\<close> is \<open>None\<close>.\<close>

record 's channel_callbacks =
  readCallback :: "(int \<Rightarrow> 's \<Rightarrow> 's result) option"
  writeCallback :: "('s \<Rightarrow> 's result) option"
  closeCallback :: "('s \<Rightarrow> 's result) option"
  errorCallback :: "('s \<Rightarrow> 's result) option"

definition call :: "bool \<Rightarrow> ('s \<Rightarrow> 's result) option \<Rightarrow> 's \<Rightarrow> 's result" where
  "call happened cb s = (if happened then (case cb of Some f \<Rightarrow> f s | None \<Rightarrow> Inr s) else Inr s)"

definition handleEventWithGuard ::
  "(bool \<Rightarrow> 's \<Rightarrow> 's) \<Rightarrow> 's channel_callbacks \<Rightarrow> event_bits \<Rightarrow> int \<Rightarrow> 's \<Rightarrow> 's result"
where
  "handleEventWithGuard set_handling cbs bits receiveTime s =
     and_then (call (bits AND POLLHUP \<noteq> 0 \<and> \<not> bits AND POLLIN \<noteq> 0) (closeCallback cbs)
                 (set_handling True s)) (\<lambda>s1.
     and_then (call (bits AND (POLLERR OR POLLNVAL) \<noteq> 0) (errorCallback cbs) s1) (\<lambda>s2.
     and_then (call (bits AND (POLLIN OR POLLPRI OR POLLRDHUP) \<noteq> 0)
                 (map_option (\<lambda>f. f receiveTime) (readCallback cbs)) s2) (\<lambda>s3.
     and_then (call (bits AND POLLOUT \<noteq> 0) (writeCallback cbs) s3) (\<lambda>s4.
       Inr (set_handling False s4)))))"

text \<open>\<open>alive\<close>: the object the channel is tied to still exists.\<close>

definition handleEvent ::
  "(bool \<Rightarrow> 's \<Rightarrow> 's) \<Rightarrow> bool \<Rightarrow> bool \<Rightarrow> 's channel_callbacks \<Rightarrow> event_bits \<Rightarrow> int \<Rightarrow> 's \<Rightarrow> 's result"
where
  "handleEvent set_handling is_tied alive cbs bits receiveTime s =
     (if is_tied
      then if alive then handleEventWithGuard set_handling cbs bits receiveTime s else Inr s
      else handleEventWithGuard set_handling cbs bits receiveTime s)"

definition eventsToString :: "int \<Rightarrow> event_bits \<Rightarrow> string" where
  "eventsToString f ev = show_int f @ '': '' @
     concat (map (\<lambda>(bit, name). if ev AND bit \<noteq> 0 then name else '''')
       [(POLLIN, ''IN ''), (POLLPRI, ''PRI ''), (POLLOUT, ''OUT ''), (POLLHUP, ''HUP ''),
        (POLLRDHUP, ''RDHUP ''), (POLLERR, ''ERR ''), (POLLNVAL, ''NVAL '')])"

section \<open>Events of interest\<close>

text \<open>A channel's events are made of the read and the write bits.\<close>

definition events_ok :: "event_bits \<Rightarrow> bool" where
  "events_ok e \<longleftrightarrow> e \<in> {0, kReadEvent, kWriteEvent, kReadEvent OR kWriteEvent}"

lemma events_ok_cases:
  "events_ok e \<longleftrightarrow> e = 0 \<or> e = 3 \<or> e = 4 \<or> e = 7"
  by (simp add: events_ok_def event_defs)

lemma events_ok_changed: "events_ok e \<Longrightarrow> events_ok (changed ch e)"
  unfolding events_ok_cases by (elim disjE; cases ch) (simp_all add: event_defs)

lemma change_events_effect:
  assumes "events_ok e"
  shows "changed EnableReading e AND kReadEvent \<noteq> 0" "changed EnableWriting e AND kWriteEvent \<noteq> 0"
    and "changed DisableReading e AND kReadEvent = 0" "changed DisableWriting e AND kWriteEvent = 0"
    and "changed EnableReading e AND kWriteEvent = e AND kWriteEvent"
    and "changed DisableReading e AND kWriteEvent = e AND kWriteEvent"
    and "changed EnableWriting e AND kReadEvent = e AND kReadEvent"
    and "changed DisableWriting e AND kReadEvent = e AND kReadEvent"
  using assms unfolding events_ok_cases by (elim disjE; simp add: event_defs)+

end
