(* ===== verification/TcpConnection.thy ===== *)
theory TcpConnection
  imports Buffer Channel
begin

text \<open>
  \<^verbatim>\<open>gg_lib/net/TcpConnection.cc\<close>: the life of a connection, its output buffer and its callbacks.
  The channel is the record of theory \<open>Channel\<close>; \<open>addedToLoop\<close> stands for its registration at the
  poller, as the contract of theory \<open>Poller\<close> allows. \<open>pendings\<close> are the functors that the connection
  queued in its loop, \<open>close_timers\<close> the timers it started.

  The arguments \<open>env_write\<close> and \<open>env_calls\<close> are the outcomes of the successive calls of
  \<^verbatim>\<open>write(2)\<close> and what the callbacks of the client do with the connection. \<open>sent\<close>, \<open>accepted\<close>, \<open>called\<close>
  and \<open>cut_off\<close> record, for the proofs, the bytes the kernel took, the bytes \<open>sendInLoop\<close> took, the
  callbacks that ran, and the bytes that were waiting when the write side was shut.
\<close>

section \<open>The state\<close>

datatype conn_state = kDisconnected | kConnecting | kConnected | kDisconnecting

text \<open>What a client calls.\<close>

datatype 'cb api_call =
    Call_send bytes
  | Call_shutdown
  | Call_shutdownAndForceCloseAfter
  | Call_forceClose
  | Call_forceCloseWithDelay
  | Call_startRead
  | Call_stopRead
  | Call_setWriteCompleteCallback "'cb option"
  | Call_setHighWaterMarkCallback "'cb option" nat
  | Call_consume nat

datatype 'cb pending_functor =
    Fn_writeComplete 'cb
  | Fn_highWaterMark 'cb nat
  | Fn_sendInLoop bytes
  | Fn_shutdownInLoop
  | Fn_shutdownAndForceCloseInLoop
  | Fn_forceCloseInLoop
  | Fn_startReadInLoop
  | Fn_stopReadInLoop
  | Fn_connectDestroyed

datatype close_timer = Tm_forceCloseInLoop | Tm_forceClose

datatype write_outcome = Accept nat | Write_errno int

record 'cb conn_env =
  env_write :: "nat \<Rightarrow> write_outcome"
  env_calls :: "'cb \<Rightarrow> nat \<Rightarrow> 'cb api_call list"

record 'cb conn =
  state :: conn_state
  reading :: bool
  conn_channel :: channel
  inputBuffer :: buffer
  outputBuffer :: buffer
  highWaterMark :: nat
  connectionCallback :: 'cb
  messageCallback :: 'cb
  writeCompleteCallback :: "'cb option"
  highWaterMarkCallback :: "'cb option"
  pendings :: "'cb pending_functor list"
  close_timers :: "close_timer list"
  write_shut :: bool
  cut_off :: bytes
  writes :: nat
  sent :: bytes
  accepted :: bytes
  called :: "'cb list"

definition TcpConnection_new :: "int \<Rightarrow> 'cb \<Rightarrow> 'cb \<Rightarrow> 'cb conn" where
  "TcpConnection_new sockfd on_connection on_message =
     \<lparr>state = kConnecting, reading = True, conn_channel = Channel_new sockfd,
      inputBuffer = Buffer_new kInitialSize, outputBuffer = Buffer_new kInitialSize,
      highWaterMark = 8 * 1024 * 1024, connectionCallback = on_connection,
      messageCallback = on_message, writeCompleteCallback = None, highWaterMarkCallback = None,
      pendings = [], close_timers = [], write_shut = False, cut_off = [], writes = 0, sent = [], accepted = [],
      called = []\<rparr>"

definition EWOULDBLOCK :: int where "EWOULDBLOCK = 11"

definition EPIPE :: int where "EPIPE = 32"

definition ECONNRESET :: int where "ECONNRESET = 104"

definition queueInLoop :: "'cb pending_functor \<Rightarrow> 'cb conn \<Rightarrow> 'cb conn" where
  "queueInLoop f c = c\<lparr>pendings := pendings c @ [f]\<rparr>"

definition set_channel_events :: "event_change \<Rightarrow> 'cb conn \<Rightarrow> 'cb conn" where
  "set_channel_events ch c =
     c\<lparr>conn_channel := (conn_channel c)\<lparr>events := changed ch (events (conn_channel c)), addedToLoop := True\<rparr>\<rparr>"

text \<open>\<^verbatim>\<open>write(2)\<close> takes a prefix of what it is given.\<close>

definition do_write :: "'cb conn_env \<Rightarrow> bytes \<Rightarrow> 'cb conn \<Rightarrow> (int + nat) \<times> 'cb conn" where
  "do_write env data c =
     (case env_write env (writes c) of
        Accept n \<Rightarrow> let k = min n (length data) in
          (Inr k, c\<lparr>writes := Suc (writes c), sent := sent c @ take k data\<rparr>)
      | Write_errno e \<Rightarrow> (Inl e, c\<lparr>writes := Suc (writes c)\<rparr>))"

section \<open>Sending and shutting down\<close>

definition queue_write_complete :: "'cb conn \<Rightarrow> 'cb conn" where
  "queue_write_complete c =
     (case writeCompleteCallback c of Some cb \<Rightarrow> queueInLoop (Fn_writeComplete cb) c | None \<Rightarrow> c)"

text \<open>The first part of \<open>sendInLoop\<close>: \<open>nwrote\<close>, \<open>remaining\<close> and \<open>faultError\<close>.\<close>

definition send_directly :: "'cb conn_env \<Rightarrow> bytes \<Rightarrow> 'cb conn \<Rightarrow> nat \<times> nat \<times> bool \<times> 'cb conn" where
  "send_directly env message c =
     (if \<not> isWriting (conn_channel c) \<and> readableBytes (outputBuffer c) = 0 then
        (case do_write env message c of
           (Inr nwrote, c1) \<Rightarrow>
             (let remaining = length message - nwrote in
              (nwrote, remaining, False, if remaining = 0 then queue_write_complete c1 else c1))
         | (Inl e, c1) \<Rightarrow> (0, length message, e \<noteq> EWOULDBLOCK \<and> (e = EPIPE \<or> e = ECONNRESET), c1))
      else (0, length message, False, c))"

definition sendInLoop :: "'cb conn_env \<Rightarrow> bytes \<Rightarrow> 'cb conn \<Rightarrow> 'cb conn result" where
  "sendInLoop env message c =
     (if state c = kDisconnected then Inr c
      else case send_directly env message c of (nwrote, remaining, faultError, c1) \<Rightarrow>
        check (remaining \<le> length message)
          (if \<not> faultError \<and> remaining > 0 then
             (let oldLen = readableBytes (outputBuffer c1);
                  c2 = (case highWaterMarkCallback c1 of
                          Some cb \<Rightarrow> if oldLen + remaining \<ge> highWaterMark c1 \<and> oldLen < highWaterMark c1
                                     then queueInLoop (Fn_highWaterMark cb (oldLen + remaining)) c1 else c1
                        | None \<Rightarrow> c1)
              in and_then (append_bytes (subrange nwrote (nwrote + remaining) message) (outputBuffer c2)) (\<lambda>b.
                 let c3 = c2\<lparr>outputBuffer := b, accepted := accepted c2 @ message\<rparr>
                 in Inr (if \<not> isWriting (conn_channel c3) then set_channel_events EnableWriting c3 else c3)))
           else Inr (c1\<lparr>accepted := (if faultError then accepted c1 else accepted c1 @ message)\<rparr>)))"

definition shutdownWrite :: "'cb conn \<Rightarrow> 'cb conn" where
  "shutdownWrite c = c\<lparr>write_shut := True,
     cut_off := cut_off c @ (if state c = kDisconnected then [] else toStringView (outputBuffer c))\<rparr>"

definition shutdownInLoop :: "'cb conn \<Rightarrow> 'cb conn" where
  "shutdownInLoop c = (if \<not> isWriting (conn_channel c) then shutdownWrite c else c)"

definition shutdownAndForceCloseInLoop :: "'cb conn \<Rightarrow> 'cb conn" where
  "shutdownAndForceCloseInLoop c =
     (let c1 = (if \<not> isWriting (conn_channel c) then shutdownWrite c else c)
      in c1\<lparr>close_timers := close_timers c1 @ [Tm_forceCloseInLoop]\<rparr>)"

definition startReadInLoop :: "'cb conn \<Rightarrow> 'cb conn" where
  "startReadInLoop c =
     (if \<not> reading c \<or> \<not> isReading (conn_channel c)
      then (set_channel_events EnableReading c)\<lparr>reading := True\<rparr> else c)"

definition stopReadInLoop :: "'cb conn \<Rightarrow> 'cb conn" where
  "stopReadInLoop c =
     (if reading c \<or> isReading (conn_channel c)
      then (set_channel_events DisableReading c)\<lparr>reading := False\<rparr> else c)"

section \<open>The interface of the client\<close>

text \<open>
  Calls in the loop's thread, where \<^verbatim>\<open>runInLoop\<close> runs its argument at once, and in another thread,
  where it queues it. \<open>Call_consume\<close> is the client's \<^verbatim>\<open>retrieve\<close> on the input buffer.
\<close>

fun api_in_loop :: "'cb conn_env \<Rightarrow> 'cb api_call \<Rightarrow> 'cb conn \<Rightarrow> 'cb conn result" where
  "api_in_loop env (Call_send message) c = (if state c = kConnected then sendInLoop env message c else Inr c)"
| "api_in_loop env Call_shutdown c =
     Inr (if state c = kConnected then shutdownInLoop (c\<lparr>state := kDisconnecting\<rparr>) else c)"
| "api_in_loop env Call_shutdownAndForceCloseAfter c =
     Inr (if state c = kConnected then shutdownAndForceCloseInLoop (c\<lparr>state := kDisconnecting\<rparr>) else c)"
| "api_in_loop env Call_forceClose c =
     Inr (if state c = kConnected \<or> state c = kDisconnecting
          then queueInLoop Fn_forceCloseInLoop (c\<lparr>state := kDisconnecting\<rparr>) else c)"
| "api_in_loop env Call_forceCloseWithDelay c =
     Inr (if state c = kConnected \<or> state c = kDisconnecting
          then c\<lparr>state := kDisconnecting, close_timers := close_timers c @ [Tm_forceClose]\<rparr> else c)"
| "api_in_loop env Call_startRead c = Inr (startReadInLoop c)"
| "api_in_loop env Call_stopRead c = Inr (stopReadInLoop c)"
| "api_in_loop env (Call_setWriteCompleteCallback cb) c = Inr (c\<lparr>writeCompleteCallback := cb\<rparr>)"
| "api_in_loop env (Call_setHighWaterMarkCallback cb mark) c =
     Inr (c\<lparr>highWaterMarkCallback := cb, highWaterMark := mark\<rparr>)"
| "api_in_loop env (Call_consume n) c =
     map_sum id (\<lambda>b. c\<lparr>inputBuffer := b\<rparr>) (retrieve (min n (readableBytes (inputBuffer c))) (inputBuffer c))"

fun api_other_thread :: "'cb conn_env \<Rightarrow> 'cb api_call \<Rightarrow> 'cb conn \<Rightarrow> 'cb conn result" where
  "api_other_thread env (Call_send message) c =
     Inr (if state c = kConnected then queueInLoop (Fn_sendInLoop message) c else c)"
| "api_other_thread env Call_shutdown c =
     Inr (if state c = kConnected then queueInLoop Fn_shutdownInLoop (c\<lparr>state := kDisconnecting\<rparr>) else c)"
| "api_other_thread env Call_shutdownAndForceCloseAfter c =
     Inr (if state c = kConnected then queueInLoop Fn_shutdownAndForceCloseInLoop (c\<lparr>state := kDisconnecting\<rparr>)
          else c)"
| "api_other_thread env Call_startRead c = Inr (queueInLoop Fn_startReadInLoop c)"
| "api_other_thread env Call_stopRead c = Inr (queueInLoop Fn_stopReadInLoop c)"
| "api_other_thread env other c = api_in_loop env other c"

fun api_calls :: "'cb conn_env \<Rightarrow> 'cb api_call list \<Rightarrow> 'cb conn \<Rightarrow> 'cb conn result" where
  "api_calls env [] c = Inr c"
| "api_calls env (a # calls) c = and_then (api_in_loop env a c) (api_calls env calls)"

definition call_client :: "'cb conn_env \<Rightarrow> 'cb \<Rightarrow> 'cb conn \<Rightarrow> 'cb conn result" where
  "call_client env cb c =
     api_calls env (env_calls env cb (length (called c))) (c\<lparr>called := called c @ [cb]\<rparr>)"

text \<open>The callbacks that the library itself installs to stop reading while too much is unsent.\<close>

definition optionalHighWaterMarkCallback :: "'cb \<Rightarrow> 'cb api_call list" where
  "optionalHighWaterMarkCallback done_cb = [Call_stopRead, Call_setWriteCompleteCallback (Some done_cb)]"

definition optionalDoneHighWaterMarkCallback :: "'cb api_call list" where
  "optionalDoneHighWaterMarkCallback = [Call_startRead, Call_setWriteCompleteCallback None]"

section \<open>Events\<close>

definition connectEstablished :: "'cb conn_env \<Rightarrow> 'cb conn \<Rightarrow> 'cb conn result" where
  "connectEstablished env c =
     check (state c = kConnecting)
       (let c1 = c\<lparr>state := kConnected, conn_channel := tie (conn_channel c)\<rparr>
        in call_client env (connectionCallback c) (set_channel_events EnableReading c1))"

text \<open>The removal fails when the channel still watches something or is not registered.\<close>

definition remove_conn_channel :: "'cb conn \<Rightarrow> 'cb conn result" where
  "remove_conn_channel c =
     check (isNoneEvent (conn_channel c)) (check (addedToLoop (conn_channel c))
       (Inr (c\<lparr>conn_channel := (conn_channel c)\<lparr>addedToLoop := False\<rparr>\<rparr>)))"

definition connectDestroyed :: "'cb conn_env \<Rightarrow> 'cb conn \<Rightarrow> 'cb conn result" where
  "connectDestroyed env c =
     and_then
       (if state c = kConnected
        then call_client env (connectionCallback c) (set_channel_events DisableAll (c\<lparr>state := kDisconnected\<rparr>))
        else Inr c)
       remove_conn_channel"

text \<open>\<^verbatim>\<open>TcpServer\<close>'s close callback queues \<open>connectDestroyed\<close>.\<close>

definition close_callback :: "'cb conn \<Rightarrow> 'cb conn" where
  "close_callback c = queueInLoop Fn_connectDestroyed c"

definition handleClose :: "'cb conn_env \<Rightarrow> 'cb conn \<Rightarrow> 'cb conn result" where
  "handleClose env c =
     check (state c = kConnected \<or> state c = kDisconnecting)
       (map_sum id close_callback
         (call_client env (connectionCallback c) (set_channel_events DisableAll (c\<lparr>state := kDisconnected\<rparr>))))"

definition conn_handleRead :: "'cb conn_env \<Rightarrow> read_outcome \<Rightarrow> 'cb conn \<Rightarrow> 'cb conn result" where
  "conn_handleRead env outcome c =
     and_then (readFd outcome (inputBuffer c)) (\<lambda>(n, err, b).
       let c1 = c\<lparr>inputBuffer := b\<rparr> in
       if n > 0 then call_client env (messageCallback c1) c1
       else if n = 0 then handleClose env c1
       else Inr c1)"

definition handleWrite :: "'cb conn_env \<Rightarrow> 'cb conn \<Rightarrow> 'cb conn result" where
  "handleWrite env c =
     (if isWriting (conn_channel c) then
        (case do_write env (toStringView (outputBuffer c)) c of
           (Inr n, c1) \<Rightarrow>
             if n > 0 then
               and_then (retrieve n (outputBuffer c1)) (\<lambda>b.
                 let c2 = c1\<lparr>outputBuffer := b\<rparr> in
                 if readableBytes b = 0 then
                   (let c3 = queue_write_complete (set_channel_events DisableWriting c2)
                    in Inr (if state c3 = kDisconnecting then shutdownInLoop c3 else c3))
                 else Inr c2)
             else Inr c1
         | (Inl e, c1) \<Rightarrow> Inr c1)
      else Inr c)"

definition forceCloseInLoop :: "'cb conn_env \<Rightarrow> 'cb conn \<Rightarrow> 'cb conn result" where
  "forceCloseInLoop env c =
     (if state c = kConnected \<or> state c = kDisconnecting then handleClose env c else Inr c)"

definition conn_callbacks :: "'cb conn_env \<Rightarrow> read_outcome \<Rightarrow> 'cb conn channel_callbacks" where
  "conn_callbacks env outcome =
     \<lparr>readCallback = Some (\<lambda>t. conn_handleRead env outcome), writeCallback = Some (handleWrite env),
      closeCallback = Some (handleClose env), errorCallback = Some Inr\<rparr>"

definition set_handling :: "bool \<Rightarrow> 'cb conn \<Rightarrow> 'cb conn" where
  "set_handling b c = c\<lparr>conn_channel := (conn_channel c)\<lparr>eventHandling := b\<rparr>\<rparr>"

fun run_functor :: "'cb conn_env \<Rightarrow> 'cb pending_functor \<Rightarrow> 'cb conn \<Rightarrow> 'cb conn result" where
  "run_functor env (Fn_writeComplete cb) c = call_client env cb c"
| "run_functor env (Fn_highWaterMark cb n) c = call_client env cb c"
| "run_functor env (Fn_sendInLoop message) c = sendInLoop env message c"
| "run_functor env Fn_shutdownInLoop c = Inr (shutdownInLoop c)"
| "run_functor env Fn_shutdownAndForceCloseInLoop c = Inr (shutdownAndForceCloseInLoop c)"
| "run_functor env Fn_forceCloseInLoop c = forceCloseInLoop env c"
| "run_functor env Fn_startReadInLoop c = Inr (startReadInLoop c)"
| "run_functor env Fn_stopReadInLoop c = Inr (stopReadInLoop c)"
| "run_functor env Fn_connectDestroyed c = connectDestroyed env c"

datatype 'cb conn_event =
    Ev_established
  | Ev_io event_bits read_outcome int
  | Ev_pending
  | Ev_timer nat
  | Ev_call "'cb api_call"
  | Ev_other_thread "'cb api_call"
  | Ev_destroy

fun conn_step :: "'cb conn_env \<Rightarrow> 'cb conn_event \<Rightarrow> 'cb conn \<Rightarrow> 'cb conn result" where
  "conn_step env Ev_established c = connectEstablished env c"
| "conn_step env (Ev_io bits outcome t) c =
     handleEvent set_handling (tied (conn_channel c)) True (conn_callbacks env outcome) bits t c"
| "conn_step env Ev_pending c =
     (case pendings c of [] \<Rightarrow> Inr c | f # fs \<Rightarrow> run_functor env f (c\<lparr>pendings := fs\<rparr>))"
| "conn_step env (Ev_timer i) c =
     (if i < length (close_timers c) then
        (let c1 = c\<lparr>close_timers := take i (close_timers c) @ drop (Suc i) (close_timers c)\<rparr> in
         case close_timers c ! i of
           Tm_forceCloseInLoop \<Rightarrow> forceCloseInLoop env c1
         | Tm_forceClose \<Rightarrow> api_in_loop env Call_forceClose c1)
      else Inr c)"
| "conn_step env (Ev_call a) c = api_in_loop env a c"
| "conn_step env (Ev_other_thread a) c = api_other_thread env a c"
| "conn_step env Ev_destroy c = connectDestroyed env c"

fun conn_run :: "'cb conn_env \<Rightarrow> 'cb conn_event list \<Rightarrow> 'cb conn \<Rightarrow> 'cb conn result" where
  "conn_run env [] c = Inr c"
| "conn_run env (e # es) c = and_then (conn_step env e c) (conn_run env es)"

end
