(* ===== verification/TcpInvariant.thy ===== *)
theory TcpInvariant
  imports TcpConnection "HOL-Library.Sublist"
begin

text \<open>
  What every operation of a connection keeps, and how it may change the connection. \<open>changes q c c'\<close>
  is the relation between the states before and after the calls of a client; with \<open>q\<close> the client
  neither stops nor restarts reading.
\<close>

section \<open>The invariant\<close>

abbreviation writing :: "'cb conn \<Rightarrow> bool" where
  "writing c \<equiv> isWriting (conn_channel c)"

abbreviation unsent :: "'cb conn \<Rightarrow> bytes" where
  "unsent c \<equiv> toStringView (outputBuffer c)"

definition conn_inv :: "'cb conn \<Rightarrow> bool" where
  "conn_inv c \<longleftrightarrow>
     buffer_inv (inputBuffer c) \<and> buffer_inv (outputBuffer c) \<and> events_ok (events (conn_channel c)) \<and>
     accepted c = sent c @ unsent c \<and>
     (if state c = kDisconnected then \<not> writing c else writing c \<longleftrightarrow> unsent c \<noteq> []) \<and>
     cut_off c = []"

lemma conn_inv_new [simp]: "conn_inv (TcpConnection_new f cb1 cb2)"
  by (simp add: conn_inv_def TcpConnection_new_def Channel_new_def events_ok_def isWriting_def)

definition throttling :: "'cb pending_functor \<Rightarrow> bool" where
  "throttling f \<longleftrightarrow> f = Fn_startReadInLoop \<or> f = Fn_stopReadInLoop"

fun quiet_call :: "'cb api_call \<Rightarrow> bool" where
  "quiet_call Call_startRead \<longleftrightarrow> False"
| "quiet_call Call_stopRead \<longleftrightarrow> False"
| "quiet_call _ \<longleftrightarrow> True"

definition quiet_env :: "'cb conn_env \<Rightarrow> bool" where
  "quiet_env env \<longleftrightarrow> (\<forall>cb k. list_all quiet_call (env_calls env cb k))"

definition changes :: "bool \<Rightarrow> 'cb conn \<Rightarrow> 'cb conn \<Rightarrow> bool" where
  "changes q c c' \<longleftrightarrow>
     conn_inv c' \<and> (state c' = state c \<or> state c = kConnected \<and> state c' = kDisconnecting) \<and>
     prefix (sent c) (sent c') \<and> prefix (accepted c) (accepted c') \<and>
     (addedToLoop (conn_channel c) \<longrightarrow> addedToLoop (conn_channel c')) \<and>
     (\<exists>fs. pendings c' = pendings c @ fs \<and> Fn_connectDestroyed \<notin> set fs \<and>
        (q \<longrightarrow> (\<forall>f \<in> set fs. \<not> throttling f))) \<and>
     (q \<and> state c = kDisconnected \<longrightarrow>
        events (conn_channel c') = events (conn_channel c) \<and>
        addedToLoop (conn_channel c') = addedToLoop (conn_channel c))"

lemma changes_refl [simp]: "changes q c c \<longleftrightarrow> conn_inv c"
  by (simp add: changes_def)

lemma changes_inv: "changes q c c' \<Longrightarrow> conn_inv c'"
  by (simp add: changes_def)

lemma changes_trans:
  assumes "changes q c c1" and "changes q c1 c2"
  shows "changes q c c2"
proof -
  obtain fs1 where fs1: "pendings c1 = pendings c @ fs1" "Fn_connectDestroyed \<notin> set fs1"
    "q \<longrightarrow> (\<forall>f \<in> set fs1. \<not> throttling f)" using assms(1) by (auto simp: changes_def)
  obtain fs2 where fs2: "pendings c2 = pendings c1 @ fs2" "Fn_connectDestroyed \<notin> set fs2"
    "q \<longrightarrow> (\<forall>f \<in> set fs2. \<not> throttling f)" using assms(2) by (auto simp: changes_def)
  have "\<exists>fs. pendings c2 = pendings c @ fs \<and> Fn_connectDestroyed \<notin> set fs \<and>
        (q \<longrightarrow> (\<forall>f \<in> set fs. \<not> throttling f))"
    using fs1 fs2 by (intro exI [of _ "fs1 @ fs2"]) auto
  moreover have "prefix (sent c) (sent c1)" "prefix (sent c1) (sent c2)"
    "prefix (accepted c) (accepted c1)" "prefix (accepted c1) (accepted c2)"
    using assms unfolding changes_def by blast+
  then have "prefix (sent c) (sent c2)" "prefix (accepted c) (accepted c2)"
    by (blast intro: prefix_order.trans)+
  moreover have "state c2 = state c \<or> state c = kConnected \<and> state c2 = kDisconnecting" "conn_inv c2"
    "addedToLoop (conn_channel c) \<longrightarrow> addedToLoop (conn_channel c2)"
    using assms unfolding changes_def by auto
  moreover have "q \<and> state c = kDisconnected \<longrightarrow> events (conn_channel c2) = events (conn_channel c) \<and>
      addedToLoop (conn_channel c2) = addedToLoop (conn_channel c)"
    using assms unfolding changes_def by auto
  ultimately show ?thesis unfolding changes_def by blast
qed

text \<open>A result that is a change of \<open>c\<close>, and the sequence of two.\<close>

definition does :: "bool \<Rightarrow> 'cb conn \<Rightarrow> 'cb conn result \<Rightarrow> bool" where
  "does q c r \<longleftrightarrow> (\<exists>c'. r = Inr c' \<and> changes q c c')"

lemma does_Inr [simp]: "does q c (Inr c') \<longleftrightarrow> changes q c c'"
  by (simp add: does_def)

lemma does_and_then:
  assumes "does q c r" and "\<And>c1. r = Inr c1 \<Longrightarrow> changes q c c1 \<Longrightarrow> does q c1 (f c1)"
  shows "does q c (and_then r f)"
  using assms changes_trans by (fastforce simp: does_def)

section \<open>The pieces\<close>

lemma queueInLoop_changes:
  "conn_inv c \<Longrightarrow> f \<noteq> Fn_connectDestroyed \<Longrightarrow> \<not> throttling f \<Longrightarrow> changes q c (queueInLoop f c)"
  by (simp add: changes_def conn_inv_def queueInLoop_def)

lemma queue_write_complete_changes: "conn_inv c \<Longrightarrow> changes q c (queue_write_complete c)"
  by (auto simp: queue_write_complete_def throttling_def intro!: queueInLoop_changes split: option.split)

lemma queue_write_complete_simps [simp]:
  "state (queue_write_complete c) = state c" "conn_channel (queue_write_complete c) = conn_channel c"
  "outputBuffer (queue_write_complete c) = outputBuffer c" "sent (queue_write_complete c) = sent c"
  "accepted (queue_write_complete c) = accepted c" "inputBuffer (queue_write_complete c) = inputBuffer c"
  "cut_off (queue_write_complete c) = cut_off c" "write_shut (queue_write_complete c) = write_shut c"
  "\<exists>fs. pendings (queue_write_complete c) = pendings c @ fs \<and> Fn_connectDestroyed \<notin> set fs \<and>
        (\<forall>f \<in> set fs. \<not> throttling f)"
  by (auto simp: queue_write_complete_def queueInLoop_def throttling_def split: option.split)

lemma events_ok_set [simp]:
  "events_ok (events (conn_channel c)) \<Longrightarrow> events_ok (events (conn_channel (set_channel_events ch c)))"
  by (simp add: set_channel_events_def events_ok_changed)

lemma set_channel_simps [simp]:
  "state (set_channel_events ch c) = state c" "outputBuffer (set_channel_events ch c) = outputBuffer c"
  "sent (set_channel_events ch c) = sent c" "accepted (set_channel_events ch c) = accepted c"
  "inputBuffer (set_channel_events ch c) = inputBuffer c" "pendings (set_channel_events ch c) = pendings c"
  "cut_off (set_channel_events ch c) = cut_off c" "write_shut (set_channel_events ch c) = write_shut c"
  "addedToLoop (conn_channel (set_channel_events ch c))"
  by (simp_all add: set_channel_events_def)

lemma writing_set:
  assumes "events_ok (events (conn_channel c))"
  shows "writing (set_channel_events EnableWriting c)" "\<not> writing (set_channel_events DisableWriting c)"
    "\<not> writing (set_channel_events DisableAll c)"
    "writing (set_channel_events EnableReading c) = writing c"
    "writing (set_channel_events DisableReading c) = writing c"
  using change_events_effect [OF assms] by (simp_all add: set_channel_events_def isWriting_def event_defs)

lemma shutdownWrite_changes:
  assumes "conn_inv c" and "\<not> writing c"
  shows "changes q c (shutdownWrite c)"
  using assms by (auto simp: changes_def conn_inv_def shutdownWrite_def)

lemma shutdownInLoop_changes:
  assumes "conn_inv c"
  shows "changes q c (shutdownInLoop c)"
  using assms shutdownWrite_changes by (auto simp: shutdownInLoop_def)

lemma timer_changes: "conn_inv c \<Longrightarrow> changes q c (c\<lparr>close_timers := ts\<rparr>)"
  by (simp add: changes_def conn_inv_def)

lemma shutdownAndForceCloseInLoop_changes:
  assumes "conn_inv c"
  shows "changes q c (shutdownAndForceCloseInLoop c)"
proof -
  let ?c = "if \<not> writing c then shutdownWrite c else c"
  have "changes q c ?c" using assms shutdownWrite_changes [OF assms] by auto
  moreover from this have "changes q ?c (?c\<lparr>close_timers := close_timers ?c @ [Tm_forceCloseInLoop]\<rparr>)"
    by (intro timer_changes changes_inv)
  ultimately show ?thesis unfolding shutdownAndForceCloseInLoop_def Let_def by (rule changes_trans)
qed

lemma startReadInLoop_changes: "conn_inv c \<Longrightarrow> changes False c (startReadInLoop c)"
  using writing_set [of c] events_ok_changed [of "events (conn_channel c)" EnableReading]
  by (auto simp: startReadInLoop_def changes_def conn_inv_def set_channel_events_def)

lemma stopReadInLoop_changes: "conn_inv c \<Longrightarrow> changes False c (stopReadInLoop c)"
  using writing_set [of c] events_ok_changed [of "events (conn_channel c)" DisableReading]
  by (auto simp: stopReadInLoop_def changes_def conn_inv_def set_channel_events_def)

section \<open>Sending\<close>

lemma readable_unsent: "buffer_inv b \<Longrightarrow> readableBytes b = 0 \<longleftrightarrow> toStringView b = []"
  by (metis length_0_conv length_toStringView)

text \<open>The second part of \<open>sendInLoop\<close>, once a prefix of the message has been written.\<close>

definition send_rest :: "bytes \<Rightarrow> bytes \<Rightarrow> nat \<Rightarrow> 'cb conn \<Rightarrow> 'cb conn result" where
  "send_rest message rest remaining c1 =
     (let oldLen = readableBytes (outputBuffer c1);
          c2 = (case highWaterMarkCallback c1 of
                  Some cb \<Rightarrow> if oldLen + remaining \<ge> highWaterMark c1 \<and> oldLen < highWaterMark c1
                             then queueInLoop (Fn_highWaterMark cb (oldLen + remaining)) c1 else c1
                | None \<Rightarrow> c1)
      in and_then (append_bytes rest (outputBuffer c2)) (\<lambda>b.
         let c3 = c2\<lparr>outputBuffer := b, accepted := accepted c2 @ message\<rparr>
         in Inr (if \<not> isWriting (conn_channel c3) then set_channel_events EnableWriting c3 else c3)))"

lemma sendInLoop_rest:
  "state c \<noteq> kDisconnected \<Longrightarrow> send_directly env message c = (nwrote, remaining, faultError, c1) \<Longrightarrow>
     remaining \<le> length message \<Longrightarrow>
   sendInLoop env message c =
     (if \<not> faultError \<and> remaining > 0
      then send_rest message (subrange nwrote (nwrote + remaining) message) remaining c1
      else Inr (c1\<lparr>accepted := (if faultError then accepted c1 else accepted c1 @ message)\<rparr>))"
  by (simp add: sendInLoop_def send_rest_def check_def)

text \<open>The states that differ from \<open>c\<close> in what was written and queued only.\<close>

definition written_of :: "'cb conn \<Rightarrow> bytes \<Rightarrow> 'cb conn \<Rightarrow> bool" where
  "written_of c w c1 \<longleftrightarrow>
     (\<exists>fs n. Fn_connectDestroyed \<notin> set fs \<and> (\<forall>f \<in> set fs. \<not> throttling f) \<and>
        c1 = c\<lparr>sent := sent c @ w, writes := n, pendings := pendings c @ fs\<rparr>)"

lemma written_of_simps:
  assumes "written_of c w c1"
  shows "state c1 = state c" "conn_channel c1 = conn_channel c" "outputBuffer c1 = outputBuffer c"
    "inputBuffer c1 = inputBuffer c" "sent c1 = sent c @ w" "accepted c1 = accepted c"
    "cut_off c1 = cut_off c" "write_shut c1 = write_shut c"
    "\<exists>fs. pendings c1 = pendings c @ fs \<and> Fn_connectDestroyed \<notin> set fs \<and> (\<forall>f \<in> set fs. \<not> throttling f)"
  using assms by (auto simp: written_of_def)

lemma written_of_queue:
  assumes "written_of c w c1" and "f \<noteq> Fn_connectDestroyed" and "\<not> throttling f"
  shows "written_of c w (queueInLoop f c1)"
proof -
  from assms(1) obtain fs n where fs: "Fn_connectDestroyed \<notin> set fs" "\<forall>f \<in> set fs. \<not> throttling f"
    "c1 = c\<lparr>sent := sent c @ w, writes := n, pendings := pendings c @ fs\<rparr>" by (auto simp: written_of_def)
  with assms(2,3) show ?thesis
    unfolding written_of_def by (intro exI [of _ "fs @ [f]"] exI [of _ n]) (simp add: queueInLoop_def)
qed

lemma written_of_complete: "written_of c w c1 \<Longrightarrow> written_of c w (queue_write_complete c1)"
  by (auto simp: queue_write_complete_def throttling_def intro!: written_of_queue split: option.split)

lemma do_write_cases:
  obtains k where "k \<le> length m" and "do_write env m c = (Inr k, c\<lparr>writes := Suc (writes c), sent := sent c @ take k m\<rparr>)"
  | e where "do_write env m c = (Inl e, c\<lparr>writes := Suc (writes c)\<rparr>)"
proof (cases "env_write env (writes c)")
  case (Accept n)
  show thesis by (rule that(1) [of "min n (length m)"]) (simp_all add: do_write_def Accept Let_def)
next
  case (Write_errno e)
  show thesis by (rule that(2) [of e]) (simp add: do_write_def Write_errno)
qed

lemma written_of_write: "written_of c w (c\<lparr>writes := n, sent := sent c @ w\<rparr>)"
  unfolding written_of_def by (intro exI [of _ "[]"] exI [of _ n]) simp

lemma send_rest_changes:
  assumes inv: "conn_inv c" and c1: "written_of c w c1" and m: "message = w @ rest"
    and rest: "rest \<noteq> []" and st: "state c \<noteq> kDisconnected" and w: "w = [] \<or> unsent c = []"
  shows "does q c (send_rest message rest remaining c1)"
proof -
  define c2 where "c2 = (case highWaterMarkCallback c1 of
      Some cb \<Rightarrow> if readableBytes (outputBuffer c1) + remaining \<ge> highWaterMark c1 \<and>
                    readableBytes (outputBuffer c1) < highWaterMark c1
                 then queueInLoop (Fn_highWaterMark cb (readableBytes (outputBuffer c1) + remaining)) c1 else c1
    | None \<Rightarrow> c1)"
  have "written_of c w c2"
    using c1 written_of_queue [OF c1] by (auto simp: c2_def throttling_def split: option.split)
  note simps = written_of_simps [OF this]
  have out: "buffer_inv (outputBuffer c2)" using inv simps(3) by (simp add: conn_inv_def)
  obtain b where b: "append_bytes rest (outputBuffer c2) = Inr b" "buffer_inv b"
    "toStringView b = unsent c2 @ rest"
    using append_bytes_correct [OF out, of rest] by blast
  let ?c3 = "c2\<lparr>outputBuffer := b, accepted := accepted c2 @ message\<rparr>"
  let ?c4 = "if \<not> writing ?c3 then set_channel_events EnableWriting ?c3 else ?c3"
  have run: "send_rest message rest remaining c1 = Inr ?c4"
    using b(1) by (simp add: send_rest_def Let_def c2_def [symmetric])
  define c4 where "c4 = ?c4"
  have ev: "events_ok (events (conn_channel ?c3))" using inv simps(2) by (simp add: conn_inv_def)
  have sel: "state c4 = state c" "outputBuffer c4 = b" "inputBuffer c4 = inputBuffer c" "sent c4 = sent c @ w"
    "accepted c4 = accepted c @ message" "cut_off c4 = cut_off c" "write_shut c4 = write_shut c"
    "pendings c4 = pendings c2" "addedToLoop (conn_channel c) \<longrightarrow> addedToLoop (conn_channel c4)"
    using simps by (simp_all add: c4_def)
  have wr: "writing c4" using writing_set(1) [OF ev] by (simp add: c4_def)
  have ev4: "events_ok (events (conn_channel c4))" using ev events_ok_set [OF ev] by (simp add: c4_def)
  have "accepted c4 = sent c4 @ unsent c4"
    using inv b(3) simps(3) m w by (auto simp: conn_inv_def sel)
  moreover have "unsent c4 \<noteq> []" using b(3) rest by (simp add: sel)
  ultimately have "conn_inv c4"
    using inv wr ev4 b(2) st by (simp add: conn_inv_def sel)
  moreover have "prefix (sent c) (sent c4)" "prefix (accepted c) (accepted c4)" using sel by simp_all
  ultimately have "changes q c c4"
    using simps(9) st sel by (auto simp: changes_def)
  with run show ?thesis by (simp add: c4_def)
qed

lemma sendInLoop_changes:
  assumes inv: "conn_inv c"
  shows "does q c (sendInLoop env message c)"
proof (cases "state c = kDisconnected")
  case True
  with inv show ?thesis by (simp add: sendInLoop_def)
next
  case st: False
  show ?thesis
  proof (cases "\<not> writing c \<and> readableBytes (outputBuffer c) = 0")
    case False
    then have wr: "writing c" using inv st readable_unsent [of "outputBuffer c"] by (auto simp: conn_inv_def)
    then have "send_directly env message c = (0, length message, False, c)" by (simp add: send_directly_def)
    note run = sendInLoop_rest [OF st this order.refl]
    have "written_of c [] c" using written_of_write [of c "[]" "writes c"] by simp
    from send_rest_changes [OF inv this _ _ st, of message message q] inv run show ?thesis
      by (cases "message = []") (simp_all add: subrange_def)
  next
    case idle: True
    then have empty: "unsent c = []" using inv readable_unsent by (simp add: conn_inv_def)
    show ?thesis
    proof (cases rule: do_write_cases [of message env c])
      case (1 k)
      let ?c1 = "c\<lparr>writes := Suc (writes c), sent := sent c @ take k message\<rparr>"
      let ?c2 = "if length message - k = 0 then queue_write_complete ?c1 else ?c1"
      have w1: "written_of c (take k message) ?c1" by (rule written_of_write)
      have w: "written_of c (take k message) ?c2"
        by (simp only: w1 written_of_complete [OF w1] split: if_split) simp
      have "send_directly env message c = (k, length message - k, False, ?c2)"
        using idle 1(2) by (simp add: send_directly_def Let_def)
      note run = sendInLoop_rest [OF st this, simplified]
      show ?thesis
      proof (cases "k = length message")
        case True
        note simps = written_of_simps [OF w]
        have "conn_inv (?c2\<lparr>accepted := accepted ?c2 @ message\<rparr>)"
          using inv simps True empty by (simp add: conn_inv_def)
        then have "changes q c (?c2\<lparr>accepted := accepted ?c2 @ message\<rparr>)"
          using simps by (auto simp: changes_def)
        with run True show ?thesis by simp
      next
        case False
        then have "drop k message \<noteq> []" using 1(1) by simp
        from send_rest_changes [OF inv w _ this st, of message q "length message - k"] run False 1(1) empty
        show ?thesis by (simp add: subrange_def)
      qed
    next
      case (2 e)
      let ?c1 = "c\<lparr>writes := Suc (writes c)\<rparr>"
      let ?fault = "e \<noteq> EWOULDBLOCK \<and> (e = EPIPE \<or> e = ECONNRESET)"
      have w: "written_of c [] ?c1" using written_of_write [of c "[]" "Suc (writes c)"] by simp
      have "send_directly env message c = (0, length message, ?fault, ?c1)"
        using idle 2 by (simp add: send_directly_def Let_def)
      note run = sendInLoop_rest [OF st this order.refl]
      show ?thesis
      proof (cases "?fault \<or> message = []")
        case True
        have "conn_inv ?c1" "changes q c ?c1" using inv by (simp_all add: changes_def conn_inv_def)
        moreover have "?c1\<lparr>accepted := accepted ?c1\<rparr> = ?c1" by simp
        ultimately show ?thesis using run True by (cases ?fault) simp_all
      next
        case False
        with send_rest_changes [OF inv w _ _ st, of message message q "length message"] run show ?thesis
          by (auto simp: subrange_def)
      qed
    qed
  qed
qed

section \<open>Calls of the client\<close>

lemma state_change:
  assumes "conn_inv c" and "state c = kConnected \<or> state c = kDisconnecting"
  shows "changes q c (c\<lparr>state := kDisconnecting\<rparr>)"
  using assms by (auto simp: changes_def conn_inv_def)

lemma api_in_loop_changes:
  assumes inv: "conn_inv c" and "q \<longrightarrow> quiet_call a"
  shows "does q c (api_in_loop env a c)"
proof (cases a)
  case (Call_send m)
  with inv sendInLoop_changes [OF inv] show ?thesis by simp
next
  case Call_shutdown
  show ?thesis
  proof (cases "state c = kConnected")
    case True
    then have ch: "changes q c (c\<lparr>state := kDisconnecting\<rparr>)" using state_change [OF inv] by simp
    then have "changes q (c\<lparr>state := kDisconnecting\<rparr>) (shutdownInLoop (c\<lparr>state := kDisconnecting\<rparr>))"
      by (intro shutdownInLoop_changes changes_inv) simp_all
    from changes_trans [OF ch this] Call_shutdown True show ?thesis by simp
  qed (use Call_shutdown inv in simp)
next
  case Call_shutdownAndForceCloseAfter
  show ?thesis
  proof (cases "state c = kConnected")
    case True
    then have ch: "changes q c (c\<lparr>state := kDisconnecting\<rparr>)" using state_change [OF inv] by simp
    then have "changes q (c\<lparr>state := kDisconnecting\<rparr>) (shutdownAndForceCloseInLoop (c\<lparr>state := kDisconnecting\<rparr>))"
      by (intro shutdownAndForceCloseInLoop_changes changes_inv) simp_all
    from changes_trans [OF ch this] Call_shutdownAndForceCloseAfter True show ?thesis by simp
  qed (use Call_shutdownAndForceCloseAfter inv in simp)
next
  case Call_forceClose
  show ?thesis
  proof (cases "state c = kConnected \<or> state c = kDisconnecting")
    case True
    note ch = state_change [OF inv True, of q]
    have "changes q (c\<lparr>state := kDisconnecting\<rparr>) (queueInLoop Fn_forceCloseInLoop (c\<lparr>state := kDisconnecting\<rparr>))"
      using changes_inv [OF ch] by (intro queueInLoop_changes) (simp_all add: throttling_def)
    from changes_trans [OF ch this] Call_forceClose True show ?thesis by auto
  qed (use Call_forceClose inv in simp)
next
  case Call_forceCloseWithDelay
  show ?thesis
  proof (cases "state c = kConnected \<or> state c = kDisconnecting")
    case True
    note ch = state_change [OF inv True, of q]
    note tm = timer_changes [OF changes_inv [OF ch], of q "close_timers c @ [Tm_forceClose]"]
    from changes_trans [OF ch tm] Call_forceCloseWithDelay True show ?thesis by auto
  qed (use Call_forceCloseWithDelay inv in simp)
next
  case Call_startRead
  with assms startReadInLoop_changes [OF inv] show ?thesis by (cases q) simp_all
next
  case Call_stopRead
  with assms stopReadInLoop_changes [OF inv] show ?thesis by (cases q) simp_all
next
  case (Call_setWriteCompleteCallback cb)
  have "changes q c (c\<lparr>writeCompleteCallback := cb\<rparr>)" using inv by (simp add: changes_def conn_inv_def)
  with Call_setWriteCompleteCallback show ?thesis by simp
next
  case (Call_setHighWaterMarkCallback cb mark)
  have "changes q c (c\<lparr>highWaterMarkCallback := cb, highWaterMark := mark\<rparr>)"
    using inv by (simp add: changes_def conn_inv_def)
  with Call_setHighWaterMarkCallback show ?thesis by simp
next
  case (Call_consume n)
  have b: "buffer_inv (inputBuffer c)" using inv by (simp add: conn_inv_def)
  obtain b' where "retrieve (min n (readableBytes (inputBuffer c))) (inputBuffer c) = Inr b'" "buffer_inv b'"
    using retrieve_correct [OF b, of "min n (readableBytes (inputBuffer c))"] by auto
  moreover from this(2) have "changes q c (c\<lparr>inputBuffer := b'\<rparr>)" using inv by (simp add: changes_def conn_inv_def)
  ultimately show ?thesis using Call_consume by simp
qed

lemma api_calls_changes:
  assumes "conn_inv c" and "q \<longrightarrow> list_all quiet_call calls"
  shows "does q c (api_calls env calls c)"
  using assms
proof (induction calls arbitrary: c)
  case (Cons a calls)
  have "does q c (api_in_loop env a c)" using Cons.prems by (intro api_in_loop_changes) auto
  then have "does q c (and_then (api_in_loop env a c) (api_calls env calls))"
    by (rule does_and_then) (use Cons.prems Cons.IH changes_inv in auto)
  then show ?case by simp
qed simp

lemma call_client_changes:
  assumes "conn_inv c" and "q \<longrightarrow> quiet_env env"
  shows "does q c (call_client env cb c)"
proof -
  let ?c = "c\<lparr>called := called c @ [cb]\<rparr>"
  have c: "changes q c ?c" using assms(1) by (simp add: changes_def conn_inv_def)
  have "does q ?c (api_calls env (env_calls env cb (length (called c))) ?c)"
    using assms(2) changes_inv [OF c] by (intro api_calls_changes) (auto simp: quiet_env_def)
  then show ?thesis using changes_trans [OF c] by (auto simp: call_client_def does_def)
qed

lemma does_changes_trans: "changes q c c1 \<Longrightarrow> does q c1 r \<Longrightarrow> does q c r"
  by (auto simp: does_def intro: changes_trans)

lemma api_other_thread_changes:
  assumes inv: "conn_inv c" and "q \<longrightarrow> quiet_call a"
  shows "does q c (api_other_thread env a c)"
proof (cases a)
  case (Call_send m)
  with inv show ?thesis by (auto simp: throttling_def intro: queueInLoop_changes)
next
  case Call_shutdown
  then show ?thesis
    using inv state_change [OF inv] changes_trans [OF state_change [OF inv] queueInLoop_changes [OF changes_inv [OF state_change [OF inv]]]]
    by (auto simp: throttling_def)
next
  case Call_shutdownAndForceCloseAfter
  then show ?thesis
    using inv state_change [OF inv] changes_trans [OF state_change [OF inv] queueInLoop_changes [OF changes_inv [OF state_change [OF inv]]]]
    by (auto simp: throttling_def)
next
  case Call_startRead
  with assms show ?thesis by (cases q) (auto simp: changes_def conn_inv_def queueInLoop_def)
next
  case Call_stopRead
  with assms show ?thesis by (cases q) (auto simp: changes_def conn_inv_def queueInLoop_def)
qed (use api_in_loop_changes [OF assms, of env] in \<open>simp_all only: api_other_thread.simps\<close>)

section \<open>Events\<close>

text \<open>The life of a connection goes forward only.\<close>

fun rank :: "conn_state \<Rightarrow> nat" where
  "rank kConnecting = 0"
| "rank kConnected = 1"
| "rank kDisconnecting = 2"
| "rank kDisconnected = 3"

definition grows :: "'cb conn \<Rightarrow> 'cb conn \<Rightarrow> bool" where
  "grows c c' \<longleftrightarrow> conn_inv c' \<and> rank (state c) \<le> rank (state c') \<and>
     prefix (sent c) (sent c') \<and> prefix (accepted c) (accepted c')"

lemma grows_refl [simp]: "grows c c \<longleftrightarrow> conn_inv c"
  by (simp add: grows_def)

lemma grows_trans: "grows c c1 \<Longrightarrow> grows c1 c2 \<Longrightarrow> grows c c2"
  by (auto simp: grows_def intro: prefix_order.trans)

lemma changes_grows: "changes q c c' \<Longrightarrow> grows c c'"
  by (auto simp: changes_def grows_def)

text \<open>A step fails an assertion or grows.\<close>

definition sound :: "'cb conn \<Rightarrow> 'cb conn result \<Rightarrow> bool" where
  "sound c r \<longleftrightarrow> (case r of Inl e \<Rightarrow> e = Assert_failed | Inr c' \<Rightarrow> grows c c')"

lemma sound_simps [simp]:
  "sound c (Inl e) \<longleftrightarrow> e = Assert_failed" "sound c (Inr c') \<longleftrightarrow> grows c c'"
  by (simp_all add: sound_def)

lemma sound_check: "(b \<Longrightarrow> sound c r) \<Longrightarrow> sound c (check b r)"
  by (simp add: check_def)

lemma sound_and_then:
  assumes "sound c r" and "\<And>c1. conn_inv c1 \<Longrightarrow> sound c1 (f c1)"
  shows "sound c (and_then r f)"
proof (cases r)
  case (Inr c1)
  with assms(1) have c1: "grows c c1" by simp
  with assms(2) [of c1] have "sound c1 (f c1)" by (simp add: grows_def)
  with Inr c1 show ?thesis by (cases "f c1") (auto intro: grows_trans)
qed (use assms in simp)

lemma does_sound: "does q c r \<Longrightarrow> sound c r"
  by (auto simp: does_def intro: changes_grows)

lemma sound_grows: "grows c c1 \<Longrightarrow> sound c1 r \<Longrightarrow> sound c r"
  by (cases r) (auto intro: grows_trans)

lemma closed_inv:
  assumes "conn_inv c"
  shows "conn_inv (set_channel_events DisableAll (c\<lparr>state := kDisconnected\<rparr>))"
proof -
  let ?c = "c\<lparr>state := kDisconnected\<rparr>"
  have ev: "events_ok (events (conn_channel ?c))" using assms by (simp add: conn_inv_def)
  from events_ok_set [OF this] writing_set(3) [OF this] assms show ?thesis by (simp add: conn_inv_def)
qed

lemma rank_max: "rank s \<le> rank kDisconnected"
  by (cases s) simp_all

lemma closed_grows:
  assumes "conn_inv c"
  shows "grows c (set_channel_events DisableAll (c\<lparr>state := kDisconnected\<rparr>))"
  using closed_inv [OF assms] rank_max by (simp add: grows_def)

lemma handleClose_sound:
  assumes "conn_inv c"
  shows "sound c (handleClose env c)"
proof -
  let ?c = "set_channel_events DisableAll (c\<lparr>state := kDisconnected\<rparr>)"
  have "does False ?c (call_client env (connectionCallback c) ?c)"
    using closed_inv [OF assms] by (intro call_client_changes) simp_all
  then obtain c2 where c2: "call_client env (connectionCallback c) ?c = Inr c2" "changes False ?c c2"
    by (auto simp: does_def)
  have "grows c2 (close_callback c2)"
    using changes_inv [OF c2(2)] by (simp add: grows_def conn_inv_def close_callback_def queueInLoop_def)
  then have "grows c (close_callback c2)"
    using closed_grows [OF assms] changes_grows [OF c2(2)] by (blast intro: grows_trans)
  with c2(1) show ?thesis by (simp add: handleClose_def check_def)
qed

lemma handleWrite_changes:
  assumes inv: "conn_inv c"
  shows "does q c (handleWrite env c)"
proof (cases "writing c")
  case False
  with inv show ?thesis by (simp add: handleWrite_def)
next
  case wr: True
  have st: "state c \<noteq> kDisconnected" using inv wr by (auto simp: conn_inv_def)
  have out: "buffer_inv (outputBuffer c)" using inv by (simp add: conn_inv_def)
  show ?thesis
  proof (cases rule: do_write_cases [of "unsent c" env c])
    case (1 k)
    let ?c1 = "c\<lparr>writes := Suc (writes c), sent := sent c @ take k (unsent c)\<rparr>"
    show ?thesis
    proof (cases "k = 0")
      case True
      with inv have "changes q c ?c1" by (simp add: changes_def conn_inv_def)
      with wr 1 True show ?thesis by (simp add: handleWrite_def)
    next
      case False
      have k: "k \<le> readableBytes (outputBuffer c)" using 1(1) length_toStringView [OF out] by simp
      obtain b where b: "retrieve k (outputBuffer c) = Inr b" "buffer_inv b" "toStringView b = drop k (unsent c)"
        using retrieve_correct [OF out k] by blast
      let ?c2 = "?c1\<lparr>outputBuffer := b\<rparr>"
      show ?thesis
      proof (cases "readableBytes b = 0")
        case empty: True
        let ?c3 = "queue_write_complete (set_channel_events DisableWriting ?c2)"
        let ?c4 = "if state ?c3 = kDisconnecting then shutdownInLoop ?c3 else ?c3"
        have run: "handleWrite env c = Inr ?c4"
          using wr 1 False b(1) empty by (simp add: handleWrite_def Let_def)
        have ev: "events_ok (events (conn_channel ?c2))" using inv by (simp add: conn_inv_def)
        have none: "toStringView b = []" using empty readable_unsent [OF b(2)] by simp
        then have all: "take k (unsent c) = unsent c" using b(3) by simp
        have inv3: "conn_inv ?c3"
          using inv b none all st writing_set(2) [OF ev] events_ok_set [OF ev]
          by (simp add: conn_inv_def)
        have ch3: "changes q c ?c3"
          using inv3 st queue_write_complete_simps(9) [of "set_channel_events DisableWriting ?c2"]
          by (auto simp: changes_def)
        have "changes q ?c3 ?c4" using inv3 shutdownInLoop_changes [OF inv3] by simp
        with changes_trans [OF ch3] run show ?thesis by simp
      next
        case nonempty: False
        have "toStringView b \<noteq> []" using nonempty readable_unsent [OF b(2)] by simp
        then have "conn_inv ?c2" using inv b wr st by (simp add: conn_inv_def)
        then have "changes q c ?c2" by (simp add: changes_def)
        with wr 1 False b(1) nonempty show ?thesis by (simp add: handleWrite_def Let_def)
      qed
    qed
  next
    case (2 e)
    have "changes q c (c\<lparr>writes := Suc (writes c)\<rparr>)" using inv by (simp add: changes_def conn_inv_def)
    with wr 2 show ?thesis by (simp add: handleWrite_def)
  qed
qed

lemma readFd_result:
  assumes "conn_inv c"
  obtains n err b where "readFd outcome (inputBuffer c) = Inr (n, err, b)"
    and "changes q c (c\<lparr>inputBuffer := b\<rparr>)" and "conn_inv (c\<lparr>inputBuffer := b\<rparr>)"
proof (cases outcome)
  case (Read_error e)
  have "readFd outcome (inputBuffer c) = Inr (-1, Some e, inputBuffer c)" by (simp add: Read_error readFd_def)
  then show thesis by (rule that) (use assms in simp_all)
next
  case (Read_bytes data)
  have "buffer_inv (inputBuffer c)" using assms by (simp add: conn_inv_def)
  then obtain b where "readFd outcome (inputBuffer c) = Inr (int (length data), None, b)" "buffer_inv b"
    unfolding Read_bytes by (rule readFd_bytes_correct)
  then show thesis by (intro that) (use assms in \<open>simp_all add: changes_def conn_inv_def\<close>)
qed

lemma conn_handleRead_sound:
  assumes "conn_inv c"
  shows "sound c (conn_handleRead env outcome c)"
proof -
  obtain n err b where r: "readFd outcome (inputBuffer c) = Inr (n, err, b)"
    "changes False c (c\<lparr>inputBuffer := b\<rparr>)" "conn_inv (c\<lparr>inputBuffer := b\<rparr>)"
    by (rule readFd_result [OF assms])
  let ?c = "c\<lparr>inputBuffer := b\<rparr>"
  have "sound ?c (call_client env (messageCallback ?c) ?c)" "sound ?c (handleClose env ?c)"
    using does_sound [OF call_client_changes [OF r(3), of False]] handleClose_sound [OF r(3)] by simp_all
  then have "sound c (call_client env (messageCallback ?c) ?c)" "sound c (handleClose env ?c)"
    using sound_grows [OF changes_grows [OF r(2)]] by simp_all
  with r changes_grows [OF r(2)] show ?thesis by (simp add: conn_handleRead_def Let_def)
qed

lemma isWriting_flags [simp]:
  "isWriting (ch\<lparr>eventHandling := b\<rparr>) = isWriting ch" "isWriting (ch\<lparr>addedToLoop := b\<rparr>) = isWriting ch"
  by (simp_all add: isWriting_def)

lemma set_handling_changes: "conn_inv c \<Longrightarrow> changes q c (set_handling b c)"
  by (simp add: changes_def conn_inv_def set_handling_def)

lemma remove_conn_channel_sound: "conn_inv c \<Longrightarrow> sound c (remove_conn_channel c)"
  by (simp add: remove_conn_channel_def check_def grows_def conn_inv_def)

lemma connectDestroyed_sound:
  assumes "conn_inv c"
  shows "sound c (connectDestroyed env c)"
proof -
  let ?c = "set_channel_events DisableAll (c\<lparr>state := kDisconnected\<rparr>)"
  have "sound ?c (call_client env (connectionCallback c) ?c)"
    using closed_inv [OF assms] by (intro does_sound [of False] call_client_changes) simp_all
  then have "sound c (call_client env (connectionCallback c) ?c)"
    by (rule sound_grows [OF closed_grows [OF assms]])
  then show ?thesis
    unfolding connectDestroyed_def
    by (intro sound_and_then remove_conn_channel_sound) (use assms in simp_all)
qed

lemma established_changes:
  assumes "conn_inv c" and "state c = kConnecting"
  defines "c1 \<equiv> set_channel_events EnableReading (c\<lparr>state := kConnected, conn_channel := tie (conn_channel c)\<rparr>)"
  shows "conn_inv c1" and "grows c c1"
proof -
  let ?c = "c\<lparr>state := kConnected, conn_channel := tie (conn_channel c)\<rparr>"
  have ev: "events_ok (events (conn_channel ?c))" using assms(1) by (simp add: conn_inv_def tie_def)
  have "writing ?c = writing c" by (simp add: isWriting_def tie_def)
  with assms(1,2) writing_set(4) [OF ev] events_ok_set [OF ev]
  show "conn_inv c1" by (simp add: conn_inv_def c1_def)
  then show "grows c c1" using assms(2) by (simp add: grows_def c1_def)
qed

lemma connectEstablished_sound:
  assumes "conn_inv c"
  shows "sound c (connectEstablished env c)"
  unfolding connectEstablished_def
proof (rule sound_check)
  assume st: "state c = kConnecting"
  note e = established_changes [OF assms st]
  show "sound c (let c1 = c\<lparr>state := kConnected, conn_channel := tie (conn_channel c)\<rparr>
        in call_client env (connectionCallback c) (set_channel_events EnableReading c1))"
    unfolding Let_def
    by (rule sound_grows [OF e(2) does_sound [of False, OF call_client_changes [OF e(1)]]]) simp
qed

lemma call_sound:
  "conn_inv c \<Longrightarrow> (\<And>f c. cb = Some f \<Longrightarrow> conn_inv c \<Longrightarrow> sound c (f c)) \<Longrightarrow> sound c (call b cb c)"
  by (auto simp: call_def split: option.split)

lemma handleEvent_sound:
  assumes "conn_inv c"
  shows "sound c (handleEvent set_handling b True (conn_callbacks env outcome) bits t c)"
proof -
  have guard: "sound c (handleEventWithGuard set_handling (conn_callbacks env outcome) bits t c)"
    unfolding handleEventWithGuard_def conn_callbacks_def
    by (intro sound_and_then sound_grows [OF changes_grows [OF set_handling_changes [OF assms, of False True]]]
          call_sound changes_inv [OF set_handling_changes [OF assms, of False]])
      (auto intro: handleClose_sound conn_handleRead_sound does_sound [OF handleWrite_changes]
          changes_grows [OF set_handling_changes])
  then show ?thesis by (simp add: handleEvent_def)
qed

lemma forceCloseInLoop_sound: "conn_inv c \<Longrightarrow> sound c (forceCloseInLoop env c)"
  by (simp add: forceCloseInLoop_def handleClose_sound)

end
