(* ===== verification/HttpOverTcp.thy ===== *)
theory HttpOverTcp
  imports HttpStream TcpInvariant
begin

text \<open>
  An HTTP server on a TCP connection: \<^verbatim>\<open>HttpServer::onConnection\<close> and \<^verbatim>\<open>onMessage\<close> as the callbacks of a
  \<^verbatim>\<open>TcpConnection\<close>. The bytes of the peer come in segments of any length, the kernel takes any part of
  the answers at any time, and the limit on unsent bytes that the server installs stops and restarts
  reading. The segments are the outcomes of \<^verbatim>\<open>readv\<close>; the answers are what \<^verbatim>\<open>write\<close> took and what is in
  the output buffer.
\<close>

section \<open>The callbacks\<close>

datatype http_cb = Cb_connection | Cb_message | Cb_highWaterMark | Cb_drained

text \<open>The calls on the connection; those of \<open>Cb_message\<close> are in \<open>http_onMessage\<close>.\<close>

fun http_calls :: "http_cb \<Rightarrow> http_cb api_call list" where
  "http_calls Cb_connection = [Call_setHighWaterMarkCallback (Some Cb_highWaterMark) (256 * 1024)]"
| "http_calls Cb_message = []"
| "http_calls Cb_highWaterMark = optionalHighWaterMarkCallback Cb_drained"
| "http_calls Cb_drained = optionalDoneHighWaterMarkCallback"

definition tcp_env :: "(nat \<Rightarrow> write_outcome) \<Rightarrow> http_cb conn_env" where
  "tcp_env w = \<lparr>env_write = w, env_calls = (\<lambda>cb k. http_calls cb)\<rparr>"

record http_session =
  hs_conn :: "http_cb conn"
  hs_context :: http_context
  hs_date :: date_cache

definition http_established ::
  "callback_map \<Rightarrow> (nat \<Rightarrow> write_outcome) \<Rightarrow> int \<Rightarrow> date_cache \<Rightarrow> http_session result" where
  "http_established m w sockfd d =
     map_sum id (\<lambda>c. \<lparr>hs_conn = c, hs_context = onConnection m, hs_date = d\<rparr>)
       (connectEstablished (tcp_env w) (TcpConnection_new sockfd Cb_connection Cb_message))"

definition http_onMessage ::
  "http_env \<Rightarrow> callback_map \<Rightarrow> (nat \<Rightarrow> write_outcome) \<Rightarrow> int \<Rightarrow> http_session \<Rightarrow> http_session result option" where
  "http_onMessage env m w t s =
     (case onMessage env m t (hs_context s) (inputBuffer (hs_conn s)) (hs_date s) of
        None \<Rightarrow> None
      | Some (Inl e) \<Rightarrow> Some (Inl e)
      | Some (Inr (out, needClose, ctx, buf, d)) \<Rightarrow>
          Some (and_then (api_in_loop (tcp_env w) (Call_send out) ((hs_conn s)\<lparr>inputBuffer := buf\<rparr>)) (\<lambda>c1.
                and_then (if needClose then api_in_loop (tcp_env w) Call_forceClose c1 else Inr c1) (\<lambda>c2.
                  Inr \<lparr>hs_conn = c2, hs_context = ctx, hs_date = d\<rparr>))))"

text \<open>\<open>conn_handleRead\<close> with this callback, when \<^verbatim>\<open>readv\<close> delivers \<open>bs\<close>.\<close>

definition http_handleRead ::
  "http_env \<Rightarrow> callback_map \<Rightarrow> (nat \<Rightarrow> write_outcome) \<Rightarrow> int \<Rightarrow> bytes \<Rightarrow> http_session \<Rightarrow> http_session result option" where
  "http_handleRead env m w t bs s =
     (case readFd (Read_bytes bs) (inputBuffer (hs_conn s)) of
        Inl e \<Rightarrow> Some (Inl e)
      | Inr (n, err, b) \<Rightarrow>
          let c1 = (hs_conn s)\<lparr>inputBuffer := b\<rparr> in
          if n > 0 then http_onMessage env m w t (s\<lparr>hs_conn := c1\<lparr>called := called c1 @ [Cb_message]\<rparr>\<rparr>)
          else Some (map_sum id (\<lambda>c. s\<lparr>hs_conn := c\<rparr>) (handleClose (tcp_env w) c1)))"

text \<open>
  What happens to the connection: a segment arrives, with its receive time and what the clock shows
  while it is handled; the socket becomes writable; the loop runs the next functor of the connection.
\<close>

datatype http_event =
    Http_segment int "nat \<Rightarrow> int" bytes
  | Http_writable
  | Http_functor

fun http_step ::
  "http_env \<Rightarrow> callback_map \<Rightarrow> (nat \<Rightarrow> write_outcome) \<Rightarrow> http_event \<Rightarrow> http_session \<Rightarrow> http_session result option" where
  "http_step env m w (Http_segment t clk bs) s = http_handleRead (env\<lparr>env_clock := clk\<rparr>) m w t bs s"
| "http_step env m w Http_writable s = Some (map_sum id (\<lambda>c. s\<lparr>hs_conn := c\<rparr>) (handleWrite (tcp_env w) (hs_conn s)))"
| "http_step env m w Http_functor s =
     Some (map_sum id (\<lambda>c. s\<lparr>hs_conn := c\<rparr>) (conn_step (tcp_env w) Ev_pending (hs_conn s)))"

inductive http_steps ::
  "http_env \<Rightarrow> callback_map \<Rightarrow> (nat \<Rightarrow> write_outcome) \<Rightarrow> http_session \<Rightarrow> http_event list \<Rightarrow> http_session result \<Rightarrow> bool"
  for env m w where
  http_end: "http_steps env m w s [] (Inr s)"
| http_more: "http_step env m w e s = Some (Inr s1) \<Longrightarrow> http_steps env m w s1 es r \<Longrightarrow> http_steps env m w s (e # es) r"
| http_error: "http_step env m w e s = Some (Inl x) \<Longrightarrow> http_steps env m w s (e # es) (Inl x)"

inductive_cases http_steps_Cons: "http_steps env m w s (e # es) r"
inductive_cases http_steps_Nil: "http_steps env m w s [] r"

interpretation ht: interleaving "http_step env m w" "http_steps env m w" for env m w
  by unfold_locales (auto intro: http_steps.intros elim: http_steps_Cons http_steps_Nil)

section \<open>The connection under the server\<close>

definition no_reset :: "(nat \<Rightarrow> write_outcome) \<Rightarrow> bool" where
  "no_reset w \<longleftrightarrow> (\<forall>k. w k \<noteq> Write_errno EPIPE \<and> w k \<noteq> Write_errno ECONNRESET)"

text \<open>The functors that wait, and what else stays as it is while the server serves.\<close>

fun own_functor :: "http_cb pending_functor \<Rightarrow> bool" where
  "own_functor (Fn_writeComplete cb) \<longleftrightarrow> cb = Cb_drained"
| "own_functor (Fn_highWaterMark cb n) \<longleftrightarrow> cb = Cb_highWaterMark"
| "own_functor _ \<longleftrightarrow> False"

definition own_callbacks :: "http_cb conn \<Rightarrow> bool" where
  "own_callbacks c \<longleftrightarrow> list_all own_functor (pendings c) \<and>
     (\<forall>cb. writeCompleteCallback c = Some cb \<longrightarrow> cb = Cb_drained) \<and>
     (\<forall>cb. highWaterMarkCallback c = Some cb \<longrightarrow> cb = Cb_highWaterMark)"

definition serving :: "http_cb conn \<Rightarrow> bool" where
  "serving c \<longleftrightarrow> conn_inv c \<and> state c = kConnected \<and> own_callbacks c"

text \<open>Neither the state nor the input changes, and the accepted bytes grow by \<open>x\<close>.\<close>

definition serves :: "bytes \<Rightarrow> http_cb conn \<Rightarrow> http_cb conn \<Rightarrow> bool" where
  "serves x c c' \<longleftrightarrow> state c' = state c \<and> inputBuffer c' = inputBuffer c \<and> accepted c' = accepted c @ x \<and>
     (own_callbacks c \<longrightarrow> own_callbacks c')"

lemma serves_refl [simp]: "serves [] c c"
  by (simp add: serves_def)

lemma serves_buffer [simp]: "serves [] c (c\<lparr>outputBuffer := b\<rparr>)" "serves x c (c\<lparr>accepted := accepted c @ x\<rparr>)"
  by (simp_all add: serves_def own_callbacks_def)

lemma serves_trans: "serves x c c1 \<Longrightarrow> serves y c1 c2 \<Longrightarrow> serves (x @ y) c c2"
  by (simp add: serves_def)

lemma serves_queue_write_complete: "serves [] c (queue_write_complete c)"
  by (auto simp: serves_def own_callbacks_def queue_write_complete_def queueInLoop_def split: option.split)

lemma serves_channel: "serves [] c (set_channel_events ch c)"
  by (simp add: serves_def own_callbacks_def set_channel_events_def)

lemma serves_do_write:
  assumes "do_write (tcp_env w) message c = (r, c1)" and "no_reset w"
  shows "serves [] c c1" and "r \<noteq> Inl EPIPE" and "r \<noteq> Inl ECONNRESET"
  using assms
  by (auto simp: do_write_def tcp_env_def no_reset_def serves_def own_callbacks_def Let_def split: write_outcome.splits)

lemma serves_send_directly:
  assumes "send_directly (tcp_env w) message c = (nwrote, remaining, fault, c1)" and "no_reset w"
  shows "serves [] c c1" and "\<not> fault"
  using assms serves_do_write [of w message c] serves_trans [OF _ serves_queue_write_complete, of "[]"]
  by (auto simp: send_directly_def Let_def split: if_splits prod.splits sum.splits)

lemma serves_send_rest:
  assumes "send_rest message rest remaining c = Inr c'"
  shows "serves message c c'"
  using assms
  by (auto simp: send_rest_def Let_def serves_def own_callbacks_def queueInLoop_def set_channel_events_def
      and_then_eq_Inr split: if_splits option.splits)

lemma serving_send:
  assumes s: "serving c" and w: "no_reset w"
  shows "\<exists>c'. sendInLoop (tcp_env w) message c = Inr c' \<and> serving c' \<and> serves message c c'"
proof -
  obtain c' where c': "sendInLoop (tcp_env w) message c = Inr c'" "conn_inv c'"
    using sendInLoop_changes [of c False "tcp_env w" message] s by (auto simp: serving_def does_def changes_def)
  obtain nwrote remaining fault c1 where d: "send_directly (tcp_env w) message c = (nwrote, remaining, fault, c1)"
    by (cases "send_directly (tcp_env w) message c")
  note first = serves_send_directly [OF d w]
  have len: "remaining \<le> length message"
    using c'(1) s d by (simp add: sendInLoop_def serving_def check_def split: if_splits)
  have run: "sendInLoop (tcp_env w) message c =
      (if remaining > 0 then send_rest message (subrange nwrote (nwrote + remaining) message) remaining c1
       else Inr (c1\<lparr>accepted := accepted c1 @ message\<rparr>))"
    using sendInLoop_rest [OF _ d len] s first(2) by (simp add: serving_def)
  have "serves message c1 c'"
  proof (cases "remaining > 0")
    case True
    with c'(1) run show ?thesis by (intro serves_send_rest) simp
  next
    case False
    with c'(1) run have "c' = c1\<lparr>accepted := accepted c1 @ message\<rparr>" by simp
    then show ?thesis by simp
  qed
  from serves_trans [OF first(1) this] have "serves message c c'" by simp
  with c' s show ?thesis by (auto simp: serving_def serves_def)
qed

lemma serving_write:
  assumes s: "serving c" and w: "no_reset w"
  shows "\<exists>c'. handleWrite (tcp_env w) c = Inr c' \<and> serving c' \<and> serves [] c c'"
proof -
  obtain c' where c': "handleWrite (tcp_env w) c = Inr c'" "conn_inv c'"
    using handleWrite_changes [of c False "tcp_env w"] s by (auto simp: serving_def does_def changes_def)
  obtain r c1 where d: "do_write (tcp_env w) (unsent c) c = (r, c1)" by (cases "do_write (tcp_env w) (unsent c) c")
  note first = serves_do_write(1) [OF d w]
  have st: "state c1 = kConnected" using first s by (simp add: serves_def serving_def)
  define after where "after b = (let c2 = c1\<lparr>outputBuffer := b\<rparr> in
      if readableBytes b = 0 then queue_write_complete (set_channel_events DisableWriting c2) else c2)" for b
  have after: "serves [] c1 (after b)" for b
    using serves_trans [OF serves_trans [OF serves_buffer(1) serves_channel [of _ DisableWriting]] serves_queue_write_complete]
    by (simp add: after_def Let_def)
  have "handleWrite (tcp_env w) c = (if isWriting (conn_channel c) then
      (case r of Inr n \<Rightarrow> if n > 0 then and_then (retrieve n (outputBuffer c1)) (\<lambda>b. Inr (after b)) else Inr c1
       | Inl e \<Rightarrow> Inr c1) else Inr c)"
    using st by (simp add: handleWrite_def d after_def Let_def if_distrib [of Inr] cong: if_cong split: sum.split)
  with c'(1) have "c' = c \<or> c' = c1 \<or> (\<exists>b. c' = after b)"
    by (simp add: and_then_eq_Inr split: if_splits sum.splits) blast+
  then have "c' = c \<or> serves [] c1 c'" using after by auto
  with serves_trans [OF first, of "[]" c'] have "serves [] c c'" by auto
  with c' s show ?thesis by (auto simp: serving_def serves_def)
qed

lemma serves_start: "serves [] c (startReadInLoop c)"
  by (simp add: startReadInLoop_def serves_def own_callbacks_def set_channel_events_def)

lemma serves_stop: "serves [] c (stopReadInLoop c)"
  by (simp add: stopReadInLoop_def serves_def own_callbacks_def set_channel_events_def)

text \<open>The functors that stop and restart reading.\<close>

lemma serving_functor:
  assumes s: "serving c"
  shows "\<exists>c'. conn_step (tcp_env w) Ev_pending c = Inr c' \<and> serving c' \<and> serves [] c c'"
proof (cases "pendings c")
  case Nil
  with s show ?thesis by simp
next
  case (Cons f fs)
  let ?c = "c\<lparr>pendings := fs\<rparr>"
  have first: "serves [] c ?c" "own_callbacks ?c" "own_functor f" "conn_inv ?c" "state c = kConnected"
    using s Cons by (simp_all add: serving_def serves_def own_callbacks_def conn_inv_def)
  then obtain cb where f: "run_functor (tcp_env w) f ?c = call_client (tcp_env w) cb ?c"
    "cb = Cb_drained \<or> cb = Cb_highWaterMark" by (cases f) auto
  obtain c' where c': "call_client (tcp_env w) cb ?c = Inr c'" "conn_inv c'"
    using call_client_changes [OF first(4), of False "tcp_env w" cb] by (auto simp: does_def changes_def)
  define c1 where "c1 = ?c\<lparr>called := called ?c @ [cb]\<rparr>"
  have c1: "serves [] ?c c1" by (simp add: c1_def serves_def own_callbacks_def)
  from f(2) have "serves [] c1 c'"
  proof
    assume "cb = Cb_drained"
    then have "c' = (startReadInLoop c1)\<lparr>writeCompleteCallback := None\<rparr>"
      using c'(1) by (simp add: call_client_def tcp_env_def optionalDoneHighWaterMarkCallback_def c1_def)
    moreover have "serves [] x (x\<lparr>writeCompleteCallback := None\<rparr>)" for x by (simp add: serves_def own_callbacks_def)
    ultimately show ?thesis using serves_trans [OF serves_start] by fastforce
  next
    assume "cb = Cb_highWaterMark"
    then have "c' = (stopReadInLoop c1)\<lparr>writeCompleteCallback := Some Cb_drained\<rparr>"
      using c'(1) by (simp add: call_client_def tcp_env_def optionalHighWaterMarkCallback_def c1_def)
    moreover have "serves [] x (x\<lparr>writeCompleteCallback := Some Cb_drained\<rparr>)" for x
      by (simp add: serves_def own_callbacks_def)
    ultimately show ?thesis using serves_trans [OF serves_stop] by fastforce
  qed
  from serves_trans [OF serves_trans [OF first(1) c1] this] have kept: "serves [] c c'" by simp
  moreover have "serving c'" using kept c'(2) s by (simp add: serving_def serves_def)
  ultimately show ?thesis using Cons f(1) c'(1) by simp
qed

section \<open>The service\<close>

text \<open>
  \<open>in_service env m gs out s y\<close>: the requests whose text has not been answered are \<open>gs\<close>, of which \<open>y\<close>
  is still to come, and the connection has accepted \<open>out\<close>.
\<close>

definition in_service ::
  "http_env \<Rightarrow> callback_map \<Rightarrow> get_request list \<Rightarrow> bytes \<Rightarrow> bytes \<Rightarrow> http_session \<Rightarrow> bool" where
  "in_service env m gs out y s \<longleftrightarrow> serving (hs_conn s) \<and> accepted (hs_conn s) = out \<and>
     context_ready (hs_context s) \<and> ctx_check (hs_context s) = check_request m \<and>
     date_cache_ok (env_date_text env) (hs_date s) \<and>
     expects m (ctx_state (hs_context s)) (ctx_request (hs_context s)) (toStringView (inputBuffer (hs_conn s))) y gs \<and>
     (y = [] \<longrightarrow> gs = [])"

lemma in_service_conn:
  "in_service env m gs out y s \<Longrightarrow> serving c \<Longrightarrow> serves [] (hs_conn s) c \<Longrightarrow> in_service env m gs out y (s\<lparr>hs_conn := c\<rparr>)"
  by (simp add: in_service_def serves_def)

fun event_bytes :: "http_event \<Rightarrow> bytes" where
  "event_bytes (Http_segment t clk bs) = bs"
| "event_bytes Http_writable = []"
| "event_bytes Http_functor = []"

fun http_event_ok :: "http_event \<Rightarrow> bool" where
  "http_event_ok (Http_segment t clk bs) \<longleftrightarrow> bs \<noteq> [] \<and> (\<forall>k. clk k sdiv 1000000 \<noteq> 0)"
| "http_event_ok Http_writable \<longleftrightarrow> True"
| "http_event_ok Http_functor \<longleftrightarrow> True"

lemma segment_answered:
  assumes s: "in_service env m gs out (bs @ y) s" and env: "\<forall>x. length (env_date_text env x) = 37" "\<forall>k. env_clock env k sdiv 1000000 \<noteq> 0"
    and gs: "list_all (always_ok m) gs" and w: "no_reset w" and bs: "bs \<noteq> []"
  shows "\<exists>gs1 gs2 x s'. gs = gs1 @ gs2 \<and> http_handleRead env m w t bs s = Some (Inr s') \<and>
     answered (env_order env) (env_date_text env) m gs1 x \<and> in_service env m gs2 (out @ x) y s'"
proof -
  let ?c = "hs_conn s"
  note s' = s [unfolded in_service_def serving_def conn_inv_def]
  obtain b where b: "readFd (Read_bytes bs) (inputBuffer ?c) = Inr (int (length bs), None, b)" "buffer_inv b"
    "toStringView b = toStringView (inputBuffer ?c) @ bs"
    using readFd_bytes_correct [of "inputBuffer ?c" bs] s' by blast
  have eo: "env_ok env" using env by (simp add: env_ok_def)
  from s' obtain gs1 gs2 x ctx buf d where m: "gs = gs1 @ gs2"
    "onMessage env m t (hs_context s) b (hs_date s) = Some (Inr (x, False, ctx, buf, d))"
    "answered (env_order env) (env_date_text env) m gs1 x"
    "expects m (ctx_state ctx) (ctx_request ctx) (toStringView buf) y gs2" "y = [] \<longrightarrow> gs2 = []" "context_ready ctx"
    "ctx_check ctx = check_request m" "buffer_inv buf" "date_cache_ok (env_date_text env) d"
    using onMessage_segment [where c = "hs_context s" and d = "hs_date s" and y = y and t = t, OF eo _ _ b(2) _ b(3) _ gs]
    by blast
  let ?c1 = "?c\<lparr>inputBuffer := b, called := called ?c @ [Cb_message]\<rparr>"
  let ?c2 = "?c1\<lparr>inputBuffer := buf\<rparr>"
  have c2: "serving ?c2" using s m(8) by (simp add: in_service_def serving_def conn_inv_def own_callbacks_def)
  from serving_send [OF c2 w, of x] obtain c3 where c3: "sendInLoop (tcp_env w) x ?c2 = Inr c3" "serving c3" "serves x ?c2 c3"
    by blast
  have conn: "state ?c2 = kConnected" using c2 by (simp add: serving_def)
  have "http_handleRead env m w t bs s = Some (Inr \<lparr>hs_conn = c3, hs_context = ctx, hs_date = d\<rparr>)"
    using b(1) bs m(2) c3(1) conn by (simp add: http_handleRead_def http_onMessage_def Let_def)
  moreover have "in_service env m gs2 (out @ x) y \<lparr>hs_conn = c3, hs_context = ctx, hs_date = d\<rparr>"
    using s m c3 by (simp add: in_service_def serves_def)
  ultimately show ?thesis using m(1,3) by blast
qed

lemma service_step:
  assumes s: "in_service env m gs out (event_bytes e @ y) s" and env: "\<forall>x. length (env_date_text env x) = 37"
    and gs: "list_all (always_ok m) gs" and w: "no_reset w" and e: "http_event_ok e"
  shows "\<exists>gs1 gs2 x s'. gs = gs1 @ gs2 \<and> http_step env m w e s = Some (Inr s') \<and>
     answered (env_order env) (env_date_text env) m gs1 x \<and> in_service env m gs2 (out @ x) y s'"
proof (cases e)
  case (Http_segment t clk bs)
  let ?env = "env\<lparr>env_clock := clk\<rparr>"
  have "in_service ?env m gs out (bs @ y) s" using s Http_segment by (simp add: in_service_def)
  from segment_answered [OF this _ _ gs w, of t] env e Http_segment show ?thesis by (simp add: in_service_def)
next
  case Http_writable
  have "serving (hs_conn s)" using s by (simp add: in_service_def)
  from serving_write [OF this w] s Http_writable in_service_conn show ?thesis
    by (intro exI [of _ "[]"] exI [of _ gs]) fastforce
next
  case Http_functor
  have "serving (hs_conn s)" using s by (simp add: in_service_def)
  from serving_functor [OF this, of w] s Http_functor in_service_conn show ?thesis
    by (intro exI [of _ "[]"] exI [of _ gs]) fastforce
qed

lemma service_run:
  assumes "\<forall>x. length (env_date_text env x) = 37" and "no_reset w"
  shows "in_service env m gs out (concat (map event_bytes es) @ y) s \<Longrightarrow> list_all (always_ok m) gs \<Longrightarrow>
    list_all http_event_ok es \<Longrightarrow>
    \<exists>gs1 gs2 x s'. gs = gs1 @ gs2 \<and> http_steps env m w s es (Inr s') \<and>
      answered (env_order env) (env_date_text env) m gs1 x \<and> in_service env m gs2 (out @ x) y s'"
proof (induction es arbitrary: gs out s)
  case Nil
  then show ?case by (intro exI [of _ "[]"] exI [of _ gs]) (auto intro: http_steps.http_end)
next
  case (Cons e es)
  from service_step [OF _ assms(1) Cons.prems(2) assms(2), of out e "concat (map event_bytes es) @ y" s] Cons.prems
  obtain gs1 gs2 x s1 where st: "gs = gs1 @ gs2" "http_step env m w e s = Some (Inr s1)"
    "answered (env_order env) (env_date_text env) m gs1 x" "in_service env m gs2 (out @ x) (concat (map event_bytes es) @ y) s1"
    by auto
  from Cons.IH [OF st(4)] Cons.prems st(1) obtain gs3 gs4 x' s' where IH: "gs2 = gs3 @ gs4"
    "http_steps env m w s1 es (Inr s')" "answered (env_order env) (env_date_text env) m gs3 x'"
    "in_service env m gs4 ((out @ x) @ x') y s'" by auto
  have "http_steps env m w s (e # es) (Inr s')" using st(2) IH(2) by (rule http_steps.http_more)
  with answered_append [OF st(3) IH(3)] st(1) IH(1,4) show ?case
    by (intro exI [of _ "gs1 @ gs3"] exI [of _ gs4] exI [of _ "x @ x'"] exI [of _ s']) simp
qed

lemma established_service:
  assumes "list_all (always_ok m) gs" and "date_cache_ok (env_date_text env) d"
  shows "\<exists>s. http_established m w sockfd d = Inr s \<and> in_service env m gs [] (concat (map get_text gs)) s"
proof -
  let ?c = "TcpConnection_new sockfd Cb_connection Cb_message"
  obtain c where c: "connectEstablished (tcp_env w) ?c = Inr c" "conn_inv c"
    "state c = kConnected" "accepted c = []" "own_callbacks c" "toStringView (inputBuffer c) = []"
  proof -
    define c1 where "c1 = set_channel_events EnableReading (?c\<lparr>state := kConnected, conn_channel := tie (conn_channel ?c)\<rparr>)"
    define c2 where "c2 = c1\<lparr>called := called c1 @ [Cb_connection], highWaterMarkCallback := Some Cb_highWaterMark,
        highWaterMark := 256 * 1024\<rparr>"
    have "connectEstablished (tcp_env w) ?c = Inr c2"
      by (simp add: connectEstablished_def check_def c2_def c1_def call_client_def tcp_env_def TcpConnection_new_def
          Let_def)
    moreover have "conn_inv c2"
      using connectEstablished_sound [OF conn_inv_new [of sockfd Cb_connection Cb_message], of "tcp_env w"] calculation
      by (simp add: grows_def)
    moreover have "state c2 = kConnected" "accepted c2 = []" "own_callbacks c2" "toStringView (inputBuffer c2) = []"
      by (simp_all add: c2_def c1_def TcpConnection_new_def own_callbacks_def set_channel_events_def)
    ultimately show thesis by (rule that)
  qed
  let ?ctx = "onConnection m"
  have ctx: "ctx_state ?ctx = kExpectRequestLine" "ctx_request ?ctx = HttpRequest_new" "ctx_check ?ctx = check_request m"
    by (simp_all add: onConnection_def HttpContext_new_def)
  have "concat (map get_text gs) = [] \<longrightarrow> gs = []"
    by (cases gs) (auto simp: get_text_def render_request_def kCRLF_def split: prod.splits)
  with c assms(2) ctx expects_start [OF assms(1), of "[]"] show ?thesis
    by (simp add: http_established_def in_service_def serving_def)
qed

section \<open>The property\<close>

text \<open>
  C2. A connection of an HTTP server that carries requests for registered paths: however the network cuts
  their text into segments, whenever the kernel takes how much of the answers, and although reading is
  stopped and restarted when too much is unsent, no step fails, the connection stays open, and once all
  segments have arrived the bytes that were sent followed by the bytes in the output buffer are the
  responses of the callbacks, one for each request and in their order; nothing is left in the input
  buffer.
\<close>

theorem requests_answered_in_any_segments:
  assumes "list_all (always_ok m) gs" and "list_all http_event_ok es" and "no_reset w"
    and "\<forall>x. length (env_date_text env x) = 37" and "date_cache_ok (env_date_text env) d"
    and "concat (map event_bytes es) = concat (map get_text gs)"
  shows "\<exists>s s'. http_established m w sockfd d = Inr s \<and> http_steps env m w s es (Inr s') \<and>
     state (hs_conn s') = kConnected \<and> toStringView (inputBuffer (hs_conn s')) = [] \<and>
     answered (env_order env) (env_date_text env) m gs (sent (hs_conn s') @ toStringView (outputBuffer (hs_conn s')))"
proof -
  obtain s where s: "http_established m w sockfd d = Inr s" "in_service env m gs [] (concat (map event_bytes es) @ []) s"
    using established_service [OF assms(1,5)] assms(6) by auto
  obtain gs1 gs2 x s' where r: "gs = gs1 @ gs2" "http_steps env m w s es (Inr s')"
    "answered (env_order env) (env_date_text env) m gs1 x" "in_service env m gs2 x [] s'"
    using service_run [OF assms(4,3) s(2) assms(1,2)] by auto
  then have "gs2 = []" by (simp add: in_service_def)
  with r s show ?thesis by (auto simp: in_service_def serving_def conn_inv_def)
qed

text \<open>One request in two segments with a partial write between them.\<close>

lemma requests_answered_in_any_segments_witness:
  "\<exists>s s'. http_established [''/'' \<mapsto> Some (\<lambda>req resp. setBody ''hi'' resp)] (\<lambda>k. Accept 3) 5 sample_date = Inr s \<and>
     http_steps sample_env [''/'' \<mapsto> Some (\<lambda>req resp. setBody ''hi'' resp)] (\<lambda>k. Accept 3) s
       [Http_segment 7 (\<lambda>k. 1000000) ''GET'', Http_writable,
        Http_segment 8 (\<lambda>k. 2000000) (drop 3 (get_text (''/'', [], kHttp11, []))), Http_functor] (Inr s') \<and>
     answered (env_order sample_env) (env_date_text sample_env) [''/'' \<mapsto> Some (\<lambda>req resp. setBody ''hi'' resp)]
       [(''/'', [], kHttp11, [])] (sent (hs_conn s') @ toStringView (outputBuffer (hs_conn s')))"
proof -
  let ?m = "[''/'' \<mapsto> Some (\<lambda>req resp. setBody ''hi'' resp)] :: callback_map"
  let ?g = "(''/'', [], kHttp11, []) :: get_request"
  have ok: "list_all (always_ok ?m) [?g]"
    by (simp add: always_ok_def get_ok_def target_ok_def no_chars_def query_ok_def checkGetCallback_def c_str_def
        get_response_def onRequest_def request_of_def getHeader_def setCloseConnection_def
        getCallback_def setBody_def HttpResponse_new_def Let_def)
  have text_eq: "take 3 (get_text ?g) = ''GET''" by (simp add: get_text_def render_request_def render_request_line_def)
  have long: "drop 3 (get_text ?g) \<noteq> []"
    by (simp add: get_text_def render_request_def render_request_line_def)
  have env: "\<forall>x. length (env_date_text sample_env x) = 37" "no_reset (\<lambda>k. Accept 3)"
    by (simp_all add: sample_env_def no_reset_def)
  let ?es = "[Http_segment 7 (\<lambda>k. 1000000) ''GET'', Http_writable,
        Http_segment 8 (\<lambda>k. 2000000) (drop 3 (get_text ?g)), Http_functor]"
  have "concat (map event_bytes ?es) = concat (map get_text [?g])"
    using append_take_drop_id [of 3 "get_text ?g"] text_eq by simp
  moreover have "list_all http_event_ok ?es" using long by (simp add: signed_divide_int_def)
  ultimately show ?thesis
    using requests_answered_in_any_segments [OF ok _ env(2,1) sample_env_ok(2), of ?es 5] by blast
qed

end
