(* ===== verification/EchoServer.thy ===== *)
theory EchoServer
  imports HttpOverTcp
begin

text \<open>
  The echo server of \<^verbatim>\<open>example/simple/EchoServerExample.cc\<close>, the smallest client of the library that limits
  the memory of a connection: it sends back what it receives, stops reading when too much is unsent, and
  reads again when everything is written. Its callbacks for this are the pair that the library offers, which
  the HTTP server installs too; they and \<open>tcp_env\<close> are those of theory \<open>HttpOverTcp\<close>. A turn is one pass of
  the loop: the read callback, the write callback, the functors.
\<close>

section \<open>The server\<close>

text \<open>\<^verbatim>\<open>TcpConnection::send(Buffer *)\<close> in the thread of the loop, on the buffer of the connection.\<close>

definition send_buffer :: "'cb conn_env \<Rightarrow> 'cb conn \<Rightarrow> 'cb conn result" where
  "send_buffer env c =
     (if state c = kConnected then
        map_sum id (\<lambda>c1. c1\<lparr>inputBuffer := retrieveAll (inputBuffer c1)\<rparr>)
          (sendInLoop env (toStringView (inputBuffer c)) c)
      else Inr c)"

definition echo_onMessage :: "(nat \<Rightarrow> write_outcome) \<Rightarrow> http_cb conn \<Rightarrow> http_cb conn result" where
  "echo_onMessage w c = send_buffer (tcp_env w) c"

definition echo_established :: "(nat \<Rightarrow> write_outcome) \<Rightarrow> int \<Rightarrow> http_cb conn result" where
  "echo_established w sockfd = connectEstablished (tcp_env w) (TcpConnection_new sockfd Cb_connection Cb_message)"

text \<open>\<open>conn_handleRead\<close> with this callback.\<close>

definition echo_handleRead :: "(nat \<Rightarrow> write_outcome) \<Rightarrow> read_outcome \<Rightarrow> http_cb conn \<Rightarrow> http_cb conn result" where
  "echo_handleRead w outcome c =
     and_then (readFd outcome (inputBuffer c)) (\<lambda>(n, err, b).
       let c1 = c\<lparr>inputBuffer := b\<rparr> in
       if n > 0 then echo_onMessage w (c1\<lparr>called := called c1 @ [Cb_message]\<rparr>)
       else if n = 0 then handleClose (tcp_env w) c1
       else Inr c1)"

text \<open>\<^verbatim>\<open>EventLoop::doPendingFunctors\<close> on the functors of one connection.\<close>

fun run_functors :: "'cb conn_env \<Rightarrow> 'cb pending_functor list \<Rightarrow> 'cb conn \<Rightarrow> 'cb conn result" where
  "run_functors env [] c = Inr c"
| "run_functors env (f # fs) c = and_then (run_functor env f c) (run_functors env fs)"

definition swap_and_run :: "'cb conn_env \<Rightarrow> 'cb conn \<Rightarrow> 'cb conn result" where
  "swap_and_run env c = run_functors env (pendings c) (c\<lparr>pendings := []\<rparr>)"

type_synonym echo_turn = "read_outcome option \<times> bool"

definition echo_step :: "(nat \<Rightarrow> write_outcome) \<Rightarrow> echo_turn \<Rightarrow> http_cb conn \<Rightarrow> http_cb conn result" where
  "echo_step w = (\<lambda>(r, writable) c.
     and_then (case r of None \<Rightarrow> Inr c | Some outcome \<Rightarrow> echo_handleRead w outcome c) (\<lambda>c1.
     and_then (if writable then handleWrite (tcp_env w) c1 else Inr c1) (swap_and_run (tcp_env w))))"

fun echo_run :: "(nat \<Rightarrow> write_outcome) \<Rightarrow> echo_turn list \<Rightarrow> http_cb conn \<Rightarrow> http_cb conn result" where
  "echo_run w [] c = Inr c"
| "echo_run w (t # ts) c = and_then (echo_step w t c) (echo_run w ts)"

text \<open>
  The poller reports what is watched. \<^verbatim>\<open>readv\<close> stores at least one byte, at most as many as it is given room
  for, or fails; the peer keeps the connection open.
\<close>

fun turn_bytes :: "echo_turn \<Rightarrow> bytes" where
  "turn_bytes (Some (Read_bytes bs), writable) = bs"
| "turn_bytes (_, writable) = []"

definition turn_ok :: "echo_turn \<Rightarrow> http_cb conn \<Rightarrow> bool" where
  "turn_ok = (\<lambda>(r, writable) c.
     (r \<noteq> None \<longrightarrow> isReading (conn_channel c)) \<and> (writable \<longrightarrow> isWriting (conn_channel c)) \<and>
     (case r of
        Some (Read_bytes bs) \<Rightarrow> bs \<noteq> [] \<and> length bs \<le> readFd_capacity (inputBuffer c)
      | _ \<Rightarrow> True))"

fun echo_ok :: "(nat \<Rightarrow> write_outcome) \<Rightarrow> echo_turn list \<Rightarrow> http_cb conn \<Rightarrow> bool" where
  "echo_ok w [] c \<longleftrightarrow> True"
| "echo_ok w (t # ts) c \<longleftrightarrow> turn_ok t c \<and> (case echo_step w t c of Inl e \<Rightarrow> True | Inr c' \<Rightarrow> echo_ok w ts c')"

definition received :: "echo_turn list \<Rightarrow> bytes" where
  "received ts = concat (map turn_bytes ts)"

section \<open>The input buffer\<close>

text \<open>It is emptied after every read, and what one read can bring is bounded.\<close>

definition largest_read :: nat where
  "largest_read = 131071"

definition emptied :: "buffer \<Rightarrow> bool" where
  "emptied b \<longleftrightarrow> readerIndex b = kCheapPrepend \<and> writerIndex b = kCheapPrepend \<and>
     kCheapPrepend \<le> length (vec b) \<and> length (vec b) \<le> kCheapPrepend + largest_read"

lemma emptied_inv: "emptied b \<Longrightarrow> buffer_inv b"
  by (simp add: emptied_def buffer_inv_def)

lemma capacity_bound: "emptied b \<Longrightarrow> readFd_capacity b \<le> largest_read"
  by (auto simp: emptied_def readFd_capacity_def extrabuf_size_def largest_read_def writableBytes_def size_sub_def)

lemma append_vec_length:
  assumes "append_bytes data b = Inr b'" and "readerIndex b = kCheapPrepend" and "writerIndex b = length (vec b)"
    and "data \<noteq> []"
  shows "length (vec b') = length (vec b) + length data"
  using assms
  by (auto simp: append_bytes_def ensureWritableBytes_def makeSpace_def Let_def writableBytes_def prependableBytes_def
      size_sub_def and_then_eq_Inr check_def hasWritten_def resize_def dest!: length_copy_to split: if_splits)

lemma readFd_emptied:
  assumes b: "emptied b" and len: "length bs \<le> readFd_capacity b"
  obtains b' where "readFd (Read_bytes bs) b = Inr (int (length bs), None, b')" and "buffer_inv b'"
    and "toStringView b' = bs" and "emptied (retrieveAll b')"
proof -
  have view: "toStringView b = []" using b by (simp add: emptied_def toStringView_def readableBytes_def)
  from readFd_bytes_correct [OF emptied_inv [OF b], of bs] obtain b' where
    b': "readFd (Read_bytes bs) b = Inr (int (length bs), None, b')" "buffer_inv b'" "toStringView b' = bs"
    using view by auto
  have w: "writableBytes b = length (vec b) - kCheapPrepend"
    using b by (simp add: emptied_def writableBytes_def)
  obtain v where v: "copy_to (writerIndex b) (take (writableBytes b) bs) (vec b) = Inr v" "length v = length (vec b)"
    using b'(1) by (auto simp: readFd_def Let_def and_then_eq_Inr dest: length_copy_to)
  have "length (vec b') = (if length bs \<le> writableBytes b then length (vec b) else kCheapPrepend + length bs)"
  proof (cases "length bs \<le> writableBytes b")
    case True
    with b'(1) v show ?thesis by (auto simp: readFd_def Let_def)
  next
    case False
    let ?b = "b\<lparr>vec := v, writerIndex := length v\<rparr>"
    have "append_bytes (drop (writableBytes b) bs) ?b = Inr b'"
      using b'(1) v False by (auto simp: readFd_def Let_def and_then_eq_Inr)
    from append_vec_length [OF this] b False v w show ?thesis by (simp add: emptied_def)
  qed
  then have "emptied (retrieveAll b')"
    using b len capacity_bound [OF b] b'(2) by (auto simp: emptied_def retrieveAll_def buffer_inv_def split: if_splits)
  with b' show thesis by (rule that)
qed

section \<open>What sending and writing leave alone\<close>

definition echo_mark :: nat where
  "echo_mark = 256 * 1024"

definition same_reading :: "'cb conn \<Rightarrow> 'cb conn \<Rightarrow> bool" where
  "same_reading c c' \<longleftrightarrow> reading c' = reading c \<and> isReading (conn_channel c') = isReading (conn_channel c) \<and>
     writeCompleteCallback c' = writeCompleteCallback c \<and> highWaterMarkCallback c' = highWaterMarkCallback c \<and>
     highWaterMark c' = highWaterMark c"

lemma same_reading_refl [simp]: "same_reading c c"
  by (simp add: same_reading_def)

lemma same_reading_trans: "same_reading c c1 \<Longrightarrow> same_reading c1 c2 \<Longrightarrow> same_reading c c2"
  by (simp add: same_reading_def)

lemma reading_set:
  assumes "events_ok (events (conn_channel c))"
  shows "isReading (conn_channel (set_channel_events EnableWriting c)) = isReading (conn_channel c)"
    and "isReading (conn_channel (set_channel_events DisableWriting c)) = isReading (conn_channel c)"
    and "isReading (conn_channel (set_channel_events EnableReading c))"
    and "\<not> isReading (conn_channel (set_channel_events DisableReading c))"
  using change_events_effect [OF assms] by (simp_all add: set_channel_events_def isReading_def)

lemma same_reading_set:
  assumes "events_ok (events (conn_channel c))" and "ch = EnableWriting \<or> ch = DisableWriting"
  shows "same_reading c (set_channel_events ch c)"
  using assms(2) reading_set [OF assms(1)]
  by (auto simp: same_reading_def) (simp_all add: set_channel_events_def)

text \<open>The states that differ from \<open>c\<close> in what was written only.\<close>

definition wrote :: "'cb conn \<Rightarrow> 'cb conn \<Rightarrow> bool" where
  "wrote c c1 \<longleftrightarrow> (\<exists>k x. c1 = c\<lparr>writes := k, sent := x\<rparr>)"

lemma wrote_same: "c\<lparr>writes := k\<rparr> = c\<lparr>writes := k, sent := sent c\<rparr>"
  by (cases c) simp

lemma wrote_refl: "wrote c c"
  unfolding wrote_def by (intro exI [of _ "writes c"] exI [of _ "sent c"]) simp

lemma do_write_wrote:
  assumes "do_write env m c = (r, c1)"
  shows "wrote c c1"
proof (cases rule: do_write_cases [of m env c])
  case (1 k)
  with assms show ?thesis by (auto simp: wrote_def)
next
  case (2 e)
  then have "c1 = c\<lparr>writes := Suc (writes c)\<rparr>" using assms by simp
  then show ?thesis unfolding wrote_def using wrote_same by blast
qed

text \<open>Sending without a callback for the completed write.\<close>

lemma send_directly_same:
  assumes d: "send_directly env m c = (nw, rem, fault, c1)" and none: "writeCompleteCallback c = None"
  shows "wrote c c1" and "rem \<le> length m" and "nw + rem = length m"
proof -
  obtain r c2 where w: "do_write env m c = (r, c2)" by fastforce
  have c2: "wrote c c2" by (rule do_write_wrote [OF w])
  then have "queue_write_complete c2 = c2" using none by (auto simp: wrote_def queue_write_complete_def)
  moreover have "n \<le> length m" if "r = Inr n" for n
    using w that by (auto simp: do_write_def Let_def split: write_outcome.splits)
  ultimately show "wrote c c1" "rem \<le> length m" "nw + rem = length m"
    using d w c2 wrote_refl [of c] by (auto simp: send_directly_def Let_def split: if_splits sum.splits)
qed

text \<open>A message goes to the buffer as a whole when something is unsent already, or but for the bytes that the kernel takes.\<close>

definition buffered :: "(nat \<Rightarrow> write_outcome) \<Rightarrow> bytes \<Rightarrow> 'cb conn \<Rightarrow> 'cb conn \<Rightarrow> bool" where
  "buffered w m c c' \<longleftrightarrow>
     (isWriting (conn_channel c) \<longrightarrow> unsent c' = unsent c @ m \<and> writes c' = writes c) \<and>
     (\<forall>j < length m. \<not> isWriting (conn_channel c) \<and> w (writes c) = Accept j \<longrightarrow>
        unsent c' = drop j m \<and> writes c' = Suc (writes c))"

definition crosses :: "nat \<Rightarrow> 'cb conn \<Rightarrow> bool" where
  "crosses n c \<longleftrightarrow> length (unsent c) + n \<ge> echo_mark"

lemma send_rest_effect:
  assumes "send_rest message rest remaining c = Inr c'" and "buffer_inv (outputBuffer c)"
    and "events_ok (events (conn_channel c))" and "highWaterMarkCallback c = Some cb" and "highWaterMark c = echo_mark"
    and "length (unsent c) < echo_mark" and "remaining = length rest"
  shows "same_reading c c' \<and> unsent c' = unsent c @ rest \<and> writes c' = writes c \<and>
     pendings c' = pendings c @ (if crosses remaining c then [Fn_highWaterMark cb (length (unsent c) + remaining)] else [])"
proof -
  have n: "readableBytes (outputBuffer c) = length (unsent c)" using length_toStringView [OF assms(2)] by simp
  let ?c2 = "if crosses remaining c then queueInLoop (Fn_highWaterMark cb (length (unsent c) + remaining)) c else c"
  have c2: "outputBuffer ?c2 = outputBuffer c" "conn_channel ?c2 = conn_channel c" "same_reading c ?c2"
    "pendings ?c2 = pendings c @ (if crosses remaining c then [Fn_highWaterMark cb (length (unsent c) + remaining)] else [])"
    by (simp_all add: queueInLoop_def same_reading_def)
  obtain b where b: "append_bytes rest (outputBuffer c) = Inr b" "toStringView b = unsent c @ rest"
    using append_bytes_correct [OF assms(2)] by blast
  define c3 where "c3 = ?c2\<lparr>outputBuffer := b, accepted := accepted ?c2 @ message\<rparr>"
  have c': "c' = (if \<not> writing c3 then set_channel_events EnableWriting c3 else c3)"
    using assms(1,4,5,6) n b(1) c2(1)
    by (simp add: send_rest_def Let_def crosses_def c3_def split: if_splits)
  have ev: "events_ok (events (conn_channel c3))" using assms(3) c2(2) by (simp add: c3_def)
  have "same_reading ?c2 c3" "unsent c3 = unsent c @ rest" "pendings c3 = pendings ?c2" "writes c3 = writes c"
    using b(2) by (simp_all add: c3_def same_reading_def queueInLoop_def)
  moreover have "same_reading c3 c'" "unsent c' = unsent c3" "pendings c' = pendings c3" "writes c' = writes c3"
    using same_reading_set [OF ev] by (simp_all add: c') (simp add: set_channel_events_def)
  ultimately show ?thesis using c2(3,4) same_reading_trans by metis
qed

lemma echo_send:
  assumes s: "serving c" and w: "no_reset w" and none: "writeCompleteCallback c = None"
    and hw: "highWaterMarkCallback c = Some Cb_highWaterMark" "highWaterMark c = echo_mark"
    and low: "length (unsent c) < echo_mark" "pendings c = []" "length m \<le> largest_read"
  shows "\<exists>c'. sendInLoop (tcp_env w) m c = Inr c' \<and> serving c' \<and> serves m c c' \<and> same_reading c c' \<and>
     length (unsent c') \<le> length (unsent c) + length m \<and> buffered w m c c' \<and>
     (if length (unsent c') < echo_mark then pendings c' = [] else \<exists>n. pendings c' = [Fn_highWaterMark Cb_highWaterMark n])"
proof -
  obtain c' where c': "sendInLoop (tcp_env w) m c = Inr c'" "serving c'" "serves m c c'"
    using serving_send [OF s w] by blast
  obtain nw rem fault c1 where d: "send_directly (tcp_env w) m c = (nw, rem, fault, c1)"
    by (cases "send_directly (tcp_env w) m c")
  obtain k x where c1: "c1 = c\<lparr>writes := k, sent := x\<rparr>" using send_directly_same(1) [OF d none] by (auto simp: wrote_def)
  have st: "state c \<noteq> kDisconnected" using s by (simp add: serving_def)
  have fault: "\<not> fault" using serves_send_directly(2) [OF d w] .
  have keep: "outputBuffer c1 = outputBuffer c" "conn_channel c1 = conn_channel c" "pendings c1 = pendings c"
    "highWaterMarkCallback c1 = highWaterMarkCallback c" "highWaterMark c1 = highWaterMark c" "same_reading c c1"
    by (simp_all add: c1 same_reading_def)
  have inv: "buffer_inv (outputBuffer c1)" "events_ok (events (conn_channel c1))"
    using s keep(1,2) by (simp_all add: serving_def conn_inv_def)
  have busy: "nw = 0 \<and> rem = length m \<and> c1 = c" if "isWriting (conn_channel c)"
    using d that by (auto simp: send_directly_def)
  have idle: "nw = j \<and> rem = length m - j \<and> writes c1 = Suc (writes c) \<and> unsent c = []"
    if "\<not> isWriting (conn_channel c)" "w (writes c) = Accept j" "j < length m" for j
  proof -
    have "unsent c = []" using s that(1) by (auto simp: serving_def conn_inv_def)
    moreover from this have "readableBytes (outputBuffer c) = 0" using s readable_unsent by (auto simp: serving_def conn_inv_def)
    ultimately show ?thesis using d that by (auto simp: send_directly_def do_write_def Let_def tcp_env_def split: if_splits)
  qed
  note run = sendInLoop_rest [OF st d send_directly_same(2) [OF d none]]
  show ?thesis
  proof (cases "rem > 0")
    case True
    define rest where "rest = subrange nw (nw + rem) m"
    have total: "nw + rem = length m" by (rule send_directly_same(3) [OF d none])
    then have rest: "rem = length rest" by (simp add: rest_def subrange_def)
    have "send_rest m rest rem c1 = Inr c'" using c'(1) run fault True by (simp add: rest_def)
    from send_rest_effect [OF this inv] keep hw low(1) rest
    have eff: "same_reading c1 c'" "unsent c' = unsent c @ rest" "writes c' = writes c1"
      "pendings c' = (if crosses rem c1 then [Fn_highWaterMark Cb_highWaterMark (length (unsent c1) + rem)] else [])"
      using low(2) by simp_all
    have "crosses rem c1 \<longleftrightarrow> \<not> length (unsent c') < echo_mark" using eff(2) rest keep(1) by (simp add: crosses_def not_less)
    moreover have "length (unsent c') \<le> length (unsent c) + length m" using eff(2) rest total by simp
    moreover have "buffered w m c c'" using busy idle eff(2,3) total by (auto simp: buffered_def rest_def subrange_def)
    ultimately show ?thesis using c' same_reading_trans [OF keep(6) eff(1)] eff(4) by auto
  next
    case False
    then have "c' = c1\<lparr>accepted := accepted c1 @ m\<rparr>" using c'(1) run fault by simp
    then have "same_reading c c'" "unsent c' = unsent c" "pendings c' = []" "writes c' = writes c1"
      using keep low(2) by (simp_all add: same_reading_def)
    moreover from this busy idle False have "buffered w m c c'" by (fastforce simp: buffered_def)
    ultimately show ?thesis using c' low(1) by auto
  qed
qed

lemma echo_write:
  assumes s: "serving c" and w: "no_reset w"
  obtains c' where "handleWrite (tcp_env w) c = Inr c'" and "serving c'" and "serves [] c c'" and "same_reading c c'"
    and "length (unsent c') \<le> length (unsent c)"
    and "pendings c' = pendings c \<or> (\<exists>cb. writeCompleteCallback c = Some cb \<and> unsent c' = [] \<and> pendings c' = pendings c @ [Fn_writeComplete cb])"
    and "isWriting (conn_channel c) \<Longrightarrow> w (writes c) = Accept k \<Longrightarrow> unsent c' = drop k (unsent c)"
    and "unsent c \<noteq> [] \<Longrightarrow> unsent c' = [] \<Longrightarrow> writeCompleteCallback c = Some cb \<Longrightarrow> pendings c' = pendings c @ [Fn_writeComplete cb]"
proof -
  obtain c' where c': "handleWrite (tcp_env w) c = Inr c'" "serving c'" "serves [] c c'"
    using serving_write [OF s w] by blast
  obtain r c1 where d: "do_write (tcp_env w) (unsent c) c = (r, c1)" by fastforce
  obtain i x where c1: "c1 = c\<lparr>writes := i, sent := x\<rparr>" using do_write_wrote [OF d] by (auto simp: wrote_def)
  have out: "buffer_inv (outputBuffer c)" and ev: "events_ok (events (conn_channel c))" and st: "state c = kConnected"
    using s by (simp_all add: serving_def conn_inv_def)
  have r: "n \<le> length (unsent c)" if "r = Inr n" for n
    using d that by (auto simp: do_write_def Let_def split: write_outcome.splits)
  have takes: "r = Inr (min k (length (unsent c)))" if "w (writes c) = Accept k"
    using d that by (simp add: do_write_def Let_def tcp_env_def)
  show thesis
  proof (cases "isWriting (conn_channel c) \<and> (\<exists>n. r = Inr n \<and> n > 0)")
    case False
    have "c' = c \<or> c' = c1" using c'(1) d False by (auto simp: handleWrite_def split: sum.splits if_splits)
    moreover have "same_reading c c1" "unsent c1 = unsent c" "pendings c1 = pendings c" by (simp_all add: c1 same_reading_def)
    moreover have "unsent c = drop k (unsent c)" if "isWriting (conn_channel c)" "w (writes c) = Accept k"
      using takes [OF that(2)] False that(1) by (cases "unsent c") auto
    ultimately show thesis using c' False by (intro that [of c']) auto
  next
    case True
    then obtain n where n: "isWriting (conn_channel c)" "r = Inr n" "n > 0" by blast
    have "n \<le> readableBytes (outputBuffer c)" using r [OF n(2)] length_toStringView [OF out] by simp
    then obtain b where b: "retrieve n (outputBuffer c) = Inr b" "buffer_inv b" "toStringView b = drop n (unsent c)"
      using retrieve_correct [OF out] by blast
    let ?c2 = "c1\<lparr>outputBuffer := b\<rparr>"
    have c2: "same_reading c ?c2" "unsent ?c2 = drop n (unsent c)" "pendings ?c2 = pendings c"
        "events_ok (events (conn_channel ?c2))" using b(3) ev by (simp_all add: c1 same_reading_def)
    let ?c3 = "set_channel_events DisableWriting ?c2"
    have c3: "same_reading c ?c3" "unsent ?c3 = drop n (unsent c)" "pendings ?c3 = pendings c"
      using same_reading_trans [OF c2(1) same_reading_set [OF c2(4)]] c2(2,3) by simp_all
    have c4: "same_reading c (queue_write_complete ?c3)"
      using c3(1) by (simp add: queue_write_complete_def queueInLoop_def same_reading_def split: option.split)
    have run: "c' = (if readableBytes b = 0 then queue_write_complete ?c3 else ?c2)"
      using c'(1) d n b(1) st by (auto simp: handleWrite_def Let_def c1 split: if_splits)
    have "writeCompleteCallback ?c3 = writeCompleteCallback c" using c3(1) by (simp add: same_reading_def)
    moreover have "unsent c \<noteq> [] \<longrightarrow> unsent c' = [] \<longrightarrow> (\<forall>cb. writeCompleteCallback c = Some cb \<longrightarrow> pendings c' = pendings c @ [Fn_writeComplete cb])"
      using calculation c3(3) b(3) readable_unsent [OF b(2)] c2(2)
      by (auto simp: run queue_write_complete_def queueInLoop_def)
    ultimately have "(unsent c \<noteq> [] \<longrightarrow> unsent c' = [] \<longrightarrow> (\<forall>cb. writeCompleteCallback c = Some cb \<longrightarrow> pendings c' = pendings c @ [Fn_writeComplete cb])) \<and>
        (pendings c' = pendings c \<or>
        (\<exists>cb. writeCompleteCallback c = Some cb \<and> unsent c' = [] \<and> pendings c' = pendings c @ [Fn_writeComplete cb]))"
      using c2(3) c3(3) readable_unsent [OF b(2)] by (auto simp: run queue_write_complete_def queueInLoop_def split: option.splits)
    moreover have "unsent c' = drop n (unsent c)" "same_reading c c'" using c2 c3(2) c4 by (simp_all add: run)
    moreover have "drop n (unsent c) = drop k (unsent c)" if "w (writes c) = Accept k"
      using takes [OF that] n(2) by (cases "k \<le> length (unsent c)") (simp_all add: min_def)
    ultimately show thesis using c' by (intro that [of c']) auto
  qed
qed

section \<open>Turns\<close>

definition steady :: "http_cb conn \<Rightarrow> bool" where
  "steady c \<longleftrightarrow> serving c \<and> pendings c = [] \<and> highWaterMarkCallback c = Some Cb_highWaterMark \<and>
     highWaterMark c = echo_mark \<and> emptied (inputBuffer c)"

definition accepting :: "http_cb conn \<Rightarrow> bool" where
  "accepting c \<longleftrightarrow> steady c \<and> reading c \<and> isReading (conn_channel c) \<and> writeCompleteCallback c = None \<and>
     length (unsent c) < echo_mark"

definition throttled :: "http_cb conn \<Rightarrow> bool" where
  "throttled c \<longleftrightarrow> steady c \<and> \<not> reading c \<and> \<not> isReading (conn_channel c) \<and>
     writeCompleteCallback c = Some Cb_drained \<and> length (unsent c) < echo_mark + largest_read"

text \<open>A single functor is what \<open>conn_step\<close> runs.\<close>

lemma swap_none: "pendings c = [] \<Longrightarrow> swap_and_run env c = Inr c"
  by (cases c) (simp add: swap_and_run_def)

lemma swap_one: "pendings c = [f] \<Longrightarrow> swap_and_run env c = conn_step env Ev_pending c"
  by (cases "run_functor env f (c\<lparr>pendings := []\<rparr>)") (simp_all add: swap_and_run_def)

lemma stop_functor:
  assumes s: "serving c" and f: "pendings c = [Fn_highWaterMark Cb_highWaterMark n]"
    and c: "highWaterMarkCallback c = Some Cb_highWaterMark" "highWaterMark c = echo_mark" "emptied (inputBuffer c)"
      "length (unsent c) < echo_mark + largest_read"
  obtains c' where "swap_and_run (tcp_env w) c = Inr c'" and "throttled c'" and "accepted c' = accepted c" and "unsent c' = unsent c"
proof -
  let ?c = "c\<lparr>pendings := [], called := called c @ [Cb_highWaterMark]\<rparr>"
  let ?d = "(stopReadInLoop ?c)\<lparr>writeCompleteCallback := Some Cb_drained\<rparr>"
  have ev: "events_ok (events (conn_channel ?c))" using s by (simp add: serving_def conn_inv_def)
  have run: "conn_step (tcp_env w) Ev_pending c = Inr ?d"
    using f by (simp add: call_client_def tcp_env_def optionalHighWaterMarkCallback_def)
  obtain c' where "conn_step (tcp_env w) Ev_pending c = Inr c'" "serving c'" "serves [] c c'"
    using serving_functor [OF s] by blast
  then have d: "serving ?d" "serves [] c ?d" using run by simp_all
  have "pendings ?d = []" "highWaterMarkCallback ?d = Some Cb_highWaterMark" "highWaterMark ?d = echo_mark"
      "unsent ?d = unsent c" "\<not> reading ?d"
    using c by (simp_all add: stopReadInLoop_def set_channel_events_def)
  moreover have "\<not> isReading (conn_channel ?d)"
    using reading_set(4) [OF ev] by (simp add: stopReadInLoop_def)
  ultimately show thesis using d c swap_one [OF f] run
    by (intro that [of ?d]) (simp_all add: throttled_def steady_def serves_def)
qed

lemma resume_functor:
  assumes s: "serving c" and f: "pendings c = [Fn_writeComplete Cb_drained]"
    and c: "highWaterMarkCallback c = Some Cb_highWaterMark" "highWaterMark c = echo_mark" "emptied (inputBuffer c)"
      "length (unsent c) < echo_mark"
  obtains c' where "swap_and_run (tcp_env w) c = Inr c'" and "accepting c'" and "accepted c' = accepted c" and "unsent c' = unsent c"
proof -
  let ?c = "c\<lparr>pendings := [], called := called c @ [Cb_drained]\<rparr>"
  let ?d = "(startReadInLoop ?c)\<lparr>writeCompleteCallback := None\<rparr>"
  have ev: "events_ok (events (conn_channel ?c))" using s by (simp add: serving_def conn_inv_def)
  have run: "conn_step (tcp_env w) Ev_pending c = Inr ?d"
    using f by (simp add: call_client_def tcp_env_def optionalDoneHighWaterMarkCallback_def)
  obtain c' where "conn_step (tcp_env w) Ev_pending c = Inr c'" "serving c'" "serves [] c c'"
    using serving_functor [OF s] by blast
  then have d: "serving ?d" "serves [] c ?d" using run by simp_all
  have "pendings ?d = []" "highWaterMarkCallback ?d = Some Cb_highWaterMark" "highWaterMark ?d = echo_mark"
      "unsent ?d = unsent c" "reading ?d"
    using c by (simp_all add: startReadInLoop_def set_channel_events_def)
  moreover have "isReading (conn_channel ?d)"
    using reading_set(3) [OF ev] by (simp add: startReadInLoop_def)
  ultimately show thesis using d c swap_one [OF f] run
    by (intro that [of ?d]) (simp_all add: accepting_def steady_def serves_def)
qed

lemma echo_read:
  assumes c: "accepting c" and w: "no_reset w"
    and ok: "case outcome of Read_bytes bs \<Rightarrow> bs \<noteq> [] \<and> length bs \<le> readFd_capacity (inputBuffer c) | _ \<Rightarrow> True"
  obtains c' where "echo_handleRead w outcome c = Inr c'" and "serving c'" and "same_reading c c'" and "emptied (inputBuffer c')"
    and "accepted c' = accepted c @ turn_bytes (Some outcome, b)"
    and "length (unsent c') < echo_mark + largest_read"
    and "buffered w (turn_bytes (Some outcome, b)) c c' \<or> (\<exists>e. outcome = Read_error e)"
    and "if length (unsent c') < echo_mark then pendings c' = [] else \<exists>n. pendings c' = [Fn_highWaterMark Cb_highWaterMark n]"
proof (cases outcome)
  case (Read_error e)
  have "echo_handleRead w outcome c = Inr c" by (simp add: echo_handleRead_def Read_error readFd_def)
  then show thesis by (rule that) (use c Read_error in \<open>simp_all add: accepting_def steady_def\<close>)
next
  case (Read_bytes bs)
  have e: "emptied (inputBuffer c)" and low: "length (unsent c) < echo_mark" using c by (simp_all add: accepting_def steady_def)
  have len: "length bs \<le> readFd_capacity (inputBuffer c)" and some: "bs \<noteq> []" using ok Read_bytes by simp_all
  obtain b' where b': "readFd outcome (inputBuffer c) = Inr (int (length bs), None, b')" "buffer_inv b'"
    "toStringView b' = bs" "emptied (retrieveAll b')"
    unfolding Read_bytes by (rule readFd_emptied [OF e len])
  let ?c = "c\<lparr>inputBuffer := b', called := called c @ [Cb_message]\<rparr>"
  have s: "serving ?c" using c b'(2) by (simp add: accepting_def steady_def serving_def conn_inv_def own_callbacks_def)
  have max: "length bs \<le> largest_read" using len capacity_bound [OF e] by simp
  obtain c1 where c1: "sendInLoop (tcp_env w) bs ?c = Inr c1" "serving c1" "serves bs ?c c1" "same_reading ?c c1"
    "length (unsent c1) \<le> length (unsent c) + length bs" "buffered w bs ?c c1"
    "if length (unsent c1) < echo_mark then pendings c1 = [] else \<exists>n. pendings c1 = [Fn_highWaterMark Cb_highWaterMark n]"
    using echo_send [OF s w, of bs] c low max by (auto simp: accepting_def steady_def)
  let ?d = "c1\<lparr>inputBuffer := retrieveAll (inputBuffer c1)\<rparr>"
  have in1: "inputBuffer c1 = b'" using c1(3) by (simp add: serves_def)
  have "echo_handleRead w outcome c = Inr ?d"
    using b'(1,3) c1(1) some s by (simp add: echo_handleRead_def Let_def echo_onMessage_def send_buffer_def serving_def)
  moreover have "serving ?d" using c1(2) by (simp add: serving_def conn_inv_def own_callbacks_def)
  moreover have "same_reading c ?d" using c1(4) by (simp add: same_reading_def)
  moreover have "accepted ?d = accepted c @ turn_bytes (Some outcome, b)" using c1(3) Read_bytes by (simp add: serves_def)
  moreover have "buffered w bs c ?d" using c1(6) by (simp add: buffered_def)
  ultimately show thesis using c1(5,7) in1 b'(4) low max Read_bytes by (intro that [of ?d]) simp_all
qed

lemma steady_same:
  "steady c \<Longrightarrow> serving c' \<Longrightarrow> same_reading c c' \<Longrightarrow> emptied (inputBuffer c') \<Longrightarrow>
     highWaterMarkCallback c' = Some Cb_highWaterMark \<and> highWaterMark c' = echo_mark"
  by (simp add: steady_def same_reading_def)

text \<open>A turn that reads, or could.\<close>

lemma accepting_turn:
  assumes c: "accepting c" and w: "no_reset w" and ok: "turn_ok (r, writable) c"
  shows "\<exists>c'. echo_step w (r, writable) c = Inr c' \<and> (accepting c' \<or> throttled c') \<and>
     accepted c' = accepted c @ turn_bytes (r, writable)"
proof -
  have steady: "steady c" using c by (simp add: accepting_def)
  obtain c1 where c1: "(case r of None \<Rightarrow> Inr c | Some outcome \<Rightarrow> echo_handleRead w outcome c) = Inr c1" "serving c1"
    "same_reading c c1" "emptied (inputBuffer c1)" "accepted c1 = accepted c @ turn_bytes (r, writable)"
    "length (unsent c1) < echo_mark + largest_read"
    "if length (unsent c1) < echo_mark then pendings c1 = [] else \<exists>n. pendings c1 = [Fn_highWaterMark Cb_highWaterMark n]"
  proof (cases r)
    case None
    show thesis by (rule that [of c]) (use c None in \<open>simp_all add: accepting_def steady_def\<close>)
  next
    case (Some outcome)
    have "case outcome of Read_bytes bs \<Rightarrow> bs \<noteq> [] \<and> length bs \<le> readFd_capacity (inputBuffer c) | _ \<Rightarrow> True"
      using ok Some by (simp add: turn_ok_def split: read_outcome.splits)
    from echo_read [OF c w this, of writable] that Some show thesis by auto
  qed
  have none: "writeCompleteCallback c1 = None" using c c1(3) by (simp add: accepting_def same_reading_def)
  obtain c2 where c2: "(if writable then handleWrite (tcp_env w) c1 else Inr c1) = Inr c2" "serving c2" "serves [] c1 c2"
    "same_reading c1 c2" "length (unsent c2) \<le> length (unsent c1)" "pendings c2 = pendings c1"
  proof (cases writable)
    case True
    show thesis by (rule echo_write [OF c1(2) w]) (use that True none in auto)
  next
    case False
    show thesis by (rule that [of c1]) (use False c1(2) in \<open>simp_all add: serves_def\<close>)
  qed
  have step: "echo_step w (r, writable) c = swap_and_run (tcp_env w) c2" by (simp add: echo_step_def c1(1) c2(1))
  have same: "same_reading c c2" by (rule same_reading_trans [OF c1(3) c2(4)])
  have e: "emptied (inputBuffer c2)" and acc: "accepted c2 = accepted c @ turn_bytes (r, writable)"
    using c1(4,5) c2(3) by (simp_all add: serves_def)
  note marks = steady_same [OF steady c2(2) same e]
  have low: "length (unsent c2) < echo_mark + largest_read" using c1(6) c2(5) by simp
  show ?thesis
  proof (cases "length (unsent c1) < echo_mark")
    case True
    then have p: "pendings c2 = []" using c1(7) c2(6) by simp
    have "accepting c2" using True p c2(2,5) e marks same c by (simp add: accepting_def steady_def same_reading_def)
    with step swap_none [OF p] acc show ?thesis by auto
  next
    case False
    then obtain n where n: "pendings c2 = [Fn_highWaterMark Cb_highWaterMark n]" using c1(7) c2(6) by auto
    obtain c' where "swap_and_run (tcp_env w) c2 = Inr c'" "throttled c'" "accepted c' = accepted c2"
      using stop_functor [OF c2(2) n conjunct1 [OF marks] conjunct2 [OF marks] e low] by blast
    with step acc show ?thesis by auto
  qed
qed

lemma throttled_turn:
  assumes c: "throttled c" and w: "no_reset w" and ok: "turn_ok (r, writable) c"
  shows "\<exists>c'. echo_step w (r, writable) c = Inr c' \<and> (accepting c' \<or> throttled c') \<and>
     accepted c' = accepted c @ turn_bytes (r, writable)"
proof -
  have steady: "steady c" and s: "serving c" using c by (simp_all add: throttled_def steady_def)
  have r: "r = None" using ok c by (auto simp: turn_ok_def throttled_def)
  have cb: "writeCompleteCallback c = Some Cb_drained" "pendings c = []" using c by (simp_all add: throttled_def steady_def)
  obtain c2 where c2: "(if writable then handleWrite (tcp_env w) c else Inr c) = Inr c2" "serving c2" "serves [] c c2"
    "same_reading c c2" "length (unsent c2) \<le> length (unsent c)"
    "pendings c2 = [] \<or> unsent c2 = [] \<and> pendings c2 = [Fn_writeComplete Cb_drained]"
  proof (cases writable)
    case True
    show thesis by (rule echo_write [OF s w]) (use that True cb in auto)
  next
    case False
    show thesis by (rule that [of c]) (use False s cb in \<open>simp_all add: serves_def\<close>)
  qed
  have step: "echo_step w (r, writable) c = swap_and_run (tcp_env w) c2" by (simp add: echo_step_def r c2(1))
  have e: "emptied (inputBuffer c2)" and acc: "accepted c2 = accepted c"
    using steady c2(3) by (simp_all add: serves_def steady_def)
  note marks = steady_same [OF steady c2(2,4) e]
  from c2(6) show ?thesis
  proof
    assume p: "pendings c2 = []"
    have "throttled c2" using p c2(2,4,5) e marks c by (simp add: throttled_def steady_def same_reading_def)
    with step swap_none [OF p] acc r show ?thesis by auto
  next
    assume p: "unsent c2 = [] \<and> pendings c2 = [Fn_writeComplete Cb_drained]"
    then have "length (unsent c2) < echo_mark" by (simp add: echo_mark_def)
    from resume_functor [OF c2(2) conjunct2 [OF p] conjunct1 [OF marks] conjunct2 [OF marks] e this]
    obtain c' where "swap_and_run (tcp_env w) c2 = Inr c'" "accepting c'" "accepted c' = accepted c2" by blast
    with step acc r show ?thesis by auto
  qed
qed

definition echo_inv :: "http_cb conn \<Rightarrow> bool" where
  "echo_inv c \<longleftrightarrow> accepting c \<or> throttled c"

lemma echo_turn_well:
  assumes "echo_inv c" and "no_reset w" and "turn_ok t c"
  obtains c' where "echo_step w t c = Inr c'" and "echo_inv c'" and "accepted c' = accepted c @ turn_bytes t"
  using assms accepting_turn [of c w "fst t" "snd t"] throttled_turn [of c w "fst t" "snd t"]
  by (auto simp: echo_inv_def)

interpretation ec: guarded "echo_step w" "echo_run w" turn_ok "echo_ok w" "\<lambda>c. no_reset w \<and> echo_inv c" for w
  by unfold_locales (auto elim: echo_turn_well)

lemma echo_run_well:
  assumes "no_reset w" and "echo_inv c" and "echo_ok w ts c"
  shows "\<exists>c'. echo_run w ts c = Inr c' \<and> echo_inv c' \<and> accepted c' = accepted c @ received ts"
  using assms(2,3)
proof (induction ts arbitrary: c)
  case Nil
  then show ?case by (simp add: received_def)
next
  case (Cons t ts)
  then have "turn_ok t c" by simp
  then obtain c1 where c1: "echo_step w t c = Inr c1" "echo_inv c1" "accepted c1 = accepted c @ turn_bytes t"
    by (rule echo_turn_well [OF Cons.prems(1) assms(1)])
  with Cons.prems(2) have "echo_ok w ts c1" by simp
  from Cons.IH [OF c1(2) this] c1 show ?case by (auto simp: received_def)
qed

lemma established_accepting:
  "\<exists>c. echo_established w sockfd = Inr c \<and> accepting c \<and> accepted c = [] \<and> unsent c = [] \<and> writes c = 0"
proof -
  let ?n = "TcpConnection_new sockfd Cb_connection Cb_message :: http_cb conn"
  let ?c = "set_channel_events EnableReading (?n\<lparr>state := kConnected, conn_channel := tie (conn_channel ?n)\<rparr>)"
  let ?d = "?c\<lparr>called := [Cb_connection], highWaterMarkCallback := Some Cb_highWaterMark, highWaterMark := 256 * 1024\<rparr>"
  have st: "state ?n = kConnecting" by (simp add: TcpConnection_new_def)
  have run: "echo_established w sockfd = Inr ?d"
    by (simp add: echo_established_def connectEstablished_def TcpConnection_new_def check_def Let_def call_client_def
        tcp_env_def set_channel_events_def)
  have inv: "conn_inv ?c" using established_changes(1) [OF conn_inv_new st] .
  have ev: "events_ok (events (conn_channel (?n\<lparr>state := kConnected, conn_channel := tie (conn_channel ?n)\<rparr>)))"
    by (simp add: TcpConnection_new_def tie_def Channel_new_def events_ok_def)
  have "conn_inv ?d" using inv by (simp add: conn_inv_def)
  moreover have "isReading (conn_channel ?d)" using reading_set(3) [OF ev] by simp
  moreover have "unsent ?d = []" "accepted ?d = []" "writes ?d = 0" "pendings ?d = []" "state ?d = kConnected" "reading ?d"
      "writeCompleteCallback ?d = None" "emptied (inputBuffer ?d)"
    by (simp_all add: TcpConnection_new_def set_channel_events_def emptied_def Buffer_new_def toStringView_def
        readableBytes_def resize_def largest_read_def kInitialSize_def)
  ultimately have "accepting ?d"
    by (simp add: accepting_def steady_def serving_def own_callbacks_def echo_mark_def)
  with run show ?thesis by (simp add: TcpConnection_new_def set_channel_events_def toStringView_def Buffer_new_def readableBytes_def)
qed

text \<open>Turns that only write, for a connection that is throttled.\<close>

lemma drain_turn:
  assumes c: "throttled c" and w: "no_reset w" and some: "unsent c \<noteq> []" and take: "w (writes c) = Accept k"
  obtains c' where "echo_step w (None, True) c = Inr c'" and "accepted c' = accepted c" and "unsent c' = drop k (unsent c)"
    and "if unsent c' = [] then accepting c' else throttled c'"
proof -
  have s: "serving c" and steady: "steady c" using c by (simp_all add: throttled_def steady_def)
  have cb: "writeCompleteCallback c = Some Cb_drained" "pendings c = []" using c by (simp_all add: throttled_def steady_def)
  have wr: "isWriting (conn_channel c)" using s some by (simp add: serving_def conn_inv_def)
  obtain c2 where c2: "handleWrite (tcp_env w) c = Inr c2" "serving c2" "serves [] c c2" "same_reading c c2"
    "length (unsent c2) \<le> length (unsent c)" "unsent c2 = drop k (unsent c)"
    "unsent c2 = [] \<longrightarrow> pendings c2 = [Fn_writeComplete Cb_drained]"
    "pendings c2 = [] \<or> unsent c2 = [] \<and> pendings c2 = [Fn_writeComplete Cb_drained]"
    by (rule echo_write [OF s w, of k Cb_drained]) (use that wr take some cb in auto)
  have step: "echo_step w (None, True) c = swap_and_run (tcp_env w) c2" by (simp add: echo_step_def c2(1))
  have e: "emptied (inputBuffer c2)" and acc: "accepted c2 = accepted c"
    using steady c2(3) by (simp_all add: serves_def steady_def)
  note marks = steady_same [OF steady c2(2,4) e]
  show thesis
  proof (cases "unsent c2 = []")
    case True
    then have "length (unsent c2) < echo_mark" by (simp add: echo_mark_def)
    from resume_functor [OF c2(2) mp [OF c2(7) True] conjunct1 [OF marks] conjunct2 [OF marks] e this]
    obtain c' where "swap_and_run (tcp_env w) c2 = Inr c'" "accepting c'" "accepted c' = accepted c2" "unsent c' = unsent c2" by blast
    with True step acc c2(6) show thesis by (intro that [of c']) simp_all
  next
    case False
    then have p: "pendings c2 = []" using c2(8) by simp
    have "throttled c2" using p c2(2,4,5) e marks c by (simp add: throttled_def steady_def same_reading_def)
    with step swap_none [OF p] acc False c2(6) show thesis by (intro that [of c2]) simp_all
  qed
qed

lemma throttled_drains:
  assumes "throttled c" and "unsent c \<noteq> []" and "no_reset w" and "\<And>i. \<exists>k>0. w i = Accept k"
  shows "\<exists>n c'. n \<le> length (unsent c) \<and> echo_run w (replicate n (None, True)) c = Inr c' \<and> accepting c' \<and>
     sent c' = accepted c \<and> unsent c' = []"
  using assms(1,2)
proof (induction "length (unsent c)" arbitrary: c rule: less_induct)
  case less
  obtain k where k: "k > 0" "w (writes c) = Accept k" using assms(4) by blast
  obtain c1 where c1: "echo_step w (None, True) c = Inr c1" "accepted c1 = accepted c" "unsent c1 = drop k (unsent c)"
    "if unsent c1 = [] then accepting c1 else throttled c1"
    by (rule drain_turn [OF less.prems(1) assms(3) less.prems(2) k(2)])
  show ?case
  proof (cases "unsent c1 = []")
    case True
    then have "accepting c1" using c1(4) by simp
    moreover from this True have "sent c1 = accepted c1" by (simp add: accepting_def steady_def serving_def conn_inv_def)
    moreover have "1 \<le> length (unsent c)" using less.prems(2) by (cases "unsent c") simp_all
    ultimately show ?thesis using c1(1,2) True by (intro exI [of _ 1] exI [of _ c1]) simp
  next
    case False
    have shorter: "length (unsent c1) < length (unsent c)" using c1(3) k(1) less.prems(2) by (cases "unsent c") simp_all
    obtain n c' where "n \<le> length (unsent c1)" "echo_run w (replicate n (None, True)) c1 = Inr c'" "accepting c'"
      "sent c' = accepted c1" "unsent c' = []" using less.hyps [OF shorter] c1(4) False by auto
    with c1(1,2) shorter show ?thesis by (intro exI [of _ "Suc n"] exI [of _ c']) simp
  qed
qed

text \<open>A turn that crosses the mark, and one in which the kernel then takes everything.\<close>

lemma crossing_turn:
  assumes c: "accepting c" and w: "no_reset w" and some: "unsent c \<noteq> []"
    and bs: "bs \<noteq> []" "length bs \<le> readFd_capacity (inputBuffer c)" "echo_mark \<le> length (unsent c) + length bs"
    and take: "w (writes c) = Accept k" "length (unsent c) + length bs \<le> k"
  shows "\<exists>c'. echo_step w (Some (Read_bytes bs), True) c = Inr c' \<and> throttled c' \<and> unsent c' = [] \<and>
     accepted c' = accepted c @ bs"
proof -
  have s: "serving c" and steady: "steady c" using c by (simp_all add: accepting_def steady_def)
  have wr: "isWriting (conn_channel c)" using s some by (simp add: serving_def conn_inv_def)
  have "case Read_bytes bs of Read_bytes bs \<Rightarrow> bs \<noteq> [] \<and> length bs \<le> readFd_capacity (inputBuffer c) | _ \<Rightarrow> True"
    using bs by simp
  from echo_read [OF c w this, of True] obtain c1 where c1: "echo_handleRead w (Read_bytes bs) c = Inr c1" "serving c1"
    "same_reading c c1" "emptied (inputBuffer c1)" "accepted c1 = accepted c @ bs"
    "length (unsent c1) < echo_mark + largest_read" "buffered w bs c c1"
    "if length (unsent c1) < echo_mark then pendings c1 = [] else \<exists>n. pendings c1 = [Fn_highWaterMark Cb_highWaterMark n]"
    by auto
  then have b: "unsent c1 = unsent c @ bs" "writes c1 = writes c" using wr by (simp_all add: buffered_def)
  then obtain n where n: "pendings c1 = [Fn_highWaterMark Cb_highWaterMark n]" using c1(8) bs(3) by (auto split: if_splits)
  have wr1: "isWriting (conn_channel c1)" using c1(2) b(1) some by (simp add: serving_def conn_inv_def)
  have none: "writeCompleteCallback c1 = None" using c c1(3) by (simp add: accepting_def same_reading_def)
  obtain c2 where c2: "handleWrite (tcp_env w) c1 = Inr c2" "serving c2" "serves [] c1 c2" "same_reading c1 c2"
    "unsent c2 = []" "pendings c2 = pendings c1"
    by (rule echo_write [OF c1(2) w, of k]) (use that wr1 take b none in auto)
  have same: "same_reading c c2" by (rule same_reading_trans [OF c1(3) c2(4)])
  have e: "emptied (inputBuffer c2)" and acc: "accepted c2 = accepted c @ bs" using c1(4,5) c2(3) by (simp_all add: serves_def)
  note marks = steady_same [OF steady c2(2) same e]
  have "length (unsent c2) < echo_mark + largest_read" using c2(5) by (simp add: echo_mark_def)
  from stop_functor [OF c2(2) _ conjunct1 [OF marks] conjunct2 [OF marks] e this] n c2(6)
  obtain c' where "swap_and_run (tcp_env w) c2 = Inr c'" "throttled c'" "accepted c' = accepted c2" "unsent c' = unsent c2" by metis
  moreover have "echo_step w (Some (Read_bytes bs), True) c = swap_and_run (tcp_env w) c2"
    by (simp add: echo_step_def c1(1) c2(1))
  ultimately show ?thesis using acc c2(5) by auto
qed

lemma deaf_connection:
  assumes "throttled c" and "unsent c = []"
  shows "events (conn_channel c) = 0" and "echo_ok w ts c \<Longrightarrow> echo_run w ts c = Inr c \<and> received ts = []"
proof -
  have inv: "conn_inv c" "state c = kConnected" "\<not> isReading (conn_channel c)" "pendings c = []"
    using assms(1) by (simp_all add: throttled_def steady_def serving_def)
  then have wr: "\<not> isWriting (conn_channel c)" using assms(2) by (simp add: conn_inv_def)
  with inv show "events (conn_channel c) = 0"
    unfolding conn_inv_def events_ok_cases by (auto simp: isReading_def isWriting_def event_defs)
  have only: "t = (None, False)" if "turn_ok t c" for t
    using that inv(3) wr by (cases t) (auto simp: turn_ok_def)
  have stay: "echo_step w (None, False) c = Inr c" using swap_none [OF inv(4)] by (simp add: echo_step_def)
  show "echo_ok w ts c \<Longrightarrow> echo_run w ts c = Inr c \<and> received ts = []"
  proof (induction ts)
    case (Cons t ts)
    then have "t = (None, False)" using only by simp
    with Cons stay show ?case by (simp add: received_def)
  qed (simp add: received_def)
qed

section \<open>Properties\<close>



text \<open>
  C13. Not so when the kernel takes everything in the very turn that crosses the mark: the write is complete
  before the callback of the mark has asked to be told of it. The connection stays open with no event enabled
  and no functor waiting, and never receives again.
\<close>

theorem drained_in_the_same_turn_stalls:
  assumes "no_reset w" and "echo_established w sockfd = Inr c0" and "echo_ok w ts c0" and "echo_run w ts c0 = Inr c"
    and "unsent c \<noteq> []" and "turn_ok (Some (Read_bytes bs), True) c"
    and "256 * 1024 \<le> length (unsent c) + length bs"
    and "w (writes c) = Accept k" and "length (unsent c) + length bs \<le> k"
  shows "\<exists>c'. echo_step w (Some (Read_bytes bs), True) c = Inr c' \<and> state c' = kConnected \<and>
     events (conn_channel c') = 0 \<and> pendings c' = [] \<and>
     (\<forall>ts'. echo_ok w ts' c' \<longrightarrow> echo_run w ts' c' = Inr c' \<and> received ts' = [])"
proof -
  have c0: "accepting c0" using established_accepting [of w sockfd] assms(2) by auto
  then have "echo_inv c0" by (simp add: echo_inv_def)
  from echo_run_well [OF assms(1) this assms(3)] assms(4) have c: "echo_inv c" by auto
  have ok: "isReading (conn_channel c)" "bs \<noteq> []" "length bs \<le> readFd_capacity (inputBuffer c)"
    using assms(6) by (simp_all add: turn_ok_def)
  then have "accepting c" using c by (auto simp: echo_inv_def throttled_def)
  from crossing_turn [OF this assms(1,5) ok(2,3) _ assms(8,9)] assms(7) obtain c' where
    c': "echo_step w (Some (Read_bytes bs), True) c = Inr c'" "throttled c'" "unsent c' = []"
    by (auto simp: echo_mark_def)
  with deaf_connection [OF c'(2,3)] show ?thesis by (auto simp: throttled_def steady_def serving_def)
qed

section \<open>Witnesses\<close>

text \<open>The kernel takes one byte, and later everything.\<close>

definition one_then_all :: "nat \<Rightarrow> write_outcome" where
  "one_then_all i = Accept (if i = 0 then 1 else 1000000)"

lemma no_reset_one: "no_reset one_then_all"
  by (simp add: no_reset_def one_then_all_def)

definition block :: bytes where
  "block = replicate 65536 (CHR ''a'')"

lemma length_block [simp]: "length block = 65536" "block \<noteq> []"
  by (simp_all add: block_def)

definition feed :: echo_turn where
  "feed = (Some (Read_bytes block), False)"

lemma block_fits: "emptied b \<Longrightarrow> length block \<le> readFd_capacity b"
  by (simp add: readFd_capacity_def extrabuf_size_def)

lemma feed_turn:
  assumes c: "accepting c" and low: "length (unsent c) + 65536 < echo_mark"
    and how: "unsent c = [] \<and> writes c = 0 \<or> unsent c \<noteq> []"
  obtains c' where "echo_step one_then_all feed c = Inr c'" and "turn_ok feed c" and "accepting c'"
    and "length (unsent c') = length (unsent c) + (if unsent c = [] then 65535 else 65536)"
    and "writes c' = (if unsent c = [] then 1 else writes c)"
proof -
  have s: "serving c" and e: "emptied (inputBuffer c)" using c by (simp_all add: accepting_def steady_def)
  have wr: "isWriting (conn_channel c) \<longleftrightarrow> unsent c \<noteq> []" using s by (simp add: serving_def conn_inv_def)
  have "case Read_bytes block of Read_bytes bs \<Rightarrow> bs \<noteq> [] \<and> length bs \<le> readFd_capacity (inputBuffer c) | _ \<Rightarrow> True"
    using block_fits [OF e] by simp
  from echo_read [OF c no_reset_one this, of False] obtain c1 where
    c1: "echo_handleRead one_then_all (Read_bytes block) c = Inr c1" "serving c1" "same_reading c c1" "emptied (inputBuffer c1)"
    "buffered one_then_all block c c1"
    "if length (unsent c1) < echo_mark then pendings c1 = [] else \<exists>n. pendings c1 = [Fn_highWaterMark Cb_highWaterMark n]"
    by auto
  have sizes: "length (unsent c1) = length (unsent c) + (if unsent c = [] then 65535 else 65536)"
      "writes c1 = (if unsent c = [] then 1 else writes c)"
    using c1(5) how wr by (auto simp: buffered_def one_then_all_def)
  then have lowm: "length (unsent c1) < echo_mark" using low by (auto split: if_splits)
  then have p: "pendings c1 = []" using c1(6) by simp
  note marks = steady_same [OF _ c1(2,3,4)]
  have "accepting c1" using c c1(2-4) p lowm marks by (simp add: accepting_def steady_def same_reading_def)
  moreover have "echo_step one_then_all feed c = Inr c1" by (simp add: echo_step_def feed_def c1(1) swap_none [OF p])
  moreover have "turn_ok feed c" using c block_fits [OF e] by (simp add: turn_ok_def feed_def accepting_def)
  ultimately show thesis using sizes by (intro that) simp_all
qed

lemma fed_connection:
  "\<exists>c0 c. echo_established one_then_all 5 = Inr c0 \<and> echo_ok one_then_all [feed, feed, feed, feed] c0 \<and>
     echo_run one_then_all [feed, feed, feed, feed] c0 = Inr c \<and> accepting c \<and> length (unsent c) = 262143 \<and> writes c = 1"
proof -
  obtain c0 where c0: "echo_established one_then_all 5 = Inr c0" "accepting c0" "unsent c0 = []" "writes c0 = 0"
    using established_accepting by blast
  obtain c1 where c1: "echo_step one_then_all feed c0 = Inr c1" "turn_ok feed c0" "accepting c1"
    "length (unsent c1) = 65535" "writes c1 = 1"
    by (rule feed_turn [OF c0(2)]) (use c0 in \<open>simp_all add: echo_mark_def\<close>)
  obtain c2 where c2: "echo_step one_then_all feed c1 = Inr c2" "turn_ok feed c1" "accepting c2"
    "length (unsent c2) = 131071" "writes c2 = 1"
    by (rule feed_turn [OF c1(3)]) (use c1 in \<open>auto simp: echo_mark_def split: if_splits\<close>)
  obtain c3 where c3: "echo_step one_then_all feed c2 = Inr c3" "turn_ok feed c2" "accepting c3"
    "length (unsent c3) = 196607" "writes c3 = 1"
    by (rule feed_turn [OF c2(3)]) (use c2 in \<open>auto simp: echo_mark_def split: if_splits\<close>)
  obtain c4 where c4: "echo_step one_then_all feed c3 = Inr c4" "turn_ok feed c3" "accepting c4"
    "length (unsent c4) = 262143" "writes c4 = 1"
    by (rule feed_turn [OF c3(3)]) (use c3 in \<open>auto simp: echo_mark_def split: if_splits\<close>)
  have "echo_ok one_then_all [feed, feed, feed, feed] c0" "echo_run one_then_all [feed, feed, feed, feed] c0 = Inr c4"
    using c1 c2 c3 c4 by simp_all
  with c0(1) c4 show ?thesis by blast
qed

lemma feed_crosses:
  assumes c: "accepting c" and some: "length (unsent c) = 262143"
  obtains c' where "echo_step one_then_all feed c = Inr c'" and "turn_ok feed c" and "throttled c'" and "unsent c' \<noteq> []"
proof -
  have s: "serving c" and e: "emptied (inputBuffer c)" and steady: "steady c" using c by (simp_all add: accepting_def steady_def)
  have "unsent c \<noteq> []" using some by auto
  then have wr: "isWriting (conn_channel c)" using s by (simp add: serving_def conn_inv_def)
  have "case Read_bytes block of Read_bytes bs \<Rightarrow> bs \<noteq> [] \<and> length bs \<le> readFd_capacity (inputBuffer c) | _ \<Rightarrow> True"
    using block_fits [OF e] by simp
  from echo_read [OF c no_reset_one this, of False] obtain c1 where
    c1: "echo_handleRead one_then_all (Read_bytes block) c = Inr c1" "serving c1" "same_reading c c1" "emptied (inputBuffer c1)"
    "buffered one_then_all block c c1" "length (unsent c1) < echo_mark + largest_read"
    "if length (unsent c1) < echo_mark then pendings c1 = [] else \<exists>n. pendings c1 = [Fn_highWaterMark Cb_highWaterMark n]"
    by auto
  have sizes: "length (unsent c1) = 327679" using c1(5) some wr by (simp add: buffered_def)
  then obtain n where n: "pendings c1 = [Fn_highWaterMark Cb_highWaterMark n]" using c1(7) by (auto simp: echo_mark_def)
  note marks = steady_same [OF steady c1(2,3,4)]
  obtain c' where c': "swap_and_run (tcp_env one_then_all) c1 = Inr c'" "throttled c'" "unsent c' = unsent c1"
    using stop_functor [OF c1(2) n conjunct1 [OF marks] conjunct2 [OF marks] c1(4,6)] by blast
  moreover have "echo_step one_then_all feed c = Inr c'" by (simp add: echo_step_def feed_def c1(1) c'(1))
  moreover have "turn_ok feed c" using c block_fits [OF e] by (simp add: turn_ok_def feed_def accepting_def)
  ultimately show thesis using sizes by (intro that) auto
qed



lemma drained_in_the_same_turn_stalls_witness:
  "\<exists>c0 c c'. echo_established one_then_all 5 = Inr c0 \<and> echo_run one_then_all [feed, feed, feed, feed] c0 = Inr c \<and>
     echo_step one_then_all (Some (Read_bytes block), True) c = Inr c' \<and> state c' = kConnected \<and>
     events (conn_channel c') = 0 \<and> pendings c' = []"
proof -
  obtain c0 c where c: "echo_established one_then_all 5 = Inr c0" "echo_ok one_then_all [feed, feed, feed, feed] c0"
    "echo_run one_then_all [feed, feed, feed, feed] c0 = Inr c" "accepting c" "length (unsent c) = 262143" "writes c = 1"
    using fed_connection by blast
  have some: "unsent c \<noteq> []" using c(5) by auto
  have e: "emptied (inputBuffer c)" using c(4) by (simp add: accepting_def steady_def)
  have "isWriting (conn_channel c)" using c(4) some by (simp add: accepting_def steady_def serving_def conn_inv_def)
  then have ok: "turn_ok (Some (Read_bytes block), True) c"
    using c(4) block_fits [OF e] by (simp add: turn_ok_def accepting_def)
  from drained_in_the_same_turn_stalls [OF no_reset_one c(1-3) some ok, of 1000000] c show ?thesis
    by (fastforce simp: one_then_all_def)
qed

end
