(* ===== verification/Timestamp.thy ===== *)
theory Timestamp
  imports Runs "HOL-Library.Log_Nat"
begin

text \<open>
  \<^verbatim>\<open>include/gg_lib/Timestamp.h\<close> and \<^verbatim>\<open>gg_lib/Timestamp.cc\<close>. A timestamp is its number of
  microseconds, an integer (the additions of the library stay far inside 64 bits). A \<^verbatim>\<open>double\<close> is the
  rational number it stands for, and every arithmetic operation on it rounds the exact result to 53
  significant bits, ties to even (\<open>round_double\<close>); infinities, NaN and numbers below the normal range
  are left out.
\<close>

section \<open>Doubles\<close>

definition round_half_even :: "rat \<Rightarrow> int" where
  "round_half_even x =
     (let f = \<lfloor>x\<rfloor>; d = x - of_int f in
      if d < 1/2 then f else if d > 1/2 then f + 1 else if even f then f else f + 1)"

text \<open>The exponent \<open>k\<close> with \<open>2 ^ k \<le> x < 2 ^ (k + 1)\<close>, for a positive \<open>x\<close>.\<close>

definition ilog2 :: "rat \<Rightarrow> int" where
  "ilog2 x =
     (case quotient_of x of (p, q) \<Rightarrow>
        let k = int (floorlog 2 (nat p)) - int (floorlog 2 (nat q))
        in if (2::rat) powi k \<le> x then k else k - 1)"

definition round_double :: "rat \<Rightarrow> rat" where
  "round_double x =
     (if x = 0 then 0 else
      let ulp = (2::rat) powi (ilog2 \<bar>x\<bar> - 52) in of_int (round_half_even (x / ulp)) * ulp)"

text \<open>The conversion of a \<^verbatim>\<open>double\<close> to an integer drops the fraction.\<close>

definition truncate_double :: "rat \<Rightarrow> int" where
  "truncate_double x = (if 0 \<le> x then \<lfloor>x\<rfloor> else \<lceil>x\<rceil>)"

lemma round_half_even_mono_0: "0 \<le> x \<Longrightarrow> 0 \<le> round_half_even x"
  by (simp add: round_half_even_def Let_def)

lemma round_double_nonneg: "0 \<le> x \<Longrightarrow> 0 \<le> round_double x"
  by (auto simp: round_double_def Let_def intro!: mult_nonneg_nonneg round_half_even_mono_0)

lemma truncate_double_nonneg: "0 \<le> x \<Longrightarrow> 0 \<le> truncate_double x"
  by (simp add: truncate_double_def)

lemma round_half_even_of_int [simp]: "round_half_even (of_int k) = k"
  by (simp add: round_half_even_def)

section \<open>Timestamps\<close>

definition kMicroSecondsPerSecond :: int where
  "kMicroSecondsPerSecond = 1000 * 1000"

definition valid :: "int \<Rightarrow> bool" where
  "valid t \<longleftrightarrow> t > 0"

definition secondsSinceEpoch :: "int \<Rightarrow> int" where
  "secondsSinceEpoch t = t sdiv kMicroSecondsPerSecond"

definition timeDuration :: "int \<Rightarrow> int \<Rightarrow> rat" where
  "timeDuration high low =
     round_double (round_double (of_int (high - low)) / of_int kMicroSecondsPerSecond)"

definition addTime :: "int \<Rightarrow> rat \<Rightarrow> int" where
  "addTime timestamp seconds =
     timestamp + truncate_double (round_double (seconds * of_int kMicroSecondsPerSecond))"

text \<open>\<open>Timestamp_now\<close> from the seconds and microseconds of \<^verbatim>\<open>gettimeofday\<close>.\<close>

definition Timestamp_now :: "int \<times> int \<Rightarrow> int" where
  "Timestamp_now tv = fst tv * kMicroSecondsPerSecond + snd tv"

lemma addTime_later: "0 \<le> seconds \<Longrightarrow> t \<le> addTime t seconds"
  by (simp add: addTime_def truncate_double_nonneg round_double_nonneg kMicroSecondsPerSecond_def)

section \<open>Printing\<close>

text \<open>The fields of \<^verbatim>\<open>struct tm\<close> that the library reads.\<close>

record tm =
  tm_year :: int
  tm_mon :: int
  tm_mday :: int
  tm_hour :: int
  tm_min :: int
  tm_sec :: int

text \<open>\<open>pad c n\<close>: the conversions with a minimal width, \<^verbatim>\<open>%4d\<close> (blanks) and \<^verbatim>\<open>%02d\<close> (zeros).\<close>

definition pad_int :: "char \<Rightarrow> nat \<Rightarrow> int \<Rightarrow> string" where
  "pad_int c n i =
     (if i < 0 \<and> c = CHR ''0''
      then CHR ''-'' # replicate (n - length (show_int i)) c @ show_int (- i)
      else replicate (n - length (show_int i)) c @ show_int i)"

abbreviation "zero_pad \<equiv> pad_int (CHR ''0'')"

definition toString :: "(int \<Rightarrow> tm) \<Rightarrow> int \<Rightarrow> bool \<Rightarrow> string" where
  "toString gmtime t simplify =
     (let tm_time = gmtime (t sdiv kMicroSecondsPerSecond) in
      if simplify
      then snprintf 64 (zero_pad 2 (tm_hour tm_time) @ '':'' @ zero_pad 2 (tm_min tm_time) @ '':''
             @ zero_pad 2 (tm_sec tm_time))
      else snprintf 64 (pad_int (CHR '' '') 4 (tm_year tm_time + 1900)
             @ zero_pad 2 (tm_mon tm_time + 1) @ zero_pad 2 (tm_mday tm_time) @ '' ''
             @ zero_pad 2 (tm_hour tm_time) @ '':'' @ zero_pad 2 (tm_min tm_time) @ '':''
             @ zero_pad 2 (tm_sec tm_time) @ ''.'' @ zero_pad 6 (t smod kMicroSecondsPerSecond)))"

lemma length_pad_int:
  assumes "0 \<le> i" and "i < 10 ^ n" and "0 < n"
  shows "length (pad_int c n i) = n"
proof -
  have "length (show_int i) \<le> n"
    using assms length_show_nat [of "nat i" n] by (simp add: show_int_def nat_less_iff)
  with assms(1) show ?thesis by (simp add: pad_int_def)
qed

lemma length_digits_pad:
  "0 \<le> i \<Longrightarrow> i < 100 \<Longrightarrow> length (zero_pad 2 i) = 2"
  "0 \<le> i \<Longrightarrow> i < 1000000 \<Longrightarrow> length (zero_pad 6 i) = 6"
  "0 \<le> i \<Longrightarrow> i < 10000 \<Longrightarrow> length (pad_int c 4 i) = 4"
  by (simp_all add: length_pad_int)

definition tm_ok :: "tm \<Rightarrow> bool" where
  "tm_ok t \<longleftrightarrow> 0 \<le> tm_year t + 1900 \<and> tm_year t + 1900 < 10000 \<and> 0 \<le> tm_mon t \<and> tm_mon t < 12 \<and>
     1 \<le> tm_mday t \<and> tm_mday t \<le> 31 \<and> 0 \<le> tm_hour t \<and> tm_hour t < 24 \<and>
     0 \<le> tm_min t \<and> tm_min t < 60 \<and> 0 \<le> tm_sec t \<and> tm_sec t \<le> 60"

text \<open>The texts have a fixed width, so that the fields of the log lines are aligned.\<close>

lemma length_toString:
  assumes "tm_ok (gmtime (t sdiv kMicroSecondsPerSecond))" and "0 \<le> t"
  shows "length (toString gmtime t simplify) = (if simplify then 8 else 24)"
proof -
  have micro: "0 \<le> t smod kMicroSecondsPerSecond \<and> t smod kMicroSecondsPerSecond < 1000000"
    using assms(2)
    by (cases "t = 0") (simp_all add: kMicroSecondsPerSecond_def signed_modulo_int_def
        signed_divide_int_def minus_div_mult_eq_mod)
  show ?thesis
    using assms(1) micro
    by (simp add: toString_def Let_def snprintf_def tm_ok_def length_digits_pad)
qed

end
