(* ===== verification/TimerQueue.thy ===== *)
theory TimerQueue
  imports Timestamp "HOL-Library.Multiset" "HOL-Library.Product_Lexorder"
begin

text \<open>
  \<^verbatim>\<open>include/gg_lib/net/Timer.h\<close> and \<^verbatim>\<open>gg_lib/net/TimerQueue.cc\<close>. The priority queue of pairs
  (expiration, timer id) is the ordered list of its elements. A \<^verbatim>\<open>Timer*\<close> is the id of the timer
  (ids are never used twice); it may be followed as long as \<open>activeTimers\<close>, which owns the objects,
  holds the timer, and following it later is the error \<open>Dangling\<close>.

  A callback adds and cancels timers: \<open>behaviour\<close> says which, for the callback and the number of
  callbacks that ran before. \<open>clock\<close> gives the successive readings of the clock.
\<close>

section \<open>The interface of the priority queue\<close>

locale priority_queue =
  fixes pq_none :: "'q" and pq_put :: "'k::linorder \<Rightarrow> 'q \<Rightarrow> 'q" and pq_first :: "'q \<Rightarrow> 'k"
    and pq_rest :: "'q \<Rightarrow> 'q" and entries :: "'q \<Rightarrow> 'k multiset" and wf :: "'q \<Rightarrow> bool"
  assumes wf_none: "wf pq_none" and entries_none: "entries pq_none = {#}"
    and wf_put: "wf q \<Longrightarrow> wf (pq_put k q)"
    and entries_put: "wf q \<Longrightarrow> entries (pq_put k q) = add_mset k (entries q)"
    and wf_rest: "wf q \<Longrightarrow> entries q \<noteq> {#} \<Longrightarrow> wf (pq_rest q)"
    and first_least: "wf q \<Longrightarrow> k \<in># entries q \<Longrightarrow> pq_first q \<le> k"
    and entries_rest: "wf q \<Longrightarrow> entries q \<noteq> {#} \<Longrightarrow>
           entries q = add_mset (pq_first q) (entries (pq_rest q))"
begin

lemma first_put: "wf q \<Longrightarrow> pq_first (pq_put k q) \<le> k"
  by (rule first_least) (simp_all add: wf_put entries_put)

lemma first_in: "wf q \<Longrightarrow> entries q \<noteq> {#} \<Longrightarrow> pq_first q \<in># entries q"
  using entries_rest [of q] by simp

lemma first_put_eq:
  assumes "wf q" and "\<And>k'. k' \<in># entries q \<Longrightarrow> k < k'"
  shows "pq_first (pq_put k q) = k"
proof -
  have "pq_first (pq_put k q) \<in># add_mset k (entries q)"
    using first_in [of "pq_put k q"] assms(1) by (simp add: wf_put entries_put)
  moreover have "\<not> k < pq_first (pq_put k q)" using first_put [OF assms(1), of k] by simp
  ultimately show ?thesis using assms(2) by auto
qed

lemma none_due:
  assumes "wf q" and "b < pq_first q" and "k \<in># entries q"
  shows "b < k"
  using first_least [OF assms(1,3)] assms(2) by simp

end

type_synonym timer_id = nat
type_synonym entry = "int \<times> timer_id"

definition pq_empty :: "entry list" where
  "pq_empty = []"

definition pq_push :: "entry \<Rightarrow> entry list \<Rightarrow> entry list" where
  "pq_push e q = insort e q"

definition pq_top :: "entry list \<Rightarrow> entry" where
  "pq_top q = hd q"

definition pq_pop :: "entry list \<Rightarrow> entry list" where
  "pq_pop q = tl q"

lemma sorted_hd_least: "sorted q \<Longrightarrow> k \<in> set q \<Longrightarrow> hd q \<le> k"
  by (cases q) auto

interpretation pq: priority_queue pq_empty pq_push pq_top pq_pop mset "sorted :: entry list \<Rightarrow> bool"
proof unfold_locales
  fix q :: "entry list" and k :: entry
  show "sorted q \<Longrightarrow> sorted (pq_push k q)" by (simp add: pq_push_def sorted_insort)
  show "mset (pq_push k q) = add_mset k (mset q)" by (simp add: pq_push_def)
  show "sorted q \<Longrightarrow> mset q \<noteq> {#} \<Longrightarrow> sorted (pq_pop q)" by (cases q) (simp_all add: pq_pop_def)
  show "sorted q \<Longrightarrow> k \<in># mset q \<Longrightarrow> pq_top q \<le> k" by (simp add: pq_top_def sorted_hd_least)
  show "mset q \<noteq> {#} \<Longrightarrow> mset q = add_mset (pq_top q) (mset (pq_pop q))"
    by (cases q) (simp_all add: pq_top_def pq_pop_def)
qed (simp_all add: pq_empty_def)

section \<open>Timers\<close>

record 'cb timer =
  timer_callback :: 'cb
  expiration :: int
  interval :: rat
  repeats :: bool
  sequence :: timer_id

definition Timer_new :: "'cb \<Rightarrow> int \<Rightarrow> rat \<Rightarrow> timer_id \<Rightarrow> 'cb timer" where
  "Timer_new cb when i created =
     \<lparr>timer_callback = cb, expiration = when, interval = i, repeats = (i > 0), sequence = created\<rparr>"

definition restart :: "int \<Rightarrow> 'cb timer \<Rightarrow> 'cb timer" where
  "restart now t =
     (if repeats t then t\<lparr>expiration := addTime now (interval t)\<rparr> else t\<lparr>expiration := 0\<rparr>)"

section \<open>The queue\<close>

datatype 'cb timer_action = Add_timer 'cb int rat | Cancel timer_id

record 'cb timer_env =
  clock :: "nat \<Rightarrow> int"
  behaviour :: "'cb \<Rightarrow> nat \<Rightarrow> 'cb timer_action list"

record timespec =
  tv_sec :: int
  tv_nsec :: int

text \<open>
  \<open>timer_fd\<close>: the time the descriptor was last armed for and the delay it was given; \<open>clock_reads\<close>
  and \<open>run_log\<close>: how often the clock was read, and the timers that ran.
\<close>

record 'cb timer_queue =
  timers :: "entry list"
  activeTimers :: "timer_id \<rightharpoonup> 'cb timer"
  timer_fd :: "(int \<times> timespec) option"
  numCreated :: nat
  clock_reads :: nat
  run_log :: "timer_id list"

definition TimerQueue_new :: "'cb timer_queue" where
  "TimerQueue_new = \<lparr>timers = pq_empty, activeTimers = Map.empty, timer_fd = None, numCreated = 0,
     clock_reads = 0, run_log = []\<rparr>"

definition read_clock :: "'cb timer_env \<Rightarrow> 'cb timer_queue \<Rightarrow> int \<times> 'cb timer_queue" where
  "read_clock env q = (clock env (clock_reads q), q\<lparr>clock_reads := Suc (clock_reads q)\<rparr>)"

definition howMuchTimeFromNow :: "int \<Rightarrow> int \<Rightarrow> timespec" where
  "howMuchTimeFromNow when now =
     (let microseconds = when - now;
          microseconds' = (if microseconds < 100 then 100 else microseconds)
      in \<lparr>tv_sec = microseconds' sdiv kMicroSecondsPerSecond,
          tv_nsec = (microseconds' smod kMicroSecondsPerSecond) * 1000\<rparr>)"

definition resetTimerfd :: "'cb timer_env \<Rightarrow> int \<Rightarrow> 'cb timer_queue \<Rightarrow> 'cb timer_queue" where
  "resetTimerfd env e q =
     (case read_clock env q of (now, q1) \<Rightarrow> q1\<lparr>timer_fd := Some (e, howMuchTimeFromNow e now)\<rparr>)"

text \<open>The descriptor fires once.\<close>

definition readTimerfd :: "'cb timer_queue \<Rightarrow> 'cb timer_queue" where
  "readTimerfd q = q\<lparr>timer_fd := None\<rparr>"

definition insert_timer :: "'cb timer \<Rightarrow> 'cb timer_queue \<Rightarrow> bool \<times> 'cb timer_queue" where
  "insert_timer timer q =
     (let when = expiration timer;
          earliestChanged = (timers q = [] \<or> when < fst (pq_top (timers q)));
          timerId = sequence timer;
          q1 = q\<lparr>timers := pq_push (when, timerId) (timers q)\<rparr>;
          q2 = (if activeTimers q1 timerId = None
                then q1\<lparr>activeTimers := (activeTimers q1)(timerId \<mapsto> timer)\<rparr> else q1)
      in (earliestChanged, q2))"

definition addTimerInLoop :: "'cb timer_env \<Rightarrow> 'cb timer \<Rightarrow> 'cb timer_queue \<Rightarrow> 'cb timer_queue" where
  "addTimerInLoop env timer q =
     (case insert_timer timer q of (earliestChanged, q1) \<Rightarrow>
        if earliestChanged then resetTimerfd env (expiration timer) q1 else q1)"

text \<open>\<open>addTimer\<close> as called in the loop's thread, where \<^verbatim>\<open>runInLoop\<close> runs its argument at once.\<close>

definition addTimer ::
  "'cb timer_env \<Rightarrow> 'cb \<Rightarrow> int \<Rightarrow> rat \<Rightarrow> 'cb timer_queue \<Rightarrow> timer_id \<times> 'cb timer_queue"
where
  "addTimer env cb when i q =
     (let timer = Timer_new cb when i (numCreated q);
          q1 = q\<lparr>numCreated := Suc (numCreated q)\<rparr>
      in (sequence timer, addTimerInLoop env timer q1))"

definition cancelInLoop :: "timer_id \<Rightarrow> 'cb timer_queue \<Rightarrow> 'cb timer_queue" where
  "cancelInLoop timerId q = q\<lparr>activeTimers := (activeTimers q)(timerId := None)\<rparr>"

text \<open>The operations of \<^verbatim>\<open>EventLoop\<close> on its queue; \<^verbatim>\<open>cancel\<close> is the one above.\<close>

definition runAt :: "'cb timer_env \<Rightarrow> int \<Rightarrow> 'cb \<Rightarrow> 'cb timer_queue \<Rightarrow> timer_id \<times> 'cb timer_queue" where
  "runAt env time cb q = addTimer env cb time 0 q"

definition runAfter :: "'cb timer_env \<Rightarrow> rat \<Rightarrow> 'cb \<Rightarrow> 'cb timer_queue \<Rightarrow> timer_id \<times> 'cb timer_queue" where
  "runAfter env delay cb q =
     (case read_clock env q of (now, q1) \<Rightarrow> runAt env (addTime now delay) cb q1)"

definition runEvery :: "'cb timer_env \<Rightarrow> rat \<Rightarrow> 'cb \<Rightarrow> 'cb timer_queue \<Rightarrow> timer_id \<times> 'cb timer_queue" where
  "runEvery env i cb q =
     (case read_clock env q of (now, q1) \<Rightarrow> addTimer env cb (addTime now i) i q1)"

fun perform :: "'cb timer_env \<Rightarrow> 'cb timer_action \<Rightarrow> 'cb timer_queue \<Rightarrow> 'cb timer_queue" where
  "perform env (Add_timer cb when i) q = snd (addTimer env cb when i q)"
| "perform env (Cancel timerId) q = cancelInLoop timerId q"

definition run_timer ::
  "'cb timer_env \<Rightarrow> timer_id \<Rightarrow> 'cb timer_queue \<Rightarrow> 'cb timer_queue result"
where
  "run_timer env ptr q =
     (case activeTimers q ptr of
        None \<Rightarrow> Inl Dangling
      | Some t \<Rightarrow> Inr (fold (perform env) (behaviour env (timer_callback t) (length (run_log q)))
                       (q\<lparr>run_log := run_log q @ [ptr]\<rparr>)))"

fun run_expired ::
  "'cb timer_env \<Rightarrow> timer_id list \<Rightarrow> 'cb timer_queue \<Rightarrow> 'cb timer_queue result"
where
  "run_expired env [] q = Inr q"
| "run_expired env (ptr # ptrs) q = and_then (run_timer env ptr q) (run_expired env ptrs)"

text \<open>The due entries are taken off the queue; those of timers that were cancelled are dropped.\<close>

fun take_expired ::
  "int \<Rightarrow> (timer_id \<rightharpoonup> 'cb timer) \<Rightarrow> entry list \<Rightarrow> timer_id list \<times> entry list"
where
  "take_expired now active [] = ([], [])"
| "take_expired now active (e # q) =
     (if \<not> now < fst e then
        (case take_expired now active q of (expired, q') \<Rightarrow>
           (if active (snd e) \<noteq> None then snd e # expired else expired, q'))
      else ([], e # q))"

definition getExpired :: "int \<Rightarrow> 'cb timer_queue \<Rightarrow> timer_id list \<times> 'cb timer_queue" where
  "getExpired now q =
     (case take_expired now (activeTimers q) (timers q) of (expired, rest) \<Rightarrow>
        (expired, q\<lparr>timers := rest\<rparr>))"

definition reset_one :: "int \<Rightarrow> timer_id \<Rightarrow> 'cb timer_queue \<Rightarrow> 'cb timer_queue result" where
  "reset_one now ptr q =
     (case activeTimers q ptr of
        None \<Rightarrow> Inl Dangling
      | Some timer \<Rightarrow>
          (let timerId = sequence timer in
           if repeats timer \<and> activeTimers q timerId \<noteq> None
           then (let timer' = restart now timer in
                 Inr (q\<lparr>activeTimers := (activeTimers q)(ptr \<mapsto> timer'),
                        timers := pq_push (expiration timer', timerId) (timers q)\<rparr>))
           else Inr (q\<lparr>activeTimers := (activeTimers q)(timerId := None)\<rparr>)))"

fun reset_all :: "int \<Rightarrow> timer_id list \<Rightarrow> 'cb timer_queue \<Rightarrow> 'cb timer_queue result" where
  "reset_all now [] q = Inr q"
| "reset_all now (ptr # ptrs) q = and_then (reset_one now ptr q) (reset_all now ptrs)"

fun drop_cancelled :: "(timer_id \<rightharpoonup> 'cb timer) \<Rightarrow> entry list \<Rightarrow> entry list" where
  "drop_cancelled active [] = []"
| "drop_cancelled active (e # q) =
     (if active (snd e) = None then drop_cancelled active q else e # q)"

definition reset_timers ::
  "'cb timer_env \<Rightarrow> timer_id list \<Rightarrow> int \<Rightarrow> 'cb timer_queue \<Rightarrow> 'cb timer_queue result"
where
  "reset_timers env expired now q =
     and_then (reset_all now expired q) (\<lambda>q1.
       let q2 = q1\<lparr>timers := drop_cancelled (activeTimers q1) (timers q1)\<rparr>;
           nextExpire = (case timers q2 of [] \<Rightarrow> 0 | e # _ \<Rightarrow> fst e)
       in Inr (if valid nextExpire then resetTimerfd env nextExpire q2 else q2))"

definition handleRead :: "'cb timer_env \<Rightarrow> 'cb timer_queue \<Rightarrow> 'cb timer_queue result" where
  "handleRead env q =
     (case read_clock env q of (now, q1) \<Rightarrow>
      case getExpired now (readTimerfd q1) of (expired, q2) \<Rightarrow>
      and_then (run_expired env expired q2) (reset_timers env expired now))"

end
