(* ===== verification/TimerInvariant.thy ===== *)
theory TimerInvariant
  imports TimerQueue
begin

text \<open>
  The invariant of the timer queue, kept by every operation and by the callbacks that run inside
  \<open>handleRead\<close>, and what one turn of \<open>handleRead\<close> does. \<open>P\<close> is the set of the expired timers that are
  being handled: they are still owned but their entries have been taken off the queue.
\<close>

section \<open>The invariant\<close>

definition queue_inv_but :: "timer_id set \<Rightarrow> 'cb timer_queue \<Rightarrow> bool" where
  "queue_inv_but P q \<longleftrightarrow>
     sorted (timers q) \<and> distinct (map snd (timers q)) \<and>
     (\<forall>e \<in> set (timers q). snd e < numCreated q \<and> 0 < fst e) \<and>
     (\<forall>tid \<in> P. tid < numCreated q \<and> tid \<notin> snd ` set (timers q)) \<and>
     (\<forall>tid t. activeTimers q tid = Some t \<longrightarrow>
        sequence t = tid \<and> tid < numCreated q \<and> (repeats t \<longrightarrow> 0 < interval t) \<and>
        (tid \<notin> P \<longrightarrow> (expiration t, tid) \<in> set (timers q)))"

abbreviation queue_inv :: "'cb timer_queue \<Rightarrow> bool" where
  "queue_inv q \<equiv> queue_inv_but {} q"

text \<open>The descriptor is armed no later than for the earliest entry.\<close>

definition fd_ok :: "'cb timer_queue \<Rightarrow> bool" where
  "fd_ok q \<longleftrightarrow> timers q \<noteq> [] \<longrightarrow> (\<exists>e ts. timer_fd q = Some (e, ts) \<and> e \<le> fst (pq_top (timers q)))"

fun action_ok :: "'cb timer_action \<Rightarrow> bool" where
  "action_ok (Add_timer cb when i) \<longleftrightarrow> 0 < when"
| "action_ok (Cancel tid) \<longleftrightarrow> True"

definition timer_env_ok :: "'cb timer_env \<Rightarrow> bool" where
  "timer_env_ok env \<longleftrightarrow>
     (\<forall>k. 0 < clock env k) \<and> (\<forall>cb k. \<forall>a \<in> set (behaviour env cb k). action_ok a)"

lemmas timer_defs = addTimer_def addTimerInLoop_def insert_timer_def resetTimerfd_def read_clock_def
  Timer_new_def cancelInLoop_def Let_def

lemma queue_inv_new [simp]: "queue_inv TimerQueue_new" "fd_ok TimerQueue_new"
  by (simp_all add: queue_inv_but_def fd_ok_def TimerQueue_new_def pq_empty_def)

section \<open>Adding and cancelling\<close>

lemma set_pq_push [simp]: "set (pq_push e q) = insert e (set q)"
  by (simp add: pq_push_def set_insort_key)

lemma sorted_pq_push [simp]: "sorted (pq_push e q) = sorted q"
  by (simp add: pq_push_def sorted_insort)

lemma distinct_pq_push [simp]:
  "distinct (map snd (pq_push e q)) \<longleftrightarrow> snd e \<notin> snd ` set q \<and> distinct (map snd q)"
proof -
  have "mset (map snd (pq_push e q)) = mset (map snd (e # q))" by (simp add: pq_push_def)
  then show ?thesis by (metis distinct.simps(2) list.simps(9) mset_eq_imp_distinct_iff set_map)
qed

lemma activeTimers_addTimer:
  assumes "queue_inv_but P q"
  shows "activeTimers (snd (addTimer env cb when i q)) =
     (activeTimers q)(numCreated q \<mapsto> Timer_new cb when i (numCreated q))"
proof -
  have "activeTimers q (numCreated q) = None"
    using assms by (auto simp: queue_inv_but_def dest: spec [of _ "numCreated q"])
  then show ?thesis by (simp add: timer_defs)
qed

lemma timers_addTimer:
  "timers (snd (addTimer env cb when i q)) = pq_push (when, numCreated q) (timers q)"
  by (simp add: timer_defs)

lemma numCreated_addTimer [simp]: "numCreated (snd (addTimer env cb when i q)) = Suc (numCreated q)"
  by (simp add: timer_defs)

lemma run_log_addTimer [simp]: "run_log (snd (addTimer env cb when i q)) = run_log q"
  by (simp add: timer_defs)

lemma addTimer_inv:
  assumes inv: "queue_inv_but P q" and "0 < when"
  shows "queue_inv_but P (snd (addTimer env cb when i q))"
proof -
  let ?n = "numCreated q"
  have fresh: "?n \<notin> snd ` set (timers q)" using inv by (auto simp: queue_inv_but_def)
  show ?thesis
    using assms fresh unfolding queue_inv_but_def
    by (auto simp: activeTimers_addTimer [OF inv] timers_addTimer Timer_new_def
        intro: less_SucI split: if_splits)
qed

lemma cancelInLoop_inv: "queue_inv_but P q \<Longrightarrow> queue_inv_but P (cancelInLoop tid q)"
  by (auto simp: queue_inv_but_def cancelInLoop_def)

lemma perform_inv: "queue_inv_but P q \<Longrightarrow> action_ok a \<Longrightarrow> queue_inv_but P (perform env a q)"
  by (cases a) (simp_all add: addTimer_inv cancelInLoop_inv)

lemma top_push:
  assumes "sorted q"
  shows "fst (pq_top (pq_push (w, n) q)) = (if q = [] \<or> w < fst (pq_top q) then w else fst (pq_top q))"
  by (cases q) (auto simp: pq_top_def pq_push_def less_eq_prod_def)

lemma perform_fd_ok:
  assumes "queue_inv_but P q" and "fd_ok q"
  shows "fd_ok (perform env a q)"
proof (cases a)
  case (Add_timer cb w i)
  have "sorted (timers q)" using assms(1) by (simp add: queue_inv_but_def)
  then show ?thesis
    using assms(2) by (auto simp: Add_timer fd_ok_def timer_defs top_push pq_empty_def)
next
  case (Cancel tid)
  with assms(2) show ?thesis by (simp add: fd_ok_def cancelInLoop_def)
qed

text \<open>Ids are not used again: a timer that is gone stays gone.\<close>

lemma perform_gone:
  assumes "queue_inv_but P q" and "tid < numCreated q" and "activeTimers q tid = None"
  shows "tid < numCreated (perform env a q)" and "activeTimers (perform env a q) tid = None"
  using assms by (cases a; simp add: activeTimers_addTimer cancelInLoop_def)+

lemma perform_keeps:
  assumes "queue_inv_but P q" and "activeTimers q tid = Some t" and "a \<noteq> Cancel tid"
  shows "activeTimers (perform env a q) tid = Some t"
proof -
  have "tid < numCreated q" using assms(1,2) by (auto simp: queue_inv_but_def)
  with assms show ?thesis by (cases a) (auto simp: activeTimers_addTimer cancelInLoop_def)
qed

lemma run_log_perform [simp]: "run_log (perform env a q) = run_log q"
  by (cases a) (simp_all add: cancelInLoop_def)

text \<open>A callback.\<close>

lemma run_log_performs [simp]: "run_log (fold (perform env) as q) = run_log q"
  by (induction as arbitrary: q) simp_all

lemma performs_inv:
  "queue_inv_but P q \<Longrightarrow> \<forall>a \<in> set as. action_ok a \<Longrightarrow> queue_inv_but P (fold (perform env) as q)"
  by (induction as arbitrary: q) (simp_all add: perform_inv)

lemma performs_gone:
  assumes "queue_inv_but P q" and "\<forall>a \<in> set as. action_ok a"
    and "tid < numCreated q" and "activeTimers q tid = None"
  shows "tid < numCreated (fold (perform env) as q) \<and> activeTimers (fold (perform env) as q) tid = None"
  using assms
  by (induction as arbitrary: q) (simp_all add: perform_gone perform_inv)

lemma performs_keep:
  assumes "queue_inv_but P q" and "\<forall>a \<in> set as. action_ok a"
    and "activeTimers q tid = Some t" and "Cancel tid \<notin> set as"
  shows "activeTimers (fold (perform env) as q) tid = Some t"
  using assms
proof (induction as arbitrary: q)
  case (Cons a as)
  then have "activeTimers (perform env a q) tid = Some t" by (intro perform_keeps) auto
  with Cons show ?case by (simp add: perform_inv)
qed simp

lemma performs_cancel:
  assumes "queue_inv_but P q" and "\<forall>a \<in> set as. action_ok a" and "tid < numCreated q"
    and "Cancel tid \<in> set as"
  shows "tid < numCreated (fold (perform env) as q) \<and> activeTimers (fold (perform env) as q) tid = None"
  using assms
proof (induction as arbitrary: q)
  case (Cons a as)
  show ?case
  proof (cases "a = Cancel tid")
    case True
    have "queue_inv_but P (cancelInLoop tid q)" by (rule cancelInLoop_inv [OF Cons.prems(1)])
    moreover have "activeTimers (cancelInLoop tid q) tid = None" "tid < numCreated (cancelInLoop tid q)"
      using Cons.prems(3) by (simp_all add: cancelInLoop_def)
    ultimately show ?thesis using Cons.prems(2) True performs_gone [of P "cancelInLoop tid q" as tid]
      by simp
  next
    case False
    have "tid < numCreated (perform env a q)"
      using Cons.prems(3) by (cases a) (simp_all add: cancelInLoop_def)
    with Cons False show ?thesis by (simp add: perform_inv)
  qed
qed simp

section \<open>Taking the due timers\<close>

definition due :: "int \<Rightarrow> 'cb timer_queue \<Rightarrow> timer_id list" where
  "due now q = map snd (filter (\<lambda>e. fst e \<le> now \<and> activeTimers q (snd e) \<noteq> None) (timers q))"

lemma take_expired_filter:
  "sorted q \<Longrightarrow> take_expired now active q =
     (map snd (filter (\<lambda>e. fst e \<le> now \<and> active (snd e) \<noteq> None) q), filter (\<lambda>e. now < fst e) q)"
proof (induction q)
  case (Cons e q)
  show ?case
  proof (cases "now < fst e")
    case True
    have "now < fst e'" if "e' \<in> set q" for e'
      using that Cons.prems True by (fastforce simp: less_eq_prod_def)
    then have "filter (\<lambda>e. now < fst e) q = q"
      "filter (\<lambda>e. fst e \<le> now \<and> active (snd e) \<noteq> None) q = []"
      by (force simp: filter_empty_conv filter_id_conv)+
    with True show ?thesis by simp
  next
    case False
    with Cons show ?thesis by auto
  qed
qed simp

lemma getExpired_due:
  "sorted (timers q) \<Longrightarrow> getExpired now q = (due now q, q\<lparr>timers := filter (\<lambda>e. now < fst e) (timers q)\<rparr>)"
  by (simp add: getExpired_def take_expired_filter due_def)

lemma entry_unique:
  assumes "queue_inv q" and "(e, tid) \<in> set (timers q)" and "activeTimers q tid = Some t"
  shows "expiration t = e"
proof -
  have "(expiration t, tid) \<in> set (timers q)" using assms(1,3) by (simp add: queue_inv_but_def)
  moreover have "inj_on snd (set (timers q))" using assms(1) by (simp add: queue_inv_but_def distinct_map)
  ultimately have "(expiration t, tid) = (e, tid)" using assms(2) by (metis inj_onD snd_conv)
  then show ?thesis by simp
qed

lemma set_due:
  assumes "queue_inv q"
  shows "set (due now q) = {tid. \<exists>t. activeTimers q tid = Some t \<and> expiration t \<le> now}"
proof -
  have "tid \<in> set (due now q)" if "activeTimers q tid = Some t" "expiration t \<le> now" for tid t
    using assms that by (force simp: queue_inv_but_def due_def)
  moreover have "\<exists>t. activeTimers q tid = Some t \<and> expiration t \<le> now" if "tid \<in> set (due now q)" for tid
    using that entry_unique [OF assms] by (fastforce simp: due_def)
  ultimately show ?thesis by blast
qed

lemma distinct_due: "queue_inv q \<Longrightarrow> distinct (due now q)"
  by (simp add: due_def queue_inv_but_def distinct_map inj_on_def)

lemma sorted_due:
  assumes "queue_inv q"
  shows "sorted (map (\<lambda>tid. expiration (the (activeTimers q tid))) (due now q))"
proof -
  let ?es = "filter (\<lambda>e. fst e \<le> now \<and> activeTimers q (snd e) \<noteq> None) (timers q)"
  have "map (\<lambda>tid. expiration (the (activeTimers q tid))) (due now q) = map fst ?es"
    using entry_unique [OF assms] by (fastforce simp: due_def)
  moreover have "sorted ?es" using assms by (simp add: queue_inv_but_def sorted_filter [of "\<lambda>x. x", simplified])
  then have "sorted (map fst ?es)"
    by (simp add: sorted_map) (erule sorted_wrt_mono_rel [rotated], auto simp: less_eq_prod_def)
  ultimately show ?thesis by simp
qed

lemma getExpired_inv:
  assumes "queue_inv q"
  shows "queue_inv_but (set (due now q)) (q\<lparr>timers := filter (\<lambda>e. now < fst e) (timers q)\<rparr>)"
proof -
  have gone: "tid \<notin> snd ` set (filter (\<lambda>e. now < fst e) (timers q))" if due: "tid \<in> set (due now q)" for tid
  proof
    assume "tid \<in> snd ` set (filter (\<lambda>e. now < fst e) (timers q))"
    then obtain e where e: "(e, tid) \<in> set (timers q)" "now < e" by auto
    from due obtain t where "activeTimers q tid = Some t" "expiration t \<le> now"
      using set_due [OF assms] by blast
    with entry_unique [OF assms e(1)] e(2) show False by simp
  qed
  have stay: "(expiration t, tid) \<in> set (filter (\<lambda>e. now < fst e) (timers q))"
    if "activeTimers q tid = Some t" "tid \<notin> set (due now q)" for tid t
  proof -
    have "\<not> expiration t \<le> now" using that set_due [OF assms] by blast
    with that(1) assms show ?thesis by (simp add: queue_inv_but_def)
  qed
  have lt: "tid < numCreated q" if "tid \<in> set (due now q)" for tid
    using that set_due [OF assms, of now] assms by (auto simp: queue_inv_but_def)
  show ?thesis
    using assms gone stay lt
    by (simp add: queue_inv_but_def sorted_filter [of "\<lambda>x. x", simplified] distinct_map_filter)
qed

section \<open>Running and resetting them\<close>

lemma run_timer_sound:
  assumes "queue_inv_but P q" and "timer_env_ok env"
  shows "case run_timer env ptr q of
       Inl e \<Rightarrow> e = Dangling
     | Inr q' \<Rightarrow> queue_inv_but P q' \<and> run_log q' = run_log q @ [ptr]"
proof (cases "activeTimers q ptr")
  case (Some t)
  let ?q = "q\<lparr>run_log := run_log q @ [ptr]\<rparr>"
  let ?as = "behaviour env (timer_callback t) (length (run_log q))"
  have "queue_inv_but P ?q" using assms(1) by (simp add: queue_inv_but_def)
  moreover have "\<forall>a \<in> set ?as. action_ok a" using assms(2) by (simp add: timer_env_ok_def)
  ultimately have "queue_inv_but P (fold (perform env) ?as ?q)" by (rule performs_inv)
  with Some show ?thesis by (simp add: run_timer_def)
qed (simp add: run_timer_def)

lemma run_expired_sound:
  assumes "queue_inv_but P q" and "timer_env_ok env"
  shows "case run_expired env ptrs q of
       Inl e \<Rightarrow> e = Dangling
     | Inr q' \<Rightarrow> queue_inv_but P q' \<and> run_log q' = run_log q @ ptrs"
  using assms(1)
proof (induction ptrs arbitrary: q)
  case (Cons ptr ptrs)
  note step = run_timer_sound [OF Cons.prems assms(2), of ptr]
  show ?case
  proof (cases "run_timer env ptr q")
    case (Inl e)
    with step show ?thesis by simp
  next
    case (Inr q1)
    with step Cons.IH [of q1] show ?thesis by (simp split: sum.splits)
  qed
qed simp

lemma reset_one_sound:
  assumes inv: "queue_inv_but P q" and ptr: "ptr \<in> P" and "0 < now"
  shows "case reset_one now ptr q of
       Inl e \<Rightarrow> e = Dangling
     | Inr q' \<Rightarrow> queue_inv_but (P - {ptr}) q' \<and> run_log q' = run_log q"
proof (cases "activeTimers q ptr")
  case (Some t)
  have seq: "sequence t = ptr" "ptr < numCreated q" "ptr \<notin> snd ` set (timers q)"
    "repeats t \<longrightarrow> 0 < interval t"
    using inv Some ptr by (auto simp: queue_inv_but_def)
  show ?thesis
  proof (cases "repeats t")
    case True
    have "0 < addTime now (interval t)"
      using addTime_later [of "interval t" now] assms(3) seq(4) True by simp
    with inv seq Some True show ?thesis
      by (auto simp: reset_one_def Let_def restart_def queue_inv_but_def)
  next
    case False
    with inv seq Some show ?thesis
      by (auto simp: reset_one_def Let_def queue_inv_but_def)
  qed
qed (simp add: reset_one_def)

lemma reset_all_sound:
  assumes "queue_inv_but P q" and "set ptrs \<subseteq> P" and "distinct ptrs" and "0 < now"
  shows "case reset_all now ptrs q of
       Inl e \<Rightarrow> e = Dangling
     | Inr q' \<Rightarrow> queue_inv_but (P - set ptrs) q' \<and> run_log q' = run_log q"
  using assms(1-3)
proof (induction ptrs arbitrary: P q)
  case (Cons ptr ptrs)
  have "set ptrs \<subseteq> P - {ptr}" using Cons.prems by auto
  moreover have "P - {ptr} - set ptrs = P - set (ptr # ptrs)" by auto
  moreover have "ptr \<in> P" "distinct ptrs" using Cons.prems by auto
  ultimately have rest: "set ptrs \<subseteq> P - {ptr}" "P - {ptr} - set ptrs = P - set (ptr # ptrs)"
    "ptr \<in> P" "distinct ptrs" by blast+
  note step = reset_one_sound [OF Cons.prems(1) rest(3) assms(4)]
  show ?case
  proof (cases "reset_one now ptr q")
    case (Inl e)
    with step show ?thesis by simp
  next
    case (Inr q1)
    with step have "queue_inv_but (P - {ptr}) q1" "run_log q1 = run_log q" by simp_all
    with Cons.IH [OF _ rest(1,4), of q1] rest(2) Inr show ?thesis by (simp split: sum.splits)
  qed
qed simp

text \<open>Dropping the cancelled entries in front, and arming the descriptor.\<close>

lemma drop_cancelled_dropWhile: "drop_cancelled active q = dropWhile (\<lambda>e. active (snd e) = None) q"
  by (induction q) simp_all

lemma drop_cancelled_inv:
  assumes "queue_inv q"
  shows "queue_inv (q\<lparr>timers := drop_cancelled (activeTimers q) (timers q)\<rparr>)"
proof -
  let ?d = "drop_cancelled (activeTimers q) (timers q)"
  have sub: "set ?d \<subseteq> set (timers q)" by (auto simp: drop_cancelled_dropWhile dest: set_dropWhileD)
  have stay: "(expiration t, tid) \<in> set ?d" if "activeTimers q tid = Some t" for tid t
  proof -
    have "(expiration t, tid) \<in> set (timers q)" using assms that by (simp add: queue_inv_but_def)
    then have "(expiration t, tid) \<in> set (takeWhile (\<lambda>e. activeTimers q (snd e) = None) (timers q))
        \<or> (expiration t, tid) \<in> set ?d"
      unfolding drop_cancelled_dropWhile by (metis Un_iff set_append takeWhile_dropWhile_id)
    then show ?thesis using that by (auto dest: set_takeWhileD)
  qed
  have "sorted ?d" "distinct (map snd ?d)"
    using assms
    by (simp_all add: drop_cancelled_dropWhile queue_inv_but_def sorted_dropWhile distinct_map
        inj_on_def) (meson set_dropWhileD)
  with assms sub stay show ?thesis by (auto simp: queue_inv_but_def)
qed

lemma reset_timers_sound:
  assumes "queue_inv_but P q" and "set ptrs = P" and "distinct ptrs" and "0 < now"
  shows "case reset_timers env ptrs now q of
       Inl e \<Rightarrow> e = Dangling
     | Inr q' \<Rightarrow> queue_inv q' \<and> fd_ok q' \<and> run_log q' = run_log q \<and>
         (timers q' \<noteq> [] \<longrightarrow> activeTimers q' (snd (pq_top (timers q'))) \<noteq> None \<and>
            (\<exists>c. timer_fd q' = Some (fst (pq_top (timers q')),
                                  howMuchTimeFromNow (fst (pq_top (timers q'))) (clock env c))))"
proof (cases "reset_all now ptrs q")
  case (Inl e)
  with reset_all_sound [OF assms(1) _ assms(3,4)] assms(2) show ?thesis
    by (force simp: reset_timers_def)
next
  case (Inr q1)
  let ?q2 = "q1\<lparr>timers := drop_cancelled (activeTimers q1) (timers q1)\<rparr>"
  have q1: "queue_inv q1" "run_log q1 = run_log q"
    using reset_all_sound [OF assms(1) _ assms(3,4)] assms(2) Inr by force+
  have inv: "queue_inv ?q2" by (rule drop_cancelled_inv [OF q1(1)])
  show ?thesis
  proof (cases "timers ?q2")
    case Nil
    with Inr inv q1 show ?thesis by (simp add: reset_timers_def Let_def valid_def fd_ok_def)
  next
    case (Cons e es)
    have pos: "0 < fst e" using inv Cons by (simp add: queue_inv_but_def)
    have act: "activeTimers q1 (snd e) \<noteq> None"
      using Cons hd_dropWhile [of "\<lambda>e. activeTimers q1 (snd e) = None" "timers q1"]
      by (simp add: drop_cancelled_dropWhile)
    show ?thesis
      using Inr inv q1 pos act Cons
      by (auto simp: reset_timers_def Let_def valid_def fd_ok_def resetTimerfd_def read_clock_def
          pq_top_def queue_inv_but_def)
  qed
qed

lemma handleRead_sound:
  assumes "queue_inv q" and "timer_env_ok env"
  shows "case handleRead env q of
       Inl e \<Rightarrow> e = Dangling
     | Inr q' \<Rightarrow> queue_inv q' \<and> fd_ok q' \<and> run_log q' = run_log q @ due (clock env (clock_reads q)) q \<and>
         (timers q' \<noteq> [] \<longrightarrow> activeTimers q' (snd (pq_top (timers q'))) \<noteq> None \<and>
            (\<exists>c. timer_fd q' = Some (fst (pq_top (timers q')),
                                  howMuchTimeFromNow (fst (pq_top (timers q'))) (clock env c))))"
proof -
  let ?now = "clock env (clock_reads q)"
  let ?q1 = "readTimerfd (q\<lparr>clock_reads := Suc (clock_reads q)\<rparr>)"
  let ?q2 = "?q1\<lparr>timers := filter (\<lambda>e. ?now < fst e) (timers ?q1)\<rparr>"
  have inv1: "queue_inv ?q1" and due1: "due ?now ?q1 = due ?now q"
    using assms(1) by (simp_all add: queue_inv_but_def readTimerfd_def due_def)
  have sorted1: "sorted (timers ?q1)" using inv1 by (simp add: queue_inv_but_def)
  have log: "run_log ?q2 = run_log q" by (simp add: readTimerfd_def)
  have inv2: "queue_inv_but (set (due ?now q)) ?q2"
    using getExpired_inv [OF inv1, of ?now] unfolding due1 .
  have unfold: "handleRead env q =
      and_then (run_expired env (due ?now q) ?q2) (reset_timers env (due ?now q) ?now)"
    unfolding handleRead_def by (simp add: read_clock_def getExpired_due [OF sorted1] due1)
  show ?thesis
  proof (cases "run_expired env (due ?now q) ?q2")
    case (Inl e)
    with run_expired_sound [OF inv2 assms(2), of "due ?now q"] unfold show ?thesis by simp
  next
    case (Inr q3)
    have q3: "queue_inv_but (set (due ?now q)) q3" "run_log q3 = run_log q @ due ?now q"
      using run_expired_sound [OF inv2 assms(2), of "due ?now q"] Inr log by simp_all
    have "0 < ?now" using assms(2) by (simp add: timer_env_ok_def)
    from reset_timers_sound [OF q3(1) refl distinct_due [OF assms(1)] this, of env] q3(2) show ?thesis
      by (simp add: unfold Inr split: sum.splits)
  qed
qed

end
