(* ===== verification/TimerProps.thy ===== *)
theory TimerProps
  imports TimerInvariant
begin

text \<open>
  What the timer queue promises: which callbacks run and when, what becomes of the timers, when the
  descriptor fires next, and the case in which a freed timer is followed.
\<close>

section \<open>Callbacks that leave the batch alone\<close>

text \<open>No callback cancels one of the timers of \<open>B\<close>.\<close>

definition spares :: "'cb timer_env \<Rightarrow> timer_id set \<Rightarrow> bool" where
  "spares env B \<longleftrightarrow> (\<forall>cb k. \<forall>tid \<in> B. Cancel tid \<notin> set (behaviour env cb k))"

lemma behaviour_ok: "timer_env_ok env \<Longrightarrow> \<forall>a \<in> set (behaviour env cb k). action_ok a"
  by (simp add: timer_env_ok_def)

lemma run_timer_spares:
  assumes "queue_inv_but P q" and "timer_env_ok env" and "spares env B"
    and "activeTimers q ptr = Some t"
  obtains q' where "run_timer env ptr q = Inr q'" and "queue_inv_but P q'"
    and "\<And>tid u. tid \<in> B \<Longrightarrow> activeTimers q tid = Some u \<Longrightarrow> activeTimers q' tid = Some u"
proof -
  let ?q = "q\<lparr>run_log := run_log q @ [ptr]\<rparr>"
  let ?as = "behaviour env (timer_callback t) (length (run_log q))"
  have inv: "queue_inv_but P ?q" using assms(1) by (simp add: queue_inv_but_def)
  note ok = behaviour_ok [OF assms(2)]
  have keep: "activeTimers (fold (perform env) ?as ?q) tid = Some u"
    if "tid \<in> B" "activeTimers q tid = Some u" for tid u
    using that assms(3) by (intro performs_keep [OF inv ok]) (simp_all add: spares_def)
  from that [of "fold (perform env) ?as ?q"] performs_inv [OF inv ok] keep assms(4) show thesis
    by (simp add: run_timer_def)
qed

lemma run_expired_spares:
  assumes "queue_inv_but P q" and "timer_env_ok env" and "spares env B" and "set ptrs \<subseteq> B"
    and "\<forall>tid \<in> B. activeTimers q tid \<noteq> None"
  shows "\<exists>q'. run_expired env ptrs q = Inr q' \<and> (\<forall>tid \<in> B. activeTimers q' tid = activeTimers q tid)"
  using assms(1,4,5)
proof (induction ptrs arbitrary: q)
  case (Cons ptr ptrs)
  from Cons.prems(2,3) obtain t where "activeTimers q ptr = Some t" by auto
  then obtain q1 where q1: "run_timer env ptr q = Inr q1" "queue_inv_but P q1"
    "\<And>tid u. tid \<in> B \<Longrightarrow> activeTimers q tid = Some u \<Longrightarrow> activeTimers q1 tid = Some u"
    using run_timer_spares [OF Cons.prems(1) assms(2,3)] by blast
  have same: "activeTimers q1 tid = activeTimers q tid" if "tid \<in> B" for tid
    using that q1(3) Cons.prems(3) by fastforce
  have "\<exists>q'. run_expired env ptrs q1 = Inr q' \<and> (\<forall>tid \<in> B. activeTimers q' tid = activeTimers q1 tid)"
    using Cons.prems(2,3) same by (intro Cons.IH [OF q1(2)]) auto
  with q1(1) same show ?case by auto
qed simp

text \<open>What \<open>reset\<close> makes of the timers of the batch.\<close>

definition after_run :: "int \<Rightarrow> 'cb timer option \<Rightarrow> 'cb timer option" where
  "after_run now o' = (case o' of None \<Rightarrow> None | Some t \<Rightarrow> if repeats t then Some (restart now t) else None)"

lemma reset_one_active:
  assumes "queue_inv_but P q" and "activeTimers q ptr = Some t"
  shows "\<exists>q'. reset_one now ptr q = Inr q' \<and>
     activeTimers q' = (activeTimers q)(ptr := after_run now (Some t))"
proof -
  have "sequence t = ptr" using assms by (simp add: queue_inv_but_def)
  with assms(2) show ?thesis by (simp add: reset_one_def after_run_def Let_def)
qed

lemma reset_all_active:
  assumes "queue_inv_but P q" and "set ptrs \<subseteq> P" and "distinct ptrs" and "0 < now"
    and "\<forall>tid \<in> set ptrs. activeTimers q tid \<noteq> None"
  shows "\<exists>q'. reset_all now ptrs q = Inr q' \<and>
     (\<forall>tid. activeTimers q' tid =
        (if tid \<in> set ptrs then after_run now (activeTimers q tid) else activeTimers q tid))"
  using assms(1-3,5)
proof (induction ptrs arbitrary: P q)
  case (Cons ptr ptrs)
  from Cons.prems(4) obtain t where t: "activeTimers q ptr = Some t" by auto
  obtain q1 where q1: "reset_one now ptr q = Inr q1"
    "activeTimers q1 = (activeTimers q)(ptr := after_run now (Some t))"
    using reset_one_active [OF Cons.prems(1) t] by blast
  have ptr: "ptr \<in> P" "set ptrs \<subseteq> P - {ptr}" "distinct ptrs" "ptr \<notin> set ptrs"
    using Cons.prems(2,3) by auto
  have inv1: "queue_inv_but (P - {ptr}) q1"
    using reset_one_sound [OF Cons.prems(1) ptr(1) assms(4)] q1(1) by simp
  have "\<forall>tid \<in> set ptrs. activeTimers q1 tid \<noteq> None" using Cons.prems(4) ptr(4) q1(2) by auto
  from Cons.IH [OF inv1 ptr(2,3) this] obtain q' where "reset_all now ptrs q1 = Inr q'"
    "\<forall>tid. activeTimers q' tid =
       (if tid \<in> set ptrs then after_run now (activeTimers q1 tid) else activeTimers q1 tid)" by blast
  with q1 t ptr(4) show ?case by auto
qed simp

lemma reset_timers_active:
  assumes "reset_all now ptrs q = Inr q1"
  shows "\<exists>q'. reset_timers env ptrs now q = Inr q' \<and> activeTimers q' = activeTimers q1"
  using assms by (simp add: reset_timers_def Let_def resetTimerfd_def read_clock_def)

text \<open>One turn as a run of the batch followed by \<open>reset\<close>.\<close>

definition after_take :: "'cb timer_env \<Rightarrow> 'cb timer_queue \<Rightarrow> 'cb timer_queue" where
  "after_take env q = q\<lparr>clock_reads := Suc (clock_reads q), timer_fd := None,
     timers := filter (\<lambda>e. clock env (clock_reads q) < fst e) (timers q)\<rparr>"

abbreviation batch :: "'cb timer_env \<Rightarrow> 'cb timer_queue \<Rightarrow> timer_id list" where
  "batch env q \<equiv> due (clock env (clock_reads q)) q"

lemma handleRead_batch:
  assumes "queue_inv q"
  shows "handleRead env q = and_then (run_expired env (batch env q) (after_take env q))
           (reset_timers env (batch env q) (clock env (clock_reads q)))"
    and "queue_inv_but (set (batch env q)) (after_take env q)"
    and "activeTimers (after_take env q) = activeTimers q"
proof -
  let ?q1 = "q\<lparr>clock_reads := Suc (clock_reads q), timer_fd := None\<rparr>"
  have inv1: "queue_inv ?q1" and due1: "\<And>now. due now ?q1 = due now q"
    using assms by (simp_all add: queue_inv_but_def due_def)
  have sorted1: "sorted (timers ?q1)" using inv1 by (simp add: queue_inv_but_def)
  show "handleRead env q = and_then (run_expired env (batch env q) (after_take env q))
           (reset_timers env (batch env q) (clock env (clock_reads q)))"
    using getExpired_due [OF sorted1]
    by (simp add: handleRead_def read_clock_def readTimerfd_def due1 after_take_def)
  show "queue_inv_but (set (batch env q)) (after_take env q)"
    using getExpired_inv [OF inv1] by (simp add: due1 after_take_def)
  show "activeTimers (after_take env q) = activeTimers q" by (simp add: after_take_def)
qed

text \<open>A timer that was cancelled stays gone, and \<open>reset\<close> stumbles over it.\<close>

lemma run_expired_gone:
  assumes "queue_inv_but P r" and "timer_env_ok env" and "tid < numCreated r"
    and "activeTimers r tid = None"
  shows "run_expired env ps r = Inl Dangling \<or>
    (\<exists>r'. run_expired env ps r = Inr r' \<and> activeTimers r' tid = None)"
  using assms(1,3,4)
proof (induction ps arbitrary: r)
  case (Cons p ps)
  show ?case
  proof (cases "activeTimers r p")
    case None
    then show ?thesis by (simp add: run_timer_def)
  next
    case (Some u)
    let ?rl = "r\<lparr>run_log := run_log r @ [p]\<rparr>"
    let ?r1 = "fold (perform env) (behaviour env (timer_callback u) (length (run_log r))) ?rl"
    note ok = behaviour_ok [OF assms(2)]
    have "queue_inv_but P ?rl" using Cons.prems(1) by (simp add: queue_inv_but_def)
    with performs_gone [OF this ok] performs_inv [OF this ok]
    show ?thesis using Cons.IH [of ?r1] Cons.prems Some by (simp add: run_timer_def)
  qed
qed simp

lemma reset_all_gone:
  assumes "queue_inv_but P r" and "set ps \<subseteq> P" and "distinct ps" and "0 < now"
    and "activeTimers r tid = None" and "tid \<in> set ps"
  shows "reset_all now ps r = Inl Dangling"
  using assms(1-3,5,6)
proof (induction ps arbitrary: r P)
  case (Cons p ps)
  show ?case
  proof (cases "activeTimers r p")
    case None
    then show ?thesis by (simp add: reset_one_def)
  next
    case (Some u)
    obtain r1 where r1: "reset_one now p r = Inr r1"
      "activeTimers r1 = (activeTimers r)(p := after_run now (Some u))"
      using reset_one_active [OF Cons.prems(1) Some] by blast
    have "queue_inv_but (P - {p}) r1"
      using reset_one_sound [OF Cons.prems(1) _ assms(4), of p] Cons.prems(2) r1(1) by simp
    moreover have "p \<noteq> tid" using Some Cons.prems(4) by auto
    ultimately show ?thesis
      using Cons.IH [of "P - {p}" r1] Cons.prems(2-5) r1 by auto
  qed
qed simp

section \<open>Sequences of operations\<close>

datatype 'cb timer_op =
    Op_addTimer 'cb int rat
  | Op_runAt int 'cb
  | Op_runAfter rat 'cb
  | Op_runEvery rat 'cb
  | Op_cancel timer_id
  | Op_handleRead

fun timer_step :: "'cb timer_env \<Rightarrow> 'cb timer_op \<Rightarrow> 'cb timer_queue \<Rightarrow> 'cb timer_queue result" where
  "timer_step env (Op_addTimer cb when i) q = Inr (snd (addTimer env cb when i q))"
| "timer_step env (Op_runAt time cb) q = Inr (snd (runAt env time cb q))"
| "timer_step env (Op_runAfter delay cb) q = Inr (snd (runAfter env delay cb q))"
| "timer_step env (Op_runEvery i cb) q = Inr (snd (runEvery env i cb q))"
| "timer_step env (Op_cancel tid) q = Inr (cancelInLoop tid q)"
| "timer_step env Op_handleRead q = handleRead env q"

fun timer_run :: "'cb timer_env \<Rightarrow> 'cb timer_op list \<Rightarrow> 'cb timer_queue \<Rightarrow> 'cb timer_queue result" where
  "timer_run env [] q = Inr q"
| "timer_run env (op # ops) q = and_then (timer_step env op q) (timer_run env ops)"

interpretation tq: sequential "timer_step env" "timer_run env" for env
  by unfold_locales simp_all

fun timer_op_ok :: "'cb timer_op \<Rightarrow> bool" where
  "timer_op_ok (Op_addTimer cb when i) \<longleftrightarrow> 0 < when"
| "timer_op_ok (Op_runAt time cb) \<longleftrightarrow> 0 < time"
| "timer_op_ok (Op_runAfter delay cb) \<longleftrightarrow> 0 \<le> delay"
| "timer_op_ok (Op_runEvery i cb) \<longleftrightarrow> 0 \<le> i"
| "timer_op_ok _ \<longleftrightarrow> True"

lemma added_sound:
  assumes "queue_inv q" and "fd_ok q" and "0 < when"
  shows "queue_inv (snd (addTimer env cb when i q)) \<and> fd_ok (snd (addTimer env cb when i q))"
  using perform_fd_ok [OF assms(1,2), of env "Add_timer cb when i"] addTimer_inv [OF assms(1,3)] by simp

text \<open>Reading the clock changes nothing else; a delay that is not negative gives a time after it.\<close>

lemma clock_read_sound:
  assumes "queue_inv q" and "fd_ok q" and "timer_env_ok env" and "0 \<le> delay" and "read_clock env q = (now, q1)"
  shows "queue_inv q1" and "fd_ok q1" and "0 < addTime now delay"
proof -
  have q1: "q1 = q\<lparr>clock_reads := Suc (clock_reads q)\<rparr>" and "0 < now"
    using assms(3,5) by (auto simp: read_clock_def timer_env_ok_def)
  then show "queue_inv q1" "fd_ok q1" "0 < addTime now delay"
    using assms(1,2) addTime_later [OF assms(4), of now] by (simp_all add: queue_inv_but_def fd_ok_def)
qed

lemma timer_step_sound:
  assumes "queue_inv q" and "fd_ok q" and "timer_env_ok env" and "timer_op_ok op"
  shows "case timer_step env op q of Inl e \<Rightarrow> e = Dangling | Inr q' \<Rightarrow> queue_inv q' \<and> fd_ok q'"
proof (cases op)
  case (Op_addTimer cb w i)
  with added_sound [OF assms(1,2)] assms(4) show ?thesis by simp
next
  case (Op_runAt w cb)
  with added_sound [OF assms(1,2)] assms(4) show ?thesis by (simp add: runAt_def)
next
  case (Op_runAfter d cb)
  obtain now q1 where r: "read_clock env q = (now, q1)" by fastforce
  from clock_read_sound [OF assms(1-3) _ r, of d] Op_runAfter assms(4) added_sound [of q1] r
  show ?thesis by (simp add: runAfter_def runAt_def)
next
  case (Op_runEvery d cb)
  obtain now q1 where r: "read_clock env q = (now, q1)" by fastforce
  from clock_read_sound [OF assms(1-3) _ r, of d] Op_runEvery assms(4) added_sound [of q1] r
  show ?thesis by (simp add: runEvery_def)
next
  case (Op_cancel tid)
  with perform_fd_ok [OF assms(1,2), of env "Cancel tid"] assms(1) show ?thesis
    by (simp add: cancelInLoop_inv)
next
  case Op_handleRead
  with handleRead_sound [OF assms(1,3)] show ?thesis by (simp split: sum.splits)
qed

section \<open>Properties\<close>

text \<open>
  C6. After any sequence of additions, cancellations and expirations, with any callbacks, either a
  freed timer was followed or the queue is in order: every active timer has exactly one entry, at
  its expiration, and the descriptor is armed no later than for the earliest entry, so that no timer
  is forgotten.
\<close>

theorem timers_never_forgotten:
  assumes "timer_env_ok env" and "list_all timer_op_ok ops"
  shows "case timer_run env ops TimerQueue_new of
       Inl e \<Rightarrow> e = Dangling
     | Inr q \<Rightarrow> queue_inv q \<and> fd_ok q"
proof -
  have "case timer_step env op q of Inl e \<Rightarrow> e = Dangling | Inr q' \<Rightarrow> (queue_inv q' \<and> fd_ok q') \<and> True"
    if "op \<in> set ops" "queue_inv q \<and> fd_ok q" for op q
    using timer_step_sound [of q env op] assms that by (auto simp: list_all_iff split: sum.splits)
  then have "case timer_run env ops TimerQueue_new of
      Inl e \<Rightarrow> e = Dangling | Inr q \<Rightarrow> (queue_inv q \<and> fd_ok q) \<and> True"
    by (rule tq.run_sound) simp_all
  then show ?thesis by (simp split: sum.splits)
qed

text \<open>
  C7. One turn of \<open>handleRead\<close> that completes ran exactly the callbacks of the active timers that
  were due, none before its time and none of a cancelled timer, each once and in the order of the
  expirations; if timers are left, the front one is active and the descriptor is armed for it.
\<close>

theorem handleRead_runs_due:
  assumes "queue_inv q" and "timer_env_ok env" and "handleRead env q = Inr q'"
  shows "\<exists>ran. run_log q' = run_log q @ ran \<and> distinct ran \<and>
     set ran = {tid. \<exists>t. activeTimers q tid = Some t \<and> expiration t \<le> clock env (clock_reads q)} \<and>
     sorted (map (\<lambda>tid. expiration (the (activeTimers q tid))) ran) \<and>
     queue_inv q' \<and>
     (timers q' \<noteq> [] \<longrightarrow> activeTimers q' (snd (hd (timers q'))) \<noteq> None \<and>
        (\<exists>c. timer_fd q' = Some (fst (hd (timers q')), howMuchTimeFromNow (fst (hd (timers q'))) (clock env c))))"
  using handleRead_sound [OF assms(1,2)] assms(3) set_due [OF assms(1)] distinct_due [OF assms(1)]
    sorted_due [OF assms(1)]
  by (auto simp: pq_top_def)

text \<open>
  If no callback cancels a timer of the batch that is being handled, \<open>handleRead\<close> completes; the
  repeating timers of the batch are active again with their interval added to the time of the
  handling, and the others of the batch are gone.
\<close>

theorem handleRead_restarts:
  assumes "queue_inv q" and "timer_env_ok env" and "spares env (set (batch env q))"
  shows "\<exists>q'. handleRead env q = Inr q' \<and>
     (\<forall>tid t. activeTimers q tid = Some t \<and> expiration t \<le> clock env (clock_reads q) \<longrightarrow>
        activeTimers q' tid =
          (if repeats t
           then Some (t\<lparr>expiration := addTime (clock env (clock_reads q)) (interval t)\<rparr>) else None))"
proof -
  let ?B = "batch env q"
  let ?now = "clock env (clock_reads q)"
  note hr = handleRead_batch [OF assms(1), of env]
  have act: "\<forall>tid \<in> set ?B. activeTimers (after_take env q) tid \<noteq> None"
    using set_due [OF assms(1)] by (auto simp: hr(3))
  obtain q1 where q1: "run_expired env ?B (after_take env q) = Inr q1"
    "\<forall>tid \<in> set ?B. activeTimers q1 tid = activeTimers q tid"
    using run_expired_spares [OF hr(2) assms(2,3) subset_refl act] unfolding hr(3) by blast
  have inv1: "queue_inv_but (set ?B) q1"
    using run_expired_sound [OF hr(2) assms(2), of ?B] q1(1) by simp
  have now: "0 < ?now" using assms(2) by (simp add: timer_env_ok_def)
  have act1: "\<forall>tid \<in> set ?B. activeTimers q1 tid \<noteq> None" using q1(2) act by (auto simp: hr(3))
  obtain q2 where q2: "reset_all ?now ?B q1 = Inr q2"
    "\<forall>tid. activeTimers q2 tid =
       (if tid \<in> set ?B then after_run ?now (activeTimers q1 tid) else activeTimers q1 tid)"
    using reset_all_active [OF inv1 subset_refl distinct_due [OF assms(1)] now act1] by blast
  obtain q' where "reset_timers env ?B ?now q1 = Inr q'" "activeTimers q' = activeTimers q2"
    using reset_timers_active [OF q2(1)] by blast
  with hr(1) q1 q2(2) set_due [OF assms(1), of ?now] show ?thesis
    by (auto simp: after_run_def restart_def)
qed

text \<open>
  If the callback of the first due timer cancels a timer of the batch, itself for instance,
  \<open>handleRead\<close> follows a pointer to a freed timer: \<open>expired\<close> still holds it.
\<close>

theorem cancel_in_batch_dangles:
  assumes "queue_inv q" and "timer_env_ok env" and "batch env q = ptr # ptrs"
    and "activeTimers q ptr = Some t"
    and "Cancel tid \<in> set (behaviour env (timer_callback t) (length (run_log q)))"
    and "tid \<in> set (ptr # ptrs)"
  shows "handleRead env q = Inl Dangling"
proof -
  let ?q = "after_take env q"
  let ?now = "clock env (clock_reads q)"
  note hr = handleRead_batch [OF assms(1), of env, unfolded assms(3)]
  let ?as = "behaviour env (timer_callback t) (length (run_log q))"
  let ?ql = "?q\<lparr>run_log := run_log q @ [ptr]\<rparr>"
  let ?q1 = "fold (perform env) ?as ?ql"
  have invl: "queue_inv_but (set (ptr # ptrs)) ?ql" using hr(2) by (simp add: queue_inv_but_def)
  have "tid < numCreated ?ql" using invl assms(6) by (auto simp: queue_inv_but_def)
  with performs_cancel [OF invl behaviour_ok [OF assms(2)] _ assms(5)]
  have gone: "tid < numCreated ?q1" "activeTimers ?q1 tid = None" by simp_all
  have inv1: "queue_inv_but (set (ptr # ptrs)) ?q1"
    by (rule performs_inv [OF invl behaviour_ok [OF assms(2)]])
  have run: "run_timer env ptr ?q = Inr ?q1"
    using assms(4) hr(3) by (simp add: run_timer_def after_take_def)
  have now: "0 < ?now" using assms(2) by (simp add: timer_env_ok_def)
  have "distinct (ptr # ptrs)" using distinct_due [OF assms(1), of ?now] assms(3) by simp
  then have "reset_timers env (ptr # ptrs) ?now r = Inl Dangling"
    if "queue_inv_but (set (ptr # ptrs)) r" "activeTimers r tid = None" for r
    using reset_all_gone [OF that(1) subset_refl _ now that(2) assms(6)] by (simp add: reset_timers_def)
  with hr(1) run run_expired_gone [OF inv1 assms(2) gone, of ptrs] run_expired_sound [OF inv1 assms(2), of ptrs]
  show ?thesis by auto
qed

text \<open>
  The delay the descriptor is given is at least 100 microseconds, is exact beyond that, and its
  fields are in the range that \<^verbatim>\<open>timerfd_settime\<close> accepts.
\<close>

theorem delay_in_range:
  "0 \<le> tv_sec (howMuchTimeFromNow when now) \<and>
   0 \<le> tv_nsec (howMuchTimeFromNow when now) \<and> tv_nsec (howMuchTimeFromNow when now) < 1000000000 \<and>
   tv_sec (howMuchTimeFromNow when now) * 1000000000 + tv_nsec (howMuchTimeFromNow when now)
     = max 100 (when - now) * 1000"
proof -
  let ?m = "max 100 (when - now)"
  have div: "?m sdiv 1000000 = ?m div 1000000" "?m smod 1000000 = ?m mod 1000000"
    by (simp_all add: signed_divide_int_def signed_modulo_int_def minus_div_mult_eq_mod sgn_if)
  have "(if when - now < 100 then 100 else when - now) = ?m" by simp
  with div have "howMuchTimeFromNow when now = \<lparr>tv_sec = ?m div 1000000, tv_nsec = ?m mod 1000000 * 1000\<rparr>"
    by (simp add: howMuchTimeFromNow_def Let_def kMicroSecondsPerSecond_def)
  moreover have "0 \<le> ?m mod 1000000 \<and> ?m mod 1000000 < 1000000" by simp
  moreover have "(?m div 1000000 * 1000000 + ?m mod 1000000) * 1000 = ?m * 1000"
    by (simp only: div_mult_mod_eq)
  moreover have "0 \<le> ?m div 1000000" by (simp add: pos_imp_zdiv_nonneg_iff)
  ultimately show ?thesis by (simp only: timespec.simps ring_distribs) simp
qed

section \<open>Instances\<close>

text \<open>Callback 0 does nothing, every other callback cancels the timer that has its number.\<close>

definition sample_timers :: "nat timer_env" where
  "sample_timers = \<lparr>clock = (\<lambda>k. 1000 * int (Suc k)),
     behaviour = (\<lambda>cb k. if cb = 0 then [] else [Cancel (cb - 1)])\<rparr>"

lemma sample_timers_ok [simp]: "timer_env_ok sample_timers"
  by (simp add: timer_env_ok_def sample_timers_def)

theorem timers_never_forgotten_witness:
  "\<exists>q. timer_run sample_timers [Op_addTimer 0 5 0, Op_cancel 0] TimerQueue_new = Inr q \<and> fd_ok q"
  using timers_never_forgotten [OF sample_timers_ok, of "[Op_addTimer 0 5 0, Op_cancel 0]"] by simp

definition one_due :: "nat \<Rightarrow> nat timer_queue" where
  "one_due cb = \<lparr>timers = [(5, 0)], activeTimers = [0 \<mapsto> Timer_new cb 5 0 0], timer_fd = None,
     numCreated = 1, clock_reads = 0, run_log = []\<rparr>"

lemma one_due_inv [simp]: "queue_inv (one_due cb)" and due_one_due [simp]: "due 1000 (one_due cb) = [0]"
  by (simp_all add: queue_inv_but_def one_due_def Timer_new_def due_def)

lemma clock_sample [simp]: "clock sample_timers k = 1000 * int (Suc k)"
  and clock_reads_one_due [simp]: "clock_reads (one_due cb) = 0"
  by (simp_all add: sample_timers_def one_due_def)

definition idle_timers :: "nat timer_env" where
  "idle_timers = sample_timers\<lparr>behaviour := (\<lambda>cb k. [])\<rparr>"

lemma idle_timers_ok [simp]: "timer_env_ok idle_timers" "spares idle_timers B"
  "clock idle_timers k = 1000 * int (Suc k)"
  by (simp_all add: timer_env_ok_def spares_def idle_timers_def)

theorem handleRead_restarts_witness:
  "\<exists>q'. handleRead idle_timers (one_due 0) = Inr q' \<and> activeTimers q' 0 = None"
proof -
  have "activeTimers (one_due 0) 0 = Some (Timer_new 0 5 0 0)" "expiration (Timer_new 0 5 0 0) \<le> 1000"
    "\<not> repeats (Timer_new 0 5 0 0)"
    by (simp_all add: one_due_def Timer_new_def)
  with handleRead_restarts [OF one_due_inv idle_timers_ok(1,2), of 0] show ?thesis by fastforce
qed

theorem handleRead_runs_due_witness:
  "\<exists>q'. handleRead idle_timers (one_due 0) = Inr q' \<and> set (run_log q') = {0}"
proof -
  have act: "activeTimers (one_due 0) 0 = Some (Timer_new 0 5 0 0)" "run_log (one_due 0) = []"
    "\<And>tid. tid \<noteq> 0 \<Longrightarrow> activeTimers (one_due 0) tid = None"
    by (simp_all add: one_due_def)
  have ran: "run_expired idle_timers [0] (after_take idle_timers (one_due 0)) =
      Inr ((after_take idle_timers (one_due 0))\<lparr>run_log := [0]\<rparr>)"
    using act by (simp add: run_timer_def after_take_def idle_timers_def)
  have "reset_all 1000 [0] ((after_take idle_timers (one_due 0))\<lparr>run_log := [0]\<rparr>) = Inr
      ((after_take idle_timers (one_due 0))\<lparr>run_log := [0], activeTimers := Map.empty\<rparr>)"
    by (simp add: reset_one_def after_take_def one_due_def Timer_new_def Let_def)
  from reset_timers_active [OF this, of idle_timers] obtain q' where
    q': "handleRead idle_timers (one_due 0) = Inr q'"
    using ran by (auto simp: handleRead_batch(1) [OF one_due_inv])
  have "{tid. \<exists>t. activeTimers (one_due 0) tid = Some t \<and> expiration t \<le> 1000} = {0}"
    using act by (fastforce simp: Timer_new_def)
  with handleRead_runs_due [OF one_due_inv idle_timers_ok(1) q'] act(2) q' show ?thesis by auto
qed

theorem cancel_in_batch_dangles_witness:
  "handleRead sample_timers (one_due 1) = Inl Dangling"
  by (rule cancel_in_batch_dangles [OF one_due_inv sample_timers_ok, where ptr = 0 and ptrs = "[]"
        and t = "Timer_new 1 5 0 0" and tid = 0])
    (simp_all add: one_due_def Timer_new_def sample_timers_def due_def)

end
