(* ===== verification/LoopTimers.thy ===== *)
theory LoopTimers
  imports TimerProps
begin

text \<open>
  The timers of a loop as other threads use them: \<^verbatim>\<open>addTimer\<close> and \<^verbatim>\<open>cancel\<close> of \<^verbatim>\<open>TimerQueue.cc\<close> with the
  functors that \<^verbatim>\<open>runInLoop\<close> of \<^verbatim>\<open>EventLoop.cc\<close> queues when the caller is another thread. A step is one access
  to what the threads share: the counter of \<^verbatim>\<open>Timer\<close>, which all loops use, and the vector of functors. The
  thread of the loop calls the operations of theory \<open>TimerQueue\<close> at once; \<open>handleRead\<close>, with the callbacks that
  it makes, is one step: what other threads do meanwhile commutes with it, up to the numbers of the timers that
  its callbacks add. \<open>in_flight\<close> has the timers that another thread has created and not yet queued,
  \<open>functor_batch\<close> the functors that \<^verbatim>\<open>doPendingFunctors\<close> has swapped out and not yet called.
\<close>

section \<open>The loop and the other threads\<close>

datatype 'cb timer_functor = Fn_addTimerInLoop "'cb timer" | Fn_cancelInLoop timer_id

record 'cb timer_loop =
  loop_timers :: "'cb timer_queue"
  in_flight :: "'cb timer list"
  loop_functors :: "'cb timer_functor list"
  functor_batch :: "'cb timer_functor list"

definition timer_loop_new :: "'cb timer_loop" where
  "timer_loop_new = \<lparr>loop_timers = TimerQueue_new, in_flight = [], loop_functors = [], functor_batch = []\<rparr>"

text \<open>The number of timers created, by this loop or another one, is one counter.\<close>

definition take_number :: "'cb timer_queue \<Rightarrow> 'cb timer_queue" where
  "take_number q = q\<lparr>numCreated := Suc (numCreated q)\<rparr>"

text \<open>\<^verbatim>\<open>addTimer\<close> in another thread: \<^verbatim>\<open>new Timer\<close>, then \<^verbatim>\<open>queueInLoop\<close>. \<^verbatim>\<open>cancel\<close> there.\<close>

definition create_timer :: "'cb \<Rightarrow> int \<Rightarrow> rat \<Rightarrow> 'cb timer_loop \<Rightarrow> 'cb timer_loop" where
  "create_timer cb when i s =
     s\<lparr>in_flight := in_flight s @ [Timer_new cb when i (numCreated (loop_timers s))],
       loop_timers := take_number (loop_timers s)\<rparr>"

definition queue_timer :: "nat \<Rightarrow> 'cb timer_loop \<Rightarrow> 'cb timer_loop" where
  "queue_timer k s =
     s\<lparr>in_flight := take k (in_flight s) @ drop (Suc k) (in_flight s),
       loop_functors := loop_functors s @ [Fn_addTimerInLoop (in_flight s ! k)]\<rparr>"

definition queue_cancel :: "timer_id \<Rightarrow> 'cb timer_loop \<Rightarrow> 'cb timer_loop" where
  "queue_cancel timerId s = s\<lparr>loop_functors := loop_functors s @ [Fn_cancelInLoop timerId]\<rparr>"

text \<open>\<^verbatim>\<open>doPendingFunctors\<close>: the swap, and the call of one functor.\<close>

definition swap_batch :: "'cb timer_loop \<Rightarrow> 'cb timer_loop" where
  "swap_batch s = s\<lparr>functor_batch := loop_functors s, loop_functors := []\<rparr>"

fun run_timer_functor :: "'cb timer_env \<Rightarrow> 'cb timer_functor \<Rightarrow> 'cb timer_queue \<Rightarrow> 'cb timer_queue" where
  "run_timer_functor env (Fn_addTimerInLoop timer) q = addTimerInLoop env timer q"
| "run_timer_functor env (Fn_cancelInLoop timerId) q = cancelInLoop timerId q"

datatype 'cb timer_act =
    T_create 'cb int rat
  | T_queue nat
  | T_cancel timer_id
  | T_other_loop
  | T_call "'cb timer_op"
  | T_swap
  | T_functor

text \<open>The handling of events, \<open>handleRead\<close> among it, is over before the functors are swapped.\<close>

fun timer_exec :: "'cb timer_env \<Rightarrow> 'cb timer_act \<Rightarrow> 'cb timer_loop \<Rightarrow> 'cb timer_loop result option" where
  "timer_exec env (T_create cb when i) s = Some (Inr (create_timer cb when i s))"
| "timer_exec env (T_queue k) s = (if k < length (in_flight s) then Some (Inr (queue_timer k s)) else None)"
| "timer_exec env (T_cancel timerId) s = Some (Inr (queue_cancel timerId s))"
| "timer_exec env T_other_loop s = Some (Inr (s\<lparr>loop_timers := take_number (loop_timers s)\<rparr>))"
| "timer_exec env (T_call op) s =
     (if op = Op_handleRead \<and> functor_batch s \<noteq> [] then None
      else Some (map_sum id (\<lambda>q. s\<lparr>loop_timers := q\<rparr>) (timer_step env op (loop_timers s))))"
| "timer_exec env T_swap s = (if functor_batch s = [] then Some (Inr (swap_batch s)) else None)"
| "timer_exec env T_functor s =
     (case functor_batch s of
        [] \<Rightarrow> None
      | f # fs \<Rightarrow> Some (Inr (s\<lparr>loop_timers := run_timer_functor env f (loop_timers s), functor_batch := fs\<rparr>)))"

inductive timer_steps :: "'cb timer_env \<Rightarrow> 'cb timer_loop \<Rightarrow> 'cb timer_act list \<Rightarrow> 'cb timer_loop result \<Rightarrow> bool"
  for env where
  "timer_steps env s [] (Inr s)"
| "timer_exec env a s = Some (Inr s1) \<Longrightarrow> timer_steps env s1 as r \<Longrightarrow> timer_steps env s (a # as) r"
| "timer_exec env a s = Some (Inl e) \<Longrightarrow> timer_steps env s (a # as) (Inl e)"

inductive_cases timer_steps_Cons: "timer_steps env s (a # as) r"
inductive_cases timer_steps_Nil: "timer_steps env s [] r"

interpretation ti: interleaving "timer_exec env" "timer_steps env" for env
  by unfold_locales (auto intro: timer_steps.intros elim: timer_steps_Nil timer_steps_Cons)

text \<open>Times are after the epoch and delays not negative.\<close>

fun timer_act_ok :: "'cb timer_act \<Rightarrow> bool" where
  "timer_act_ok (T_create cb when i) \<longleftrightarrow> 0 < when"
| "timer_act_ok (T_call op) \<longleftrightarrow> timer_op_ok op"
| "timer_act_ok _ \<longleftrightarrow> True"

section \<open>What the operations leave alone\<close>

text \<open>A timer that is gone, or not yet inserted, stays so, whatever happens to other timers.\<close>

definition gone :: "timer_id \<Rightarrow> 'cb timer_queue \<Rightarrow> bool" where
  "gone tid q \<longleftrightarrow> tid < numCreated q \<and> activeTimers q tid = None"

definition entered :: "timer_id \<Rightarrow> 'cb timer_queue \<Rightarrow> bool" where
  "entered tid q \<longleftrightarrow> (\<exists>e \<in> set (timers q). snd e = tid)"

definition leaves :: "timer_id \<Rightarrow> 'cb timer_queue \<Rightarrow> 'cb timer_queue \<Rightarrow> bool" where
  "leaves tid q q' \<longleftrightarrow> numCreated q \<le> numCreated q' \<and>
     (gone tid q \<longrightarrow> gone tid q' \<and> (entered tid q' \<longrightarrow> entered tid q))"

lemma leaves_refl [simp]: "leaves tid q q"
  by (simp add: leaves_def)

lemma leaves_trans: "leaves tid q q1 \<Longrightarrow> leaves tid q1 q2 \<Longrightarrow> leaves tid q q2"
  by (auto simp: leaves_def)

lemma leaves_same:
  "numCreated q' = numCreated q \<Longrightarrow> activeTimers q' tid = activeTimers q tid \<Longrightarrow> set (timers q') \<subseteq> set (timers q) \<Longrightarrow>
     leaves tid q q'"
  by (auto simp: leaves_def gone_def entered_def)

lemma leaves_perform:
  assumes "queue_inv_but P q"
  shows "leaves tid q (perform env a q)"
proof (cases a)
  case (Add_timer cb w i)
  with assms show ?thesis
    by (auto simp: leaves_def gone_def entered_def activeTimers_addTimer timers_addTimer)
qed (auto simp: leaves_def gone_def entered_def cancelInLoop_def)

lemma leaves_performs:
  assumes "queue_inv_but P q" and "\<forall>a \<in> set as. action_ok a"
  shows "leaves tid q (fold (perform env) as q)"
  using assms
proof (induction as arbitrary: q)
  case (Cons a as)
  have "leaves tid (perform env a q) (fold (perform env) as (perform env a q))"
    using Cons.prems by (intro Cons.IH) (simp_all add: perform_inv)
  then show ?case using leaves_trans [OF leaves_perform [OF Cons.prems(1)]] by simp
qed simp

lemma leaves_run_timer:
  assumes "queue_inv_but P q" and "timer_env_ok env" and "run_timer env ptr q = Inr q'"
  shows "leaves tid q q'"
proof -
  obtain t where t: "activeTimers q ptr = Some t" using assms(3) by (auto simp: run_timer_def split: option.splits)
  let ?q = "q\<lparr>run_log := run_log q @ [ptr]\<rparr>"
  have "queue_inv_but P ?q" using assms(1) by (simp add: queue_inv_but_def)
  then have "leaves tid ?q q'"
    using assms(3) t leaves_performs [OF _ behaviour_ok [OF assms(2)]] by (auto simp: run_timer_def)
  then show ?thesis by (rule leaves_trans [rotated]) (rule leaves_same, simp_all)
qed

lemma leaves_run_expired:
  assumes "queue_inv_but P q" and "timer_env_ok env" and "run_expired env ptrs q = Inr q'"
  shows "leaves tid q q'"
  using assms(1,3)
proof (induction ptrs arbitrary: q)
  case (Cons ptr ptrs)
  then obtain q1 where q1: "run_timer env ptr q = Inr q1" "run_expired env ptrs q1 = Inr q'" by auto
  have "queue_inv_but P q1" using run_timer_sound [OF Cons.prems(1) assms(2), of ptr] q1(1) by simp
  from leaves_trans [OF leaves_run_timer [OF Cons.prems(1) assms(2) q1(1)] Cons.IH [OF this q1(2)]] show ?case .
qed simp

lemma run_expired_keeps:
  assumes "queue_inv_but P q" and "timer_env_ok env" and "spares env {tid}" and "run_expired env ptrs q = Inr q'"
    and "activeTimers q tid = Some t"
  shows "activeTimers q' tid = Some t"
  using assms(1,4,5)
proof (induction ptrs arbitrary: q)
  case (Cons ptr ptrs)
  then obtain q1 u where q1: "run_timer env ptr q = Inr q1" "run_expired env ptrs q1 = Inr q'"
    and u: "activeTimers q ptr = Some u" by (auto simp: run_timer_def split: option.splits)
  obtain q2 where "run_timer env ptr q = Inr q2" "queue_inv_but P q2"
    "\<And>i v. i \<in> {tid} \<Longrightarrow> activeTimers q i = Some v \<Longrightarrow> activeTimers q2 i = Some v"
    using run_timer_spares [OF Cons.prems(1) assms(2,3) u] by blast
  with q1 Cons.prems(3) Cons.IH show ?case by simp
qed simp

text \<open>\<open>reset\<close> touches only the timers of the batch.\<close>

lemma reset_one_others:
  assumes "queue_inv_but P q" and "reset_one now ptr q = Inr q'" and "tid \<noteq> ptr"
  shows "leaves tid q q'" and "activeTimers q' tid = activeTimers q tid"
proof -
  obtain t where t: "activeTimers q ptr = Some t" using assms(2) by (auto simp: reset_one_def split: option.splits)
  then have "sequence t = ptr" using assms(1) by (simp add: queue_inv_but_def)
  with assms(2,3) t show "leaves tid q q'" "activeTimers q' tid = activeTimers q tid"
    by (auto simp: reset_one_def Let_def leaves_def gone_def entered_def split: if_splits)
qed

lemma reset_all_others:
  assumes "queue_inv_but P q" and "set ptrs \<subseteq> P" and "distinct ptrs" and "0 < now"
    and "reset_all now ptrs q = Inr q'" and "tid \<notin> set ptrs"
  shows "leaves tid q q' \<and> activeTimers q' tid = activeTimers q tid"
  using assms(1-3,5,6)
proof (induction ptrs arbitrary: P q)
  case (Cons ptr ptrs)
  then obtain q1 where q1: "reset_one now ptr q = Inr q1" "reset_all now ptrs q1 = Inr q'" by auto
  have "queue_inv_but (P - {ptr}) q1"
    using reset_one_sound [OF Cons.prems(1) _ assms(4), of ptr] Cons.prems(2) q1(1) by simp
  moreover have "set ptrs \<subseteq> P - {ptr}" using Cons.prems(2,3) by auto
  ultimately have "leaves tid q1 q' \<and> activeTimers q' tid = activeTimers q1 tid"
    using Cons.prems(3,5) q1(2) by (intro Cons.IH) simp_all
  then show ?case
    using reset_one_others [OF Cons.prems(1) q1(1), of tid] Cons.prems(5) leaves_trans by fastforce
qed simp

lemma reset_timers_others:
  assumes "queue_inv_but P q" and "set ptrs \<subseteq> P" and "distinct ptrs" and "0 < now"
    and "reset_timers env ptrs now q = Inr q'" and "tid \<notin> set ptrs"
  shows "leaves tid q q'" and "activeTimers q' tid = activeTimers q tid"
proof -
  obtain q1 where q1: "reset_all now ptrs q = Inr q1"
    "numCreated q' = numCreated q1" "activeTimers q' = activeTimers q1" "set (timers q') \<subseteq> set (timers q1)"
    using assms(5) set_dropWhileD
    by (fastforce simp: reset_timers_def Let_def resetTimerfd_def read_clock_def drop_cancelled_dropWhile split: if_splits)
  have "leaves tid q1 q'" using q1(2-4) by (simp add: leaves_same)
  with reset_all_others [OF assms(1-4) q1(1) assms(6)] q1(3)
  show "leaves tid q q'" "activeTimers q' tid = activeTimers q tid" by (auto intro: leaves_trans)
qed

text \<open>One turn of \<open>handleRead\<close>, seen by one timer.\<close>

lemma handleRead_parts:
  assumes "queue_inv q" and "timer_env_ok env" and "handleRead env q = Inr q'"
  obtains q1 where "run_expired env (batch env q) (after_take env q) = Inr q1"
    and "queue_inv_but (set (batch env q)) q1" and "run_log q' = run_log q @ batch env q"
    and "reset_timers env (batch env q) (clock env (clock_reads q)) q1 = Inr q'"
    and "distinct (batch env q)" and "0 < clock env (clock_reads q)"
proof -
  note hr = handleRead_batch [OF assms(1), of env]
  from assms(3) obtain q1 where q1: "run_expired env (batch env q) (after_take env q) = Inr q1"
    "reset_timers env (batch env q) (clock env (clock_reads q)) q1 = Inr q'"
    by (auto simp: hr(1))
  have "queue_inv_but (set (batch env q)) q1"
    using run_expired_sound [OF hr(2) assms(2), of "batch env q"] q1(1) by simp
  moreover have "run_log q' = run_log q @ batch env q"
    using handleRead_sound [OF assms(1,2)] assms(3) by simp
  moreover have "0 < clock env (clock_reads q)" using assms(2) by (simp add: timer_env_ok_def)
  ultimately show thesis using that q1 distinct_due [OF assms(1)] by blast
qed

lemma handleRead_leaves:
  assumes "queue_inv q" and "timer_env_ok env" and "handleRead env q = Inr q'" and "activeTimers q tid = None"
  shows "leaves tid q q'" and "\<exists>ran. run_log q' = run_log q @ ran \<and> tid \<notin> set ran"
proof -
  have out: "tid \<notin> set (batch env q)" using set_due [OF assms(1)] assms(4) by (auto simp: gone_def)
  from assms(1-3) show "leaves tid q q'" "\<exists>ran. run_log q' = run_log q @ ran \<and> tid \<notin> set ran"
  proof (atomize (full), rule handleRead_parts)
    fix q1
    assume q1: "run_expired env (batch env q) (after_take env q) = Inr q1"
      "queue_inv_but (set (batch env q)) q1" "run_log q' = run_log q @ batch env q"
      "reset_timers env (batch env q) (clock env (clock_reads q)) q1 = Inr q'"
      "distinct (batch env q)" "0 < clock env (clock_reads q)"
    have "leaves tid q (after_take env q)" by (rule leaves_same) (auto simp: after_take_def)
    moreover note leaves_run_expired [OF handleRead_batch(2) [OF assms(1)] assms(2) q1(1), of tid]
      reset_timers_others(1) [OF q1(2) _ q1(5,6,4) out]
    ultimately show "leaves tid q q' \<and> (\<exists>ran. run_log q' = run_log q @ ran \<and> tid \<notin> set ran)"
      using q1(3) out by (blast intro: leaves_trans)
  qed
qed

lemma handleRead_keeps:
  assumes "queue_inv q" and "timer_env_ok env" and "handleRead env q = Inr q'" and "spares env {tid}"
    and "activeTimers q tid = Some t"
  shows "activeTimers q' tid = Some t \<or> tid \<in> set (run_log q')"
proof (cases "tid \<in> set (batch env q)")
  case True
  then show ?thesis using handleRead_sound [OF assms(1,2)] assms(3) by auto
next
  case False
  obtain q1 where q1: "run_expired env (batch env q) (after_take env q) = Inr q1"
    "queue_inv_but (set (batch env q)) q1" "reset_timers env (batch env q) (clock env (clock_reads q)) q1 = Inr q'"
    "distinct (batch env q)" "0 < clock env (clock_reads q)"
    using handleRead_parts [OF assms(1-3)] by metis
  have "activeTimers q1 tid = Some t"
    using run_expired_keeps [OF handleRead_batch(2) [OF assms(1)] assms(2,4) q1(1)] assms(5) by (simp add: after_take_def)
  with reset_timers_others(2) [OF q1(2) _ q1(4,5,3) False] show ?thesis by simp
qed

lemma read_clock_leaves: "leaves tid q (snd (read_clock env q))" "run_log (snd (read_clock env q)) = run_log q"
  "activeTimers (snd (read_clock env q)) = activeTimers q" "queue_inv (snd (read_clock env q)) \<longleftrightarrow> queue_inv q"
  by (simp_all add: read_clock_def leaves_same queue_inv_but_def)

text \<open>A call of the client is a turn of \<open>handleRead\<close>, or one action after some readings of the clock.\<close>

lemma timer_step_action:
  assumes "timer_step env op q = Inr q'" and "op \<noteq> Op_handleRead" and "queue_inv q"
  obtains a q0 where "q' = perform env a q0" and "queue_inv q0" and "leaves tid q q0" and "run_log q0 = run_log q"
    and "activeTimers q0 = activeTimers q" and "a = Cancel tid \<longleftrightarrow> op = Op_cancel tid"
proof (cases op)
  case (Op_addTimer cb w i)
  with assms that [of "Add_timer cb w i" q] show thesis by simp
next
  case (Op_runAt w cb)
  with assms that [of "Add_timer cb w 0" q] show thesis by (simp add: runAt_def)
next
  case (Op_runAfter d cb)
  with assms that [of "Add_timer cb (addTime (fst (read_clock env q)) d) 0" "snd (read_clock env q)"]
  show thesis by (simp add: runAfter_def runAt_def read_clock_leaves split: prod.splits)
next
  case (Op_runEvery d cb)
  with assms that [of "Add_timer cb (addTime (fst (read_clock env q)) d) d" "snd (read_clock env q)"]
  show thesis by (simp add: runEvery_def read_clock_leaves split: prod.splits)
next
  case (Op_cancel i)
  with assms that [of "Cancel i" q] show thesis by simp
next
  case Op_handleRead
  with assms(2) show thesis by simp
qed

lemma timer_step_leaves:
  assumes "queue_inv q" and "timer_env_ok env" and "timer_step env op q = Inr q'" and "activeTimers q tid = None"
  shows "leaves tid q q'" and "\<exists>ran. run_log q' = run_log q @ ran \<and> tid \<notin> set ran"
proof -
  have "leaves tid q q' \<and> (\<exists>ran. run_log q' = run_log q @ ran \<and> tid \<notin> set ran)"
  proof (cases "op = Op_handleRead")
    case True
    with assms(3) handleRead_leaves [OF assms(1,2) _ assms(4)] show ?thesis by simp
  next
    case False
    obtain a q0 where a: "q' = perform env a q0" "queue_inv q0" "leaves tid q q0" "run_log q0 = run_log q"
      by (rule timer_step_action [OF assms(3) False assms(1)])
    with leaves_trans [OF a(3) leaves_perform [OF a(2)]] show ?thesis by simp
  qed
  then show "leaves tid q q'" "\<exists>ran. run_log q' = run_log q @ ran \<and> tid \<notin> set ran" by simp_all
qed

lemma timer_step_mono:
  assumes "queue_inv q" and "timer_env_ok env" and "timer_step env op q = Inr q'"
  shows "numCreated q \<le> numCreated q'"
proof -
  have "activeTimers q (numCreated q) = None"
    using assms(1) by (cases "activeTimers q (numCreated q)") (auto simp: queue_inv_but_def)
  from timer_step_leaves(1) [OF assms this] show ?thesis by (simp add: leaves_def)
qed

lemma timer_step_keeps:
  assumes "queue_inv q" and "timer_env_ok env" and "timer_step env op q = Inr q'" and "spares env {tid}"
    and "op \<noteq> Op_cancel tid" and "activeTimers q tid = Some t"
  shows "activeTimers q' tid = Some t \<or> tid \<in> set (run_log q')"
proof (cases "op = Op_handleRead")
  case True
  with assms(3) handleRead_keeps [OF assms(1,2) _ assms(4,6)] show ?thesis by simp
next
  case False
  obtain a q0 where a: "q' = perform env a q0" "queue_inv q0" "activeTimers q0 = activeTimers q"
    "a = Cancel tid \<longleftrightarrow> op = Op_cancel tid"
    by (rule timer_step_action [OF assms(3) False assms(1)])
  with perform_keeps [OF a(2)] assms(5,6) show ?thesis by simp
qed

lemma timer_step_log:
  assumes "queue_inv q" and "timer_env_ok env" and "timer_step env op q = Inr q'"
  shows "\<exists>ran. run_log q' = run_log q @ ran"
proof (cases "op = Op_handleRead")
  case True
  with assms(3) handleRead_sound [OF assms(1,2)] show ?thesis by simp
next
  case False
  obtain a q0 where "q' = perform env a q0" "run_log q0 = run_log q"
    by (rule timer_step_action [OF assms(3) False assms(1)])
  then show ?thesis by simp
qed

section \<open>The invariant of the loop\<close>

text \<open>The timers that wait: created, or queued, or swapped out.\<close>

fun timer_of :: "'cb timer_functor \<Rightarrow> 'cb timer list" where
  "timer_of (Fn_addTimerInLoop timer) = [timer]"
| "timer_of (Fn_cancelInLoop timerId) = []"

definition functors :: "'cb timer_loop \<Rightarrow> 'cb timer_functor list" where
  "functors s = functor_batch s @ loop_functors s"

definition waiting :: "'cb timer_loop \<Rightarrow> 'cb timer list" where
  "waiting s = in_flight s @ concat (map timer_of (functors s))"

definition fresh :: "'cb timer_queue \<Rightarrow> 'cb timer \<Rightarrow> bool" where
  "fresh q t \<longleftrightarrow> gone (sequence t) q \<and> \<not> entered (sequence t) q \<and> 0 < expiration t \<and> (repeats t \<longrightarrow> 0 < interval t)"

definition timer_loop_inv :: "'cb timer_loop \<Rightarrow> bool" where
  "timer_loop_inv s \<longleftrightarrow> queue_inv (loop_timers s) \<and> fd_ok (loop_timers s) \<and>
     distinct (map sequence (waiting s)) \<and> list_all (fresh (loop_timers s)) (waiting s)"

lemma timer_loop_inv_new [simp]: "timer_loop_inv timer_loop_new"
  by (simp add: timer_loop_inv_def timer_loop_new_def waiting_def functors_def)

lemma fresh_leaves: "fresh q t \<Longrightarrow> leaves (sequence t) q q' \<Longrightarrow> fresh q' t"
  by (auto simp: fresh_def leaves_def)

lemma all_fresh_leaves:
  "list_all (fresh q) ts \<Longrightarrow> (\<And>t. t \<in> set ts \<Longrightarrow> gone (sequence t) q \<Longrightarrow> leaves (sequence t) q q') \<Longrightarrow>
     list_all (fresh q') ts"
  by (auto simp: list_all_iff fresh_def leaves_def)

lemma take_number_sound:
  assumes "queue_inv q" and "fd_ok q"
  shows "queue_inv (take_number q)" and "fd_ok (take_number q)" and "leaves tid q (take_number q)"
  using assms by (auto simp: take_number_def queue_inv_but_def fd_ok_def leaves_def gone_def entered_def less_SucI)

lemma addTimerInLoop_parts:
  assumes "gone (sequence t) q"
  shows "activeTimers (addTimerInLoop env t q) = (activeTimers q)(sequence t \<mapsto> t)"
    and "timers (addTimerInLoop env t q) = pq_push (expiration t, sequence t) (timers q)"
    and "numCreated (addTimerInLoop env t q) = numCreated q" and "run_log (addTimerInLoop env t q) = run_log q"
  using assms by (simp_all add: gone_def addTimerInLoop_def insert_timer_def resetTimerfd_def read_clock_def Let_def)

lemma addTimerInLoop_sound:
  assumes "queue_inv q" and "fd_ok q" and "fresh q t"
  shows "queue_inv (addTimerInLoop env t q)" and "fd_ok (addTimerInLoop env t q)"
    and "tid \<noteq> sequence t \<Longrightarrow> leaves tid q (addTimerInLoop env t q)"
proof -
  have g: "gone (sequence t) q" and e: "sequence t \<notin> snd ` set (timers q)"
    using assms(3) by (auto simp: fresh_def entered_def)
  have "sequence t < numCreated q" using g by (simp add: gone_def)
  then show "queue_inv (addTimerInLoop env t q)"
    using assms(1,3) e unfolding queue_inv_but_def
    by (auto simp: addTimerInLoop_parts [OF g] fresh_def split: if_splits)
  show "tid \<noteq> sequence t \<Longrightarrow> leaves tid q (addTimerInLoop env t q)"
    by (auto simp: leaves_def gone_def entered_def addTimerInLoop_parts [OF g])
  have "sorted (timers q)" using assms(1) by (simp add: queue_inv_but_def)
  then show "fd_ok (addTimerInLoop env t q)"
    using assms(2) g by (auto simp: gone_def fd_ok_def timer_defs top_push pq_empty_def)
qed

lemma cancelInLoop_sound:
  assumes "queue_inv q" and "fd_ok q"
  shows "queue_inv (cancelInLoop i q)" and "fd_ok (cancelInLoop i q)" and "leaves tid q (cancelInLoop i q)"
  using perform_fd_ok [OF assms, of _ "Cancel i"] leaves_perform [OF assms(1), of tid _ "Cancel i"]
    cancelInLoop_inv [OF assms(1)] by simp_all

text \<open>How the waiting timers move.\<close>

lemma mset_waiting_queue:
  assumes "k < length (in_flight s)"
  shows "mset (waiting (queue_timer k s)) = mset (waiting s)"
proof -
  have "mset (in_flight s) = mset (take k (in_flight s) @ in_flight s ! k # drop (Suc k) (in_flight s))"
    using id_take_nth_drop [OF assms] by simp
  then show ?thesis by (simp add: waiting_def functors_def queue_timer_def)
qed

lemma waiting_moves:
  "waiting (queue_cancel i s) = waiting s"
  "functor_batch s = [] \<Longrightarrow> waiting (swap_batch s) = waiting s"
  "waiting (s\<lparr>loop_timers := q\<rparr>) = waiting s"
  "functor_batch s = f # fs \<Longrightarrow> waiting s = in_flight s @ timer_of f @ concat (map timer_of (fs @ loop_functors s))"
  "waiting (s\<lparr>loop_timers := q, functor_batch := fs\<rparr>) = in_flight s @ concat (map timer_of (fs @ loop_functors s))"
  by (simp_all add: waiting_def functors_def queue_cancel_def swap_batch_def)

lemma queue_moves:
  "loop_timers (queue_timer k s) = loop_timers s" "loop_timers (queue_cancel tid s) = loop_timers s"
  "loop_timers (swap_batch s) = loop_timers s" "loop_timers (create_timer cb w i s) = take_number (loop_timers s)"
  by (simp_all add: queue_timer_def queue_cancel_def swap_batch_def create_timer_def)

text \<open>A step after which some of the timers wait no longer, and which leaves the others alone.\<close>

lemma inv_moved:
  assumes "timer_loop_inv s" and "mset (waiting s) = mset (ts @ waiting s')"
    and "queue_inv (loop_timers s')" and "fd_ok (loop_timers s')"
    and "\<And>tid. gone tid (loop_timers s) \<Longrightarrow> tid \<notin> sequence ` set ts \<Longrightarrow> leaves tid (loop_timers s) (loop_timers s')"
  shows "timer_loop_inv s'"
proof -
  have ws: "set (waiting s) = set (ts @ waiting s')" using assms(2) by (metis set_mset_mset)
  have "mset (map sequence (waiting s)) = mset (map sequence (ts @ waiting s'))" using assms(2) by simp
  then have "distinct (map sequence (waiting s)) \<longleftrightarrow> distinct (map sequence (ts @ waiting s'))"
    by (rule mset_eq_imp_distinct_iff)
  then have d: "distinct (map sequence (ts @ waiting s'))" using assms(1) by (simp add: timer_loop_inv_def)
  have "fresh (loop_timers s') u" if u: "u \<in> set (waiting s')" for u
  proof -
    have f: "fresh (loop_timers s) u" using assms(1) u ws by (simp add: timer_loop_inv_def list_all_iff)
    have "sequence u \<notin> sequence ` set ts" using d u by auto
    with assms(5) f have "leaves (sequence u) (loop_timers s) (loop_timers s')" by (simp add: fresh_def)
    with f show ?thesis by (rule fresh_leaves)
  qed
  with assms(3,4) d show ?thesis by (simp add: timer_loop_inv_def list_all_iff)
qed

lemma inv_same_waiting:
  assumes "timer_loop_inv s" and "loop_timers s' = loop_timers s" and "mset (waiting s') = mset (waiting s)"
  shows "timer_loop_inv s'"
  by (rule inv_moved [OF assms(1), where ts = "[]"]) (use assms in \<open>simp_all add: timer_loop_inv_def\<close>)

lemma inv_new_queue:
  assumes "timer_loop_inv s" and "queue_inv q" and "fd_ok q"
    and "\<And>tid. gone tid (loop_timers s) \<Longrightarrow> leaves tid (loop_timers s) q"
  shows "timer_loop_inv (s\<lparr>loop_timers := q\<rparr>)"
  by (rule inv_moved [OF assms(1), where ts = "[]"]) (use assms in \<open>simp_all add: waiting_moves(3)\<close>)

lemma create_timer_inv:
  assumes "timer_loop_inv s" and "0 < w"
  shows "timer_loop_inv (create_timer cb w i s)"
proof -
  let ?q = "loop_timers s" and ?t = "Timer_new cb w i (numCreated (loop_timers s))" and ?s' = "create_timer cb w i s"
  have q: "queue_inv ?q" "fd_ok ?q" "distinct (map sequence (waiting s))" "list_all (fresh ?q) (waiting s)"
    using assms(1) by (simp_all add: timer_loop_inv_def)
  have "activeTimers ?q (numCreated ?q) = None"
    using q(1) by (cases "activeTimers ?q (numCreated ?q)") (auto simp: queue_inv_but_def)
  then have t: "sequence ?t = numCreated ?q" "fresh (take_number ?q) ?t"
    using q(1) assms(2) by (auto simp: fresh_def gone_def entered_def take_number_def Timer_new_def queue_inv_but_def)
  have "sequence u < numCreated ?q" if "u \<in> set (waiting s)" for u
    using q(4) that by (simp add: list_all_iff fresh_def gone_def)
  then have d: "distinct (map sequence (?t # waiting s))" using q(3) t(1) by fastforce
  have m: "mset (waiting ?s') = mset (?t # waiting s)" by (simp add: waiting_def functors_def create_timer_def)
  then have "mset (map sequence (waiting ?s')) = mset (map sequence (?t # waiting s))" by simp
  from mset_eq_imp_distinct_iff [OF this] d have d': "distinct (map sequence (waiting ?s'))" by (rule iffD2)
  have f: "list_all (fresh (take_number ?q)) (waiting s)"
    using q take_number_sound(3) [OF q(1,2)] by (intro all_fresh_leaves [OF q(4)])
  have "set (waiting ?s') = set (?t # waiting s)" using m by (metis set_mset_mset)
  then have "list_all (fresh (take_number ?q)) (waiting ?s')" using f t(2) by (simp add: list_all_iff)
  with d' take_number_sound(1,2) [OF q(1,2)] show ?thesis unfolding timer_loop_inv_def queue_moves by (intro conjI)
qed

lemma timer_functor_inv:
  assumes "timer_loop_inv s" and "functor_batch s = f # fs"
  shows "timer_loop_inv (s\<lparr>loop_timers := run_timer_functor env f (loop_timers s), functor_batch := fs\<rparr>)"
    (is "timer_loop_inv ?s'")
proof (rule inv_moved [OF assms(1), where ts = "timer_of f"])
  show ws: "mset (waiting s) = mset (timer_of f @ waiting ?s')"
    unfolding waiting_moves(4) [OF assms(2)] waiting_moves(5) by simp
  have q: "queue_inv (loop_timers s)" "fd_ok (loop_timers s)" using assms(1) by (simp_all add: timer_loop_inv_def)
  have t: "fresh (loop_timers s) t" if "f = Fn_addTimerInLoop t" for t
    using assms(1) that unfolding timer_loop_inv_def waiting_moves(4) [OF assms(2)] by simp
  show "queue_inv (loop_timers ?s')" "fd_ok (loop_timers ?s')"
    using addTimerInLoop_sound(1,2) [OF q] cancelInLoop_sound(1,2) [OF q] t by (cases f; simp)+
  show "leaves tid (loop_timers s) (loop_timers ?s')" if "tid \<notin> sequence ` set (timer_of f)" for tid
    using addTimerInLoop_sound(3) [OF q] cancelInLoop_sound(3) [OF q] t that by (cases f) simp_all
qed

lemma timer_exec_inv:
  assumes "timer_loop_inv s" and "timer_env_ok env" and "timer_act_ok a" and "timer_exec env a s = Some r"
  shows "case r of Inl e \<Rightarrow> e = Dangling | Inr s' \<Rightarrow> timer_loop_inv s'"
proof (cases a)
  case (T_create cb w i)
  with assms create_timer_inv show ?thesis by auto
next
  case (T_queue k)
  then have "r = Inr (queue_timer k s)" "k < length (in_flight s)" using assms(4) by (auto split: if_splits)
  with inv_same_waiting [OF assms(1) queue_moves(1) mset_waiting_queue] show ?thesis by simp
next
  case (T_cancel i)
  then have "r = Inr (queue_cancel i s)" using assms(4) by simp
  with inv_same_waiting [OF assms(1) queue_moves(2)] show ?thesis by (simp add: waiting_moves(1))
next
  case T_other_loop
  have "queue_inv (loop_timers s)" "fd_ok (loop_timers s)" using assms(1) by (simp_all add: timer_loop_inv_def)
  note inv_new_queue [OF assms(1) take_number_sound [OF this]]
  with T_other_loop assms(4) show ?thesis by auto
next
  case (T_call op)
  note q = assms(1) [unfolded timer_loop_inv_def]
  note step = timer_step_sound [of "loop_timers s" env op]
  show ?thesis
  proof (cases "timer_step env op (loop_timers s)")
    case (Inl e)
    with T_call assms step q show ?thesis by (auto split: if_splits)
  next
    case (Inr q')
    with step q assms(2,3) T_call have q': "queue_inv q'" "fd_ok q'" by auto
    have "timer_loop_inv (s\<lparr>loop_timers := q'\<rparr>)"
      using q timer_step_leaves(1) [OF _ assms(2) Inr] by (intro inv_new_queue [OF assms(1) q']) (simp_all add: gone_def)
    with Inr T_call assms(4) show ?thesis by (auto split: if_splits)
  qed
next
  case T_swap
  then have "r = Inr (swap_batch s)" "functor_batch s = []" using assms(4) by (auto split: if_splits)
  with inv_same_waiting [OF assms(1) queue_moves(3)] show ?thesis by (simp add: waiting_moves(2))
next
  case T_functor
  with assms timer_functor_inv show ?thesis by (auto split: list.splits)
qed

lemma timer_steps_inv:
  assumes "timer_steps env s as r" and "timer_loop_inv s" and "timer_env_ok env" and "list_all timer_act_ok as"
  shows "case r of Inl e \<Rightarrow> e = Dangling | Inr s' \<Rightarrow> timer_loop_inv s'"
proof (rule ti.steps_sound [OF _ assms(1), where inv = timer_loop_inv])
  fix a s r
  assume "a \<in> set as" "timer_loop_inv s" "timer_exec env a s = Some r"
  moreover from this(1) have "timer_act_ok a" using assms(4) by (simp add: list_all_iff)
  ultimately show "case r of Inl e \<Rightarrow> e = Dangling | Inr s' \<Rightarrow> timer_loop_inv s'"
    by (intro timer_exec_inv [OF _ assms(3)])
qed (rule assms(2))

section \<open>Cancelled timers\<close>

text \<open>An addition of the timer that is still queued has its cancellation behind it.\<close>

fun cancel_follows :: "timer_id \<Rightarrow> 'cb timer_functor list \<Rightarrow> bool" where
  "cancel_follows tid [] \<longleftrightarrow> True"
| "cancel_follows tid (f # fs) \<longleftrightarrow>
     (tid \<in> sequence ` set (timer_of f) \<longrightarrow> Fn_cancelInLoop tid \<in> set fs) \<and> cancel_follows tid fs"

definition being_cancelled :: "timer_id \<Rightarrow> 'cb timer_loop \<Rightarrow> bool" where
  "being_cancelled tid s \<longleftrightarrow> tid < numCreated (loop_timers s) \<and> tid \<notin> sequence ` set (in_flight s) \<and>
     cancel_follows tid (functors s) \<and> (Fn_cancelInLoop tid \<in> set (functors s) \<or> gone tid (loop_timers s))"

definition over :: "timer_id \<Rightarrow> 'cb timer_loop \<Rightarrow> bool" where
  "over tid s \<longleftrightarrow> gone tid (loop_timers s) \<and> tid \<notin> sequence ` set (waiting s)"

lemma cancel_follows_append:
  "cancel_follows tid fs \<Longrightarrow> tid \<notin> sequence ` set (timer_of f) \<Longrightarrow> cancel_follows tid (fs @ [f])"
  by (induction fs) auto

lemma cancel_follows_cancel: "cancel_follows tid (fs @ [Fn_cancelInLoop tid])"
  by (induction fs) auto

lemma no_addition_left:
  "cancel_follows tid fs \<Longrightarrow> Fn_cancelInLoop tid \<notin> set fs \<Longrightarrow> tid \<notin> sequence ` set (concat (map timer_of fs))"
  by (induction fs) auto

lemma over_cancelled:
  assumes "being_cancelled tid s" and "Fn_cancelInLoop tid \<notin> set (functors s)"
  shows "over tid s"
  using assms no_addition_left [of tid "functors s"]
  by (simp add: being_cancelled_def over_def waiting_def image_Un)

text \<open>The functors and the flying timers after a step.\<close>

lemma functors_moves:
  "functors (create_timer cb w i s) = functors s" "functors (queue_cancel tid s) = functors s @ [Fn_cancelInLoop tid]"
  "functors (queue_timer k s) = functors s @ [Fn_addTimerInLoop (in_flight s ! k)]"
  "functor_batch s = [] \<Longrightarrow> functors (swap_batch s) = functors s" "functors (s\<lparr>loop_timers := q\<rparr>) = functors s"
  by (simp_all add: functors_def create_timer_def queue_cancel_def queue_timer_def swap_batch_def)

lemma functors_popped:
  "functor_batch s = f # fs \<Longrightarrow> functors s = f # functors (s\<lparr>loop_timers := q, functor_batch := fs\<rparr>)"
  by (simp add: functors_def)

lemma in_flight_moves:
  "in_flight (queue_cancel tid s) = in_flight s" "in_flight (swap_batch s) = in_flight s"
  "set (in_flight (queue_timer k s)) \<subseteq> set (in_flight s)"
  "set (in_flight (create_timer cb w i s)) = insert (Timer_new cb w i (numCreated (loop_timers s))) (set (in_flight s))"
  by (auto simp: queue_cancel_def swap_batch_def queue_timer_def create_timer_def dest: in_set_takeD in_set_dropD)

lemma functor_leaves:
  assumes "timer_loop_inv s" and "functor_batch s = f # fs" and "tid \<notin> sequence ` set (timer_of f)"
  shows "leaves tid (loop_timers s) (run_timer_functor env f (loop_timers s))"
proof (cases f)
  case (Fn_addTimerInLoop t)
  have "fresh (loop_timers s) t"
    using assms(1) Fn_addTimerInLoop unfolding timer_loop_inv_def waiting_moves(4) [OF assms(2)] by simp
  moreover have "queue_inv (loop_timers s)" "fd_ok (loop_timers s)" using assms(1) by (simp_all add: timer_loop_inv_def)
  ultimately show ?thesis using Fn_addTimerInLoop assms(3) addTimerInLoop_sound(3) by simp
next
  case (Fn_cancelInLoop i)
  have "queue_inv (loop_timers s)" "fd_ok (loop_timers s)" using assms(1) by (simp_all add: timer_loop_inv_def)
  with Fn_cancelInLoop cancelInLoop_sound(3) show ?thesis by simp
qed

lemma functor_mono: "numCreated q \<le> numCreated (run_timer_functor env f q)"
  by (cases f) (simp_all add: addTimerInLoop_def insert_timer_def resetTimerfd_def read_clock_def Let_def cancelInLoop_def)

lemma being_cancelled_step:
  assumes "timer_loop_inv s" and "timer_env_ok env" and "being_cancelled tid s" and "timer_exec env a s = Some (Inr s')"
  shows "being_cancelled tid s'"
proof (cases a)
  case (T_create cb w i)
  then have s': "s' = create_timer cb w i s" using assms(4) by simp
  have "tid \<noteq> sequence (Timer_new cb w i (numCreated (loop_timers s)))"
    using assms(3) by (simp add: being_cancelled_def Timer_new_def)
  with assms(3) show ?thesis unfolding being_cancelled_def s' functors_moves queue_moves in_flight_moves
    by (auto simp: gone_def take_number_def)
next
  case (T_queue k)
  then have s': "s' = queue_timer k s" and "in_flight s ! k \<in> set (in_flight s)"
    using assms(4) by (auto split: if_splits)
  then have "tid \<notin> sequence ` set (timer_of (Fn_addTimerInLoop (in_flight s ! k)))"
    using assms(3) by (auto simp: being_cancelled_def)
  with assms(3) in_flight_moves(3) [of k s] show ?thesis
    unfolding being_cancelled_def s' functors_moves queue_moves by (auto intro: cancel_follows_append)
next
  case (T_cancel i)
  then have "s' = queue_cancel i s" using assms(4) by simp
  with assms(3) show ?thesis
    by (auto simp: being_cancelled_def functors_moves queue_moves in_flight_moves intro: cancel_follows_append)
next
  case T_other_loop
  then have "s' = s\<lparr>loop_timers := take_number (loop_timers s)\<rparr>" using assms(4) by simp
  with assms(3) show ?thesis by (auto simp: being_cancelled_def functors_moves gone_def take_number_def)
next
  case (T_call op)
  then obtain q' where q': "timer_step env op (loop_timers s) = Inr q'" "s' = s\<lparr>loop_timers := q'\<rparr>"
    using assms(4) by (auto split: if_splits)
  have inv: "queue_inv (loop_timers s)" using assms(1) by (simp add: timer_loop_inv_def)
  have "gone tid (loop_timers s) \<Longrightarrow> gone tid q'"
    using timer_step_leaves(1) [OF inv assms(2) q'(1), of tid] by (simp add: leaves_def gone_def)
  with timer_step_mono [OF inv assms(2) q'(1)] assms(3) q'(2) show ?thesis
    by (auto simp: being_cancelled_def functors_moves)
next
  case T_swap
  then have "s' = swap_batch s" "functor_batch s = []" using assms(4) by (auto split: if_splits)
  with assms(3) show ?thesis by (simp add: being_cancelled_def functors_moves queue_moves in_flight_moves)
next
  case T_functor
  then obtain f fs where fs: "functor_batch s = f # fs"
    "s' = s\<lparr>loop_timers := run_timer_functor env f (loop_timers s), functor_batch := fs\<rparr>"
    using assms(4) by (auto split: list.splits)
  have q': "loop_timers s' = run_timer_functor env f (loop_timers s)" "in_flight s' = in_flight s" using fs(2) by simp_all
  have pop: "functors s = f # functors s'" unfolding fs(2) by (rule functors_popped [OF fs(1)])
  have lt: "tid < numCreated (loop_timers s')"
    using assms(3) functor_mono [of "loop_timers s" env f] by (simp add: being_cancelled_def q'(1))
  have "Fn_cancelInLoop tid \<in> set (functors s') \<or> gone tid (loop_timers s')"
  proof (cases "f = Fn_cancelInLoop tid")
    case True
    with lt show ?thesis by (simp add: q' gone_def cancelInLoop_def)
  next
    case False
    with assms(3) pop functor_leaves [OF assms(1) fs(1), of tid env] show ?thesis
      by (auto simp: being_cancelled_def q' leaves_def)
  qed
  with lt assms(3) pop q'(2) show ?thesis by (simp add: being_cancelled_def)
qed

lemma over_step:
  assumes "timer_loop_inv s" and "timer_env_ok env" and "over tid s" and "timer_exec env a s = Some (Inr s')"
  shows "over tid s' \<and> (\<exists>ran. run_log (loop_timers s') = run_log (loop_timers s) @ ran \<and> tid \<notin> set ran)"
proof (cases a)
  case (T_create cb w i)
  then have s': "s' = create_timer cb w i s" using assms(4) by simp
  moreover have "set (waiting s') = insert (Timer_new cb w i (numCreated (loop_timers s))) (set (waiting s))"
    by (auto simp: s' waiting_def functors_moves in_flight_moves)
  ultimately show ?thesis using assms(3) by (auto simp: over_def queue_moves gone_def take_number_def Timer_new_def)
next
  case (T_queue k)
  then have s': "s' = queue_timer k s" "k < length (in_flight s)" using assms(4) by (auto split: if_splits)
  have "set (waiting s') = set (waiting s)" using mset_waiting_queue [OF s'(2)] s'(1) by (metis set_mset_mset)
  with assms(3) s'(1) show ?thesis by (simp add: over_def queue_moves)
next
  case (T_cancel i)
  then have "s' = queue_cancel i s" using assms(4) by simp
  with assms(3) show ?thesis by (simp add: over_def queue_moves waiting_moves(1))
next
  case T_other_loop
  then have "s' = s\<lparr>loop_timers := take_number (loop_timers s)\<rparr>" using assms(4) by simp
  with assms(3) show ?thesis by (simp add: over_def waiting_moves(3) gone_def take_number_def)
next
  case (T_call op)
  then obtain q' where q': "timer_step env op (loop_timers s) = Inr q'" "s' = s\<lparr>loop_timers := q'\<rparr>"
    using assms(4) by (auto split: if_splits)
  have inv: "queue_inv (loop_timers s)" using assms(1) by (simp add: timer_loop_inv_def)
  have "activeTimers (loop_timers s) tid = None" using assms(3) by (simp add: over_def gone_def)
  from timer_step_leaves [OF inv assms(2) q'(1) this] assms(3) q'(2) show ?thesis
    by (simp add: over_def waiting_moves(3) leaves_def)
next
  case T_swap
  then have "s' = swap_batch s" "functor_batch s = []" using assms(4) by (auto split: if_splits)
  with assms(3) show ?thesis by (simp add: over_def queue_moves waiting_moves(2))
next
  case T_functor
  then obtain f fs where fs: "functor_batch s = f # fs"
    "s' = s\<lparr>loop_timers := run_timer_functor env f (loop_timers s), functor_batch := fs\<rparr>"
    using assms(4) by (auto split: list.splits)
  have w: "set (waiting s) = set (timer_of f) \<union> set (waiting s')"
    unfolding fs(2) waiting_moves(5) waiting_moves(4) [OF fs(1)] by auto
  then have tid: "tid \<notin> sequence ` set (timer_of f)" using assms(3) by (auto simp: over_def)
  have "run_log (run_timer_functor env f (loop_timers s)) = run_log (loop_timers s)"
    by (cases f) (simp_all add: addTimerInLoop_def insert_timer_def resetTimerfd_def read_clock_def Let_def cancelInLoop_def)
  with functor_leaves [OF assms(1) fs(1) tid, of env] assms(3) w fs(2) show ?thesis
    by (auto simp: over_def leaves_def)
qed

lemma timer_exec_keeps_inv:
  assumes "timer_loop_inv s" and "timer_env_ok env" and "timer_act_ok a" and "timer_exec env a s = Some (Inr s')"
  shows "timer_loop_inv s'"
  using timer_exec_inv [OF assms] by simp

lemma steps_from_new:
  assumes "timer_steps env timer_loop_new as (Inr s)" and "timer_env_ok env" and "list_all timer_act_ok as"
  shows "timer_loop_inv s"
  using timer_steps_inv [OF assms(1) timer_loop_inv_new assms(2,3)] by simp

lemma queue_cancel_inv: "timer_loop_inv s \<Longrightarrow> timer_loop_inv (queue_cancel tid s)"
  by (rule inv_same_waiting) (simp_all add: queue_moves waiting_moves(1))

text \<open>
  C8. A timer that another thread has added and then cancelled: when no cancellation of it is queued any
  more, it does not exist, and no callback of it runs from then on, whatever the threads do.
\<close>

theorem cancelled_timer_never_runs:
  assumes "timer_env_ok env" and "timer_steps env timer_loop_new as (Inr s)"
    and "tid < numCreated (loop_timers s)" and "tid \<notin> sequence ` set (in_flight s)"
    and "timer_steps env (queue_cancel tid s) as1 (Inr s1)" and "Fn_cancelInLoop tid \<notin> set (functors s1)"
    and "timer_steps env s1 as2 (Inr s2)" and "list_all timer_act_ok (as @ as1 @ as2)"
  shows "activeTimers (loop_timers s2) tid = None \<and>
    (\<exists>ran. run_log (loop_timers s2) = run_log (loop_timers s1) @ ran \<and> tid \<notin> set ran)"
proof -
  have ok: "timer_act_ok a" if "a \<in> set as1 \<or> a \<in> set as2" for a using assms(8) that by (auto simp: list_all_iff)
  have "timer_loop_inv s" using steps_from_new [OF assms(2,1)] assms(8) by simp
  moreover have "being_cancelled tid (queue_cancel tid s)"
    using assms(3,4) by (simp add: being_cancelled_def functors_moves queue_moves in_flight_moves cancel_follows_cancel)
  ultimately have "timer_loop_inv s1 \<and> being_cancelled tid s1"
    using ok by (intro ti.steps_keep [OF _ assms(5), where P = "\<lambda>s. timer_loop_inv s \<and> being_cancelled tid s"])
      (auto intro: timer_exec_keeps_inv [OF _ assms(1)] being_cancelled_step [OF _ assms(1)] queue_cancel_inv)
  then have s1: "timer_loop_inv s1" "over tid s1" using over_cancelled [OF _ assms(6)] by simp_all
  let ?P = "\<lambda>s'. timer_loop_inv s' \<and> over tid s' \<and>
    (\<exists>ran. run_log (loop_timers s') = run_log (loop_timers s1) @ ran \<and> tid \<notin> set ran)"
  have "?P s2"
  proof (rule ti.steps_keep [OF _ assms(7), where P = ?P])
    show "?P s1" using s1 by simp
    fix a x x' assume x: "a \<in> set as2" "?P x" "timer_exec env a x = Some (Inr x')"
    then have "timer_loop_inv x" "over tid x" "timer_act_ok a" using ok by simp_all
    from over_step [OF this(1) assms(1) this(2) x(3)] timer_exec_keeps_inv [OF this(1) assms(1) this(3) x(3)] x(2)
    show "?P x'" by auto
  qed
  then show ?thesis by (auto simp: over_def gone_def)
qed

section \<open>Timers that are not cancelled\<close>

definition uncancelled :: "'cb timer \<Rightarrow> 'cb timer_loop \<Rightarrow> bool" where
  "uncancelled t s \<longleftrightarrow> Fn_cancelInLoop (sequence t) \<notin> set (functors s) \<and>
     (t \<in> set (waiting s) \<or> activeTimers (loop_timers s) (sequence t) = Some t \<or>
      sequence t \<in> set (run_log (loop_timers s)))"

lemma uncancelled_step:
  assumes "timer_loop_inv s" and "timer_env_ok env" and "spares env {sequence t}" and "a \<noteq> T_cancel (sequence t)"
    and "a \<noteq> T_call (Op_cancel (sequence t))" and "uncancelled t s" and "timer_exec env a s = Some (Inr s')"
  shows "uncancelled t s'"
proof (cases a)
  case (T_create cb w i)
  then have s': "s' = create_timer cb w i s" using assms(7) by simp
  have "set (waiting s) \<subseteq> set (waiting s')" by (auto simp: s' waiting_def functors_moves in_flight_moves)
  with assms(6) show ?thesis by (auto simp: s' uncancelled_def functors_moves queue_moves take_number_def)
next
  case (T_queue k)
  then have s': "s' = queue_timer k s" "k < length (in_flight s)" using assms(7) by (auto split: if_splits)
  have "set (waiting s') = set (waiting s)" using mset_waiting_queue [OF s'(2)] s'(1) by (metis set_mset_mset)
  with assms(6) s'(1) show ?thesis by (simp add: uncancelled_def queue_moves functors_moves)
next
  case (T_cancel i)
  then have "s' = queue_cancel i s" "i \<noteq> sequence t" using assms(4,7) by simp_all
  with assms(6) show ?thesis by (simp add: uncancelled_def queue_moves waiting_moves(1) functors_moves)
next
  case T_other_loop
  then have "s' = s\<lparr>loop_timers := take_number (loop_timers s)\<rparr>" using assms(7) by simp
  with assms(6) show ?thesis by (simp add: uncancelled_def waiting_moves(3) functors_moves take_number_def)
next
  case (T_call op)
  then obtain q' where q': "timer_step env op (loop_timers s) = Inr q'" "s' = s\<lparr>loop_timers := q'\<rparr>"
    using assms(7) by (auto split: if_splits)
  have inv: "queue_inv (loop_timers s)" using assms(1) by (simp add: timer_loop_inv_def)
  have "op \<noteq> Op_cancel (sequence t)" using assms(5) T_call by simp
  with timer_step_keeps [OF inv assms(2) q'(1) assms(3)] timer_step_log [OF inv assms(2) q'(1)] assms(6) q'(2)
  show ?thesis by (fastforce simp: uncancelled_def waiting_moves(3) functors_moves)
next
  case T_swap
  then have "s' = swap_batch s" "functor_batch s = []" using assms(7) by (auto split: if_splits)
  with assms(6) show ?thesis by (simp add: uncancelled_def queue_moves waiting_moves(2) functors_moves)
next
  case T_functor
  then obtain f fs where fs: "functor_batch s = f # fs"
    "s' = s\<lparr>loop_timers := run_timer_functor env f (loop_timers s), functor_batch := fs\<rparr>"
    using assms(7) by (auto split: list.splits)
  have pop: "functors s = f # functors s'" unfolding fs(2) by (rule functors_popped [OF fs(1)])
  have w: "set (waiting s) = set (timer_of f) \<union> set (waiting s')"
    unfolding fs(2) waiting_moves(5) waiting_moves(4) [OF fs(1)] by auto
  show ?thesis
  proof (cases f)
    case (Fn_addTimerInLoop u)
    then have g: "gone (sequence u) (loop_timers s)"
      using assms(1) w by (auto simp: timer_loop_inv_def list_all_iff fresh_def)
    with addTimerInLoop_parts [OF g, of env] assms(6) w pop fs(2) Fn_addTimerInLoop show ?thesis
      by (auto simp: uncancelled_def gone_def)
  next
    case (Fn_cancelInLoop i)
    with assms(6) w pop fs(2) show ?thesis by (auto simp: uncancelled_def cancelInLoop_def)
  qed
qed

text \<open>A timer whose addition was queued leaves the vector with the next swap.\<close>

definition landed :: "timer_id \<Rightarrow> 'cb timer_loop \<Rightarrow> bool" where
  "landed tid s \<longleftrightarrow> tid < numCreated (loop_timers s) \<and> tid \<notin> sequence ` set (in_flight s)"

definition passed :: "timer_id \<Rightarrow> 'cb timer_loop \<Rightarrow> bool" where
  "passed tid s \<longleftrightarrow> landed tid s \<and> tid \<notin> sequence ` set (concat (map timer_of (loop_functors s)))"

lemma landed_step:
  assumes "timer_loop_inv s" and "timer_env_ok env" and "landed tid s" and "timer_exec env a s = Some (Inr s')"
  shows "landed tid s' \<and> (passed tid s \<or> a = T_swap \<longrightarrow> passed tid s')"
proof (cases a)
  case (T_create cb w i)
  then have s': "s' = create_timer cb w i s" using assms(4) by simp
  have "loop_functors s' = loop_functors s" "numCreated (loop_timers s) \<noteq> tid"
    using assms(3) by (simp_all add: s' create_timer_def landed_def)
  with assms(3) T_create show ?thesis
    by (auto simp: s' landed_def passed_def in_flight_moves queue_moves take_number_def Timer_new_def)
next
  case (T_queue k)
  then have s': "s' = queue_timer k s" "in_flight s ! k \<in> set (in_flight s)" using assms(4) by (auto split: if_splits)
  have "loop_functors s' = loop_functors s @ [Fn_addTimerInLoop (in_flight s ! k)]" by (simp add: s' queue_timer_def)
  with assms(3) T_queue s' in_flight_moves(3) [of k s] show ?thesis
    by (auto simp: landed_def passed_def queue_moves)
next
  case (T_call op)
  then obtain q' where q': "timer_step env op (loop_timers s) = Inr q'" "s' = s\<lparr>loop_timers := q'\<rparr>"
    using assms(4) by (auto split: if_splits)
  have inv: "queue_inv (loop_timers s)" using assms(1) by (simp add: timer_loop_inv_def)
  from timer_step_mono [OF inv assms(2) q'(1)] assms(3) q'(2) T_call show ?thesis
    by (simp add: landed_def passed_def)
next
  case T_functor
  then obtain f fs where fs: "functor_batch s = f # fs"
    "s' = s\<lparr>loop_timers := run_timer_functor env f (loop_timers s), functor_batch := fs\<rparr>"
    using assms(4) by (auto split: list.splits)
  with functor_mono [of "loop_timers s" env f] assms(3) T_functor show ?thesis by (simp add: landed_def passed_def)
next
  case (T_cancel i)
  then have "s' = queue_cancel i s" using assms(4) by simp
  with assms(3) T_cancel show ?thesis by (simp add: landed_def passed_def queue_cancel_def)
next
  case T_other_loop
  then have "s' = s\<lparr>loop_timers := take_number (loop_timers s)\<rparr>" using assms(4) by simp
  with assms(3) T_other_loop show ?thesis by (simp add: landed_def passed_def take_number_def)
next
  case T_swap
  then have "s' = swap_batch s" using assms(4) by (simp split: if_splits)
  with assms(3) show ?thesis by (simp add: landed_def passed_def swap_batch_def)
qed

lemma landed_steps:
  assumes "timer_steps env s as (Inr s')" and "timer_loop_inv s" and "timer_env_ok env" and "landed tid s"
    and "list_all timer_act_ok as" and "passed tid s \<or> T_swap \<in> set as"
  shows "passed tid s'"
  using assms(1,2,4-6)
proof (induction as arbitrary: s)
  case Nil
  then show ?case by (simp add: ti.steps_Nil)
next
  case (Cons a as)
  then obtain s1 where s1: "timer_exec env a s = Some (Inr s1)" "timer_steps env s1 as (Inr s')"
    by (auto simp: ti.steps_Cons)
  have "timer_loop_inv s1" using timer_exec_keeps_inv [OF Cons.prems(2) assms(3) _ s1(1)] Cons.prems(4) by simp
  moreover have "landed tid s1" "passed tid s1 \<or> T_swap \<in> set as"
    using landed_step [OF Cons.prems(2) assms(3) Cons.prems(3) s1(1)] Cons.prems(5) by auto
  ultimately show ?case using Cons.IH [OF s1(2)] Cons.prems(4) by simp
qed

text \<open>The thread of the loop can always finish the vector that it has swapped out.\<close>

lemma batch_finishes:
  "\<exists>s'. timer_steps env s (replicate (length (functor_batch s)) T_functor) (Inr s') \<and> functor_batch s' = []"
proof (induction "functor_batch s" arbitrary: s)
  case Nil
  then show ?case by (simp add: ti.steps_Nil)
next
  case (Cons f fs)
  let ?s1 = "s\<lparr>loop_timers := run_timer_functor env f (loop_timers s), functor_batch := fs\<rparr>"
  have "timer_exec env T_functor s = Some (Inr ?s1)" by (simp add: Cons.hyps(2) [symmetric])
  moreover obtain s' where "timer_steps env ?s1 (replicate (length fs) T_functor) (Inr s')" "functor_batch s' = []"
    using Cons.hyps(1) [of ?s1] by auto
  ultimately show ?case unfolding Cons.hyps(2) [symmetric] by (auto simp: ti.steps_Cons)
qed

lemma vector_finishes:
  "\<exists>as s'. set as \<subseteq> {T_swap, T_functor} \<and> T_swap \<in> set as \<and> timer_steps env s as (Inr s') \<and> functor_batch s' = []"
proof -
  obtain s1 where s1: "timer_steps env s (replicate (length (functor_batch s)) T_functor) (Inr s1)" "functor_batch s1 = []"
    using batch_finishes by blast
  obtain s2 where s2: "timer_steps env (swap_batch s1) (replicate (length (functor_batch (swap_batch s1))) T_functor) (Inr s2)"
    "functor_batch s2 = []"
    using batch_finishes by blast
  have "timer_exec env T_swap s1 = Some (Inr (swap_batch s1))" using s1(2) by simp
  from ti.steps_append [OF ti.steps_snoc [OF s1(1) this] s2(1)] s2(2) show ?thesis
    by (intro exI [of _ "(replicate (length (functor_batch s)) T_functor @ [T_swap])
         @ replicate (length (functor_batch (swap_batch s1))) T_functor"]) auto
qed

lemma distinct_apart: "distinct (map f (xs @ ys)) \<Longrightarrow> y \<in> set ys \<Longrightarrow> f y \<notin> f ` set xs"
  by (metis disjoint_iff distinct_append imageI map_append set_map)

text \<open>The descriptor is armed in time for every active timer.\<close>

lemma armed_for_active:
  assumes "queue_inv q" and "fd_ok q" and "activeTimers q tid = Some t"
  shows "\<exists>e ts. timer_fd q = Some (e, ts) \<and> e \<le> expiration t"
proof -
  have e: "(expiration t, tid) \<in> set (timers q)" and srt: "sorted (timers q)"
    using assms(1,3) by (simp_all add: queue_inv_but_def)
  then have "pq_top (timers q) \<le> (expiration t, tid)" by (simp add: pq_top_def sorted_hd_least)
  then have "fst (pq_top (timers q)) \<le> expiration t" by (auto simp: less_eq_prod_def)
  moreover have "timers q \<noteq> []" using e by auto
  ultimately show ?thesis using assms(2) by (fastforce simp: fd_ok_def)
qed

text \<open>What has become of a queued timer when a vector was swapped and finished.\<close>

lemma queued_timer_lands:
  assumes "timer_env_ok env" and "spares env {sequence t}" and "timer_loop_inv s"
    and "Fn_addTimerInLoop t \<in> set (loop_functors s)" and "Fn_cancelInLoop (sequence t) \<notin> set (functors s)"
    and run: "timer_steps env s as1 (Inr s')" "list_all timer_act_ok as1" "T_swap \<in> set as1" "functor_batch s' = []"
      "T_cancel (sequence t) \<notin> set as1" "T_call (Op_cancel (sequence t)) \<notin> set as1"
  shows "timer_loop_inv s'" and "uncancelled t s'" and "t \<notin> set (waiting s')"
proof -
  note inv = assms(3)
  have ok: "timer_act_ok a" if "a \<in> set as1" for a using run that by (simp add: list_all_iff)
  have t: "t \<in> set (concat (map timer_of (loop_functors s)))" using assms(4) by force
  have w: "t \<in> set (waiting s)" using t by (simp add: waiting_def functors_def)
  have "sequence t \<notin> sequence ` set (in_flight s)"
    using inv t unfolding timer_loop_inv_def waiting_def functors_def
    by (intro distinct_apart [where ys = "concat (map timer_of (functor_batch s @ loop_functors s))"]) simp_all
  then have "landed (sequence t) s" using inv w by (simp add: landed_def timer_loop_inv_def list_all_iff fresh_def gone_def)
  then have p: "passed (sequence t) s'" using landed_steps [OF _ inv assms(1)] run by blast
  have "uncancelled t s" using w assms(5) by (simp add: uncancelled_def)
  then have u: "timer_loop_inv s' \<and> uncancelled t s'"
  proof (intro ti.steps_keep [of as1 "\<lambda>s. timer_loop_inv s \<and> uncancelled t s" env s s'])
    fix a x x'
    assume x: "a \<in> set as1" "timer_loop_inv x \<and> uncancelled t x" "timer_exec env a x = Some (Inr x')"
    then have "a \<noteq> T_cancel (sequence t)" "a \<noteq> T_call (Op_cancel (sequence t))" using run by auto
    with uncancelled_step [OF _ assms(1,2) this _ x(3)] timer_exec_keeps_inv [OF _ assms(1) ok x(3)] x
    show "timer_loop_inv x' \<and> uncancelled t x'" by blast
  qed (use run inv in simp_all)
  have "t \<notin> set (waiting s')" using p run by (auto simp: passed_def landed_def waiting_def functors_def)
  with u show "timer_loop_inv s'" "uncancelled t s'" "t \<notin> set (waiting s')" by simp_all
qed

text \<open>
  C9. A timer that another thread has queued, and that nobody cancels: the loop can finish its vectors, and
  when it has swapped and finished one since, the timer has run, or it is active, the descriptor is armed for
  it in time, and the turn of \<open>handleRead\<close> in which it is due runs it.
\<close>

theorem queued_timer_runs:
  assumes "timer_env_ok env" and "spares env {sequence t}"
    and "timer_steps env timer_loop_new as (Inr s)" and "Fn_addTimerInLoop t \<in> set (loop_functors s)"
    and "Fn_cancelInLoop (sequence t) \<notin> set (functors s)" and "list_all timer_act_ok as"
  shows "(\<exists>as1 s'. set as1 \<subseteq> {T_swap, T_functor} \<and> T_swap \<in> set as1 \<and> timer_steps env s as1 (Inr s') \<and> functor_batch s' = []) \<and>
    (\<forall>as1 s'. timer_steps env s as1 (Inr s') \<and> list_all timer_act_ok as1 \<and> T_swap \<in> set as1 \<and> functor_batch s' = [] \<and>
       T_cancel (sequence t) \<notin> set as1 \<and> T_call (Op_cancel (sequence t)) \<notin> set as1 \<longrightarrow>
       sequence t \<in> set (run_log (loop_timers s')) \<or>
       activeTimers (loop_timers s') (sequence t) = Some t \<and>
       (\<exists>e ts. timer_fd (loop_timers s') = Some (e, ts) \<and> e \<le> expiration t) \<and>
       (expiration t \<le> clock env (clock_reads (loop_timers s')) \<longrightarrow>
          (case handleRead env (loop_timers s') of Inl e \<Rightarrow> e = Dangling | Inr q' \<Rightarrow> sequence t \<in> set (run_log q'))))"
proof (intro conjI allI impI)
  show "\<exists>as1 s'. set as1 \<subseteq> {T_swap, T_functor} \<and> T_swap \<in> set as1 \<and> timer_steps env s as1 (Inr s') \<and> functor_batch s' = []"
    by (rule vector_finishes)
  fix as1 s'
  assume run: "timer_steps env s as1 (Inr s') \<and> list_all timer_act_ok as1 \<and> T_swap \<in> set as1 \<and> functor_batch s' = [] \<and>
    T_cancel (sequence t) \<notin> set as1 \<and> T_call (Op_cancel (sequence t)) \<notin> set as1"
  have inv: "timer_loop_inv s" by (rule steps_from_new [OF assms(3,1,6)])
  have u: "timer_loop_inv s'" "uncancelled t s'" "t \<notin> set (waiting s')"
    using queued_timer_lands [OF assms(1,2) inv assms(4,5)] run by blast+
  have q: "queue_inv (loop_timers s')" "fd_ok (loop_timers s')" using u(1) by (simp_all add: timer_loop_inv_def)
  from u(2,3) consider (ran) "sequence t \<in> set (run_log (loop_timers s'))"
    | (active) "activeTimers (loop_timers s') (sequence t) = Some t" by (auto simp: uncancelled_def)
  then show "sequence t \<in> set (run_log (loop_timers s')) \<or>
       activeTimers (loop_timers s') (sequence t) = Some t \<and>
       (\<exists>e ts. timer_fd (loop_timers s') = Some (e, ts) \<and> e \<le> expiration t) \<and>
       (expiration t \<le> clock env (clock_reads (loop_timers s')) \<longrightarrow>
          (case handleRead env (loop_timers s') of Inl e \<Rightarrow> e = Dangling | Inr q' \<Rightarrow> sequence t \<in> set (run_log q')))"
  proof cases
    case active
    then have "sequence t \<in> set (due now (loop_timers s'))" if "expiration t \<le> now" for now
      using set_due [OF q(1)] that by blast
    then show ?thesis
      using active armed_for_active [OF q active] handleRead_sound [OF q(1) assms(1)] by (auto split: sum.splits)
  qed simp
qed

text \<open>
  The thread of the loop cancels at once, and so may overtake the addition that another thread has queued:
  the call has no effect, and the timer runs although \<^verbatim>\<open>cancel\<close> was called after \<^verbatim>\<open>addTimer\<close> had returned.
\<close>

lemma cancel_overtakes_addition:
  assumes "timer_loop_inv s" and "tid \<in> sequence ` set (waiting s)"
  shows "timer_exec env (T_call (Op_cancel tid)) s = Some (Inr s)"
proof -
  have "activeTimers (loop_timers s) tid = None"
    using assms by (auto simp: timer_loop_inv_def list_all_iff fresh_def gone_def)
  then have "cancelInLoop tid (loop_timers s) = loop_timers s" by (simp add: cancelInLoop_def fun_upd_idem)
  then show ?thesis by simp
qed

section \<open>Samples\<close>

lemmas loop_timer_defs = timer_loop_new_def TimerQueue_new_def pq_empty_def create_timer_def take_number_def Timer_new_def
  queue_timer_def queue_cancel_def swap_batch_def functors_def addTimerInLoop_def insert_timer_def resetTimerfd_def
  read_clock_def cancelInLoop_def pq_push_def Let_def

definition one_queued :: "nat timer_loop" where
  "one_queued = queue_timer 0 (create_timer 0 5 0 timer_loop_new)"

lemma one_queued_reached: "timer_steps env timer_loop_new [T_create 0 5 0, T_queue 0] (Inr one_queued)"
  by (simp add: ti.steps_Cons ti.steps_Nil one_queued_def loop_timer_defs)

theorem queued_timer_runs_witness:
  "\<exists>s'. timer_steps idle_timers one_queued [T_swap, T_functor] (Inr s') \<and>
     activeTimers (loop_timers s') 0 = Some (Timer_new 0 5 0 0) \<and>
     (\<exists>e ts. timer_fd (loop_timers s') = Some (e, ts) \<and> e \<le> 5) \<and> 5 \<le> clock idle_timers (clock_reads (loop_timers s'))"
proof -
  obtain s' where s': "timer_steps idle_timers one_queued [T_swap, T_functor] (Inr s')" "functor_batch s' = []"
    "run_log (loop_timers s') = []"
    by (simp add: ti.steps_Cons ti.steps_Nil one_queued_def loop_timer_defs)
  have "(\<exists>e ts. timer_fd (loop_timers s') = Some (e, ts) \<and> e \<le> 5) \<and> activeTimers (loop_timers s') 0 = Some (Timer_new 0 5 0 0)"
    using queued_timer_runs [OF idle_timers_ok(1,2) one_queued_reached, of "Timer_new 0 5 0 0"] s'
    by (fastforce simp: one_queued_def loop_timer_defs)
  with s'(1) show ?thesis by (intro exI [of _ s']) simp
qed

theorem cancelled_timer_never_runs_witness:
  "\<exists>s2. timer_steps idle_timers (queue_cancel 0 one_queued) [T_swap, T_functor, T_functor, T_call Op_handleRead] (Inr s2) \<and>
     activeTimers (loop_timers s2) 0 = None \<and> run_log (loop_timers s2) = []"
proof -
  obtain s1 s2 where s1: "timer_steps idle_timers (queue_cancel 0 one_queued) [T_swap, T_functor, T_functor] (Inr s1)"
    "Fn_cancelInLoop 0 \<notin> set (functors s1)" "run_log (loop_timers s1) = []"
    and s2: "timer_steps idle_timers s1 [T_call Op_handleRead] (Inr s2)" "run_log (loop_timers s2) = []"
    by (simp add: ti.steps_Cons ti.steps_Nil one_queued_def loop_timer_defs handleRead_def getExpired_def readTimerfd_def
        reset_timers_def valid_def)
  have "activeTimers (loop_timers s2) 0 = None"
    using cancelled_timer_never_runs [OF idle_timers_ok(1) one_queued_reached _ _ s1(1,2) s2(1)]
    by (simp add: one_queued_def loop_timer_defs)
  with s2(2) ti.steps_append [OF s1(1) s2(1)] show ?thesis by (intro exI [of _ s2]) simp
qed

end
