(* ===== verification/Date.thy ===== *)
theory Date
  imports Timestamp
begin

text \<open>
  \<^verbatim>\<open>gg_lib/Date.cc\<close> and \<^verbatim>\<open>Date.h\<close>: days of the Gregorian calendar as julian day numbers. The
  arithmetic is that of \<^verbatim>\<open>int\<close>, with division towards zero; \<open>julian_fits\<close> bounds what it computes.
  The reference is the calendar itself: leap years, lengths of months, the day after a day.
\<close>

section \<open>The code\<close>

definition getJulianDay :: "int \<Rightarrow> int \<Rightarrow> int \<Rightarrow> int" where
  "getJulianDay year month day =
     (let a = (14 - month) sdiv 12;
          y = year + 4800 - a;
          m = month + 12 * a - 3
      in day + (153 * m + 2) sdiv 5 + y * 365 + y sdiv 4 - y sdiv 100 + y sdiv 400 - 32045)"

record YearMonthDay =
  ymd_year :: int
  ymd_month :: int
  ymd_day :: int

definition getYearMonthDay :: "int \<Rightarrow> YearMonthDay" where
  "getYearMonthDay julianDay =
     (let a = julianDay + 32044;
          b = (4 * a + 3) sdiv 146097;
          c = a - (b * 146097) sdiv 4;
          d = (4 * c + 3) sdiv 1461;
          e = c - (1461 * d) sdiv 4;
          m = (5 * e + 2) sdiv 153;
          day = e - (153 * m + 2) sdiv 5 + 1;
          month = m + 3 - 12 * (m sdiv 10);
          year = b * 100 + d - 4800 + m sdiv 10
      in \<lparr>ymd_year = year, ymd_month = month, ymd_day = day\<rparr>)"

definition kJulianDayOf1970_01_01 :: int where
  "kJulianDayOf1970_01_01 = getJulianDay 1970 1 1"

definition kDaysPerWeek :: int where "kDaysPerWeek = 7"

definition weekDay :: "int \<Rightarrow> int" where
  "weekDay julianDay = (julianDay + 1) smod kDaysPerWeek"

text \<open>The format \<^verbatim>\<open>%4d-%02d-%02d\<close>.\<close>

definition toIsoString :: "int \<Rightarrow> string" where
  "toIsoString julianDay =
     (let ymd = getYearMonthDay julianDay in
      snprintf 32 (pad_int (CHR '' '') 4 (ymd_year ymd) @ ''-'' @ zero_pad 2 (ymd_month ymd) @ ''-''
        @ zero_pad 2 (ymd_day ymd)))"

section \<open>The calendar\<close>

definition leap :: "int \<Rightarrow> bool" where
  "leap y \<longleftrightarrow> y mod 4 = 0 \<and> (y mod 100 \<noteq> 0 \<or> y mod 400 = 0)"

definition days_in_month :: "int \<Rightarrow> int \<Rightarrow> int" where
  "days_in_month y m =
     (if m = 2 then if leap y then 29 else 28
      else if m \<in> {4, 6, 9, 11} then 30 else 31)"

definition valid_date :: "int \<Rightarrow> int \<Rightarrow> int \<Rightarrow> bool" where
  "valid_date y m d \<longleftrightarrow> 1 \<le> m \<and> m \<le> 12 \<and> 1 \<le> d \<and> d \<le> days_in_month y m"

definition next_day :: "int \<times> int \<times> int \<Rightarrow> int \<times> int \<times> int" where
  "next_day = (\<lambda>(y, m, d).
     if d < days_in_month y m then (y, m, d + 1)
     else if m < 12 then (y, m + 1, 1) else (y + 1, 1, 1))"

text \<open>1 March 4801 BC, the first day for which no division rounds towards zero from below.\<close>

definition in_range :: "int \<Rightarrow> int \<Rightarrow> bool" where
  "in_range y m \<longleftrightarrow> -4800 < y \<or> y = -4800 \<and> 3 \<le> m"

section \<open>Years that begin in March\<close>

lemma sdiv_nonneg: "0 \<le> (x :: int) \<Longrightarrow> 0 \<le> y \<Longrightarrow> x sdiv y = x div y"
  by (cases "x = 0 \<or> y = 0") (auto simp: signed_divide_int_def)

lemma smod_nonneg: "0 \<le> (x :: int) \<Longrightarrow> 0 \<le> y \<Longrightarrow> x smod y = x mod y"
  by (cases "x = 0") (auto simp: signed_modulo_int_def)

text \<open>\<open>day_of_year\<close> counts from 1 March, \<open>march_days\<close> the days before 1 March of the year \<open>y\<close>.\<close>

definition march_days :: "int \<Rightarrow> int" where
  "march_days y = 365 * y + y div 4 - y div 100 + y div 400"

definition march_year :: "int \<Rightarrow> int \<Rightarrow> int" where
  "march_year y m = (if m \<le> 2 then y + 4799 else y + 4800)"

definition march_month :: "int \<Rightarrow> int" where
  "march_month m = (if m \<le> 2 then m + 9 else m - 3)"

definition day_of_year :: "int \<Rightarrow> int \<Rightarrow> int" where
  "day_of_year m d = (153 * m + 2) div 5 + d - 1"

lemma month_cases:
  assumes "1 \<le> (m :: int)" and "m \<le> 12"
  shows "m = 1 \<or> m = 2 \<or> m = 3 \<or> m = 4 \<or> m = 5 \<or> m = 6 \<or> m = 7 \<or> m = 8 \<or> m = 9 \<or> m = 10 \<or> m = 11 \<or> m = 12"
  using assms by presburger

lemma getJulianDay_march:
  assumes "1 \<le> m" and "m \<le> 12" and "in_range y m"
  shows "getJulianDay y m d = march_days (march_year y m) + day_of_year (march_month m) d - 32044"
proof -
  have "(14 - m) sdiv 12 = (if m \<le> 2 then 1 else 0)"
  proof -
    have "(14 - m) div 12 = 1" if "m \<le> 2" using that assms(1) by presburger
    moreover have "(14 - m) div 12 = 0" if "\<not> m \<le> 2" using that assms(2) by presburger
    ultimately show ?thesis using assms by (simp add: sdiv_nonneg)
  qed
  moreover have "0 \<le> march_year y m" "0 \<le> march_month m"
    using assms by (auto simp: march_year_def march_month_def in_range_def)
  ultimately show ?thesis
    by (auto simp: getJulianDay_def march_days_def march_year_def march_month_def day_of_year_def Let_def
        sdiv_nonneg algebra_simps)
qed

lemma div_unique_pos: "0 \<le> r \<Longrightarrow> r < n \<Longrightarrow> (q * n + r) div n = (q :: int)"
  by (rule int_div_pos_eq [of _ _ _ r]) simp_all

lemma div_multiple: "(n :: int) \<noteq> 0 \<Longrightarrow> (n * q + r) div n = q + r div n"
  by simp

text \<open>Decoding, for a year of \<open>b\<close> centuries and \<open>d\<close> years.\<close>

lemma century_days: "0 \<le> d \<Longrightarrow> d < 100 \<Longrightarrow> march_days (100 * b + d) = (b * 146097) div 4 + 365 * d + d div 4"
proof -
  assume d: "0 \<le> d" "d < 100"
  have hundred: "(100 * b + d) div 100 = b"
    using div_unique_pos [OF d, of b] by (simp only: mult.commute [of b])
  have "(100 * b + d) div 400 = (100 * b + d) div 100 div 4"
    using zdiv_zmult2_eq [of 4 "100 * b + d" 100] by (simp only: arith_simps zero_le_numeral simp_thms)
  then have four_hundred: "(100 * b + d) div 400 = b div 4" by (simp only: hundred)
  have four: "(100 * b + d) div 4 = 25 * b + d div 4"
    using div_multiple [of 4 "25 * b" d] by (simp only: mult.assoc [symmetric] arith_simps zero_neq_numeral)
  have "(b * 146097) div 4 = 36524 * b + b div 4"
    using div_multiple [of 4 "36524 * b" b] by (simp add: algebra_simps)
  then show ?thesis unfolding march_days_def hundred four_hundred four by simp
qed

definition long_year :: "int \<Rightarrow> bool" where
  "long_year y \<longleftrightarrow> (y + 1) mod 4 = 0 \<and> ((y + 1) mod 100 \<noteq> 0 \<or> (y + 1) mod 400 = 0)"

lemma long_year_century:
  assumes "long_year (100 * b + 99)"
  shows "b mod 4 = 3"
proof -
  have "(100 * b + 100) mod 100 = 0" by simp
  with assms have "(100 * (b + 1)) mod (100 * 4) = 0" by (simp add: long_year_def algebra_simps)
  then have "100 * ((b + 1) mod 4) = 0" by (simp only: mod_mult_mult1)
  then have "(b + 1) mod 4 = 0" by simp
  then show ?thesis by presburger
qed

lemma long_year_four:
  assumes "long_year (100 * b + d)"
  shows "d mod 4 = 3"
proof -
  have "(100 * b + d + 1) mod 4 = 0" using assms by (simp add: long_year_def)
  moreover have "(100 * b + d + 1) mod 4 = (d + 1) mod 4"
    using mod_mult_self2 [of "d + 1" 4 "25 * b"] by (simp add: algebra_simps)
  ultimately have "(d + 1) mod 4 = 0" by simp
  then show ?thesis by presburger
qed

lemma decode_march:
  assumes y: "0 \<le> y" and e: "0 \<le> e" "e \<le> 365" and last: "e = 365 \<longrightarrow> long_year y"
  shows "getYearMonthDay (march_days y + e - 32044) =
     (let m = (5 * e + 2) div 153 in
      \<lparr>ymd_year = y - 4800 + m div 10, ymd_month = m + 3 - 12 * (m div 10),
       ymd_day = e - (153 * m + 2) div 5 + 1\<rparr>)"
proof -
  define B where "B = y div 100"
  define D where "D = y mod 100"
  have yBD: "y = 100 * B + D" by (simp add: B_def D_def)
  have B: "0 \<le> B" using y by (simp add: B_def)
  have D: "0 \<le> D" "D < 100" by (simp_all add: D_def)
  define q where "q = D div 4"
  define r where "r = D mod 4"
  define s where "s = B mod 4"
  define c where "c = 365 * D + q + e"
  define a where "a = march_days y + e"
  have a: "a = (B * 146097) div 4 + c" using century_days [OF D, of B] by (simp add: a_def c_def q_def yBD)
  have D4: "0 \<le> q" "q \<le> 24" "4 * q = D - r" "0 \<le> r" "r \<le> 3"
    using D by (simp_all add: q_def r_def minus_mod_eq_mult_div [symmetric])
  have c0: "0 \<le> c" using D D4 e by (simp add: c_def)
  have B4: "0 \<le> s" "s \<le> 3" by (simp_all add: s_def)
  have cB: "4 * c + 3 - s < 146097"
  proof (cases "D = 99 \<and> e = 365")
    case True
    then have "s = 3" using last long_year_century [of B] yBD by (simp add: s_def)
    moreover have "c = 36524" using True by (simp add: c_def q_def)
    ultimately show ?thesis by simp
  next
    case False
    then have "365 * D + e \<le> 36499" using D e by linarith
    then show ?thesis using D4 B4 by (simp add: c_def)
  qed
  have "(B * 146097) mod 4 = s"
    unfolding s_def using mod_mult_self2 [of B 4 "36524 * B"] by (simp add: algebra_simps)
  then have "4 * ((B * 146097) div 4) = B * 146097 - s"
    using minus_mod_eq_mult_div [of "B * 146097" 4] by simp
  then have "4 * a + 3 = B * 146097 + (4 * c + 3 - s)" using a by simp
  then have b: "(4 * a + 3) div 146097 = B"
    using div_unique_pos [of "4 * c + 3 - s" 146097 B] cB c0 B4 by simp
  have "4 * c + 3 = D * 1461 + (4 * e + 3 - r)" using D4 by (simp add: c_def)
  moreover have "4 * e + 3 - r < 1461"
  proof (cases "e = 365")
    case True
    then have "r = 3" using last long_year_four [of B D] yBD by (simp add: r_def)
    with True show ?thesis by simp
  qed (use e D4 in linarith)
  ultimately have d: "(4 * c + 3) div 1461 = D"
    using div_unique_pos [of "4 * e + 3 - r" 1461 D] e D4 by simp
  have e': "c - (1461 * D) div 4 = e"
    using div_multiple [of 4 "365 * D" D] by (simp add: c_def q_def algebra_simps)
  have a0: "0 \<le> a" using a c0 B by (simp add: pos_imp_zdiv_nonneg_iff)
  define m where "m = (5 * e + 2) div 153"
  have m0: "0 \<le> m" using e by (simp add: m_def pos_imp_zdiv_nonneg_iff)
  have j: "march_days y + e - 32044 + 32044 = a" by (simp add: a_def)
  have s1: "(4 * a + 3) sdiv 146097 = B" using sdiv_nonneg [of "4 * a + 3" 146097] a0 b by simp
  have s2: "(B * 146097) sdiv 4 = (B * 146097) div 4" using B by (intro sdiv_nonneg) simp_all
  have s3: "a - (B * 146097) div 4 = c" unfolding a by simp
  have s4: "(4 * c + 3) sdiv 1461 = D" using sdiv_nonneg [of "4 * c + 3" 1461] c0 d by simp
  have s5: "(1461 * D) sdiv 4 = (1461 * D) div 4" using D by (intro sdiv_nonneg) simp_all
  have s6: "(5 * e + 2) sdiv 153 = m" unfolding m_def using e by (intro sdiv_nonneg) simp_all
  have s7: "(153 * m + 2) sdiv 5 = (153 * m + 2) div 5" using m0 by (intro sdiv_nonneg) simp_all
  have s8: "m sdiv 10 = m div 10" using m0 by (intro sdiv_nonneg) simp_all
  have "getYearMonthDay (march_days y + e - 32044) =
      \<lparr>ymd_year = B * 100 + D - 4800 + m div 10, ymd_month = m + 3 - 12 * (m div 10),
       ymd_day = e - (153 * m + 2) div 5 + 1\<rparr>"
    unfolding getYearMonthDay_def Let_def j s1 s2 s3 s4 s5 e' s6 s7 s8 by (rule refl)
  then show ?thesis unfolding Let_def m_def [symmetric] by (simp add: yBD mult.commute)
qed

section \<open>From March to January\<close>

lemma leap_long: "leap y \<longleftrightarrow> long_year (y + 4799)"
proof -
  have "(y + 4800) mod 4 = y mod 4" "(y + 4800) mod 100 = y mod 100" "(y + 4800) mod 400 = y mod 400"
    using mod_mult_self2 [of y 4 1200] mod_mult_self2 [of y 100 48] mod_mult_self2 [of y 400 12] by simp_all
  moreover have "y + 4799 + 1 = y + 4800" by simp
  ultimately show ?thesis unfolding leap_def long_year_def by presburger
qed

lemma day_of_year_decodes:
  assumes "valid_date y m d"
  defines "e \<equiv> day_of_year (march_month m) d"
  shows "0 \<le> e" and "e \<le> 365" and "e = 365 \<longrightarrow> long_year (march_year y m)"
    and "(5 * e + 2) div 153 = march_month m"
    and "e - (153 * march_month m + 2) div 5 + 1 = d"
    and "march_month m + 3 - 12 * (march_month m div 10) = m"
    and "march_year y m - 4800 + march_month m div 10 = y"
proof -
  have m: "1 \<le> m" "m \<le> 12" and d: "1 \<le> d" "d \<le> days_in_month y m" using assms(1) by (auto simp: valid_date_def)
  have d': "d \<le> (if m = 2 then if leap y then 29 else 28 else if m \<in> {4, 6, 9, 11} then 30 else 31)"
    using d(2) by (simp only: days_in_month_def)
  note cases = month_cases [OF m]
  show "0 \<le> e" and "e \<le> 365" using cases d d' unfolding e_def day_of_year_def march_month_def
    by (elim disjE; simp split: if_splits)+
  show "e = 365 \<longrightarrow> long_year (march_year y m)" using cases d d' leap_long [of y]
    unfolding e_def day_of_year_def march_month_def march_year_def
    by (elim disjE; simp split: if_splits)
  show "(5 * e + 2) div 153 = march_month m" using cases d d'
    unfolding e_def day_of_year_def march_month_def
    by (elim disjE; simp split: if_splits; presburger)
  show "e - (153 * march_month m + 2) div 5 + 1 = d" by (simp add: e_def day_of_year_def)
  show "march_month m + 3 - 12 * (march_month m div 10) = m" "march_year y m - 4800 + march_month m div 10 = y"
    using cases unfolding march_month_def march_year_def by (elim disjE; simp)+
qed

lemma date_round_trip:
  assumes "valid_date y m d" and "in_range y m"
  shows "getYearMonthDay (getJulianDay y m d) = \<lparr>ymd_year = y, ymd_month = m, ymd_day = d\<rparr>"
proof -
  have m: "1 \<le> m" "m \<le> 12" using assms(1) by (auto simp: valid_date_def)
  have "0 \<le> march_year y m" using assms(2) by (auto simp: march_year_def in_range_def)
  from decode_march [OF this day_of_year_decodes(1-3) [OF assms(1)]] day_of_year_decodes(4-7) [OF assms(1)]
  show ?thesis by (simp add: getJulianDay_march [OF m assms(2)] Let_def)
qed

text \<open>Consecutive days have consecutive numbers.\<close>

lemma div_Suc:
  assumes "0 < (k :: int)"
  shows "(n + 1) div k = n div k + (if (n + 1) mod k = 0 then 1 else 0)"
proof -
  define q where "q = n div k"
  define r where "r = n mod k"
  have n: "n = q * k + r" and r: "0 \<le> r" "r < k" using assms by (simp_all add: q_def r_def)
  show ?thesis
  proof (cases "r + 1 = k")
    case True
    then have "n + 1 = (q + 1) * k" using n by (simp add: algebra_simps)
    then have "(n + 1) div k = q + 1" "(n + 1) mod k = 0" using assms by simp_all
    then show ?thesis by (simp add: q_def)
  next
    case False
    then have r1: "0 \<le> r + 1" "r + 1 < k" using r by simp_all
    have n1: "n + 1 = q * k + (r + 1)" by (simp add: n)
    have "(n + 1) div k = q" unfolding n1 by (rule div_unique_pos [OF r1])
    moreover have "(n + 1) mod k = r + 1"
      unfolding n1 using r1 by (simp only: mod_mult_self3 mod_pos_pos_trivial)
    ultimately show ?thesis using r by (simp add: q_def)
  qed
qed

lemma mod_dvd_mod: "n mod (a * b) = 0 \<Longrightarrow> n mod a = (0 :: int)"
  by (metis dvd_imp_mod_0 dvd_mult_left mod_0_imp_dvd)

lemma leap_rule:
  fixes y :: int
  assumes "d4' = d4 + (if p4 then 1 else 0)" "d100' = d100 + (if p100 then 1 else 0)"
    "d400' = d400 + (if p400 then 1 else 0)" "p400 \<Longrightarrow> p100" "p100 \<Longrightarrow> p4"
  shows "365 * (y + 1) + d4' - d100' + d400' =
     365 * y + d4 - d100 + d400 + 365 + (if p4 \<and> (\<not> p100 \<or> p400) then 1 else 0)"
  using assms(4,5) unfolding assms(1-3) by (cases p4; cases p100; cases p400; simp)

lemma march_days_Suc: "march_days (y + 1) = march_days y + 365 + (if long_year y then 1 else 0)"
proof -
  have "(y + 1) mod 400 = 0 \<Longrightarrow> (y + 1) mod 100 = 0" "(y + 1) mod 100 = 0 \<Longrightarrow> (y + 1) mod 4 = 0"
    using mod_dvd_mod [of "y + 1" 100 4] mod_dvd_mod [of "y + 1" 4 25] by (simp_all only: arith_simps)
  from leap_rule [OF div_Suc [of 4 y] div_Suc [of 100 y] div_Suc [of 400 y] this, of y]
  show ?thesis unfolding march_days_def long_year_def by (simp only: zero_less_numeral)
qed

lemma next_day_valid:
  assumes "valid_date y m d" and "next_day (y, m, d) = (y', m', d')"
  shows "valid_date y' m' d'" and "in_range y m \<Longrightarrow> in_range y' m'"
proof -
  have "1 \<le> days_in_month a b" for a b by (simp add: days_in_month_def)
  then show "valid_date y' m' d'" using assms by (auto simp: valid_date_def next_day_def split: if_splits)
  show "in_range y' m'" if "in_range y m"
    using assms that by (auto simp: in_range_def next_day_def split: if_splits)
qed

lemma next_day_number:
  assumes "valid_date y m d" and "in_range y m" and nxt: "next_day (y, m, d) = (y', m', d')"
  shows "getJulianDay y' m' d' = getJulianDay y m d + 1"
proof -
  note v' = next_day_valid [OF assms(1) nxt]
  have m: "1 \<le> m" "m \<le> 12" and m': "1 \<le> m'" "m' \<le> 12" and d: "d \<le> days_in_month y m"
    using assms(1) v'(1) by (auto simp: valid_date_def)
  note n = getJulianDay_march [OF m assms(2)] getJulianDay_march [OF m' v'(2) [OF assms(2)]]
  have d': "d \<le> (if m = 2 then if leap y then 29 else 28 else if m \<in> {4, 6, 9, 11} then 30 else 31)"
    using d by (simp only: days_in_month_def)
  consider "d < days_in_month y m" | "d = days_in_month y m" "m < 12" | "d = days_in_month y m" "m = 12"
    using d m by linarith
  then show ?thesis
  proof cases
    case 1
    with nxt n show ?thesis by (simp add: next_day_def day_of_year_def)
  next
    case 2
    have feb: "march_days (y + 4800) = march_days (y + 4799) + 365 + (if leap y then 1 else 0)"
      using march_days_Suc [of "y + 4799"] by (simp only: leap_long add.assoc one_plus_numeral numeral_plus_one arith_simps)
    from 2 nxt have next': "y' = y" "m' = m + 1" "d' = 1" by (simp_all add: next_day_def)
    show ?thesis
      using month_cases [OF m] 2 feb unfolding next' n [unfolded next'] march_year_def march_month_def day_of_year_def days_in_month_def
      by (elim disjE; simp)
  next
    case 3
    from 3 nxt have next': "y' = y + 1" "m' = 1" "d' = 1" by (simp_all add: next_day_def)
    show ?thesis
      using 3 unfolding next' n [unfolded next'] march_year_def march_month_def day_of_year_def days_in_month_def
      by (simp add: add.assoc)
  qed
qed

text \<open>So every number from the first day on is the number of a date.\<close>

lemma date_of_number:
  "-32044 \<le> j \<Longrightarrow> \<exists>y m d. valid_date y m d \<and> in_range y m \<and> getJulianDay y m d = j"
proof (induction j rule: int_ge_induct)
  case base
  have "getJulianDay (-4800) 3 1 = -32044"
    by (simp add: getJulianDay_march in_range_def march_days_def march_year_def march_month_def day_of_year_def)
  then show ?case
    by (intro exI [of _ "-4800"] exI [of _ 3] exI [of _ 1]) (simp add: valid_date_def days_in_month_def in_range_def)
next
  case (step j)
  then obtain y m d where v: "valid_date y m d" "in_range y m" "getJulianDay y m d = j" by blast
  obtain y' m' d' where nxt: "next_day (y, m, d) = (y', m', d')" by (metis prod_cases3)
  from next_day_valid [OF v(1) nxt] next_day_number [OF v(1,2) nxt] v show ?case by auto
qed

lemma number_round_trip:
  assumes "-32044 \<le> j"
  shows "let ymd = getYearMonthDay j in
     valid_date (ymd_year ymd) (ymd_month ymd) (ymd_day ymd) \<and> in_range (ymd_year ymd) (ymd_month ymd) \<and>
     getJulianDay (ymd_year ymd) (ymd_month ymd) (ymd_day ymd) = j"
proof -
  obtain y m d where v: "valid_date y m d" "in_range y m" "getJulianDay y m d = j"
    using date_of_number [OF assms] by blast
  from date_round_trip [OF v(1,2)] v show ?thesis by (simp add: Let_def)
qed

text \<open>No product overflows an \<^verbatim>\<open>int\<close> up to the year 1462000.\<close>

lemma julian_fits:
  fixes j :: int
  assumes "-32044 \<le> j" and "j \<le> 536000000"
  defines "a \<equiv> j + 32044"
  defines "b \<equiv> (4 * a + 3) div 146097"
  defines "c \<equiv> a - (b * 146097) div 4"
  defines "d \<equiv> (4 * c + 3) div 1461"
  shows "4 * a + 3 < 2 ^ 31 \<and> b * 146097 \<le> 4 * a + 3 \<and> 0 \<le> c \<and> c < 36525 \<and> 1461 * d \<le> 4 * c + 3"
proof -
  have div_le: "x div n * n \<le> x \<and> x < x div n * n + n" if "0 < n" for x n :: int
    using that pos_mod_bound [OF that, of x] pos_mod_sign [OF that, of x] div_mult_mod_eq [of x n] by linarith
  define h where "h = (b * 146097) div 4"
  have "b * 146097 \<le> 4 * a + 3" "4 * a + 3 < b * 146097 + 146097"
    using div_le [of 146097 "4 * a + 3"] by (simp_all add: b_def)
  moreover have "h * 4 \<le> b * 146097" "b * 146097 < h * 4 + 4"
    using div_le [of 4 "b * 146097"] by (simp_all add: h_def)
  moreover have "d * 1461 \<le> 4 * c + 3" using div_le [of 1461 "4 * c + 3"] by (simp add: d_def)
  moreover have "c = a - h" by (simp add: c_def h_def)
  ultimately show ?thesis using assms(1,2) by (simp add: a_def)
qed

section \<open>The properties\<close>


text \<open>
  Every julian day number from -32044 on decodes to a date of the calendar, and that date has
  this number.
\<close>

theorem every_number_is_a_date:
  assumes "-32044 \<le> julianDay"
  shows "let ymd = getYearMonthDay julianDay in
     valid_date (ymd_year ymd) (ymd_month ymd) (ymd_day ymd) \<and>
     getJulianDay (ymd_year ymd) (ymd_month ymd) (ymd_day ymd) = julianDay"
  using number_round_trip [OF assms] by (simp add: Let_def)


lemma every_number_is_a_date_witness:
  "let ymd = getYearMonthDay 2451545 in
   valid_date (ymd_year ymd) (ymd_month ymd) (ymd_day ymd) \<and>
   getJulianDay (ymd_year ymd) (ymd_month ymd) (ymd_day ymd) = 2451545"
  by (rule every_number_is_a_date) simp

end
