(* ===== verification/Comparable.thy ===== *)
theory Comparable
  imports Date
begin

text \<open>
  \<^verbatim>\<open>include/gg_lib/comparable.h\<close>: the operators that a class gets from its \<^verbatim>\<open><\<close> and \<^verbatim>\<open>==\<close>, and the two classes that
  use it, \<^verbatim>\<open>Timestamp\<close> and \<^verbatim>\<open>Date\<close>, with the members of \<^verbatim>\<open>Date\<close> that build, read and move dates. A \<^verbatim>\<open>Date\<close> is its
  julian day number; numbers compare as the dates of the calendar do.
\<close>

section \<open>The derived operators\<close>

definition not_equals :: "('a \<Rightarrow> 'a \<Rightarrow> bool) \<Rightarrow> 'a \<Rightarrow> 'a \<Rightarrow> bool" where
  "not_equals eq lhs rhs \<longleftrightarrow> \<not> eq lhs rhs"

definition greater_than :: "('a \<Rightarrow> 'a \<Rightarrow> bool) \<Rightarrow> 'a \<Rightarrow> 'a \<Rightarrow> bool" where
  "greater_than lt lhs rhs \<longleftrightarrow> lt rhs lhs"

definition less_or_equal :: "('a \<Rightarrow> 'a \<Rightarrow> bool) \<Rightarrow> 'a \<Rightarrow> 'a \<Rightarrow> bool" where
  "less_or_equal lt lhs rhs \<longleftrightarrow> \<not> lt rhs lhs"

definition greater_or_equal :: "('a \<Rightarrow> 'a \<Rightarrow> bool) \<Rightarrow> 'a \<Rightarrow> 'a \<Rightarrow> bool" where
  "greater_or_equal lt lhs rhs \<longleftrightarrow> \<not> lt lhs rhs"

lemmas derived_operators = not_equals_def greater_than_def less_or_equal_def greater_or_equal_def

text \<open>What a class must promise, and what its operators then are: the total order that belongs to \<^verbatim>\<open><\<close>.\<close>

locale comparable =
  fixes lt eq :: "'a \<Rightarrow> 'a \<Rightarrow> bool"
  assumes lt_irrefl: "\<not> lt x x"
    and lt_trans: "lt x y \<Longrightarrow> lt y z \<Longrightarrow> lt x z"
    and eq_unordered: "eq x y \<longleftrightarrow> \<not> lt x y \<and> \<not> lt y x"
    and eq_same: "eq x y \<Longrightarrow> x = y"
begin

lemma less_or_equal_iff: "less_or_equal lt x y \<longleftrightarrow> lt x y \<or> eq x y"
  using lt_irrefl lt_trans eq_unordered by (auto simp: less_or_equal_def)

lemma less_or_equal_refl: "less_or_equal lt x x"
  by (simp add: less_or_equal_def lt_irrefl)

lemma less_or_equal_trans: "less_or_equal lt x y \<Longrightarrow> less_or_equal lt y z \<Longrightarrow> less_or_equal lt x z"
  unfolding less_or_equal_iff by (metis lt_trans eq_same)

lemma less_or_equal_antisym: "less_or_equal lt x y \<Longrightarrow> less_or_equal lt y x \<Longrightarrow> x = y"
  using eq_unordered eq_same by (auto simp: less_or_equal_def)

lemma less_or_equal_total: "less_or_equal lt x y \<or> greater_than lt x y"
  by (simp add: less_or_equal_def greater_than_def)

lemma greater_or_equal_iff: "greater_or_equal lt x y \<longleftrightarrow> less_or_equal lt y x"
  by (simp add: less_or_equal_def greater_or_equal_def)

lemma not_equals_iff: "not_equals eq x y \<longleftrightarrow> lt x y \<or> greater_than lt x y"
  using eq_unordered by (auto simp: not_equals_def greater_than_def)

end

section \<open>Timestamps and dates\<close>

definition Timestamp_less :: "int \<Rightarrow> int \<Rightarrow> bool" where
  "Timestamp_less lhs rhs \<longleftrightarrow> lhs < rhs"

definition Timestamp_equal :: "int \<Rightarrow> int \<Rightarrow> bool" where
  "Timestamp_equal lhs rhs \<longleftrightarrow> lhs = rhs"

definition Date_less :: "int \<Rightarrow> int \<Rightarrow> bool" where
  "Date_less lhs rhs \<longleftrightarrow> lhs < rhs"

definition Date_equal :: "int \<Rightarrow> int \<Rightarrow> bool" where
  "Date_equal lhs rhs \<longleftrightarrow> lhs = rhs"

interpretation tc: comparable Timestamp_less Timestamp_equal
  by unfold_locales (auto simp: Timestamp_less_def Timestamp_equal_def)

interpretation dc: comparable Date_less Date_equal
  by unfold_locales (auto simp: Date_less_def Date_equal_def)

definition Date_new :: int where "Date_new = 0"

definition Date_of_ymd :: "int \<Rightarrow> int \<Rightarrow> int \<Rightarrow> int" where
  "Date_of_ymd year month day = getJulianDay year month day"

definition Date_of_tm :: "tm \<Rightarrow> int" where
  "Date_of_tm t = getJulianDay (tm_year t + 1900) (tm_mon t + 1) (tm_mday t)"

definition Date_swap :: "int \<Rightarrow> int \<Rightarrow> int \<times> int" where
  "Date_swap this that = (that, this)"

definition Date_bool :: "int \<Rightarrow> bool" where
  "Date_bool date \<longleftrightarrow> date > 0"

definition yearMonthDay :: "int \<Rightarrow> YearMonthDay" where
  "yearMonthDay date = getYearMonthDay date"

definition Date_year :: "int \<Rightarrow> int" where "Date_year date = ymd_year (yearMonthDay date)"

definition Date_month :: "int \<Rightarrow> int" where "Date_month date = ymd_month (yearMonthDay date)"

definition Date_day :: "int \<Rightarrow> int" where "Date_day date = ymd_day (yearMonthDay date)"

definition Date_plus :: "int \<Rightarrow> int \<Rightarrow> int" where
  "Date_plus date days = date + days"

section \<open>The order of the calendar\<close>

definition before :: "int \<times> int \<times> int \<Rightarrow> int \<times> int \<times> int \<Rightarrow> bool" where
  "before = (\<lambda>(y, m, d) (y', m', d'). y < y' \<or> y = y' \<and> (m < m' \<or> m = m' \<and> d < d'))"

lemma march_days_mono: "y \<le> y' \<Longrightarrow> march_days y \<le> march_days y'"
proof (induction y' rule: int_ge_induct)
  case (step y')
  then show ?case using march_days_Suc [of y'] by simp
qed simp

lemma year_ends:
  assumes "valid_date y m d"
  shows "march_days (march_year y m) + day_of_year (march_month m) d < march_days (march_year y m + 1)"
  using day_of_year_decodes(2,3) [OF assms] march_days_Suc [of "march_year y m"] by (auto split: if_splits)

lemma month_ends:
  assumes "valid_date y m d" and "m \<noteq> 2" and "march_month m < march_month m'" and "1 \<le> m'" and "m' \<le> 12" and "1 \<le> d'"
  shows "day_of_year (march_month m) d < day_of_year (march_month m') d'"
proof -
  have m: "1 \<le> m" "m \<le> 12" and d: "d \<le> days_in_month y m" using assms(1) by (auto simp: valid_date_def)
  have first: "(153 * march_month m + 2) div 5 + d \<le> (153 * (march_month m + 1) + 2) div 5"
    using month_cases [OF m] assms(2) d unfolding days_in_month_def march_month_def
    by (elim disjE; simp split: if_splits)
  have "(153 * (march_month m + 1) + 2) div 5 \<le> (153 * march_month m' + 2) div 5"
    using assms(3) by (intro zdiv_mono1) simp_all
  with first assms(6) show ?thesis by (simp add: day_of_year_def)
qed

lemma number_increases:
  assumes v: "valid_date y m d" "valid_date y' m' d'" and r: "in_range y m" "in_range y' m'"
    and b: "before (y, m, d) (y', m', d')"
  shows "getJulianDay y m d < getJulianDay y' m' d'"
proof -
  have m: "1 \<le> m" "m \<le> 12" "1 \<le> m'" "m' \<le> 12" "1 \<le> d'" using v by (simp_all add: valid_date_def)
  let ?Y = "march_year y m" and ?Y' = "march_year y' m'"
  note num = getJulianDay_march [OF m(1,2) r(1), of d] getJulianDay_march [OF m(3,4) r(2), of d']
  consider (year) "?Y + 1 \<le> ?Y'" | (month) "?Y = ?Y'" "march_month m < march_month m'" "m \<noteq> 2" | (day) "?Y = ?Y'" "m = m'" "d < d'"
  proof -
    have "?Y + 1 \<le> ?Y' \<or> ?Y = ?Y' \<and> march_month m < march_month m' \<and> m \<noteq> 2 \<or> ?Y = ?Y' \<and> m = m' \<and> d < d'"
      using b m by (auto simp: before_def march_year_def march_month_def split: if_splits)
    then show ?thesis using that by blast
  qed
  then show ?thesis
  proof cases
    case year
    have "march_days ?Y + day_of_year (march_month m) d < march_days (?Y + 1)" by (rule year_ends [OF v(1)])
    also have "\<dots> \<le> march_days ?Y'" by (rule march_days_mono [OF year])
    finally show ?thesis using num day_of_year_decodes(1) [OF v(2)] by simp
  next
    case month
    with month_ends [OF v(1) month(3,2) m(3-5)] num show ?thesis by simp
  next
    case day
    then show ?thesis using num by (simp add: day_of_year_def)
  qed
qed

text \<open>
  Dates compare as their year, month and day do, and a date that is built can be read again and moved by days.
\<close>

theorem dates_compare_as_calendar:
  assumes "valid_date y m d" and "valid_date y' m' d'" and "in_range y m" and "in_range y' m'"
  shows "Date_less (Date_of_ymd y m d) (Date_of_ymd y' m' d') \<longleftrightarrow> before (y, m, d) (y', m', d')"
    and "less_or_equal Date_less (Date_of_ymd y m d) (Date_of_ymd y' m' d') \<longleftrightarrow>
      before (y, m, d) (y', m', d') \<or> (y, m, d) = (y', m', d')"
proof -
  have tri: "before (y, m, d) (y', m', d') \<or> (y, m, d) = (y', m', d') \<or> before (y', m', d') (y, m, d)"
    by (auto simp: before_def)
  have "\<not> (before (y, m, d) (y', m', d') \<and> before (y', m', d') (y, m, d))" "\<not> before (y, m, d) (y, m, d)"
    by (auto simp: before_def)
  with tri number_increases [OF assms] number_increases [OF assms(2,1,4,3)]
  show "Date_less (Date_of_ymd y m d) (Date_of_ymd y' m' d') \<longleftrightarrow> before (y, m, d) (y', m', d')"
    and "less_or_equal Date_less (Date_of_ymd y m d) (Date_of_ymd y' m' d') \<longleftrightarrow>
      before (y, m, d) (y', m', d') \<or> (y, m, d) = (y', m', d')"
    by (auto simp: Date_less_def Date_of_ymd_def less_or_equal_def)
qed

lemma date_members:
  assumes "valid_date y m d" and "in_range y m"
  shows "Date_year (Date_of_ymd y m d) = y" "Date_month (Date_of_ymd y m d) = m" "Date_day (Date_of_ymd y m d) = d"
    and "next_day (y, m, d) = (y', m', d') \<Longrightarrow> Date_plus (Date_of_ymd y m d) 1 = Date_of_ymd y' m' d'"
  using date_round_trip [OF assms] next_day_number [OF assms]
  by (simp_all add: Date_year_def Date_month_def Date_day_def Date_of_ymd_def yearMonthDay_def Date_plus_def)

end
