(* ===== verification/TimeZone.thy ===== *)
theory TimeZone
  imports Date Endian
begin

text \<open>
  \<^verbatim>\<open>gg_lib/TimeZone.cc\<close> and the class \<^verbatim>\<open>ReadFile\<close> of \<^verbatim>\<open>FileUtil.h\<close>: the conversion between seconds
  since the epoch and broken-down times, the search of the offset that is in force, and the
  reading of a time zone file. A file is the string of its bytes that are still to be read; the
  C library's \<^verbatim>\<open>gmtime_r\<close> and \<^verbatim>\<open>timegm\<close> are the conversions of the Gregorian calendar.
\<close>

section \<open>Universal time\<close>

record broken_down = tm +
  tm_wday :: int
  tm_yday :: int
  tm_isdst :: bool
  tm_gmtoff :: int
  tm_zone :: string

definition kSecondsPerDay :: int where
  "kSecondsPerDay = 24 * 60 * 60"

text \<open>\<^verbatim>\<open>static_cast<int>\<close> of a 64-bit integer.\<close>

definition to_int32 :: "int \<Rightarrow> int" where
  "to_int32 x = signed_take_bit 31 x"

text \<open>The hour, the minute and the second of \<open>fillHMS\<close>.\<close>

definition fillHMS :: "nat \<Rightarrow> int \<times> int \<times> int" where
  "fillHMS seconds =
     (let minutes = seconds div 60 in
      (int (minutes div 60), int (minutes mod 60), int (seconds mod 60)))"

definition toUtcTime :: "int \<Rightarrow> bool \<Rightarrow> broken_down" where
  "toUtcTime epoch_seconds yday =
     (let seconds0 = to_int32 (epoch_seconds smod kSecondsPerDay);
          days0 = to_int32 (epoch_seconds sdiv kSecondsPerDay);
          (seconds, days) = (if seconds0 < 0 then (seconds0 + kSecondsPerDay, days0 - 1) else (seconds0, days0));
          (hour, minute, sec) = fillHMS (nat seconds);
          date = days + kJulianDayOf1970_01_01;
          ymd = getYearMonthDay date
      in \<lparr>tm_year = ymd_year ymd - 1900, tm_mon = ymd_month ymd - 1, tm_mday = ymd_day ymd,
          tm_hour = hour, tm_min = minute, tm_sec = sec, tm_wday = weekDay date,
          tm_yday = (if yday then date - getJulianDay (ymd_year ymd) 1 1 else 0),
          tm_isdst = False, tm_gmtoff = 0, tm_zone = ''GMT''\<rparr>)"

definition fromUtcTime_fields :: "int \<Rightarrow> int \<Rightarrow> int \<Rightarrow> int \<Rightarrow> int \<Rightarrow> int \<Rightarrow> int" where
  "fromUtcTime_fields year month day hour minute seconds =
     (let secondsInDay = hour * 3600 + minute * 60 + seconds;
          days = getJulianDay year month day - kJulianDayOf1970_01_01
      in days * kSecondsPerDay + secondsInDay)"

definition fromUtcTime :: "'a tm_scheme \<Rightarrow> int" where
  "fromUtcTime utc = fromUtcTime_fields (tm_year utc + 1900) (tm_mon utc + 1) (tm_mday utc)
     (tm_hour utc) (tm_min utc) (tm_sec utc)"

section \<open>Offsets\<close>

record transition =
  gmttime :: int
  localtime :: int
  localtimeIdx :: nat

record local_time =
  gmtOffset :: int
  isDst :: bool
  arrbIdx :: nat

record zone_data =
  transitions :: "transition list"
  localtimes :: "local_time list"
  abbreviations :: bytes
  zoneAbbr :: bytes

text \<open>The field that a \<open>Comp\<close> compares.\<close>

definition comp_key :: "bool \<Rightarrow> transition \<Rightarrow> int" where
  "comp_key compareGmt t = (if compareGmt then gmttime t else localtime t)"

text \<open>\<^verbatim>\<open>std::lower_bound\<close> on a sorted range: the number of elements before \<open>x\<close>.\<close>

definition lower_bound :: "('a \<Rightarrow> 'a \<Rightarrow> bool) \<Rightarrow> 'a \<Rightarrow> 'a list \<Rightarrow> nat" where
  "lower_bound before x xs = length (takeWhile (\<lambda>y. before y x) xs)"

definition element :: "'a list \<Rightarrow> nat \<Rightarrow> 'a result" where
  "element xs i = (if i < length xs then Inr (xs ! i) else Inl Out_of_bounds)"

definition findLocalTime :: "zone_data \<Rightarrow> transition \<Rightarrow> bool \<Rightarrow> local_time result" where
  "findLocalTime data sentry compareGmt =
     (let key = comp_key compareGmt; ts = transitions data in
      if ts = [] \<or> key sentry < key (hd ts) then element (localtimes data) 0
      else let i = lower_bound (\<lambda>a b. key a < key b) sentry ts in
        if i < length ts then
          (if key sentry \<noteq> key (ts ! i)
           then check (i \<noteq> 0) (element (localtimes data) (localtimeIdx (ts ! (i - 1))))
           else element (localtimes data) (localtimeIdx (ts ! i)))
        else element (localtimes data) (localtimeIdx (last ts)))"

definition gmt_sentry :: "int \<Rightarrow> transition" where
  "gmt_sentry seconds = \<lparr>gmttime = seconds, localtime = 0, localtimeIdx = 0\<rparr>"

definition local_sentry :: "int \<Rightarrow> transition" where
  "local_sentry seconds = \<lparr>gmttime = 0, localtime = seconds, localtimeIdx = 0\<rparr>"

text \<open>The pointer to a character of the abbreviations; the one past the last is a NUL.\<close>

definition abbreviation_at :: "zone_data \<Rightarrow> nat \<Rightarrow> bytes result" where
  "abbreviation_at data i =
     (if i \<le> length (abbreviations data) then Inr (c_str (drop i (abbreviations data))) else Inl Out_of_bounds)"

definition TimeZone_fixed :: "int \<Rightarrow> bytes \<Rightarrow> zone_data" where
  "TimeZone_fixed eastOfUtc name =
     \<lparr>transitions = [], localtimes = [\<lparr>gmtOffset = eastOfUtc, isDst = False, arrbIdx = 0\<rparr>],
      abbreviations = c_str name, zoneAbbr = []\<rparr>"

definition gmtime_r :: "int \<Rightarrow> broken_down" where
  "gmtime_r seconds = toUtcTime seconds True"

definition timegm :: "broken_down \<Rightarrow> int" where
  "timegm t = fromUtcTime t"

text \<open>A time zone without data is \<open>None\<close>.\<close>

definition toLocalTime :: "zone_data option \<Rightarrow> int \<Rightarrow> broken_down result" where
  "toLocalTime zone seconds =
     (case zone of
        None \<Rightarrow> Inl Assert_failed
      | Some data \<Rightarrow>
          and_then (findLocalTime data (gmt_sentry seconds) True) (\<lambda>local.
          and_then (abbreviation_at data (arrbIdx local)) (\<lambda>zone.
            Inr ((gmtime_r (seconds + gmtOffset local))
              \<lparr>tm_isdst := isDst local, tm_gmtoff := gmtOffset local, tm_zone := zone\<rparr>))))"

definition fromLocalTime :: "zone_data option \<Rightarrow> broken_down \<Rightarrow> int result" where
  "fromLocalTime zone localTm =
     (case zone of
        None \<Rightarrow> Inl Assert_failed
      | Some data \<Rightarrow>
          let seconds = timegm localTm in
          and_then (findLocalTime data (local_sentry seconds) False) (\<lambda>local.
            if tm_isdst localTm then
              and_then (toLocalTime zone (seconds - gmtOffset local)) (\<lambda>tryTm.
                let seconds' = (if \<not> tm_isdst tryTm \<and> tm_hour tryTm = tm_hour localTm \<and>
                                  tm_min tryTm = tm_min localTm then seconds - 3600 else seconds)
                in Inr (seconds' - gmtOffset local))
            else Inr (seconds - gmtOffset local)))"

text \<open>\<open>now\<close> is the result of \<^verbatim>\<open>time(nullptr)\<close>.\<close>

definition getZoneAbbr :: "int \<Rightarrow> zone_data \<Rightarrow> (bytes \<times> zone_data) result" where
  "getZoneAbbr now data =
     (if zoneAbbr data = [] then
        and_then (findLocalTime data (gmt_sentry now) True) (\<lambda>local.
        and_then (abbreviation_at data (arrbIdx local)) (\<lambda>z. Inr (z, data\<lparr>zoneAbbr := z\<rparr>)))
      else Inr (zoneAbbr data, data))"

definition getTimeOff :: "int \<Rightarrow> zone_data \<Rightarrow> int result" where
  "getTimeOff now data =
     map_sum id gmtOffset (findLocalTime data (gmt_sentry now) True)"

section \<open>Reading a file\<close>

definition passBytes :: "nat \<Rightarrow> bytes \<Rightarrow> bytes" where
  "passBytes n f = drop n f"

text \<open>A negative length makes \<^verbatim>\<open>std::string\<close> throw \<^verbatim>\<open>std::length_error\<close>, a \<^verbatim>\<open>logic_error\<close>.\<close>

definition readBytes :: "int \<Rightarrow> bytes \<Rightarrow> (bytes \<times> bytes) result" where
  "readBytes n f =
     (if n < 0 then Inl (Logic_error ''basic_string::_M_create'')
      else if nat n \<le> length f then Inr (take (nat n) f, drop (nat n) f)
      else Inl (Logic_error ''no enough data''))"

definition readInt32_file :: "bytes \<Rightarrow> (32 word \<times> bytes) result" where
  "readInt32_file f =
     (if 4 \<le> length f then Inr (bytes_object (take 4 f), drop 4 f)
      else Inl (Logic_error ''bad int32_t data''))"

definition readUInt8 :: "bytes \<Rightarrow> (nat \<times> bytes) result" where
  "readUInt8 f =
     (case f of c # cs \<Rightarrow> Inr (of_char c, cs) | [] \<Rightarrow> Inl (Logic_error ''bad uint8_t data''))"

definition be32 :: "bytes \<Rightarrow> (int \<times> bytes) result" where
  "be32 f = and_then (readInt32_file f) (\<lambda>(w, f'). Inr (sint (networkToHost32 w), f'))"

text \<open>\<open>read_times n\<close>: the loop that reads \<open>n\<close> values.\<close>

fun read_times :: "nat \<Rightarrow> (bytes \<Rightarrow> ('a \<times> bytes) result) \<Rightarrow> bytes \<Rightarrow> ('a list \<times> bytes) result" where
  "read_times 0 r f = Inr ([], f)"
| "read_times (Suc n) r f =
     and_then (r f) (\<lambda>(x, f1). and_then (read_times n r f1) (\<lambda>(xs, f2). Inr (x # xs, f2)))"

definition read_local_time :: "bytes \<Rightarrow> (local_time \<times> bytes) result" where
  "read_local_time f =
     and_then (be32 f) (\<lambda>(gmtoff, f1).
     and_then (readUInt8 f1) (\<lambda>(isdst, f2).
     and_then (readUInt8 f2) (\<lambda>(abbrind, f3).
       Inr (\<lparr>gmtOffset = gmtoff, isDst = (isdst \<noteq> 0), arrbIdx = abbrind\<rparr>, f3))))"

fun make_transitions :: "local_time list \<Rightarrow> (int \<times> nat) list \<Rightarrow> transition list result" where
  "make_transitions ls [] = Inr []"
| "make_transitions ls ((t, idx) # ts) =
     and_then (element ls idx) (\<lambda>l.
     and_then (make_transitions ls ts) (\<lambda>rest.
       Inr (\<lparr>gmttime = t, localtime = t + gmtOffset l, localtimeIdx = idx\<rparr> # rest)))"

definition read_zone :: "bytes \<Rightarrow> zone_data result" where
  "read_zone f =
     and_then (readBytes 4 f) (\<lambda>(head, f).
     and_then (if head \<noteq> ''TZif'' then Inl (Logic_error ''bad head'') else Inr ()) (\<lambda>_.
     and_then (readBytes 1 f) (\<lambda>(version, f).
     let f = passBytes 15 f in
     and_then (be32 f) (\<lambda>(isgmtcnt, f).
     and_then (be32 f) (\<lambda>(isstdcnt, f).
     and_then (be32 f) (\<lambda>(leapcnt, f).
     and_then (be32 f) (\<lambda>(timecnt, f).
     and_then (be32 f) (\<lambda>(typecnt, f).
     and_then (be32 f) (\<lambda>(charcnt, f).
     and_then (if timecnt < 0 then Inl (Logic_error ''vector::reserve'') else Inr ()) (\<lambda>_.
     and_then (read_times (nat timecnt) be32 f) (\<lambda>(trans, f).
     and_then (read_times (nat timecnt) readUInt8 f) (\<lambda>(idxs, f).
     and_then (read_times (nat typecnt) read_local_time f) (\<lambda>(ls, f).
     and_then (make_transitions ls (zip trans idxs)) (\<lambda>ts.
     and_then (readBytes charcnt f) (\<lambda>(abbr, f).
       Inr \<lparr>transitions = ts, localtimes = ls, abbreviations = abbr, zoneAbbr = []\<rparr>)))))))))))))))"

text \<open>
  A file that cannot be opened is \<open>None\<close>; a \<^verbatim>\<open>logic_error\<close> leaves the time zone without data, and
  an index outside \<open>localtimes\<close> is not caught.
\<close>

definition readTimeZoneFile :: "bytes option \<Rightarrow> zone_data option result" where
  "readTimeZoneFile zonefile =
     (case zonefile of
        None \<Rightarrow> Inr None
      | Some f \<Rightarrow> (case read_zone f of
            Inr data \<Rightarrow> Inr (Some data)
          | Inl (Logic_error e) \<Rightarrow> Inr None
          | Inl e \<Rightarrow> Inl e))"

end
