(* ===== verification/TimeZoneProps.thy ===== *)
theory TimeZoneProps
  imports TimeZone
begin

text \<open>
  What the conversions of theory \<open>TimeZone\<close> promise: universal and local times are recovered from
  their broken-down forms, and a time zone from its file.
\<close>

section \<open>Universal time\<close>

text \<open>From the first julian day number on, and while the number of days stays far below \<open>2 ^ 31\<close>.\<close>

definition utc_range :: "int \<Rightarrow> bool" where
  "utc_range t \<longleftrightarrow> -213635404800 \<le> t \<and> t \<le> 46000000000000"

lemma to_int32_id: "-2147483648 \<le> x \<Longrightarrow> x < 2147483648 \<Longrightarrow> to_int32 x = x"
  by (simp add: to_int32_def signed_take_bit_int_eq_self)

lemma to_int32_second: "0 \<le> x \<Longrightarrow> x < 86400 \<Longrightarrow> to_int32 x = x"
  by (rule to_int32_id) simp_all

lemma sdiv_neg: "(t :: int) < 0 \<Longrightarrow> 0 < n \<Longrightarrow> t sdiv n = - ((- t) div n)"
  by (simp add: signed_divide_int_def)

lemma smod_neg: "(t :: int) < 0 \<Longrightarrow> 0 < n \<Longrightarrow> t smod n = - ((- t) mod n)"
  by (simp add: signed_modulo_int_def)

text \<open>The day and the second of the day are rounded down.\<close>

lemma floor_day:
  assumes "utc_range t"
  shows "(let s = to_int32 (t smod kSecondsPerDay); d = to_int32 (t sdiv kSecondsPerDay)
     in if s < 0 then (s + kSecondsPerDay, d - 1) else (s, d)) = (t mod 86400, t div 86400)"
proof (cases "0 \<le> t")
  case True
  have "t div 86400 \<le> 46000000000000 div 86400" using assms by (intro zdiv_mono1) (simp_all add: utc_range_def)
  then have "to_int32 (t div 86400) = t div 86400"
    using True by (intro to_int32_id) (simp_all add: pos_imp_zdiv_nonneg_iff order_trans)
  moreover have mod: "0 \<le> t mod 86400" "t mod 86400 < 86400" by simp_all
  moreover have "to_int32 (t mod 86400) = t mod 86400" by (rule to_int32_second [OF mod])
  ultimately show ?thesis using True by (simp add: kSecondsPerDay_def sdiv_nonneg smod_nonneg Let_def)
next
  case False
  define q where "q = (- t) div 86400"
  define r where "r = (- t) mod 86400"
  have t: "- t = q * 86400 + r" by (simp add: q_def r_def)
  have r: "0 \<le> r" "r < 86400" by (simp_all add: r_def)
  have "q * 86400 \<le> 213635404800" using t r assms by (simp add: utc_range_def)
  moreover have "0 \<le> q" using False by (simp add: q_def pos_imp_zdiv_nonneg_iff)
  ultimately have d: "to_int32 (- q) = - q" by (intro to_int32_id) linarith+
  have s: "to_int32 (- r) = - r" using r by (intro to_int32_id) linarith+
  have split: "t sdiv kSecondsPerDay = - q" "t smod kSecondsPerDay = - r"
    using False by (simp_all add: kSecondsPerDay_def sdiv_neg smod_neg q_def r_def)
  show ?thesis
  proof (cases "r = 0")
    case True
    then have "t = (- q) * 86400 + 0" using t by simp
    then have "t div 86400 = - q" "t mod 86400 = 0"
      using div_unique_pos [of 0 86400 "- q"] by simp_all
    with True show ?thesis by (simp add: split d to_int32_second Let_def)
  next
    case False
    have t': "t = (- q - 1) * 86400 + (86400 - r)" using t by simp
    have div: "t div 86400 = - q - 1" unfolding t' using False r by (intro div_unique_pos) simp_all
    have "t mod 86400 = t - (- q - 1) * 86400" by (simp only: minus_div_mult_eq_mod [of t 86400, symmetric] div)
    also have "\<dots> = 86400 - r" using t' by simp
    finally have "t mod 86400 = 86400 - r" .
    with div show ?thesis using False r unfolding split d s Let_def by (simp add: kSecondsPerDay_def)
  qed
qed

lemma hms_sum: "m = h * 60 + m' \<Longrightarrow> n = m * 60 + sec \<Longrightarrow> h * 3600 + m' * 60 + sec = (n :: nat)"
  by simp

lemma fillHMS_value:
  assumes "0 \<le> s" and "s < 86400" and "fillHMS (nat s) = (h, m, sec)"
  shows "h * 3600 + m * 60 + sec = s" and "0 \<le> h" "h < 24" "0 \<le> m" "m < 60" "0 \<le> sec" "sec < 60"
proof -
  define n where "n = nat s"
  have s: "s = int n" and n: "n < 86400" using assms(1,2) by (simp_all add: n_def)
  have f: "h = int (n div 60 div 60)" "m = int (n div 60 mod 60)" "sec = int (n mod 60)"
    using assms(3) by (simp_all add: fillHMS_def Let_def n_def)
  have "n div 60 div 60 * 3600 + n div 60 mod 60 * 60 + n mod 60 = n"
    by (rule hms_sum [of "n div 60"]) (simp_all only: div_mult_mod_eq)
  then have "int (n div 60 div 60 * 3600 + n div 60 mod 60 * 60 + n mod 60) = int n" by (rule arg_cong)
  then show "h * 3600 + m * 60 + sec = s" by (simp only: f s of_nat_add of_nat_mult of_nat_numeral)
  have "n div 60 div 60 < 24" using n by (simp only: div_less_iff_less_mult zero_less_numeral arith_simps)
  then show "0 \<le> h" "h < 24" "0 \<le> m" "m < 60" "0 \<le> sec" "sec < 60" by (simp_all add: f)
qed

definition tm_valid :: "'a tm_scheme \<Rightarrow> bool" where
  "tm_valid t \<longleftrightarrow> valid_date (tm_year t + 1900) (tm_mon t + 1) (tm_mday t) \<and>
     in_range (tm_year t + 1900) (tm_mon t + 1) \<and>
     0 \<le> tm_hour t \<and> tm_hour t < 24 \<and> 0 \<le> tm_min t \<and> tm_min t < 60 \<and> 0 \<le> tm_sec t \<and> tm_sec t < 60"

lemma epoch_day: "kJulianDayOf1970_01_01 = 2440588"
  by (simp add: kJulianDayOf1970_01_01_def getJulianDay_march in_range_def march_days_def march_year_def
      march_month_def day_of_year_def)

lemma toUtcTime_correct:
  assumes "utc_range t"
  shows "fromUtcTime (toUtcTime t yday) = t" and "tm_valid (toUtcTime t yday)"
    and "-2440589 \<le> t div 86400 \<Longrightarrow> tm_wday (toUtcTime t yday) = (t div 86400 + 4) mod 7"
proof -
  obtain h m sec where hms: "fillHMS (nat (t mod 86400)) = (h, m, sec)" by (metis prod_cases3)
  have mod: "0 \<le> t mod 86400" "t mod 86400 < 86400" by simp_all
  note v = fillHMS_value [OF mod hms]
  define date where "date = t div 86400 + kJulianDayOf1970_01_01"
  have "-213635404800 div 86400 \<le> t div 86400" using assms by (intro zdiv_mono1) (simp_all add: utc_range_def)
  then have date: "-32044 \<le> date" by (simp add: date_def epoch_day)
  note n = number_round_trip [OF this, unfolded Let_def]
  have fields: "tm_year (toUtcTime t yday) = ymd_year (getYearMonthDay date) - 1900"
    "tm_mon (toUtcTime t yday) = ymd_month (getYearMonthDay date) - 1"
    "tm_mday (toUtcTime t yday) = ymd_day (getYearMonthDay date)"
    "tm_hour (toUtcTime t yday) = h" "tm_min (toUtcTime t yday) = m" "tm_sec (toUtcTime t yday) = sec"
    "tm_wday (toUtcTime t yday) = weekDay date"
    using floor_day [OF assms, unfolded Let_def]
    by (simp_all add: toUtcTime_def Let_def hms date_def split: prod.split)
  have "fromUtcTime (toUtcTime t yday) = t div 86400 * 86400 + (h * 3600 + m * 60 + sec)"
    using n by (simp add: fromUtcTime_def fromUtcTime_fields_def Let_def fields kSecondsPerDay_def)
      (simp add: date_def)
  then show "fromUtcTime (toUtcTime t yday) = t" by (simp only: v(1) div_mult_mod_eq)
  show "tm_valid (toUtcTime t yday)" using n v by (simp add: tm_valid_def fields)
  show "tm_wday (toUtcTime t yday) = (t div 86400 + 4) mod 7" if "-2440589 \<le> t div 86400"
  proof -
    have "weekDay date = (date + 1) mod 7"
      using that by (simp add: weekDay_def kDaysPerWeek_def smod_nonneg date_def epoch_day)
    moreover have "date + 1 = t div 86400 + 4 + 7 * 348655" by (simp add: date_def epoch_day)
    ultimately show ?thesis by (simp only: fields mod_mult_self2)
  qed
qed

section \<open>The offset in force\<close>

text \<open>\<open>segment data i\<close>: the local time after \<open>i\<close> transitions; \<open>period keys x\<close>: how many keys are at most \<open>x\<close>.\<close>

definition segment :: "zone_data \<Rightarrow> nat \<Rightarrow> local_time" where
  "segment data i = localtimes data ! (case i of 0 \<Rightarrow> 0 | Suc k \<Rightarrow> localtimeIdx (transitions data ! k))"

definition period :: "int list \<Rightarrow> int \<Rightarrow> nat" where
  "period keys x = length (takeWhile (\<lambda>k. k \<le> x) keys)"

definition indices_ok :: "zone_data \<Rightarrow> bool" where
  "indices_ok data \<longleftrightarrow> localtimes data \<noteq> [] \<and>
     (\<forall>t \<in> set (transitions data). localtimeIdx t < length (localtimes data)) \<and>
     (\<forall>l \<in> set (localtimes data). arrbIdx l \<le> length (abbreviations data))"

lemma element_segment:
  assumes "indices_ok data"
  shows "element (localtimes data) 0 = Inr (segment data 0)"
    and "i < length (transitions data) \<Longrightarrow>
      element (localtimes data) (localtimeIdx (transitions data ! i)) = Inr (segment data (Suc i))"
  using assms by (auto simp: indices_ok_def element_def segment_def)

lemma period_lower_bound:
  fixes x :: int
  assumes "sorted_wrt (<) keys"
  defines "p \<equiv> length (takeWhile (\<lambda>k. k < x) keys)"
  shows "period keys x = (if p < length keys \<and> keys ! p = x then Suc p else p)"
  using assms(1) unfolding p_def
proof (induction keys)
  case (Cons k keys)
  consider "k < x" | "k = x" | "x < k" by linarith
  then show ?case
  proof cases
    case 2
    with Cons.prems have "takeWhile (\<lambda>k. k \<le> x) keys = []" by (cases keys) auto
    with 2 show ?thesis by (simp add: period_def)
  qed (use Cons in \<open>auto simp: period_def\<close>)
qed (simp add: period_def)

lemma period_eq:
  assumes "sorted_wrt (<) keys" and "m \<le> length keys"
    and "0 < m \<Longrightarrow> keys ! (m - 1) \<le> x" and "m < length keys \<Longrightarrow> x < keys ! m"
  shows "period keys x = m"
  using assms
proof (induction keys arbitrary: m)
  case (Cons k keys)
  show ?case
  proof (cases m)
    case 0
    with Cons.prems(4) show ?thesis by (simp add: period_def)
  next
    case (Suc n)
    have "keys ! (n - 1) \<le> x" if "0 < n" using Cons.prems(3) Suc that by (cases n) simp_all
    then have "period keys x = n" using Cons.prems Suc by (intro Cons.IH) simp_all
    moreover have "k \<le> x"
    proof (cases n)
      case 0
      with Cons.prems(3) Suc show ?thesis by simp
    next
      case (Suc n')
      have "k < keys ! n'" using Cons.prems(1,2) Suc \<open>m = Suc n\<close> by simp
      moreover have "keys ! n' \<le> x" using Cons.prems(3) Suc \<open>m = Suc n\<close> by simp
      ultimately show ?thesis by simp
    qed
    ultimately show ?thesis by (simp add: period_def Suc)
  qed
qed (simp add: period_def)

lemma period_bounds:
  shows "period keys x \<le> length keys" and "i < period keys x \<Longrightarrow> keys ! i \<le> x"
    and "period keys x < length keys \<Longrightarrow> x < keys ! period keys x"
proof -
  show "period keys x \<le> length keys" unfolding period_def by (rule length_takeWhile_le)
  show "keys ! i \<le> x" if "i < period keys x"
    using that set_takeWhileD [of "keys ! i" "\<lambda>k. k \<le> x" keys] takeWhile_nth [of i "\<lambda>k. k \<le> x" keys]
      nth_mem [of i "takeWhile (\<lambda>k. k \<le> x) keys"] by (auto simp: period_def)
  show "x < keys ! period keys x" if "period keys x < length keys"
    using nth_length_takeWhile [of "\<lambda>k. k \<le> x" keys] that by (simp add: period_def)
qed

lemma findLocalTime_period:
  assumes idx: "indices_ok data" and sorted: "sorted_wrt (<) (map (comp_key b) (transitions data))"
  shows "findLocalTime data sentry b =
     Inr (segment data (period (map (comp_key b) (transitions data)) (comp_key b sentry)))"
proof -
  let ?ts = "transitions data" and ?key = "comp_key b"
  let ?keys = "map ?key ?ts" and ?x = "comp_key b sentry"
  define p where "p = lower_bound (\<lambda>s t. ?key s < ?key t) sentry ?ts"
  have p: "p = length (takeWhile (\<lambda>k. k < ?x) ?keys)" by (simp add: p_def lower_bound_def takeWhile_map comp_def)
  note per = period_lower_bound [OF sorted, of ?x, folded p]
  show ?thesis
  proof (cases "?ts = [] \<or> ?x < ?key (hd ?ts)")
    case True
    then have "period ?keys ?x = 0" by (cases ?ts) (auto simp: period_def)
    with True idx show ?thesis by (simp add: findLocalTime_def Let_def element_segment)
  next
    case False
    then have "hd ?ts = ?ts ! 0" by (simp add: hd_conv_nth)
    show ?thesis
    proof (cases "p < length ?ts")
      case lt: True
      have "p \<noteq> 0" if "?x \<noteq> ?key (?ts ! p)"
      proof
        assume "p = 0"
        then have "\<not> ?key (?ts ! 0) < ?x" using False by (cases ?ts) (auto simp: p split: if_splits)
        with False \<open>hd ?ts = ?ts ! 0\<close> that \<open>p = 0\<close> show False by simp
      qed
      show ?thesis
      proof (cases "?x = ?key (?ts ! p)")
        case True
        then have "period ?keys ?x = Suc p" using per lt by simp
        with False lt True element_segment(2) [OF idx, of p] show ?thesis
          by (simp add: findLocalTime_def Let_def p_def [symmetric])
      next
        case neq: False
        with \<open>?x \<noteq> ?key (?ts ! p) \<Longrightarrow> p \<noteq> 0\<close> obtain q where q: "p = Suc q" by (cases p) auto
        have "period ?keys ?x = Suc q" using per lt neq q by simp
        with False lt neq q element_segment(2) [OF idx, of q] show ?thesis
          by (simp add: findLocalTime_def Let_def p_def [symmetric])
      qed
    next
      case ge: False
      have "p \<le> length ?ts" unfolding p_def lower_bound_def by (rule length_takeWhile_le)
      with ge have "p = length ?ts" by simp
      moreover have "last ?ts = ?ts ! (length ?ts - 1)" using False by (simp add: last_conv_nth)
      ultimately show ?thesis
        using False per element_segment(2) [OF idx, of "length ?ts - 1"]
        by (simp add: findLocalTime_def Let_def p_def [symmetric])
    qed
  qed
qed

section \<open>Local time\<close>

text \<open>
  A time zone whose clock is only ever set back by an hour, from summer time, and whose transitions
  are more than an hour apart.
\<close>

definition zone_ok :: "zone_data \<Rightarrow> bool" where
  "zone_ok data \<longleftrightarrow> indices_ok data \<and>
     (\<forall>t \<in> set (transitions data). localtime t = gmttime t + gmtOffset (localtimes data ! localtimeIdx t)) \<and>
     (\<forall>l \<in> set (localtimes data). \<bar>gmtOffset l\<bar> \<le> 93600) \<and>
     (\<forall>i. Suc i < length (transitions data) \<longrightarrow>
        gmttime (transitions data ! i) + 3600 < gmttime (transitions data ! Suc i)) \<and>
     (\<forall>i < length (transitions data).
        gmtOffset (segment data i) \<le> gmtOffset (segment data (Suc i)) \<or>
        gmtOffset (segment data i) = gmtOffset (segment data (Suc i)) + 3600 \<and>
        isDst (segment data i) \<and> \<not> isDst (segment data (Suc i)))"

lemma sorted_wrt_Suc:
  assumes "\<And>i. Suc i < length xs \<Longrightarrow> xs ! i < (xs ! Suc i :: int)"
  shows "sorted_wrt (<) xs"
  using assms by (simp add: sorted_wrt_iff_nth_Suc_transp)

lemma zone_ok_sorted:
  assumes "zone_ok data"
  shows "sorted_wrt (<) (map (comp_key True) (transitions data))"
    and "sorted_wrt (<) (map (comp_key False) (transitions data))"
    and "i < length (transitions data) \<Longrightarrow>
      localtime (transitions data ! i) = gmttime (transitions data ! i) + gmtOffset (segment data (Suc i))"
proof -
  let ?ts = "transitions data"
  have gap: "gmttime (?ts ! i) + 3600 < gmttime (?ts ! Suc i)" if "Suc i < length ?ts" for i
    using assms that unfolding zone_ok_def by blast
  then show "sorted_wrt (<) (map (comp_key True) ?ts)"
    by (intro sorted_wrt_Suc) (use gap in \<open>fastforce simp: comp_key_def\<close>)
  show loc: "localtime (?ts ! i) = gmttime (?ts ! i) + gmtOffset (segment data (Suc i))"
    if "i < length ?ts" for i
    using assms that by (simp add: zone_ok_def segment_def)
  have "localtime (?ts ! i) < localtime (?ts ! Suc i)" if "Suc i < length ?ts" for i
  proof -
    have "gmtOffset (segment data (Suc i)) \<le> gmtOffset (segment data (Suc (Suc i))) + 3600"
      using assms that unfolding zone_ok_def by fastforce
    with gap [OF that] loc [of i] loc [of "Suc i"] that show ?thesis by simp
  qed
  then show "sorted_wrt (<) (map (comp_key False) ?ts)"
    by (intro sorted_wrt_Suc) (simp add: comp_key_def)
qed

lemma toLocalTime_segment:
  assumes "zone_ok data"
  shows "toLocalTime (Some data) t =
     (let l = segment data (period (map gmttime (transitions data)) t) in
      Inr ((gmtime_r (t + gmtOffset l))\<lparr>tm_isdst := isDst l, tm_gmtoff := gmtOffset l,
        tm_zone := c_str (drop (arrbIdx l) (abbreviations data))\<rparr>))"
proof -
  have idx: "indices_ok data" using assms by (simp add: zone_ok_def)
  let ?p = "period (map gmttime (transitions data)) t"
  have "?p \<le> length (transitions data)" using period_bounds(1) [of "map gmttime (transitions data)" t] by simp
  then have "segment data ?p \<in> set (localtimes data)"
    using idx by (auto simp: segment_def indices_ok_def split: nat.split intro!: nth_mem)
  then have "arrbIdx (segment data ?p) \<le> length (abbreviations data)" using idx by (simp add: indices_ok_def)
  moreover have "comp_key True = gmttime" by (rule ext) (simp add: comp_key_def)
  ultimately show ?thesis
    using findLocalTime_period [OF idx, of True "gmt_sentry t"] zone_ok_sorted(1) [OF assms]
    by (simp add: toLocalTime_def abbreviation_at_def gmt_sentry_def Let_def)
qed

lemma findLocalTime_local:
  assumes "zone_ok data"
  shows "findLocalTime data (local_sentry s) False =
     Inr (segment data (period (map localtime (transitions data)) s))"
proof -
  have idx: "indices_ok data" using assms by (simp add: zone_ok_def)
  moreover have "comp_key False = localtime" by (rule ext) (simp add: comp_key_def)
  ultimately show ?thesis
    using findLocalTime_period [OF idx, of False "local_sentry s"] zone_ok_sorted(2) [OF assms]
    by (simp add: local_sentry_def)
qed

text \<open>The period that is found from the local time: the right one, or, in the repeated hour, the next.\<close>

lemma local_period:
  fixes t :: int
  assumes "zone_ok data"
  defines "i \<equiv> period (map gmttime (transitions data)) t"
  defines "s \<equiv> t + gmtOffset (segment data i)"
  defines "j \<equiv> period (map localtime (transitions data)) s"
  shows "j = i \<or>
     j = Suc i \<and> gmtOffset (segment data i) = gmtOffset (segment data j) + 3600 \<and>
     isDst (segment data i) \<and> \<not> isDst (segment data j) \<and>
     period (map gmttime (transitions data)) (t + 3600) = j"
proof -
  let ?ts = "transitions data"
  let ?o = "\<lambda>k. gmtOffset (segment data k)"
  note loc = zone_ok_sorted(3) [OF assms(1)]
  have sorted: "sorted_wrt (<) (map gmttime ?ts)" "sorted_wrt (<) (map localtime ?ts)"
    using zone_ok_sorted(1,2) [OF assms(1)] by (simp_all add: comp_key_def [abs_def])
  have gap: "gmttime (?ts ! k) + 3600 < gmttime (?ts ! Suc k)" if "Suc k < length ?ts" for k
    using assms(1) that unfolding zone_ok_def by blast
  have step: "?o k \<le> ?o (Suc k) \<or> ?o k = ?o (Suc k) + 3600 \<and> isDst (segment data k) \<and> \<not> isDst (segment data (Suc k))"
    if "k < length ?ts" for k using assms(1) that unfolding zone_ok_def by blast
  have i: "i \<le> length ?ts" using period_bounds(1) [of "map gmttime ?ts" t] by (simp add: i_def)
  have before: "gmttime (?ts ! (i - 1)) \<le> t" if "0 < i"
    using period_bounds(2) [of "i - 1" "map gmttime ?ts" t] that i by (simp add: i_def [symmetric])
  have after: "t < gmttime (?ts ! i)" if "i < length ?ts"
    using period_bounds(3) [of "map gmttime ?ts" t] that by (simp add: i_def [symmetric])
  have local_before: "localtime (?ts ! (i - 1)) \<le> s" if "0 < i"
    using before [OF that] loc [of "i - 1"] that i by (simp add: s_def)
  show ?thesis
  proof (cases "i < length ?ts \<and> localtime (?ts ! i) \<le> s")
    case False
    have "period (map localtime ?ts) s = i"
      by (rule period_eq [OF sorted(2)]) (use i local_before False in auto)
    then show ?thesis by (simp add: j_def)
  next
    case True
    with after loc [of i] step [of i]
    have drop: "?o i = ?o (Suc i) + 3600" "isDst (segment data i)" "\<not> isDst (segment data (Suc i))"
      by (auto simp: s_def)
    have next_local: "s < localtime (?ts ! Suc i)" if "Suc i < length ?ts"
      using gap [OF that] loc [OF that] step [OF that] drop after True by (auto simp: s_def)
    have j: "j = Suc i" unfolding j_def
      by (rule period_eq [OF sorted(2)]) (use True next_local in auto)
    have "period (map gmttime ?ts) (t + 3600) = Suc i"
      by (rule period_eq [OF sorted(1)])
        (use True after gap [of i] loc [of i] drop in \<open>auto simp: s_def\<close>)
    with j drop show ?thesis by simp
  qed
qed

lemma timegm_gmtime: "utc_range t \<Longrightarrow> timegm ((gmtime_r t)\<lparr>tm_isdst := b, tm_gmtoff := g, tm_zone := z\<rparr>) = t"
  using toUtcTime_correct(1) [of t True] by (simp add: timegm_def gmtime_r_def fromUtcTime_def)

lemma segment_offset:
  assumes "zone_ok data"
  shows "\<bar>gmtOffset (segment data (period (map gmttime (transitions data)) t))\<bar> \<le> 93600"
proof -
  let ?p = "period (map gmttime (transitions data)) t"
  have "?p \<le> length (transitions data)" using period_bounds(1) [of "map gmttime (transitions data)" t] by simp
  then have "segment data ?p \<in> set (localtimes data)"
    using assms by (auto simp: segment_def zone_ok_def indices_ok_def split: nat.split intro!: nth_mem)
  with assms show ?thesis unfolding zone_ok_def by blast
qed

lemma from_to_local:
  assumes "zone_ok data" and "-213635000000 \<le> t" and "t \<le> 45000000000000"
  shows "and_then (toLocalTime (Some data) t) (fromLocalTime (Some data)) = Inr t"
proof -
  let ?g = "map gmttime (transitions data)"
  define i where "i = period ?g t"
  define l where "l = segment data i"
  define s where "s = t + gmtOffset l"
  define j where "j = period (map localtime (transitions data)) s"
  define z where "z = c_str (drop (arrbIdx l) (abbreviations data))"
  define lt where "lt = (gmtime_r s)\<lparr>tm_isdst := isDst l, tm_gmtoff := gmtOffset l, tm_zone := z\<rparr>"
  note tl = toLocalTime_segment [OF assms(1), unfolded Let_def]
  have range: "utc_range s"
    using segment_offset [OF assms(1), of t] assms(2,3)
    unfolding utc_range_def s_def l_def i_def abs_le_iff by linarith
  have to: "toLocalTime (Some data) t = Inr lt"
    using tl [of t] by (simp add: lt_def s_def l_def i_def z_def)
  have gm: "timegm lt = s" unfolding lt_def by (rule timegm_gmtime [OF range])
  have find: "findLocalTime data (local_sentry s) False = Inr (segment data j)"
    using findLocalTime_local [OF assms(1)] by (simp add: j_def)
  have hm: "tm_isdst lt = isDst l" "tm_hour lt = tm_hour (gmtime_r s)" "tm_min lt = tm_min (gmtime_r s)"
    by (simp_all add: lt_def)
  have "j = i \<or> j = Suc i \<and> gmtOffset l = gmtOffset (segment data j) + 3600 \<and> isDst l \<and>
      \<not> isDst (segment data j) \<and> period ?g (t + 3600) = j"
    using local_period [OF assms(1), of t] by (simp only: i_def l_def s_def j_def)
  then have "fromLocalTime (Some data) lt = Inr t"
  proof
    assume ji: "j = i"
    then have "toLocalTime (Some data) (s - gmtOffset (segment data j)) = Inr lt"
      using to by (simp add: s_def l_def)
    then show ?thesis
      using gm find hm ji by (simp add: fromLocalTime_def Let_def) (simp add: s_def l_def)
  next
    assume "j = Suc i \<and> gmtOffset l = gmtOffset (segment data j) + 3600 \<and> isDst l \<and>
      \<not> isDst (segment data j) \<and> period ?g (t + 3600) = j"
    then have off: "gmtOffset l = gmtOffset (segment data j) + 3600" and dst: "isDst l" "\<not> isDst (segment data j)"
      and per: "period ?g (t + 3600) = j" by blast+
    have eq: "s - gmtOffset (segment data j) = t + 3600" "t + 3600 + gmtOffset (segment data j) = s"
      using off by (simp_all add: s_def)
    note again = tl [of "t + 3600", unfolded per eq(2)]
    show ?thesis
      using gm find hm dst off by (simp add: fromLocalTime_def Let_def eq(1) again) (simp add: s_def)
  qed
  with to show ?thesis by simp
qed

section \<open>Files\<close>

definition be32_bytes :: "int \<Rightarrow> bytes" where
  "be32_bytes i = object_bytes (hostToNetwork32 (word_of_int i))"

definition fits32 :: "int \<Rightarrow> bool" where
  "fits32 i \<longleftrightarrow> -2147483648 \<le> i \<and> i < 2147483648"

lemma be32_be32_bytes [simp]:
  assumes "fits32 i"
  shows "be32 (be32_bytes i @ f) = Inr (i, f)"
proof -
  have len: "length (be32_bytes i) = 4" by (simp add: be32_bytes_def)
  have "bytes_object (be32_bytes i) = (hostToNetwork32 (word_of_int i) :: 32 word)"
    unfolding be32_bytes_def by (rule bytes_object_bytes) simp
  moreover have "networkToHost32 (hostToNetwork32 w) = w" for w
    unfolding network_defs by (rule byteswap_byteswap) simp
  moreover have "sint (word_of_int i :: 32 word) = i"
    using assms by (simp add: sint_sbintrunc' fits32_def signed_take_bit_int_eq_self)
  ultimately show ?thesis using len by (simp add: be32_def readInt32_file_def)
qed

lemma read_times_map:
  assumes "\<And>x f. x \<in> set xs \<Longrightarrow> r (p x @ f) = Inr (x, f)"
  shows "read_times (length xs) r (concat (map p xs) @ f) = Inr (xs, f)"
  using assms by (induction xs) simp_all

definition print_local_time :: "local_time \<Rightarrow> bytes" where
  "print_local_time l =
     be32_bytes (gmtOffset l) @ [char_of (if isDst l then 1 else 0 :: nat), char_of (arrbIdx l)]"

definition zone_file :: "bytes \<Rightarrow> bytes \<Rightarrow> zone_data \<Rightarrow> bytes" where
  "zone_file version_and_pad counts data =
     ''TZif'' @ version_and_pad @ counts @ be32_bytes (int (length (transitions data))) @
     be32_bytes (int (length (localtimes data))) @ be32_bytes (int (length (abbreviations data))) @
     concat (map be32_bytes (map gmttime (transitions data))) @
     map char_of (map localtimeIdx (transitions data)) @
     concat (map print_local_time (localtimes data)) @ abbreviations data"

definition zone_printable :: "zone_data \<Rightarrow> bool" where
  "zone_printable data \<longleftrightarrow> zoneAbbr data = [] \<and>
     fits32 (int (length (transitions data))) \<and> fits32 (int (length (localtimes data))) \<and>
     fits32 (int (length (abbreviations data))) \<and>
     (\<forall>t \<in> set (transitions data). fits32 (gmttime t) \<and> localtimeIdx t < 256 \<and>
        localtimeIdx t < length (localtimes data) \<and>
        localtime t = gmttime t + gmtOffset (localtimes data ! localtimeIdx t)) \<and>
     (\<forall>l \<in> set (localtimes data). fits32 (gmtOffset l) \<and> arrbIdx l < 256)"

lemma read_print_local_time:
  "fits32 (gmtOffset l) \<Longrightarrow> arrbIdx l < 256 \<Longrightarrow> read_local_time (print_local_time l @ f) = Inr (l, f)"
  by (simp add: read_local_time_def print_local_time_def readUInt8_def)

lemma make_transitions_id:
  assumes "\<And>t. t \<in> set ts \<Longrightarrow> localtimeIdx t < length ls \<and> localtime t = gmttime t + gmtOffset (ls ! localtimeIdx t)"
  shows "make_transitions ls (zip (map gmttime ts) (map localtimeIdx ts)) = Inr ts"
  using assms by (induction ts) (simp_all add: element_def)

lemma be32_any: "4 \<le> length f \<Longrightarrow> \<exists>i. be32 f = Inr (i, drop 4 f)"
  by (simp add: be32_def readInt32_file_def)

lemma read_zone_file:
  assumes data: "zone_printable data" and "length version_and_pad = 16" and "length counts = 12"
  shows "read_zone (zone_file version_and_pad counts data @ rest) = Inr data"
proof -
  let ?ts = "transitions data" and ?ls = "localtimes data" and ?ab = "abbreviations data"
  obtain v pad where vp: "version_and_pad = v # pad" "length pad = 15"
    using assms(2) by (cases version_and_pad) auto
  have count: "\<exists>i. be32 (take 4 x @ y) = Inr (i, y)" if "4 \<le> length x" for x y
    using that be32_any [of "take 4 x @ y"] by simp
  define c1 where "c1 = take 4 counts"
  define c2 where "c2 = take 4 (drop 4 counts)"
  define c3 where "c3 = drop 8 counts"
  have c: "counts = c1 @ c2 @ c3" "length c1 = 4" "length c2 = 4" "length c3 = 4"
    using assms(3) append_take_drop_id [of 4 counts] append_take_drop_id [of 4 "drop 4 counts"]
    by (simp_all add: c1_def c2_def c3_def)
  have skip: "\<exists>i. be32 (x @ y) = Inr (i, y)" if "length x = 4" for x y
    using that be32_any [of "x @ y"] by simp
  have trans: "read_times (length ?ts) be32 (concat (map be32_bytes (map gmttime ?ts)) @ f) = Inr (map gmttime ?ts, f)"
    for f
  proof -
    have "be32 (be32_bytes x @ f) = Inr (x, f)" if "x \<in> set (map gmttime ?ts)" for x f
      using that data by (auto simp: zone_printable_def)
    from read_times_map [of "map gmttime ?ts" be32 be32_bytes f, OF this] show ?thesis by (simp only: length_map)
  qed
  have idxs: "read_times (length ?ts) readUInt8 (map char_of (map localtimeIdx ?ts) @ f) =
      Inr (map localtimeIdx ?ts, f)" for f
  proof -
    have "readUInt8 ([char_of x] @ f) = Inr (x, f)" if "x \<in> set (map localtimeIdx ?ts)" for x f
      using that data by (auto simp: zone_printable_def readUInt8_def)
    from read_times_map [of "map localtimeIdx ?ts" readUInt8 "\<lambda>i. [char_of i]" f, OF this] show ?thesis
      by (simp only: length_map concat_map_singleton)
  qed
  have locals: "read_times (length ?ls) read_local_time (concat (map print_local_time ?ls) @ f) = Inr (?ls, f)" for f
    using data by (intro read_times_map read_print_local_time) (auto simp: zone_printable_def)
  have make: "make_transitions ?ls (zip (map gmttime ?ts) (map localtimeIdx ?ts)) = Inr ?ts"
    using data by (intro make_transitions_id) (auto simp: zone_printable_def)
  have fits: "fits32 (int (length ?ts))" "fits32 (int (length ?ls))" "fits32 (int (length ?ab))" "zoneAbbr data = []"
    using data by (simp_all add: zone_printable_def)
  define body where "body = be32_bytes (int (length ?ts)) @ be32_bytes (int (length ?ls)) @
    be32_bytes (int (length ?ab)) @ concat (map be32_bytes (map gmttime ?ts)) @
    map char_of (map localtimeIdx ?ts) @ concat (map print_local_time ?ls) @ ?ab @ rest"
  obtain i1 i2 i3 where i: "be32 (c1 @ c2 @ c3 @ body) = Inr (i1, c2 @ c3 @ body)"
    "be32 (c2 @ c3 @ body) = Inr (i2, c3 @ body)" "be32 (c3 @ body) = Inr (i3, body)"
    using skip c(2-4) by metis
  have image: "zone_file version_and_pad counts data @ rest = ''TZif'' @ [v] @ pad @ c1 @ c2 @ c3 @ body"
    by (simp add: zone_file_def vp c(1) body_def)
  have head: "readBytes 4 (''TZif'' @ g) = Inr (''TZif'', g)" "readBytes 1 ([v] @ g) = Inr ([v], g)"
    "passBytes 15 (pad @ g) = g" for g
    using vp(2) by (simp_all add: readBytes_def passBytes_def)
  have tail: "readBytes (int (length ?ab)) (?ab @ rest) = Inr (?ab, rest)" by (simp add: readBytes_def)
  have "read_zone (''TZif'' @ [v] @ pad @ c1 @ c2 @ c3 @ body) =
      Inr \<lparr>transitions = ?ts, localtimes = ?ls, abbreviations = ?ab, zoneAbbr = []\<rparr>"
    unfolding read_zone_def head and_then.simps prod.case Let_def i
    by (simp add: body_def fits trans idxs locals make tail del: map_map)
  with image fits(4) show ?thesis by simp
qed

section \<open>The properties\<close>

text \<open>
  C28. \<^verbatim>\<open>toUtcTime\<close> gives a time of day and a date of the calendar, for times before the epoch too,
  and \<^verbatim>\<open>fromUtcTime\<close> recovers the seconds.
\<close>

theorem utc_round_trip:
  assumes "utc_range t"
  shows "fromUtcTime (toUtcTime t yday) = t \<and> tm_valid (toUtcTime t yday)"
  using toUtcTime_correct [OF assms] by blast

text \<open>
  In a time zone whose clock is set back by an hour at the end of summer time only, converting
  a time to local time and back gives the same time, in the repeated hour too.
\<close>

theorem local_time_round_trip:
  assumes "zone_ok data" and "-213635000000 \<le> t" and "t \<le> 45000000000000"
  shows "and_then (toLocalTime (Some data) t) (fromLocalTime (Some data)) = Inr t"
  by (rule from_to_local [OF assms])

text \<open>
  C29. \<^verbatim>\<open>readTimeZoneFile\<close> recovers a time zone from its file: the big-endian counts and times, the
  indices, the offsets and the abbreviations, whatever the version, the padding, the counts that
  are not used and the rest of the file.
\<close>

theorem zone_file_round_trip:
  assumes "zone_printable data" and "length version_and_pad = 16" and "length counts = 12"
  shows "readTimeZoneFile (Some (zone_file version_and_pad counts data @ rest)) = Inr (Some data)"
  using read_zone_file [OF assms] by (simp add: readTimeZoneFile_def)

section \<open>Witnesses\<close>

definition summer_zone :: zone_data where
  "summer_zone =
     \<lparr>transitions = [\<lparr>gmttime = 1000000, localtime = 1007200, localtimeIdx = 1\<rparr>,
                     \<lparr>gmttime = 2000000, localtime = 2003600, localtimeIdx = 0\<rparr>],
      localtimes = [\<lparr>gmtOffset = 3600, isDst = False, arrbIdx = 0\<rparr>, \<lparr>gmtOffset = 7200, isDst = True, arrbIdx = 4\<rparr>],
      abbreviations = ''CET'' @ [CHR 0x00] @ ''CEST'' @ [CHR 0x00], zoneAbbr = []\<rparr>"

lemma utc_round_trip_witness: "fromUtcTime (toUtcTime (-1) True) = -1 \<and> tm_valid (toUtcTime (-1) True)"
  by (rule utc_round_trip) (simp add: utc_range_def)

lemma local_time_round_trip_witness:
  "and_then (toLocalTime (Some summer_zone) 1998200) (fromLocalTime (Some summer_zone)) = Inr 1998200"
  by (rule local_time_round_trip)
    (simp_all add: zone_ok_def indices_ok_def summer_zone_def segment_def less_Suc_eq)

lemma zone_file_round_trip_witness:
  "readTimeZoneFile (Some (zone_file ''2...............'' ''............'' summer_zone @ ''TZif2'')) =
     Inr (Some summer_zone)"
  by (rule zone_file_round_trip) (simp_all add: zone_printable_def fits32_def summer_zone_def)

end
