(* ===== verification/LogStream.thy ===== *)
theory LogStream
  imports Runs
begin

text \<open>
  \<^verbatim>\<open>include/gg_lib/FixedBuffer.h\<close> and \<^verbatim>\<open>gg_lib/LogStream.cc\<close>: the buffer of fixed size that a log line
  is formatted into, and the conversion of numbers to text. The part of the array before \<^verbatim>\<open>cur_\<close> is
  \<open>content\<close>; writing past the end of the array is an error. The text that \<^verbatim>\<open>grisu3\<close> prints for a
  \<^verbatim>\<open>double\<close> and the one that \<^verbatim>\<open>fmt\<close> formats are arguments of the operations.
\<close>

section \<open>Buffers of fixed size\<close>

record fixed_buffer =
  capacity :: nat
  content :: bytes

definition kSmallBuffer :: nat where "kSmallBuffer = 4000"

definition kLargeBuffer :: nat where "kLargeBuffer = 4000 * 1000"

definition FixedBuffer_new :: "nat \<Rightarrow> fixed_buffer" where
  "FixedBuffer_new n = \<lparr>capacity = n, content = []\<rparr>"

definition buf_length :: "fixed_buffer \<Rightarrow> nat" where
  "buf_length b = length (content b)"

definition avail :: "fixed_buffer \<Rightarrow> nat" where
  "avail b = capacity b - length (content b)"

definition buf_append :: "bytes \<Rightarrow> fixed_buffer \<Rightarrow> fixed_buffer" where
  "buf_append buf b =
     (let len = (if avail b < length buf then avail b else length buf)
      in b\<lparr>content := content b @ take len buf\<rparr>)"

definition reset_buf :: "fixed_buffer \<Rightarrow> fixed_buffer" where
  "reset_buf b = b\<lparr>content := []\<rparr>"

text \<open>Writing \<open>text\<close> and \<open>extra\<close> more bytes at \<^verbatim>\<open>current()\<close>, then \<^verbatim>\<open>add\<close> of the length of the text.\<close>

definition write_current :: "nat \<Rightarrow> bytes \<Rightarrow> fixed_buffer \<Rightarrow> fixed_buffer result" where
  "write_current extra s b =
     (if length s + extra \<le> avail b then Inr (b\<lparr>content := content b @ s\<rparr>) else Inl Out_of_bounds)"

section \<open>Numbers\<close>

definition digits_table :: string where
  "digits_table = ''9876543210123456789''"

definition digitsHex :: string where
  "digitsHex = ''0123456789ABCDEF''"

text \<open>The \<^verbatim>\<open>do\<close> loops: the digits from the last to the first. \<^verbatim>\<open>zero\<close> points to the middle of the table.\<close>

lemma sdiv_ten_decreases: "i sdiv 10 \<noteq> (0 :: int) \<Longrightarrow> \<bar>i sdiv 10\<bar> < \<bar>i\<bar>"
proof -
  assume nz: "i sdiv 10 \<noteq> 0"
  have "\<bar>i sdiv 10\<bar> = \<bar>i\<bar> div 10"
    by (cases "i = 0") (auto simp: signed_divide_int_def abs_mult)
  moreover have "i \<noteq> 0" using nz by auto
  ultimately show ?thesis by simp
qed

function convert_digits :: "int \<Rightarrow> bytes" where
  "convert_digits i =
     (let lsd = i smod 10; i' = i sdiv 10
      in digits_table ! nat (9 + lsd) # (if i' \<noteq> 0 then convert_digits i' else []))"
  by auto
termination by (relation "measure (\<lambda>i. nat \<bar>i\<bar>)") (auto simp: sdiv_ten_decreases)

declare convert_digits.simps [simp del]

definition convert :: "int \<Rightarrow> bytes" where
  "convert v = rev (convert_digits v @ (if v < 0 then ''-'' else []))"

fun convertHex_digits :: "nat \<Rightarrow> bytes" where
  "convertHex_digits i =
     (let lsd = i mod 16; i' = i div 16
      in digitsHex ! lsd # (if i' \<noteq> 0 then convertHex_digits i' else []))"

declare convertHex_digits.simps [simp del]

definition convertHex :: "nat \<Rightarrow> bytes" where
  "convertHex v = rev (convertHex_digits v)"

definition kMaxNumericSize :: nat where "kMaxNumericSize = 48"

section \<open>The stream\<close>

text \<open>A NUL follows the digits.\<close>

definition formatInteger :: "int \<Rightarrow> fixed_buffer \<Rightarrow> fixed_buffer result" where
  "formatInteger v b =
     (if avail b \<ge> kMaxNumericSize then write_current 1 (convert v) b else Inr b)"

definition put_pointer :: "nat \<Rightarrow> fixed_buffer \<Rightarrow> fixed_buffer result" where
  "put_pointer v b =
     (if avail b \<ge> kMaxNumericSize then write_current 1 (''0x'' @ convertHex v) b else Inr b)"

definition put_double :: "bytes \<Rightarrow> fixed_buffer \<Rightarrow> fixed_buffer result" where
  "put_double printed b =
     (if avail b \<ge> kMaxNumericSize then write_current 1 printed b else Inr b)"

definition put_bool :: "bool \<Rightarrow> fixed_buffer \<Rightarrow> fixed_buffer" where
  "put_bool v b = buf_append (if v then ''true'' else ''false'') b"

definition put_char :: "char \<Rightarrow> fixed_buffer \<Rightarrow> fixed_buffer" where
  "put_char c b = buf_append [c] b"

definition put_cstr :: "bytes option \<Rightarrow> fixed_buffer \<Rightarrow> fixed_buffer" where
  "put_cstr s b = (case s of Some s \<Rightarrow> buf_append (c_str s) b | None \<Rightarrow> buf_append ''(NULL)'' b)"

definition put_string :: "bytes \<Rightarrow> fixed_buffer \<Rightarrow> fixed_buffer" where
  "put_string s b = buf_append s b"

text \<open>\<^verbatim>\<open>formatToN\<close> writes at most as many characters as there is room for.\<close>

definition formatToN :: "nat \<Rightarrow> bytes \<Rightarrow> bytes" where
  "formatToN n formatted = take n formatted"

definition put_fmt :: "bytes \<Rightarrow> fixed_buffer \<Rightarrow> fixed_buffer result" where
  "put_fmt formatted b = write_current 0 (formatToN (avail b) formatted) b"

datatype log_item =
    Item_bool bool
  | Item_int int
  | Item_pointer nat
  | Item_double bytes
  | Item_char char
  | Item_cstr "bytes option"
  | Item_string bytes
  | Item_fmt bytes

fun put_item :: "log_item \<Rightarrow> fixed_buffer \<Rightarrow> fixed_buffer result" where
  "put_item (Item_bool v) b = Inr (put_bool v b)"
| "put_item (Item_int v) b = formatInteger v b"
| "put_item (Item_pointer v) b = put_pointer v b"
| "put_item (Item_double s) b = put_double s b"
| "put_item (Item_char c) b = Inr (put_char c b)"
| "put_item (Item_cstr s) b = Inr (put_cstr s b)"
| "put_item (Item_string s) b = Inr (put_string s b)"
| "put_item (Item_fmt s) b = put_fmt s b"

fun put_items :: "log_item list \<Rightarrow> fixed_buffer \<Rightarrow> fixed_buffer result" where
  "put_items [] b = Inr b"
| "put_items (x # xs) b = and_then (put_item x b) (put_items xs)"

section \<open>Decimal numbers\<close>

lemma digits_table_nth:
  assumes "k < 10"
  shows "digits_table ! (9 + k) = digit_char k" and "digits_table ! (9 - k) = digit_char k"
proof -
  have "k = 0 \<or> k = 1 \<or> k = 2 \<or> k = 3 \<or> k = 4 \<or> k = 5 \<or> k = 6 \<or> k = 7 \<or> k = 8 \<or> k = 9"
    using assms by presburger
  moreover have "digit_char 0 = CHR ''0''" "digit_char 1 = CHR ''1''" "digit_char 2 = CHR ''2''"
    "digit_char 3 = CHR ''3''" "digit_char 4 = CHR ''4''" "digit_char 5 = CHR ''5''" "digit_char 6 = CHR ''6''"
    "digit_char 7 = CHR ''7''" "digit_char 8 = CHR ''8''" "digit_char 9 = CHR ''9''"
    by (simp_all add: digit_char_def char_of_def bit_simps)
  ultimately show "digits_table ! (9 + k) = digit_char k" "digits_table ! (9 - k) = digit_char k"
    by (elim disjE; simp add: digits_table_def)+
qed

lemma rev_convert_digits:
  "rev (convert_digits (int n)) = show_nat n" "rev (convert_digits (- int n)) = show_nat n"
proof (induction n rule: show_nat.induct)
  case (1 n)
  have d: "n mod 10 < 10" by simp
  have pos: "int n smod 10 = int (n mod 10)" "int n sdiv 10 = int (n div 10)"
    by (cases "n = 0"; simp add: signed_modulo_int_def signed_divide_int_def zmod_int zdiv_int)+
  have idx: "nat (9 + int (n mod 10)) = 9 + n mod 10" "nat (9 + - int (n mod 10)) = 9 - n mod 10"
    "nat (9 - int (n mod 10)) = 9 - n mod 10"
    using d by linarith+
  have small: "nat (9 + int n) = 9 + n" "nat (9 - int n) = 9 - n" by linarith+
  {
    case 1
    show ?case
    proof (cases "n < 10")
      case True
      then show ?thesis
        by (subst convert_digits.simps, subst show_nat.simps) (simp add: pos Let_def digits_table_nth small)
    next
      case False
      then have "n div 10 \<noteq> 0" by auto
      with False "1.IH"(1) show ?thesis
        by (subst convert_digits.simps, subst show_nat.simps)
          (simp add: pos Let_def idx digits_table_nth(1) [OF d] del: of_nat_mod of_nat_div)
    qed
  next
    case 2
    show ?case
    proof (cases "n < 10")
      case True
      then show ?thesis
        by (subst convert_digits.simps, subst show_nat.simps) (simp add: pos Let_def digits_table_nth small)
    next
      case False
      then have "n div 10 \<noteq> 0" by auto
      with False "1.IH"(2) show ?thesis
        by (subst convert_digits.simps, subst show_nat.simps)
          (simp add: pos Let_def idx digits_table_nth(2) [OF d] del: of_nat_mod of_nat_div)
    qed
  }
qed

lemma convert_show_int: "convert v = show_int v"
proof (cases "v < 0")
  case True
  then have "v = - int (nat (- v))" by simp
  with True rev_convert_digits(2) [of "nat (- v)"] show ?thesis by (simp add: convert_def show_int_def)
next
  case False
  with rev_convert_digits(1) [of "nat v"] show ?thesis by (simp add: convert_def show_int_def)
qed

section \<open>Hexadecimal numbers\<close>

definition hex_digit_value :: "char \<Rightarrow> nat" where
  "hex_digit_value c = (if of_char c \<le> (57 :: nat) then of_char c - 48 else of_char c - 55)"

definition hex_value :: "string \<Rightarrow> nat" where
  "hex_value s = foldl (\<lambda>v c. 16 * v + hex_digit_value c) 0 s"

lemma hex_digit_value_nth: "k < 16 \<Longrightarrow> hex_digit_value (digitsHex ! k) = k"
proof -
  assume "k < 16"
  then have "k \<in> set [0..<16]" by simp
  moreover have "list_all (\<lambda>k. hex_digit_value (digitsHex ! k) = k) [0..<16]"
    by (simp add: upt_rec hex_digit_value_def digitsHex_def)
  ultimately show ?thesis by (simp add: list_all_iff)
qed

lemma hex_value_convertHex: "hex_value (convertHex v) = v"
proof (induction v rule: convertHex_digits.induct)
  case (1 v)
  show ?case
  proof (cases "v div 16 = 0")
    case True
    then show ?thesis
      by (simp add: convertHex_def hex_value_def convertHex_digits.simps [of v] Let_def hex_digit_value_nth)
  next
    case False
    with 1 have "hex_value (convertHex (v div 16)) = v div 16" by simp
    then show ?thesis
      by (simp add: convertHex_def hex_value_def convertHex_digits.simps [of v] False Let_def hex_digit_value_nth)
  qed
qed

lemma length_convertHex: "v < 16 ^ k \<Longrightarrow> 0 < k \<Longrightarrow> length (convertHex v) \<le> k"
proof (induction k arbitrary: v)
  case (Suc k)
  show ?case
  proof (cases "v div 16 = 0")
    case True
    then show ?thesis by (simp add: convertHex_def convertHex_digits.simps [of v])
  next
    case False
    then have "v div 16 < 16 ^ k" "0 < k" using Suc.prems by (auto simp: less_mult_imp_div_less mult.commute intro: gr0I)
    with Suc.IH have "length (convertHex (v div 16)) \<le> k" by blast
    with False show ?thesis by (simp add: convertHex_def convertHex_digits.simps [of v])
  qed
qed simp

section \<open>Nothing is written past the end\<close>

fun item_text :: "log_item \<Rightarrow> bytes" where
  "item_text (Item_bool v) = (if v then ''true'' else ''false'')"
| "item_text (Item_int v) = show_int v"
| "item_text (Item_pointer v) = ''0x'' @ convertHex v"
| "item_text (Item_double s) = s"
| "item_text (Item_char c) = [c]"
| "item_text (Item_cstr s) = (case s of Some s \<Rightarrow> c_str s | None \<Rightarrow> ''(NULL)'')"
| "item_text (Item_string s) = s"
| "item_text (Item_fmt s) = s"

text \<open>Integers and pointers have 64 bits; the text of a \<^verbatim>\<open>double\<close> has at most 47 characters.\<close>

fun item_ok :: "log_item \<Rightarrow> bool" where
  "item_ok (Item_int v) \<longleftrightarrow> - (2 ^ 63) \<le> v \<and> v < 2 ^ 64"
| "item_ok (Item_pointer v) \<longleftrightarrow> v < 2 ^ 64"
| "item_ok (Item_double s) \<longleftrightarrow> length s < 48"
| "item_ok _ \<longleftrightarrow> True"

definition buf_ok :: "fixed_buffer \<Rightarrow> bool" where
  "buf_ok b \<longleftrightarrow> length (content b) \<le> capacity b"

lemma length_show_int64:
  assumes "- (2 ^ 63) \<le> v" and "v < 2 ^ 64"
  shows "length (show_int v) \<le> 20"
proof (cases "v < 0")
  case True
  then have "nat (- v) < 10 ^ 19" using assms(1) by simp
  with length_show_nat [of "nat (- v)" 19] True show ?thesis by (simp add: show_int_def)
next
  case False
  then have "nat v < 10 ^ 20" using assms(2) by simp
  with length_show_nat [of "nat v" 20] False show ?thesis by (simp add: show_int_def)
qed

lemma buf_append_spec:
  assumes "buf_ok b"
  shows "buf_ok (buf_append s b)" and "capacity (buf_append s b) = capacity b"
    and "content (buf_append s b) = content b @ take (avail b) s"
  using assms by (auto simp: buf_append_def Let_def buf_ok_def avail_def)

definition puts :: "bytes \<Rightarrow> fixed_buffer \<Rightarrow> fixed_buffer result \<Rightarrow> bool" where
  "puts s b r \<longleftrightarrow> (\<exists>b' n. r = Inr b' \<and> buf_ok b' \<and> capacity b' = capacity b \<and>
     content b' = content b @ take n s \<and> (length s + 48 \<le> avail b \<longrightarrow> content b' = content b @ s))"

lemma puts_append: "buf_ok b \<Longrightarrow> puts s b (Inr (buf_append s b))"
  using buf_append_spec [of b s] unfolding puts_def by (intro exI [of _ "buf_append s b"] exI [of _ "avail b"]) simp

lemma puts_number:
  assumes "buf_ok b" and "length s < 48"
  shows "puts s b (if avail b \<ge> kMaxNumericSize then write_current 1 s b else Inr b)"
proof (cases "avail b \<ge> kMaxNumericSize")
  case True
  then show ?thesis
    using assms unfolding puts_def write_current_def kMaxNumericSize_def
    by (intro exI [of _ "b\<lparr>content := content b @ s\<rparr>"] exI [of _ "length s"]) (simp add: buf_ok_def avail_def)
next
  case False
  then show ?thesis
    using assms unfolding puts_def kMaxNumericSize_def by (intro exI [of _ b] exI [of _ 0]) simp
qed

lemma put_item_puts:
  assumes "buf_ok b" and "item_ok x"
  shows "puts (item_text x) b (put_item x b)"
proof (cases x)
  case (Item_int v)
  with assms length_show_int64 [of v] have "length (show_int v) < 48" by simp
  from puts_number [OF assms(1) this] Item_int show ?thesis
    by (simp only: item_text.simps put_item.simps formatInteger_def convert_show_int)
next
  case (Item_pointer v)
  have "(2 :: nat) ^ 64 = 16 ^ 16" by simp
  with assms Item_pointer length_convertHex [of v 16] have "length (''0x'' @ convertHex v) < 48" by simp
  from puts_number [OF assms(1) this] Item_pointer show ?thesis
    by (simp only: item_text.simps put_item.simps put_pointer_def)
next
  case (Item_double s)
  with assms(2) have "length s < 48" by simp
  from puts_number [OF assms(1) this] Item_double show ?thesis
    by (simp only: item_text.simps put_item.simps put_double_def)
next
  case (Item_fmt s)
  then show ?thesis
    using assms(1) unfolding puts_def
    by (intro exI [of _ "b\<lparr>content := content b @ take (avail b) s\<rparr>"] exI [of _ "avail b"])
      (auto simp: put_fmt_def write_current_def formatToN_def buf_ok_def avail_def)
qed (use puts_append [OF assms(1)] in \<open>auto simp: put_bool_def put_char_def put_cstr_def put_string_def split: option.split\<close>)

lemma put_items_ok:
  assumes "buf_ok b" and "list_all item_ok xs"
  shows "\<exists>b'. put_items xs b = Inr b' \<and> buf_ok b' \<and> capacity b' = capacity b \<and>
     (length (concat (map item_text xs)) + 48 \<le> avail b \<longrightarrow> content b' = content b @ concat (map item_text xs))"
  using assms
proof (induction xs arbitrary: b)
  case (Cons x xs)
  then obtain b1 where b1: "put_item x b = Inr b1" "buf_ok b1" "capacity b1 = capacity b"
    "length (item_text x) + 48 \<le> avail b \<longrightarrow> content b1 = content b @ item_text x"
    using put_item_puts [of b x] by (auto simp: puts_def)
  obtain b2 where b2: "put_items xs b1 = Inr b2" "buf_ok b2" "capacity b2 = capacity b1"
    "length (concat (map item_text xs)) + 48 \<le> avail b1 \<longrightarrow> content b2 = content b1 @ concat (map item_text xs)"
    using Cons.IH [OF b1(2)] Cons.prems(2) by auto
  show ?case
  proof (intro exI [of _ b2] conjI impI)
    assume room: "length (concat (map item_text (x # xs))) + 48 \<le> avail b"
    then have c1: "content b1 = content b @ item_text x" using b1(4) by simp
    then have "length (concat (map item_text xs)) + 48 \<le> avail b1"
      using room b1(3) by (simp add: avail_def)
    with b2(4) c1 show "content b2 = content b @ concat (map item_text (x # xs))" by simp
  qed (use b1 b2 in simp_all)
qed simp

lemma log_line_in_bounds_lemma:
  assumes "list_all item_ok xs"
  shows "\<exists>b. put_items xs (FixedBuffer_new kSmallBuffer) = Inr b \<and> length (content b) \<le> 4000 \<and>
     (length (concat (map item_text xs)) \<le> 3952 \<longrightarrow> content b = concat (map item_text xs))"
  using put_items_ok [of "FixedBuffer_new kSmallBuffer" xs] assms
  by (auto simp: buf_ok_def FixedBuffer_new_def avail_def kSmallBuffer_def)

section \<open>The properties\<close>

text \<open>
  The digit loop of \<^verbatim>\<open>convert\<close>, with its remainders towards zero and its table of twice nine
  digits, prints an integer in decimal, the smallest one of its type included; \<^verbatim>\<open>convertHex\<close> prints a
  pointer whose value is recovered.
\<close>

theorem conversions_correct: "convert v = show_int v \<and> hex_value (convertHex p) = p"
  by (simp add: convert_show_int hex_value_convertHex)

text \<open>
  C31. Whatever is written into a log line, no byte is written past its array of 4000, and a line
  whose texts leave 48 characters of room is the concatenation of its texts.
\<close>

theorem log_line_in_bounds:
  assumes "list_all item_ok xs"
  shows "\<exists>b. put_items xs (FixedBuffer_new kSmallBuffer) = Inr b \<and> length (content b) \<le> 4000 \<and>
     (length (concat (map item_text xs)) \<le> 3952 \<longrightarrow> content b = concat (map item_text xs))"
  using assms by (rule log_line_in_bounds_lemma)

lemma log_line_in_bounds_witness:
  "\<exists>b. put_items [Item_string ''n = '', Item_int (-9223372036854775808)] (FixedBuffer_new kSmallBuffer) = Inr b \<and>
     content b = ''n = '' @ show_int (-9223372036854775808)"
  using log_line_in_bounds [of "[Item_string ''n = '', Item_int (-9223372036854775808)]"]
    length_show_int64 [of "-9223372036854775808"] by auto

end
