(* ===== verification/Logging.thy ===== *)
theory Logging
  imports TimeZoneProps LogStream
begin

text \<open>
  \<^verbatim>\<open>gg_lib/Logging.cc\<close>: the line that one logging statement produces. Arguments: the time, the name of
  the thread (\<^verbatim>\<open>tidString\<close>), the text of \<^verbatim>\<open>strerror_r\<close>, and whether the environment variables of the level
  are set. The variables that are local to a thread are a record, those of the process another; \<open>out\<close> is
  what was given to the output function.
\<close>

section \<open>Levels\<close>

datatype log_level = TRACE | DEBUG | INFO | WARN | ERROR | FATAL

fun level_number :: "log_level \<Rightarrow> nat" where
  "level_number TRACE = 0"
| "level_number DEBUG = 1"
| "level_number INFO = 2"
| "level_number WARN = 3"
| "level_number ERROR = 4"
| "level_number FATAL = 5"

lemma level_number_inj: "level_number a = level_number b \<longleftrightarrow> a = b"
  by (cases a; cases b; simp)

instantiation log_level :: linorder
begin

definition less_eq_log_level :: "log_level \<Rightarrow> log_level \<Rightarrow> bool" where
  "a \<le> b \<longleftrightarrow> level_number a \<le> level_number b"

definition less_log_level :: "log_level \<Rightarrow> log_level \<Rightarrow> bool" where
  "a < b \<longleftrightarrow> level_number a < level_number b"

instance
  by standard (auto simp: less_eq_log_level_def less_log_level_def level_number_inj [symmetric])

end

definition initLogLevel :: "bool \<Rightarrow> bool \<Rightarrow> log_level" where
  "initLogLevel log_trace log_debug = (if log_trace then TRACE else if log_debug then DEBUG else INFO)"

fun LogLevelName :: "log_level \<Rightarrow> string" where
  "LogLevelName TRACE = ''TRACE ''"
| "LogLevelName DEBUG = ''DEBUG ''"
| "LogLevelName INFO = ''INFO  ''"
| "LogLevelName WARN = ''WARN  ''"
| "LogLevelName ERROR = ''ERROR ''"
| "LogLevelName FATAL = ''FATAL ''"

section \<open>The state\<close>

record log_thread =
  t_time :: string
  t_lastSecond :: int
  t_zoneAbbr :: bytes

definition new_thread :: log_thread where
  "new_thread = \<lparr>t_time = [], t_lastSecond = 0, t_zoneAbbr = ''GMT''\<rparr>"

record log_global =
  g_logLevel :: log_level
  g_logTimeZone :: "zone_data option"
  out :: "bytes list"
  out_flushes :: nat

definition setLogLevel :: "log_level \<Rightarrow> log_global \<Rightarrow> log_global" where
  "setLogLevel level g = g\<lparr>g_logLevel := level\<rparr>"

definition canLevelLog :: "log_level \<Rightarrow> log_global \<Rightarrow> bool" where
  "canLevelLog level g \<longleftrightarrow> g_logLevel g \<le> level"

text \<open>\<^verbatim>\<open>strncpy\<close> copies at most 15 characters, into the array of the calling thread.\<close>

definition setTimeZone :: "int \<Rightarrow> zone_data \<Rightarrow> log_thread \<Rightarrow> log_global \<Rightarrow> (log_thread \<times> log_global) result" where
  "setTimeZone now tz t g =
     and_then (getZoneAbbr now tz) (\<lambda>(abbr, tz').
       Inr (t\<lparr>t_zoneAbbr := take 15 abbr\<rparr>, g\<lparr>g_logTimeZone := Some tz'\<rparr>))"

section \<open>A line\<close>

text \<open>The file name after its last slash.\<close>

definition SourceFile :: "string \<Rightarrow> string" where
  "SourceFile path = (if CHR ''/'' \<in> set path then rev (takeWhile (\<lambda>c. c \<noteq> CHR ''/'') (rev path)) else path)"

text \<open>The format \<^verbatim>\<open>%4d%02d%02d %02d:%02d:%02d\<close>.\<close>

definition time_text :: "'a tm_scheme \<Rightarrow> string" where
  "time_text tm =
     pad_int (CHR '' '') 4 (tm_year tm + 1900) @ zero_pad 2 (tm_mon tm + 1) @ zero_pad 2 (tm_mday tm) @ '' ''
       @ zero_pad 2 (tm_hour tm) @ '':'' @ zero_pad 2 (tm_min tm) @ '':'' @ zero_pad 2 (tm_sec tm)"

definition log_tm :: "zone_data option \<Rightarrow> int \<Rightarrow> broken_down result" where
  "log_tm zone seconds =
     (case zone of Some tz \<Rightarrow> toLocalTime (Some tz) seconds | None \<Rightarrow> Inr (gmtime_r seconds))"

text \<open>The cached text of the second is renewed when the second has changed.\<close>

definition refresh_time :: "log_global \<Rightarrow> int \<Rightarrow> log_thread \<Rightarrow> log_thread result" where
  "refresh_time g seconds t =
     (if seconds \<noteq> t_lastSecond t then
        and_then (log_tm (g_logTimeZone g) seconds) (\<lambda>tm_time.
          check (length (time_text tm_time) = 17)
            (Inr (t\<lparr>t_lastSecond := seconds, t_time := snprintf 64 (time_text tm_time)\<rparr>)))
      else Inr t)"

definition formatTime :: "log_global \<Rightarrow> int \<Rightarrow> log_thread \<Rightarrow> (log_item \<times> log_thread) result" where
  "formatTime g now t =
     (let seconds = now sdiv kMicroSecondsPerSecond; microseconds = now smod kMicroSecondsPerSecond
      in and_then (refresh_time g seconds t) (\<lambda>t'.
        Inr (Item_fmt (t_time t' @ ''.'' @ zero_pad 6 microseconds @ ''('' @ t_zoneAbbr t' @ '') ''), t')))"

text \<open>A logging statement: its place, level, error number, function and operands.\<close>

record statement =
  st_file :: string
  st_line :: nat
  st_level :: log_level
  st_errno :: int
  st_strerror :: string
  st_func :: "string option"
  st_items :: "log_item list"

text \<open>The constructor \<^verbatim>\<open>Impl\<close>, and the operator for the function name of the constructor of \<^verbatim>\<open>Logger\<close>.\<close>

definition Impl_items :: "string \<Rightarrow> log_item \<Rightarrow> statement \<Rightarrow> log_item list" where
  "Impl_items tidString time_item st =
     [time_item, Item_string tidString, Item_string (LogLevelName (st_level st))] @
     (if st_errno st \<noteq> 0
      then [Item_cstr (Some (st_strerror st)), Item_fmt (''(errno='' @ show_int (st_errno st) @ '') '')] else [])"

definition func_items :: "statement \<Rightarrow> log_item list" where
  "func_items st = (case st_func st of Some f \<Rightarrow> [Item_cstr (Some f), Item_char (CHR '' '')] | None \<Rightarrow> [])"

definition finish_item :: "statement \<Rightarrow> log_item" where
  "finish_item st = Item_fmt ('' - '' @ SourceFile (st_file st) @ '':'' @ show_nat (st_line st) @ [CHR 0x0A])"

text \<open>The destructor gives the line to the output function; after a fatal line the process aborts.\<close>

definition Logger_delete :: "statement \<Rightarrow> fixed_buffer \<Rightarrow> log_global \<Rightarrow> (bool \<times> log_global) result" where
  "Logger_delete st b g =
     and_then (put_item (finish_item st) b) (\<lambda>b'.
       let g' = g\<lparr>out := out g @ [content b']\<rparr>
       in Inr (if st_level st = FATAL then (True, g'\<lparr>out_flushes := out_flushes g' + 1\<rparr>) else (False, g')))"

text \<open>The result tells whether the process has aborted.\<close>

definition run_logger :: "int \<Rightarrow> string \<Rightarrow> statement \<Rightarrow> log_thread \<times> log_global \<Rightarrow> (bool \<times> log_thread \<times> log_global) result" where
  "run_logger now tidString st = (\<lambda>(t, g).
     and_then (formatTime g now t) (\<lambda>(time_item, t').
     and_then (put_items (Impl_items tidString time_item st @ func_items st @ st_items st) (FixedBuffer_new kSmallBuffer)) (\<lambda>b.
       map_sum id (\<lambda>(aborted, g'). (aborted, t', g')) (Logger_delete st b g))))"

text \<open>The macros of the three lowest levels test the level, the others do not.\<close>

definition log_statement :: "int \<Rightarrow> string \<Rightarrow> statement \<Rightarrow> log_thread \<times> log_global \<Rightarrow> (bool \<times> log_thread \<times> log_global) result" where
  "log_statement now tidString st = (\<lambda>(t, g).
     if st_level st \<in> {TRACE, DEBUG, INFO} \<and> \<not> canLevelLog (st_level st) g then Inr (False, t, g)
     else run_logger now tidString st (t, g))"

end
