(* ===== verification/LoggingProps.thy ===== *)
theory LoggingProps
  imports Logging
begin

text \<open>
  What the logging statements promise: the lines that are enabled come out whole, in order, each with
  its own time, whatever the cache of the thread holds. And what they do not: the abbreviation of the
  time zone is known to one thread only, and a long message swallows the end of its line.
\<close>

section \<open>Lines\<close>

definition log_line :: "zone_data option \<Rightarrow> bytes \<Rightarrow> string \<Rightarrow> int \<times> statement \<Rightarrow> bytes" where
  "log_line zone abbr tid = (\<lambda>(now, st).
     (case log_tm zone (now sdiv kMicroSecondsPerSecond) of Inr tm \<Rightarrow> time_text tm | Inl e \<Rightarrow> []) @ ''.''
       @ zero_pad 6 (now smod kMicroSecondsPerSecond) @ ''('' @ abbr @ '') '' @ tid @ LogLevelName (st_level st)
       @ (if st_errno st \<noteq> 0 then c_str (st_strerror st) @ ''(errno='' @ show_int (st_errno st) @ '') '' else [])
       @ (case st_func st of Some f \<Rightarrow> c_str f @ '' '' | None \<Rightarrow> [])
       @ concat (map item_text (st_items st))
       @ '' - '' @ SourceFile (st_file st) @ '':'' @ show_nat (st_line st) @ [CHR 0x0A])"

definition printable_tm :: "broken_down \<Rightarrow> bool" where
  "printable_tm tm \<longleftrightarrow> tm_valid tm \<and> 0 \<le> tm_year tm + 1900 \<and> tm_year tm + 1900 < 10000"

text \<open>A statement whose time can be printed and whose line leaves 48 characters of the buffer free.\<close>

definition entry_ok :: "zone_data option \<Rightarrow> bytes \<Rightarrow> string \<Rightarrow> int \<times> statement \<Rightarrow> bool" where
  "entry_ok zone abbr tid = (\<lambda>(now, st).
     (\<exists>tm. log_tm zone (now sdiv kMicroSecondsPerSecond) = Inr tm \<and> printable_tm tm) \<and>
     now sdiv kMicroSecondsPerSecond \<noteq> 0 \<and> list_all item_ok (st_items st) \<and>
     length (log_line zone abbr tid (now, st)) \<le> 3952)"

text \<open>The cache of a thread is unused, or holds the text of its second.\<close>

definition cache_ok :: "zone_data option \<Rightarrow> log_thread \<Rightarrow> bool" where
  "cache_ok zone t \<longleftrightarrow> t_lastSecond t = 0 \<or> (\<exists>tm. log_tm zone (t_lastSecond t) = Inr tm \<and> t_time t = time_text tm)"

lemma length_time_text: "printable_tm tm \<Longrightarrow> length (time_text tm) = 17"
proof -
  assume p: "printable_tm tm"
  then have v: "tm_valid tm" and y: "0 \<le> tm_year tm + 1900" "tm_year tm + 1900 < 10000"
    by (simp_all add: printable_tm_def)
  from v have "tm_mday tm \<le> 31" by (auto simp: tm_valid_def valid_date_def days_in_month_def split: if_splits)
  with v show ?thesis
    using length_digits_pad(3) [OF y, of "CHR '' ''"]
    by (simp add: time_text_def length_digits_pad tm_valid_def valid_date_def)
qed

lemma refresh_time_ok:
  assumes "log_tm (g_logTimeZone g) sec = Inr tm" and "printable_tm tm" and "sec \<noteq> 0" and "cache_ok (g_logTimeZone g) t"
  shows "refresh_time g sec t = Inr (t\<lparr>t_lastSecond := sec, t_time := time_text tm\<rparr>)"
proof (cases "sec = t_lastSecond t")
  case True
  with assms show ?thesis by (cases t) (auto simp: refresh_time_def cache_ok_def)
next
  case False
  with assms length_time_text [OF assms(2)] show ?thesis by (simp add: refresh_time_def snprintf_def)
qed

lemma put_items_snoc: "put_items (xs @ [x]) b = and_then (put_items xs b) (put_item x)"
proof (induction xs arbitrary: b)
  case Nil
  show ?case by (cases "put_item x b") simp_all
next
  case (Cons y xs)
  then have "put_items (xs @ [x]) = (\<lambda>b. and_then (put_items xs b) (put_item x))" by (intro ext)
  then show ?case by (simp add: and_then_assoc)
qed

definition all_items :: "string \<Rightarrow> log_item \<Rightarrow> statement \<Rightarrow> log_item list" where
  "all_items tid time_item st = Impl_items tid time_item st @ func_items st @ st_items st @ [finish_item st]"

lemma run_logger_line:
  assumes "entry_ok (g_logTimeZone g) (t_zoneAbbr t) tid (now, st)" and "cache_ok (g_logTimeZone g) t"
  shows "\<exists>t' g'. run_logger now tid st (t, g) = Inr (st_level st = FATAL, t', g') \<and>
     out g' = out g @ [log_line (g_logTimeZone g) (t_zoneAbbr t) tid (now, st)] \<and>
     g_logTimeZone g' = g_logTimeZone g \<and> g_logLevel g' = g_logLevel g \<and>
     cache_ok (g_logTimeZone g) t' \<and> t_zoneAbbr t' = t_zoneAbbr t"
proof -
  obtain tm where tm: "log_tm (g_logTimeZone g) (now sdiv kMicroSecondsPerSecond) = Inr tm" "printable_tm tm"
    "now sdiv kMicroSecondsPerSecond \<noteq> 0" "list_all item_ok (st_items st)"
    "length (log_line (g_logTimeZone g) (t_zoneAbbr t) tid (now, st)) \<le> 3952"
    using assms(1) unfolding entry_ok_def by auto
  define t' where "t' = t\<lparr>t_lastSecond := now sdiv kMicroSecondsPerSecond, t_time := time_text tm\<rparr>"
  define ti where "ti = Item_fmt (time_text tm @ ''.'' @ zero_pad 6 (now smod kMicroSecondsPerSecond) @ ''('' @ t_zoneAbbr t @ '') '')"
  have ft: "formatTime g now t = Inr (ti, t')"
    using refresh_time_ok [OF tm(1-3) assms(2)] by (simp add: formatTime_def t'_def ti_def Let_def)
  have texts: "concat (map item_text (all_items tid ti st)) = log_line (g_logTimeZone g) (t_zoneAbbr t) tid (now, st)"
    by (simp add: all_items_def Impl_items_def func_items_def finish_item_def log_line_def tm(1) ti_def split: option.split)
  have "list_all item_ok (all_items tid ti st)"
    using tm(4) by (simp add: all_items_def Impl_items_def func_items_def finish_item_def ti_def split: option.split)
  from log_line_in_bounds_lemma [OF this] obtain b where b: "put_items (all_items tid ti st) (FixedBuffer_new kSmallBuffer) = Inr b"
    "content b = log_line (g_logTimeZone g) (t_zoneAbbr t) tid (now, st)"
    using texts tm(5) by auto
  have split: "all_items tid ti st = (Impl_items tid ti st @ func_items st @ st_items st) @ [finish_item st]"
    by (simp add: all_items_def)
  obtain b0 where b0: "put_items (Impl_items tid ti st @ func_items st @ st_items st) (FixedBuffer_new kSmallBuffer) = Inr b0"
    "put_item (finish_item st) b0 = Inr b"
    using b(1) unfolding split put_items_snoc by auto
  obtain g' where "run_logger now tid st (t, g) = Inr (st_level st = FATAL, t', g')"
    "out g' = out g @ [content b]" "g_logTimeZone g' = g_logTimeZone g" "g_logLevel g' = g_logLevel g"
    using b0 by (cases "st_level st = FATAL") (simp_all add: run_logger_def ft Logger_delete_def Let_def)
  moreover have "cache_ok (g_logTimeZone g) t'" "t_zoneAbbr t' = t_zoneAbbr t"
    using tm(1) by (simp_all add: cache_ok_def t'_def)
  ultimately show ?thesis using b(2) by auto
qed

section \<open>Sequences of statements\<close>

fun log_all :: "string \<Rightarrow> (int \<times> statement) list \<Rightarrow> log_thread \<times> log_global \<Rightarrow> (bool \<times> log_thread \<times> log_global) result" where
  "log_all tid [] s = Inr (False, s)"
| "log_all tid ((now, st) # es) s =
     and_then (log_statement now tid st s) (\<lambda>(aborted, s'). if aborted then Inr (True, s') else log_all tid es s')"

definition enabled :: "log_level \<Rightarrow> statement \<Rightarrow> bool" where
  "enabled level st \<longleftrightarrow> level \<le> st_level st \<or> st_level st \<in> {WARN, ERROR, FATAL}"

text \<open>The statements that print: nothing comes after a fatal one.\<close>

fun printed :: "log_level \<Rightarrow> (int \<times> statement) list \<Rightarrow> (int \<times> statement) list" where
  "printed level [] = []"
| "printed level (e # es) = (if enabled level (snd e) then [e] else []) @
     (if st_level (snd e) = FATAL then [] else printed level es)"

lemma log_statement_enabled:
  "log_statement now tid st (t, g) = (if enabled (g_logLevel g) st then run_logger now tid st (t, g) else Inr (False, t, g))"
  by (cases "st_level st") (simp_all add: log_statement_def enabled_def canLevelLog_def)

lemma log_all_lines:
  assumes "list_all (entry_ok (g_logTimeZone g) (t_zoneAbbr t) tid) es" and "cache_ok (g_logTimeZone g) t"
  shows "\<exists>t' g'. log_all tid es (t, g) = Inr (FATAL \<in> set (map (st_level \<circ> snd) es), t', g') \<and>
     out g' = out g @ map (log_line (g_logTimeZone g) (t_zoneAbbr t) tid) (printed (g_logLevel g) es)"
  using assms
proof (induction es arbitrary: t g)
  case Nil
  then show ?case by simp
next
  case (Cons e es)
  obtain now st where e: "e = (now, st)" by fastforce
  show ?case
  proof (cases "enabled (g_logLevel g) st")
    case False
    then have "st_level st \<noteq> FATAL" by (auto simp: enabled_def)
    with False e Cons show ?thesis by (auto simp: log_statement_enabled)
  next
    case True
    obtain t' g' where t': "run_logger now tid st (t, g) = Inr (st_level st = FATAL, t', g')"
      and g': "out g' = out g @ [log_line (g_logTimeZone g) (t_zoneAbbr t) tid (now, st)]"
        "g_logTimeZone g' = g_logTimeZone g" "g_logLevel g' = g_logLevel g"
      and c': "cache_ok (g_logTimeZone g) t'" "t_zoneAbbr t' = t_zoneAbbr t"
      using run_logger_line [of g t tid now st] Cons.prems e by auto
    show ?thesis
    proof (cases "st_level st = FATAL")
      case f: True
      with t' g' True e show ?thesis by (simp add: log_statement_enabled)
    next
      case False
      from Cons.IH [of g' t'] Cons.prems c' g' obtain t2 g2 where
        "log_all tid es (t', g') = Inr (FATAL \<in> set (map (st_level \<circ> snd) es), t2, g2)"
        "out g2 = out g' @ map (log_line (g_logTimeZone g) (t_zoneAbbr t) tid) (printed (g_logLevel g) es)" by auto
      with t' True False e g' show ?thesis by (simp add: log_statement_enabled)
    qed
  qed
qed

section \<open>The properties\<close>


text \<open>
  The abbreviation of the time zone is a variable of the thread that calls \<^verbatim>\<open>setTimeZone\<close>: a thread
  that starts later prints local times and calls them GMT.
\<close>

theorem zone_name_is_per_thread:
  assumes "setTimeZone now0 tz t g = Inr (t', g')" and "entry_ok (g_logTimeZone g') ''GMT'' tid (now, st)"
    and "enabled (g_logLevel g') st"
  shows "\<exists>tz' tm ab u h rest. g_logTimeZone g' = Some tz' \<and> toLocalTime (Some tz') (now sdiv kMicroSecondsPerSecond) = Inr tm \<and>
     log_statement now tid st (new_thread, g') = Inr (ab, u, h) \<and>
     out h = out g' @ [time_text tm @ ''.'' @ zero_pad 6 (now smod kMicroSecondsPerSecond) @ ''(GMT) '' @ rest]"
proof -
  obtain tz' where tz': "g_logTimeZone g' = Some tz'" using assms(1) by (auto simp: setTimeZone_def)
  obtain tm where tm: "toLocalTime (Some tz') (now sdiv kMicroSecondsPerSecond) = Inr tm"
    using assms(2) by (auto simp: entry_ok_def log_tm_def tz')
  have new: "t_zoneAbbr new_thread = ''GMT''" "cache_ok (g_logTimeZone g') new_thread"
    by (simp_all add: new_thread_def cache_ok_def)
  obtain u h where "run_logger now tid st (new_thread, g') = Inr (st_level st = FATAL, u, h)"
    "out h = out g' @ [log_line (g_logTimeZone g') ''GMT'' tid (now, st)]"
    using run_logger_line [of g' new_thread tid now st] assms(2) new by auto
  then show ?thesis
    using assms(3) tm tz' by (auto simp: log_statement_enabled log_line_def log_tm_def)
qed

text \<open>
  A message that fills the buffer takes the room of the end of its line: the place and the newline
  are missing, and the next line continues this one.
\<close>

theorem long_message_loses_line_end:
  assumes "log_tm (g_logTimeZone g) (now sdiv kMicroSecondsPerSecond) = Inr tm" and "printable_tm tm"
    and "now sdiv kMicroSecondsPerSecond \<noteq> 0" and "cache_ok (g_logTimeZone g) t"
    and "st_errno st = 0" and "st_func st = None" and "st_items st = [Item_string s]" and "4000 \<le> length s"
  shows "\<exists>ab t' g'. run_logger now tid st (t, g) = Inr (ab, t', g') \<and>
     out g' = out g @ [take 4000 (time_text tm @ ''.'' @ zero_pad 6 (now smod kMicroSecondsPerSecond)
       @ ''('' @ t_zoneAbbr t @ '') '' @ tid @ LogLevelName (st_level st) @ s)]"
proof -
  define ti where "ti = time_text tm @ ''.'' @ zero_pad 6 (now smod kMicroSecondsPerSecond) @ ''('' @ t_zoneAbbr t @ '') ''"
  define t' where "t' = t\<lparr>t_lastSecond := now sdiv kMicroSecondsPerSecond, t_time := time_text tm\<rparr>"
  have ft: "formatTime g now t = Inr (Item_fmt ti, t')"
    using refresh_time_ok [OF assms(1-4)] by (simp add: formatTime_def t'_def ti_def Let_def)
  have append: "put_item (Item_string x) b = Inr \<lparr>capacity = 4000, content = take 4000 (content b @ x)\<rparr>"
    if "capacity b = 4000" and "length (content b) \<le> 4000" for x b
    using that by (simp add: put_string_def buf_append_def avail_def Let_def)
  define b1 where "b1 = \<lparr>capacity = 4000, content = take 4000 ti\<rparr>"
  define b2 where "b2 = \<lparr>capacity = 4000, content = take 4000 (content b1 @ tid)\<rparr>"
  define b3 where "b3 = \<lparr>capacity = 4000, content = take 4000 (content b2 @ LogLevelName (st_level st))\<rparr>"
  define b4 where "b4 = \<lparr>capacity = 4000, content = take 4000 (content b3 @ s)\<rparr>"
  have tt: "take n (take n xs @ ys) = take n (xs @ ys)" for n and xs ys :: bytes
    by (cases "length xs \<le> n") simp_all
  have c: "content b4 = take 4000 (ti @ tid @ LogLevelName (st_level st) @ s)"
    by (simp only: b4_def b3_def b2_def b1_def tt fixed_buffer.select_convs append_assoc)
  have len: "length (content b4) = 4000" unfolding c using assms(8) by simp
  have put: "put_item (Item_fmt ti) (FixedBuffer_new kSmallBuffer) = Inr b1"
    by (simp add: put_fmt_def write_current_def formatToN_def avail_def FixedBuffer_new_def kSmallBuffer_def b1_def)
  have "put_item (Item_string tid) b1 = Inr b2" "put_item (Item_string (LogLevelName (st_level st))) b2 = Inr b3"
    "put_item (Item_string s) b3 = Inr b4"
    unfolding b4_def b3_def b2_def by (rule append; simp add: b1_def del: take_append)+
  then have "put_items (Impl_items tid (Item_fmt ti) st @ func_items st @ st_items st) (FixedBuffer_new kSmallBuffer) = Inr b4"
    using put assms(5-7) by (simp add: Impl_items_def func_items_def)
  moreover have "put_item (finish_item st) b4 = Inr b4"
    using len by (simp add: finish_item_def put_fmt_def formatToN_def write_current_def avail_def b4_def)
  ultimately have "run_logger now tid st (t, g) = map_sum id (\<lambda>(aborted, g'). (aborted, t', g'))
      (Inr (if st_level st = FATAL then (True, g\<lparr>out := out g @ [content b4], out_flushes := out_flushes g + 1\<rparr>)
            else (False, g\<lparr>out := out g @ [content b4]\<rparr>)))"
    by (simp add: run_logger_def ft Logger_delete_def Let_def)
  then show ?thesis using c by (cases "st_level st = FATAL") (auto simp: ti_def)
qed

section \<open>Examples\<close>

lemma first_day:
  assumes "0 \<le> t" and "t < 86400"
  shows "printable_tm (toUtcTime t yday)"
proof -
  have "getYearMonthDay kJulianDayOf1970_01_01 = \<lparr>ymd_year = 1970, ymd_month = 1, ymd_day = 1\<rparr>"
    unfolding kJulianDayOf1970_01_01_def
    by (rule date_round_trip) (simp_all add: valid_date_def in_range_def days_in_month_def)
  moreover have r: "utc_range t" using assms by (simp add: utc_range_def)
  ultimately have "tm_year (toUtcTime t yday) = 70"
    using floor_day [of t] assms by (simp add: toUtcTime_def Let_def split: prod.split)
  with toUtcTime_correct(2) [OF r] show ?thesis by (simp add: printable_tm_def)
qed

definition sample_statement :: statement where
  "sample_statement = \<lparr>st_file = ''a/b.cc'', st_line = 7, st_level = WARN, st_errno = 0, st_strerror = [], st_func = None,
     st_items = [Item_string ''hello'']\<rparr>"

definition sample_global :: log_global where
  "sample_global = \<lparr>g_logLevel = INFO, g_logTimeZone = None, out = [], out_flushes = 0\<rparr>"

definition cst :: zone_data where
  "cst = (TimeZone_fixed 28800 ''CST'')\<lparr>zoneAbbr := ''CST''\<rparr>"

lemma sample_line_short:
  assumes "log_tm zone 1 = Inr tm" and "printable_tm tm"
  shows "length (log_line zone ''GMT'' ''0x1 '' (1000000, sample_statement)) \<le> 3952"
  using length_time_text [OF assms(2)] length_show_nat [of 7 1]
  by (simp add: log_line_def kMicroSecondsPerSecond_def signed_divide_int_def signed_modulo_int_def assms(1)
      sample_statement_def SourceFile_def length_digits_pad)

lemma sample_entry_ok:
  assumes "log_tm zone 1 = Inr tm" and "printable_tm tm"
  shows "entry_ok zone ''GMT'' ''0x1 '' (1000000, sample_statement)"
  using sample_line_short [OF assms] assms
  by (simp add: entry_ok_def kMicroSecondsPerSecond_def signed_divide_int_def sample_statement_def)

definition sample_entries :: "(int \<times> statement) list" where
  "sample_entries = [(1000000, sample_statement), (1000000, sample_statement\<lparr>st_level := FATAL\<rparr>)]"


lemma cst_time: "toLocalTime (Some cst) 1 =
    Inr ((toUtcTime 28801 True)\<lparr>tm_isdst := False, tm_gmtoff := 28800, tm_zone := ''CST''\<rparr>)"
  by (simp add: toLocalTime_def cst_def TimeZone_fixed_def findLocalTime_def element_def comp_key_def
      abbreviation_at_def gmtime_r_def c_str_def Let_def)

lemma zone_name_is_per_thread_witness:
  "\<exists>t' g' ab u h. setTimeZone 0 cst new_thread sample_global = Inr (t', g') \<and>
     log_statement 1000000 ''0x1 '' sample_statement (new_thread, g') = Inr (ab, u, h) \<and> length (out h) = 1"
proof -
  define g' where "g' = sample_global\<lparr>g_logTimeZone := Some cst\<rparr>"
  have s: "setTimeZone 0 cst new_thread sample_global = Inr (new_thread\<lparr>t_zoneAbbr := ''CST''\<rparr>, g')"
    by (simp add: setTimeZone_def getZoneAbbr_def cst_def g'_def)
  have "printable_tm ((toUtcTime 28801 True)\<lparr>tm_isdst := False, tm_gmtoff := 28800, tm_zone := ''CST''\<rparr>)"
    using first_day [of 28801 True] by (simp add: printable_tm_def tm_valid_def)
  then have "entry_ok (g_logTimeZone g') ''GMT'' ''0x1 '' (1000000, sample_statement)"
    by (intro sample_entry_ok) (simp_all add: g'_def log_tm_def cst_time)
  from zone_name_is_per_thread [OF s this] s show ?thesis
    by (fastforce simp: g'_def sample_global_def sample_statement_def enabled_def)
qed

lemma long_message_loses_line_end_witness:
  "\<exists>ab t' g'. run_logger 1000000 [] (sample_statement\<lparr>st_items := [Item_string (replicate 4000 (CHR ''x''))]\<rparr>)
     (new_thread, sample_global) = Inr (ab, t', g') \<and> length (last (out g')) = 4000"
proof -
  have tm: "log_tm (g_logTimeZone sample_global) (1000000 sdiv kMicroSecondsPerSecond) = Inr (toUtcTime 1 True)"
    by (simp add: sample_global_def log_tm_def gmtime_r_def kMicroSecondsPerSecond_def signed_divide_int_def)
  have p: "printable_tm (toUtcTime 1 True)" by (rule first_day) simp_all
  from long_message_loses_line_end [OF tm p, of new_thread "sample_statement\<lparr>st_items := [Item_string (replicate 4000 (CHR ''x''))]\<rparr>"
      "replicate 4000 (CHR ''x'')" "[]"] length_time_text [OF p]
  show ?thesis
    by (auto simp: kMicroSecondsPerSecond_def signed_divide_int_def cache_ok_def new_thread_def sample_statement_def)
qed

end
