(* ===== verification/Conveniences.thy ===== *)
theory Conveniences
  imports LoggingProps Buffer
begin

text \<open>
  Small front ends: \<^verbatim>\<open>FmtHelper\<close> of \<^verbatim>\<open>Utils.h\<close> and the \<^verbatim>\<open>append\<close> of \<^verbatim>\<open>net/Buffer.h\<close> that takes one, the
  constructors of \<^verbatim>\<open>Logger\<close>, and \<^verbatim>\<open>CheckNotNull\<close> of \<^verbatim>\<open>Logging.h\<close>. The library \<^verbatim>\<open>fmt\<close> is a record of its two
  functions: the text that \<^verbatim>\<open>format_to\<close> writes and the number that \<^verbatim>\<open>formatted_size\<close> returns.
\<close>

section \<open>Formatting into a buffer\<close>

record 'a fmt_library =
  format_to :: "string \<Rightarrow> 'a list \<Rightarrow> bytes"
  formatted_size :: "string \<Rightarrow> 'a list \<Rightarrow> nat"

record 'a FmtHelper =
  fmt_format :: string
  fmt_args :: "'a list"

definition Fmt :: "string \<Rightarrow> 'a list \<Rightarrow> 'a FmtHelper" where
  "Fmt text args = \<lparr>fmt_format = text, fmt_args = args\<rparr>"

definition formatSize :: "'a fmt_library \<Rightarrow> 'a FmtHelper \<Rightarrow> nat" where
  "formatSize lib h = formatted_size lib (fmt_format h) (fmt_args h)"

definition formatTo :: "'a fmt_library \<Rightarrow> nat \<Rightarrow> 'a FmtHelper \<Rightarrow> bytes \<Rightarrow> bytes result" where
  "formatTo lib position h memory = copy_to position (format_to lib (fmt_format h) (fmt_args h)) memory"

definition append_fmt :: "'a fmt_library \<Rightarrow> 'a FmtHelper \<Rightarrow> buffer \<Rightarrow> buffer result" where
  "append_fmt lib h b =
     (let len = formatSize lib h in
      and_then (ensureWritableBytes len b) (\<lambda>b1.
      and_then (formatTo lib (beginWrite b1) h (vec b1)) (\<lambda>v.
        hasWritten len (b1\<lparr>vec := v\<rparr>))))"

text \<open>What the documentation of \<^verbatim>\<open>fmt\<close> says of the two functions.\<close>

definition sizes_agree :: "'a fmt_library \<Rightarrow> bool" where
  "sizes_agree lib \<longleftrightarrow> (\<forall>text args. formatted_size lib text args = length (format_to lib text args))"

theorem append_fmt_appends:
  assumes "sizes_agree lib"
  shows "append_fmt lib h b = append_bytes (format_to lib (fmt_format h) (fmt_args h)) b"
  using assms by (simp add: append_fmt_def append_bytes_def formatSize_def formatTo_def sizes_agree_def Let_def)

lemma append_fmt_correct:
  assumes "sizes_agree lib" and "buffer_inv b"
  obtains b' where "append_fmt lib (Fmt text args) b = Inr b'" and "buffer_inv b'"
    and "toStringView b' = toStringView b @ format_to lib text args"
proof -
  obtain b' where "append_bytes (format_to lib text args) b = Inr b'" "buffer_inv b'"
    "toStringView b' = toStringView b @ format_to lib text args"
    by (rule append_bytes_correct [OF assms(2)])
  then show thesis by (intro that) (simp_all add: append_fmt_appends [OF assms(1)] Fmt_def)
qed

section \<open>Loggers\<close>

text \<open>The four constructors; the operands of \<^verbatim>\<open><<\<close> are \<open>items\<close>.\<close>

definition Logger_new :: "string \<Rightarrow> nat \<Rightarrow> log_item list \<Rightarrow> statement" where
  "Logger_new file line items = \<lparr>st_file = file, st_line = line, st_level = INFO, st_errno = 0, st_strerror = [],
     st_func = None, st_items = items\<rparr>"

definition Logger_level :: "string \<Rightarrow> nat \<Rightarrow> log_level \<Rightarrow> log_item list \<Rightarrow> statement" where
  "Logger_level file line level items = (Logger_new file line items)\<lparr>st_level := level\<rparr>"

definition Logger_func :: "string \<Rightarrow> nat \<Rightarrow> log_level \<Rightarrow> string \<Rightarrow> log_item list \<Rightarrow> statement" where
  "Logger_func file line level func items = (Logger_level file line level items)\<lparr>st_func := Some func\<rparr>"

definition Logger_sys :: "(int \<Rightarrow> string) \<Rightarrow> int \<Rightarrow> string \<Rightarrow> nat \<Rightarrow> bool \<Rightarrow> log_item list \<Rightarrow> statement" where
  "Logger_sys strerror_tr errno file line toAbort items =
     (Logger_level file line (if toAbort then FATAL else ERROR) items)\<lparr>st_errno := errno, st_strerror := strerror_tr errno\<rparr>"

text \<open>\<open>None\<close> is the null pointer; the result tells whether the process has aborted, and has the pointer.\<close>

definition CheckNotNull ::
  "int \<Rightarrow> string \<Rightarrow> string \<Rightarrow> nat \<Rightarrow> string \<Rightarrow> 'p option \<Rightarrow> log_thread \<times> log_global \<Rightarrow>
     (bool \<times> 'p option \<times> log_thread \<times> log_global) result"
where
  "CheckNotNull now tidString file line names ptr s =
     (if ptr = None
      then map_sum id (\<lambda>(aborted, s'). (aborted, ptr, s'))
             (run_logger now tidString (Logger_level file line FATAL [Item_cstr (Some names)]) s)
      else Inr (False, ptr, s))"

text \<open>After a call that returns the pointer is not null; otherwise one line was printed and the process is gone.\<close>

theorem CheckNotNull_sound:
  assumes "CheckNotNull now tid file line names ptr (t, g) = Inr (aborted, ptr', t', g')"
  shows "ptr' = ptr \<and> (aborted \<longleftrightarrow> ptr = None) \<and> (aborted \<longrightarrow> out_flushes g' = Suc (out_flushes g)) \<and>
    (\<exists>lines. out g' = out g @ lines \<and> length lines = (if ptr = None then 1 else 0))"
proof (cases "ptr = None")
  case True
  from assms True obtain b where
    "run_logger now tid (Logger_level file line FATAL [Item_cstr (Some names)]) (t, g) = Inr (aborted, t', g')" "ptr' = ptr"
    by (auto simp: CheckNotNull_def)
  with True show ?thesis
    by (auto simp: run_logger_def Logger_delete_def Logger_level_def Let_def)
next
  case False
  with assms show ?thesis by (auto simp: CheckNotNull_def)
qed

end
