(* ===== verification/Poller.thy ===== *)
theory Poller
  imports Channel
begin

text \<open>
  The interface that \<^verbatim>\<open>include/gg_lib/net/Poller.h\<close> declares and its two implementations provide.
  The contract, a locale: \<open>updateChannel\<close> makes the poller watch exactly the events of the
  channel, \<open>removeChannel\<close> makes it forget the channel. What a client sees of it, proved once for
  every poller: after any sequence of allowed operations the events that are watched for a
  descriptor are those its channel asked for.
\<close>

section \<open>The abstract view of a client\<close>

datatype life = Fresh | Registered | Retired

record interest_spec =
  life_of :: "address \<rightharpoonup> life"
  fd_of :: "address \<Rightarrow> int"
  interest :: "address \<Rightarrow> event_bits"

datatype io_op = Change event_change address | Remove address

text \<open>
  A channel may be used for the first time only with something to watch, and when its descriptor is
  not taken; it is removed when it watches nothing, and not used afterwards.
\<close>

fun io_ok :: "io_op \<Rightarrow> interest_spec \<Rightarrow> bool" where
  "io_ok (Change ch a) sp \<longleftrightarrow>
     life_of sp a = Some Registered \<or>
     life_of sp a = Some Fresh \<and> changed ch (interest sp a) \<noteq> 0 \<and>
       (\<forall>b. life_of sp b = Some Registered \<longrightarrow> fd_of sp b \<noteq> fd_of sp a)"
| "io_ok (Remove a) sp \<longleftrightarrow> life_of sp a = Some Registered \<and> interest sp a = 0"

fun io_spec :: "io_op \<Rightarrow> interest_spec \<Rightarrow> interest_spec" where
  "io_spec (Change ch a) sp =
     sp\<lparr>life_of := (life_of sp)(a \<mapsto> Registered), interest := (interest sp)(a := changed ch (interest sp a))\<rparr>"
| "io_spec (Remove a) sp = sp\<lparr>life_of := (life_of sp)(a \<mapsto> Retired)\<rparr>"

fun io_run_ok :: "io_op list \<Rightarrow> interest_spec \<Rightarrow> bool" where
  "io_run_ok [] sp \<longleftrightarrow> True"
| "io_run_ok (op # ops) sp \<longleftrightarrow> io_ok op sp \<and> io_run_ok ops (io_spec op sp)"

text \<open>The operations of the channels on a poller.\<close>

fun io_step ::
  "(address \<Rightarrow> 'p io \<Rightarrow> 'p io result) \<Rightarrow> (address \<Rightarrow> 'p io \<Rightarrow> 'p io result) \<Rightarrow> io_op \<Rightarrow> 'p io \<Rightarrow> 'p io result"
where
  "io_step upd rem (Change ch a) s = change_events upd ch a s"
| "io_step upd rem (Remove a) s = channel_remove rem a s"

fun io_run ::
  "(address \<Rightarrow> 'p io \<Rightarrow> 'p io result) \<Rightarrow> (address \<Rightarrow> 'p io \<Rightarrow> 'p io result) \<Rightarrow> io_op list \<Rightarrow>
     'p io \<Rightarrow> 'p io result"
where
  "io_run upd rem [] s = Inr s"
| "io_run upd rem (op # ops) s = and_then (io_step upd rem op s) (io_run upd rem ops)"

text \<open>The start: channels that were just created.\<close>

definition fresh_spec :: "(address \<rightharpoonup> channel) \<Rightarrow> interest_spec" where
  "fresh_spec chs = \<lparr>life_of = (\<lambda>a. map_option (\<lambda>c. Fresh) (chs a)),
     fd_of = (\<lambda>a. case chs a of Some c \<Rightarrow> fd c | None \<Rightarrow> 0), interest = (\<lambda>a. 0)\<rparr>"

definition all_fresh :: "(address \<rightharpoonup> channel) \<Rightarrow> bool" where
  "all_fresh chs \<longleftrightarrow> (\<forall>a c. chs a = Some c \<longrightarrow> c = Channel_new (fd c) \<and> 0 \<le> fd c)"

section \<open>The contract\<close>

text \<open>The pollers may change the indices of registered channels and nothing else in the heap.\<close>

definition heap_frame :: "(int \<rightharpoonup> address) \<Rightarrow> (address \<rightharpoonup> channel) \<Rightarrow> (address \<rightharpoonup> channel) \<Rightarrow> bool" where
  "heap_frame chs h h' \<longleftrightarrow>
     (\<forall>a. map_option (\<lambda>c. c\<lparr>index := 0\<rparr>) (h' a) = map_option (\<lambda>c. c\<lparr>index := 0\<rparr>) (h a)) \<and>
     (\<forall>a. a \<notin> ran chs \<longrightarrow> h' a = h a)"

lemma heap_frame_refl [simp]: "heap_frame chs h h"
  by (simp add: heap_frame_def)

lemma heap_frame_dest:
  assumes "heap_frame chs h h'" and "h a = Some c"
  obtains i where "h' a = Some (c\<lparr>index := i\<rparr>)" and "a \<notin> ran chs \<Longrightarrow> i = index c"
proof -
  have eq: "map_option (\<lambda>c. c\<lparr>index := 0\<rparr>) (h' a) = Some (c\<lparr>index := 0\<rparr>)"
    using assms by (simp add: heap_frame_def)
  then obtain c' where c': "h' a = Some c'" "c'\<lparr>index := 0\<rparr> = c\<lparr>index := 0\<rparr>" by auto
  from c'(2) have "c' = c\<lparr>index := index c'\<rparr>"
    by (cases c', cases c) simp
  moreover have "a \<notin> ran chs \<Longrightarrow> index c' = index c" using assms c'(1) by (simp add: heap_frame_def)
  ultimately show thesis using c'(1) by (intro that [of "index c'"]) simp_all
qed

lemma heap_frame_rev:
  assumes "heap_frame chs h h'" and "h' a = Some c'"
  obtains c where "h a = Some c" and "c' = c\<lparr>index := index c'\<rparr>"
proof -
  have "map_option (\<lambda>c. c\<lparr>index := 0\<rparr>) (h' a) = map_option (\<lambda>c. c\<lparr>index := 0\<rparr>) (h a)"
    using assms(1) by (simp add: heap_frame_def)
  with assms(2) have "map_option (\<lambda>c. c\<lparr>index := 0\<rparr>) (h a) = Some (c'\<lparr>index := 0\<rparr>)" by simp
  then obtain c where c: "h a = Some c" "c\<lparr>index := 0\<rparr> = c'\<lparr>index := 0\<rparr>" by auto
  then have "c' = c\<lparr>index := index c'\<rparr>" by (cases c', cases c) simp
  with c(1) show thesis by (rule that)
qed

text \<open>What no poller changes: everything but the events, which the channel itself sets, and the index.\<close>

definition cores :: "(address \<rightharpoonup> channel) \<Rightarrow> address \<Rightarrow> channel option" where
  "cores h a = map_option (\<lambda>c. c\<lparr>index := 0, events := 0\<rparr>) (h a)"

lemma cores_frame: "heap_frame chs h h' \<Longrightarrow> cores h' = cores h"
proof
  fix a
  assume "heap_frame chs h h'"
  then have "map_option (\<lambda>c. c\<lparr>index := 0\<rparr>) (h' a) = map_option (\<lambda>c. c\<lparr>index := 0\<rparr>) (h a)" by (simp add: heap_frame_def)
  then have "map_option (\<lambda>c. c\<lparr>events := 0\<rparr>) (map_option (\<lambda>c. c\<lparr>index := 0\<rparr>) (h' a)) =
      map_option (\<lambda>c. c\<lparr>events := 0\<rparr>) (map_option (\<lambda>c. c\<lparr>index := 0\<rparr>) (h a))" by simp
  then show "cores h' a = cores h a" by (simp add: cores_def option.map_comp comp_def)
qed

lemma cores_put:
  "h a = Some c \<Longrightarrow> cores (h(a \<mapsto> c\<lparr>events := e, addedToLoop := t\<rparr>)) =
     (cores h)(a := map_option (\<lambda>c. c\<lparr>addedToLoop := t\<rparr>) (cores h a))"
  "h a = Some c \<Longrightarrow> cores (h(a \<mapsto> c\<lparr>addedToLoop := t\<rparr>)) =
     (cores h)(a := map_option (\<lambda>c. c\<lparr>addedToLoop := t\<rparr>) (cores h a))"
  by (simp_all add: cores_def fun_eq_iff)

locale poller_contract =
  fixes upd :: "address \<Rightarrow> 'p io \<Rightarrow> 'p io result" and rem :: "address \<Rightarrow> 'p io \<Rightarrow> 'p io result"
    and inv :: "'p io \<Rightarrow> bool" and watched :: "'p io \<Rightarrow> int \<Rightarrow> event_bits"
  assumes inv_put: "inv s \<Longrightarrow> heap s a = Some c \<Longrightarrow> fd c' = fd c \<Longrightarrow> index c' = index c \<Longrightarrow>
        inv (put_channel a c' s)"
    and watched_put: "watched (put_channel a c s) = watched s"
    and upd_new: "inv s \<Longrightarrow> heap s a = Some c \<Longrightarrow> channels s (fd c) = None \<Longrightarrow> index c = -1 \<Longrightarrow>
        0 \<le> fd c \<Longrightarrow> events_ok (events c) \<Longrightarrow> events c \<noteq> 0 \<Longrightarrow>
        \<exists>s'. upd a s = Inr s' \<and> inv s' \<and> channels s' = (channels s)(fd c \<mapsto> a) \<and>
          watched s' = (watched s)(fd c := events c) \<and>
          heap_frame (channels s') (heap s) (heap s')"
    and upd_old: "inv s \<Longrightarrow> heap s a = Some c \<Longrightarrow> channels s (fd c) = Some a \<Longrightarrow>
        events_ok (events c) \<Longrightarrow>
        \<exists>s'. upd a s = Inr s' \<and> inv s' \<and> channels s' = channels s \<and>
          watched s' = (watched s)(fd c := events c) \<and>
          heap_frame (channels s') (heap s) (heap s')"
    and rem_old: "inv s \<Longrightarrow> heap s a = Some c \<Longrightarrow> channels s (fd c) = Some a \<Longrightarrow> events c = 0 \<Longrightarrow>
        watched s (fd c) = 0 \<Longrightarrow>
        \<exists>s'. rem a s = Inr s' \<and> inv s' \<and> channels s' = (channels s)(fd c := None) \<and>
          watched s' = watched s \<and> heap_frame (channels s) (heap s) (heap s')"
begin

text \<open>The state of a poller and its channels implements the client's view.\<close>

definition implements :: "interest_spec \<Rightarrow> 'p io \<Rightarrow> bool" where
  "implements sp s \<longleftrightarrow> inv s \<and>
     (\<forall>a. (life_of sp a = None) = (heap s a = None)) \<and>
     (\<forall>a c. heap s a = Some c \<longrightarrow> fd c = fd_of sp a \<and> 0 \<le> fd c \<and> events c = interest sp a \<and>
        events_ok (events c) \<and> (life_of sp a = Some Fresh \<longrightarrow> index c = -1)) \<and>
     (\<forall>f a. channels s f = Some a \<longleftrightarrow> life_of sp a = Some Registered \<and> fd_of sp a = f) \<and>
     (\<forall>f. watched s f = (case channels s f of Some a \<Rightarrow> interest sp a | None \<Rightarrow> 0))"

lemma implements_channels:
  assumes "implements sp s"
  shows "channels s f = Some a \<longleftrightarrow> life_of sp a = Some Registered \<and> fd_of sp a = f"
  using assms unfolding implements_def by blast

lemma implements_heap:
  assumes "implements sp s" and "heap s a = Some c"
  shows "inv s" "fd c = fd_of sp a" "0 \<le> fd c" "events c = interest sp a" "events_ok (events c)"
    "life_of sp a = Some Fresh \<longrightarrow> index c = -1"
  using assms unfolding implements_def by blast+

lemma implements_unique:
  assumes "implements sp s" and "life_of sp a = Some Registered" and "life_of sp b = Some Registered"
    and "fd_of sp a = fd_of sp b"
  shows "a = b"
  using implements_channels [OF assms(1), of "fd_of sp b" a] implements_channels [OF assms(1), of "fd_of sp b" b]
    assms(2-4) by simp

lemma watches_interest:
  assumes "implements sp s"
  shows "watched s f = (case channels s f of Some a \<Rightarrow> interest sp a | None \<Rightarrow> 0)"
    and "life_of sp a = Some Registered \<Longrightarrow> watched s (fd_of sp a) = interest sp a"
proof -
  show watch: "watched s f = (case channels s f of Some a \<Rightarrow> interest sp a | None \<Rightarrow> 0)" for f
    using assms unfolding implements_def by blast
  assume "life_of sp a = Some Registered"
  then have "channels s (fd_of sp a) = Some a" using implements_channels [OF assms] by simp
  then show "watched s (fd_of sp a) = interest sp a" by (simp add: watch)
qed

lemma implements_frame:
  assumes imp: "inv s'" and frame: "heap_frame chs (heap s) (heap s')"
    and chs: "\<And>a f. chs f = Some a \<Longrightarrow> life_of sp' a \<noteq> Some Fresh"
    and doms: "\<And>a. (life_of sp' a = None) = (heap s a = None)"
    and conts: "\<And>a c. heap s a = Some c \<Longrightarrow> fd c = fd_of sp' a \<and> 0 \<le> fd c \<and> events c = interest sp' a \<and>
        events_ok (events c) \<and> (life_of sp' a = Some Fresh \<longrightarrow> index c = -1)"
    and reg: "\<And>f a. channels s' f = Some a \<longleftrightarrow> life_of sp' a = Some Registered \<and> fd_of sp' a = f"
    and watch: "\<And>f. watched s' f = (case channels s' f of Some a \<Rightarrow> interest sp' a | None \<Rightarrow> 0)"
  shows "implements sp' s'"
proof -
  have dom': "heap s' a = None \<longleftrightarrow> heap s a = None" for a
    using heap_frame_rev [OF frame] heap_frame_dest [OF frame] by (metis not_None_eq)
  have cont': "fd c = fd_of sp' a \<and> 0 \<le> fd c \<and> events c = interest sp' a \<and>
        events_ok (events c) \<and> (life_of sp' a = Some Fresh \<longrightarrow> index c = -1)" if "heap s' a = Some c" for a c
  proof -
    obtain c0 where c0: "heap s a = Some c0" "c = c0\<lparr>index := index c\<rparr>"
      using heap_frame_rev [OF frame \<open>heap s' a = Some c\<close>] by blast
    have "index c = index c0" if "life_of sp' a = Some Fresh"
    proof -
      have "a \<notin> ran chs" using chs that by (auto simp: ran_def)
      with frame c0(1) \<open>heap s' a = Some c\<close> show ?thesis by (simp add: heap_frame_def)
    qed
    with conts [OF c0(1)] c0(2) show ?thesis
      by (metis channel.select_convs(1,2) channel.surjective channel.update_convs(4))
  qed
  show ?thesis
    unfolding implements_def using imp dom' doms cont' reg watch by blast
qed

lemma change_refines:
  assumes imp: "implements sp s" and ok: "io_ok (Change ch a) sp"
  shows "\<exists>s'. change_events upd ch a s = Inr s' \<and> implements (io_spec (Change ch a) sp) s' \<and>
    cores (heap s') = (cores (heap s))(a := map_option (\<lambda>c. c\<lparr>addedToLoop := True\<rparr>) (cores (heap s) a))"
proof -
  from ok have "life_of sp a \<noteq> None" by auto
  then obtain c where c: "heap s a = Some c"
    using imp unfolding implements_def by (metis not_None_eq)
  let ?c = "c\<lparr>events := changed ch (events c), addedToLoop := True\<rparr>"
  let ?s = "put_channel a ?c s"
  have facts: "inv s" "fd c = fd_of sp a" "0 \<le> fd c" "events c = interest sp a" "events_ok (events c)"
    "life_of sp a = Some Fresh \<longrightarrow> index c = -1"
    using implements_heap [OF imp c] by blast+
  have inv: "inv ?s" by (rule inv_put [OF facts(1) c]) simp_all
  have hp: "heap ?s a = Some ?c" by (simp add: put_channel_def)
  have evs: "events_ok (events ?c)" using events_ok_changed facts(5) by simp
  have run: "change_events upd ch a s = upd a ?s"
    by (simp add: change_events_def channel_update_def the_channel_def put_channel_def c)
  have "\<exists>s'. upd a ?s = Inr s' \<and> inv s' \<and> channels s' = (channels s)(fd c \<mapsto> a) \<and>
          watched s' = (watched s)(fd c := events ?c) \<and> heap_frame (channels s') (heap ?s) (heap s')"
  proof (cases "life_of sp a = Some Registered")
    case True
    then have reg: "channels s (fd c) = Some a" using imp facts(2) by (simp add: implements_def)
    then have "(channels s)(fd c \<mapsto> a) = channels s" by auto
    with upd_old [OF inv hp _ evs] reg show ?thesis
      by (simp add: put_channel_def [of a ?c s] watched_put [unfolded put_channel_def])
  next
    case False
    with ok have fresh: "life_of sp a = Some Fresh" "changed ch (events c) \<noteq> 0"
      "\<forall>b. life_of sp b = Some Registered \<longrightarrow> fd_of sp b \<noteq> fd_of sp a"
      by (simp_all add: facts(4))
    have "channels s (fd c) = None"
      using imp fresh(3) facts(2) by (cases "channels s (fd c)") (auto simp: implements_def)
    with upd_new [OF inv hp _ _ _ evs] fresh facts(3,6) show ?thesis
      by (simp add: put_channel_def [of a ?c s] watched_put [unfolded put_channel_def])
  qed
  then obtain s' where s': "upd a ?s = Inr s'" "inv s'" "channels s' = (channels s)(fd c \<mapsto> a)"
    "watched s' = (watched s)(fd c := events ?c)" "heap_frame (channels s') (heap ?s) (heap s')"
    by blast
  have reg: "channels s' f = Some b \<longleftrightarrow>
      life_of (io_spec (Change ch a) sp) b = Some Registered \<and> fd_of (io_spec (Change ch a) sp) b = f" for f b
    using implements_channels [OF imp, of f b] implements_unique [OF imp, of a b] ok facts(2)
    by (auto simp: s'(3))
  have "implements (io_spec (Change ch a) sp) s'"
  proof (rule implements_frame [OF s'(2,5)])
    fix b f
    show "channels s' f = Some b \<Longrightarrow> life_of (io_spec (Change ch a) sp) b \<noteq> Some Fresh"
      using reg by simp
  next
    fix b
    show "(life_of (io_spec (Change ch a) sp) b = None) = (heap ?s b = None)"
      using imp by (simp add: implements_def put_channel_def)
  next
    fix b d
    assume "heap ?s b = Some d"
    then show "fd d = fd_of (io_spec (Change ch a) sp) b \<and> 0 \<le> fd d \<and>
        events d = interest (io_spec (Change ch a) sp) b \<and> events_ok (events d) \<and>
        (life_of (io_spec (Change ch a) sp) b = Some Fresh \<longrightarrow> index d = -1)"
      using implements_heap [OF imp, of b d] facts evs
      by (cases "b = a") (auto simp: put_channel_def)
  next
    fix f
    show "watched s' f = (case channels s' f of Some b \<Rightarrow> interest (io_spec (Change ch a) sp) b | None \<Rightarrow> 0)"
    proof (cases "f = fd c")
      case True
      with facts(4) show ?thesis by (simp add: s'(3,4))
    next
      case False
      then have "channels s f \<noteq> Some a" using implements_channels [OF imp, of f a] facts(2) by simp
      with False watches_interest(1) [OF imp, of f] show ?thesis
        by (auto simp: s'(3,4) split: option.splits)
    qed
  qed (rule reg)
  moreover have "cores (heap s') = (cores (heap s))(a := map_option (\<lambda>c. c\<lparr>addedToLoop := True\<rparr>) (cores (heap s) a))"
    unfolding cores_frame [OF s'(5)] by (simp add: put_channel_def cores_put c)
  ultimately show ?thesis using run s'(1) by auto
qed

lemma remove_refines:
  assumes imp: "implements sp s" and ok: "io_ok (Remove a) sp"
  shows "\<exists>s'. channel_remove rem a s = Inr s' \<and> implements (io_spec (Remove a) sp) s' \<and>
    cores (heap s') = (cores (heap s))(a := map_option (\<lambda>c. c\<lparr>addedToLoop := False\<rparr>) (cores (heap s) a))"
proof -
  from ok have "life_of sp a \<noteq> None" by auto
  then obtain c where c: "heap s a = Some c"
    using imp unfolding implements_def by (metis not_None_eq)
  let ?c = "c\<lparr>addedToLoop := False\<rparr>"
  let ?s = "put_channel a ?c s"
  have facts: "inv s" "fd c = fd_of sp a" "0 \<le> fd c" "events c = interest sp a" "events_ok (events c)"
    using implements_heap [OF imp c] by blast+
  have inv: "inv ?s" by (rule inv_put [OF facts(1) c]) simp_all
  have hp: "heap ?s a = Some ?c" by (simp add: put_channel_def)
  have none: "events c = 0" using ok facts(4) by simp
  have run: "channel_remove rem a s = rem a ?s"
    by (simp add: channel_remove_def the_channel_def put_channel_def c isNoneEvent_def none
        event_defs check_def)
  have reg0: "channels s (fd c) = Some a" using imp ok facts(2) by (simp add: implements_def)
  have "watched s (fd c) = 0" using watches_interest(2) [OF imp, of a] ok facts(2) by simp
  then have "\<exists>s'. rem a ?s = Inr s' \<and> inv s' \<and> channels s' = (channels s)(fd c := None) \<and>
      watched s' = watched s \<and> heap_frame (channels s) (heap ?s) (heap s')"
    using rem_old [OF inv hp] reg0 none
    by (simp add: put_channel_def [of a ?c s] watched_put [unfolded put_channel_def])
  then obtain s' where s': "rem a ?s = Inr s'" "inv s'" "channels s' = (channels s)(fd c := None)"
    "watched s' = watched s" "heap_frame (channels s) (heap ?s) (heap s')"
    by blast
  have reg: "channels s' f = Some b \<longleftrightarrow>
      life_of (io_spec (Remove a) sp) b = Some Registered \<and> fd_of (io_spec (Remove a) sp) b = f" for f b
    using implements_channels [OF imp, of f b] implements_unique [OF imp, of a b] ok facts(2)
    by (auto simp: s'(3))
  have "implements (io_spec (Remove a) sp) s'"
  proof (rule implements_frame [OF s'(2,5)])
    fix b f
    assume "channels s f = Some b"
    then show "life_of (io_spec (Remove a) sp) b \<noteq> Some Fresh"
      using imp by (simp add: implements_def)
  next
    fix b
    show "(life_of (io_spec (Remove a) sp) b = None) = (heap ?s b = None)"
      using imp by (simp add: implements_def put_channel_def)
  next
    fix b d
    assume "heap ?s b = Some d"
    then show "fd d = fd_of (io_spec (Remove a) sp) b \<and> 0 \<le> fd d \<and>
        events d = interest (io_spec (Remove a) sp) b \<and> events_ok (events d) \<and>
        (life_of (io_spec (Remove a) sp) b = Some Fresh \<longrightarrow> index d = -1)"
      using implements_heap [OF imp, of b d] facts by (cases "b = a") (auto simp: put_channel_def)
  next
    fix f
    show "watched s' f = (case channels s' f of Some b \<Rightarrow> interest (io_spec (Remove a) sp) b | None \<Rightarrow> 0)"
      using watches_interest(1) [OF imp, of f] facts(2) reg0 ok 
      by (cases "f = fd c") (simp_all add: s'(3,4) split: option.splits)
  qed (rule reg)
  moreover have "cores (heap s') = (cores (heap s))(a := map_option (\<lambda>c. c\<lparr>addedToLoop := False\<rparr>) (cores (heap s) a))"
    unfolding cores_frame [OF s'(5)] by (simp add: put_channel_def cores_put c)
  ultimately show ?thesis using run s'(1) by auto
qed

lemma io_run_refines:
  assumes "implements sp s" and "io_run_ok ops sp"
  shows "\<exists>s'. io_run upd rem ops s = Inr s' \<and> implements (fold io_spec ops sp) s'"
  using assms
proof (induction ops arbitrary: sp s)
  case (Cons op ops)
  have "\<exists>s1. io_step upd rem op s = Inr s1 \<and> implements (io_spec op sp) s1"
  proof (cases op)
    case (Change ch a)
    with Cons.prems change_refines [of sp s ch a] show ?thesis by auto
  next
    case (Remove a)
    with Cons.prems remove_refines [of sp s a] show ?thesis by auto
  qed
  with Cons.IH Cons.prems(2) show ?case by auto
qed simp

lemma implements_fresh:
  assumes "all_fresh (heap s)" and "inv s" and "channels s = Map.empty" and "watched s = (\<lambda>f. 0)"
  shows "implements (fresh_spec (heap s)) s"
proof -
  have "fd c = fd_of (fresh_spec (heap s)) a \<and> 0 \<le> fd c \<and> events c = interest (fresh_spec (heap s)) a \<and>
      events_ok (events c) \<and> index c = -1" if a: "heap s a = Some c" for a c
  proof -
    have "c = Channel_new (fd c)" "0 \<le> fd c" using assms(1) a by (simp_all add: all_fresh_def)
    moreover from this(1) have "events c = 0" "index c = -1" by (simp_all add: Channel_new_def) (metis channel.select_convs)+
    ultimately show ?thesis using a by (simp add: fresh_spec_def events_ok_def)
  qed
  with assms(2-4) show ?thesis by (simp add: implements_def fresh_spec_def events_ok_def)
qed

end

end
