(* ===== verification/PollPoller.thy ===== *)
theory PollPoller
  imports Poller
begin

text \<open>
  \<^verbatim>\<open>gg_lib/net/poller/PollPoller.cc\<close>, the poller on \<^verbatim>\<open>poll(2)\<close>: a vector of \<^verbatim>\<open>pollfd\<close>s in which every
  registered channel knows its index. A channel that watches nothing stays in the vector with its
  descriptor \<open>f\<close> stored as \<open>- f - 1\<close>, and a removed one is replaced by the last.
\<close>

section \<open>Operations\<close>

record pollfd =
  pfd_fd :: int
  pfd_events :: "16 word"
  pfd_revents :: "16 word"

type_synonym poll_io = "pollfd list io"

definition pp_updateChannel :: "address \<Rightarrow> poll_io \<Rightarrow> poll_io result" where
  "pp_updateChannel a s =
     and_then (the_channel s a) (\<lambda>c.
       if index c < 0 then
         check (channels s (fd c) = None)
           (let pfd = \<lparr>pfd_fd = fd c, pfd_events = ucast (events c), pfd_revents = 0\<rparr>;
                s1 = s\<lparr>poller := poller s @ [pfd]\<rparr>;
                idx = int (length (poller s1)) - 1;
                s2 = put_channel a (c\<lparr>index := idx\<rparr>) s1
            in Inr (s2\<lparr>channels := (channels s2)(pfd_fd pfd \<mapsto> a)\<rparr>))
       else
         check (channels s (fd c) \<noteq> None) (check (channels s (fd c) = Some a)
           (let idx = index c in
            check (0 \<le> idx \<and> idx < int (length (poller s)))
              (let pfd = poller s ! nat idx in
               check (pfd_fd pfd = fd c \<or> pfd_fd pfd = - fd c - 1)
                 (Inr (s\<lparr>poller := (poller s)[nat idx :=
                    \<lparr>pfd_fd = (if isNoneEvent c then - fd c - 1 else fd c),
                     pfd_events = ucast (events c), pfd_revents = 0\<rparr>]\<rparr>))))))"

text \<open>\<^verbatim>\<open>channels_[channelAtEnd]\<close> is a null pointer when the descriptor is not in the map.\<close>

definition pp_removeChannel :: "address \<Rightarrow> poll_io \<Rightarrow> poll_io result" where
  "pp_removeChannel a s =
     and_then (the_channel s a) (\<lambda>c.
       check (channels s (fd c) \<noteq> None) (check (channels s (fd c) = Some a) (check (isNoneEvent c)
         (let idx = index c in
          check (0 \<le> idx \<and> idx < int (length (poller s)))
            (let pfd = poller s ! nat idx in
             check (pfd_fd pfd = - fd c - 1 \<and> scast (pfd_events pfd) = events c)
               (let s1 = s\<lparr>channels := (channels s)(fd c := None)\<rparr> in
                if idx \<noteq> int (length (poller s1)) - 1 then
                  (let end_fd = pfd_fd (last (poller s1));
                       s2 = s1\<lparr>poller := (poller s1)[nat idx := last (poller s1),
                                            length (poller s1) - 1 := poller s1 ! nat idx]\<rparr>;
                       channelAtEnd = (if end_fd < 0 then - end_fd - 1 else end_fd)
                   in case channels s2 channelAtEnd of
                        None \<Rightarrow> Inl Dangling
                      | Some b \<Rightarrow> and_then (the_channel s2 b) (\<lambda>d.
                          let s3 = put_channel b (d\<lparr>index := idx\<rparr>) s2 in
                          Inr (s3\<lparr>poller := butlast (poller s3)\<rparr>)))
                else Inr (s1\<lparr>poller := butlast (poller s1)\<rparr>)))))))"

text \<open>What the kernel watches: entries with a negative descriptor are ignored.\<close>

definition pp_watched :: "poll_io \<Rightarrow> int \<Rightarrow> event_bits" where
  "pp_watched s f =
     (case List.find (\<lambda>p. pfd_fd p = f \<and> 0 \<le> f) (poller s) of Some p \<Rightarrow> ucast (pfd_events p) | None \<Rightarrow> 0)"

section \<open>The invariant\<close>

definition pfd_of :: "pollfd \<Rightarrow> int" where
  "pfd_of p = (if pfd_fd p < 0 then - pfd_fd p - 1 else pfd_fd p)"

definition pp_inv :: "poll_io \<Rightarrow> bool" where
  "pp_inv s \<longleftrightarrow>
     (\<forall>f a. channels s f = Some a \<longrightarrow> (\<exists>c. heap s a = Some c \<and> fd c = f \<and> 0 \<le> f \<and>
        0 \<le> index c \<and> nat (index c) < length (poller s) \<and> pfd_of (poller s ! nat (index c)) = f)) \<and>
     (\<forall>i < length (poller s). \<exists>a c. channels s (pfd_of (poller s ! i)) = Some a \<and>
        heap s a = Some c \<and> index c = int i) \<and>
     (\<forall>p \<in> set (poller s). pfd_fd p < 0 \<longleftrightarrow> pfd_events p = 0)"

lemma pp_inv_channel:
  assumes "pp_inv s" and "channels s f = Some a" and "heap s a = Some c"
  shows "fd c = f" "0 \<le> f" "0 \<le> index c" "nat (index c) < length (poller s)"
    "pfd_of (poller s ! nat (index c)) = f"
  using assms unfolding pp_inv_def by fastforce+

lemma pp_inv_index:
  assumes "pp_inv s" and "i < length (poller s)"
  obtains a c where "channels s (pfd_of (poller s ! i)) = Some a" and "heap s a = Some c"
    and "index c = int i"
  using assms unfolding pp_inv_def by blast

lemma pp_invI:
  assumes "\<And>f a. channels s f = Some a \<Longrightarrow> \<exists>c. heap s a = Some c \<and> fd c = f \<and> 0 \<le> f \<and>
        0 \<le> index c \<and> nat (index c) < length (poller s) \<and> pfd_of (poller s ! nat (index c)) = f"
    and "\<And>i. i < length (poller s) \<Longrightarrow> \<exists>a c. channels s (pfd_of (poller s ! i)) = Some a \<and>
        heap s a = Some c \<and> index c = int i"
    and "\<And>p. p \<in> set (poller s) \<Longrightarrow> pfd_fd p < 0 \<longleftrightarrow> pfd_events p = 0"
  shows "pp_inv s"
  using assms unfolding pp_inv_def by blast

lemma pp_inv_heap:
  assumes "pp_inv s" and "channels s f = Some a"
  obtains c where "heap s a = Some c"
  using assms unfolding pp_inv_def by blast

lemma pfd_of_inj:
  assumes "pp_inv s" and "i < length (poller s)" and "j < length (poller s)"
    and "pfd_of (poller s ! i) = pfd_of (poller s ! j)"
  shows "i = j"
proof -
  obtain a c where i: "channels s (pfd_of (poller s ! i)) = Some a" "heap s a = Some c" "index c = int i"
    by (rule pp_inv_index [OF assms(1,2)])
  obtain b d where j: "channels s (pfd_of (poller s ! j)) = Some b" "heap s b = Some d" "index d = int j"
    by (rule pp_inv_index [OF assms(1,3)])
  have "a = b" using i(1) j(1) unfolding assms(4) by simp
  with i(2,3) j(2,3) show ?thesis by simp
qed

lemma pp_watched_index:
  assumes "pp_inv s" and "i < length (poller s)"
  shows "pp_watched s (pfd_of (poller s ! i)) = ucast (pfd_events (poller s ! i))"
proof -
  let ?p = "poller s ! i"
  let ?find = "List.find (\<lambda>p. pfd_fd p = pfd_of ?p \<and> 0 \<le> pfd_of ?p) (poller s)"
  have neg: "pfd_fd ?p < 0 \<longleftrightarrow> pfd_events ?p = 0" using assms by (simp add: pp_inv_def)
  have the_one: "q = ?p" if q: "q \<in> set (poller s)" "pfd_fd q = pfd_of ?p" "0 \<le> pfd_of ?p" for q
  proof -
    obtain j where j: "j < length (poller s)" "q = poller s ! j" using q(1) by (metis in_set_conv_nth)
    have "0 \<le> pfd_fd q" using q(2,3) by simp
    then have "pfd_of q = pfd_fd q" unfolding pfd_of_def by simp
    then have "pfd_of q = pfd_of ?p" using q(2) by (rule trans)
    with pfd_of_inj [OF assms(1) j(1) assms(2)] j(2) show ?thesis by simp
  qed
  show ?thesis
  proof (cases ?find)
    case None
    have "?p \<in> set (poller s)" using assms(2) by simp
    with None have "\<not> (pfd_fd ?p = pfd_of ?p \<and> 0 \<le> pfd_of ?p)" unfolding find_None_iff by blast
    then have "pfd_fd ?p < 0" unfolding pfd_of_def by (simp split: if_splits)
    with None neg show ?thesis by (simp add: pp_watched_def)
  next
    case (Some q)
    then have "q = ?p" by (intro the_one) (auto simp: find_Some_iff)
    with Some show ?thesis by (simp add: pp_watched_def)
  qed
qed

lemma pp_watched_none:
  assumes "\<And>i. i < length (poller s) \<Longrightarrow> pfd_of (poller s ! i) \<noteq> f"
  shows "pp_watched s f = 0"
proof -
  have "List.find (\<lambda>p. pfd_fd p = f \<and> 0 \<le> f) (poller s) = None"
    using assms by (force simp: find_None_iff in_set_conv_nth pfd_of_def)
  then show ?thesis by (simp add: pp_watched_def)
qed

lemma events_short:
  assumes "events_ok e"
  shows "ucast (ucast e :: 16 word) = e" and "(ucast e :: 16 word) = 0 \<longleftrightarrow> e = 0"
  using assms unfolding events_ok_cases by auto

lemma short_zero: "ucast (e :: 16 word) = (0 :: event_bits) \<longleftrightarrow> e = 0"
  by transfer simp

section \<open>The operations keep it\<close>

lemma pp_inv_cong:
  assumes inv: "pp_inv s" and chs: "channels s' = channels s" and len: "length (poller s') = length (poller s)"
    and dec: "\<And>i. i < length (poller s) \<Longrightarrow> pfd_of (poller s' ! i) = pfd_of (poller s ! i)"
    and sign: "\<And>p. p \<in> set (poller s') \<Longrightarrow> pfd_fd p < 0 \<longleftrightarrow> pfd_events p = 0"
    and hp: "\<And>b d. heap s b = Some d \<Longrightarrow> \<exists>d'. heap s' b = Some d' \<and> fd d' = fd d \<and> index d' = index d"
  shows "pp_inv s'"
proof (rule pp_invI, unfold chs len)
  fix f b assume b: "channels s f = Some b"
  obtain d where d: "heap s b = Some d" by (rule pp_inv_heap [OF inv b])
  note facts = pp_inv_channel [OF inv b d]
  obtain d' where "heap s' b = Some d'" "fd d' = fd d" "index d' = index d" using hp [OF d] by blast
  with facts dec [OF facts(4)] show "\<exists>c. heap s' b = Some c \<and> fd c = f \<and> 0 \<le> f \<and>
      0 \<le> index c \<and> nat (index c) < length (poller s) \<and> pfd_of (poller s' ! nat (index c)) = f" by simp
next
  fix i assume i: "i < length (poller s)"
  obtain b d where bd: "channels s (pfd_of (poller s ! i)) = Some b" "heap s b = Some d" "index d = int i"
    by (rule pp_inv_index [OF inv i])
  with hp [OF bd(2)] dec [OF i]
  show "\<exists>b c. channels s (pfd_of (poller s' ! i)) = Some b \<and> heap s' b = Some c \<and> index c = int i" by auto
qed (rule sign)

lemma pp_inv_sign: "pp_inv s \<Longrightarrow> p \<in> set (poller s) \<Longrightarrow> pfd_fd p < 0 \<longleftrightarrow> pfd_events p = 0"
  by (simp add: pp_inv_def)

lemma pp_inv_put:
  assumes "pp_inv s" and "heap s a = Some c" and "fd c' = fd c" and "index c' = index c"
  shows "pp_inv (put_channel a c' s)"
proof (rule pp_inv_cong [OF assms(1)])
  show "\<exists>d'. heap (put_channel a c' s) b = Some d' \<and> fd d' = fd d \<and> index d' = index d"
    if "heap s b = Some d" for b d
    using that assms(2-4) by (cases "b = a") (simp_all add: put_channel_def)
qed (simp_all add: put_channel_def pp_inv_sign [OF assms(1)])

lemma pp_watched_put: "pp_watched (put_channel a c s) = pp_watched s"
  by (simp add: fun_eq_iff pp_watched_def put_channel_def)

text \<open>Two states watch the same for a descriptor whose entries agree.\<close>

lemma pp_watched_same:
  assumes "pp_inv s" and "pp_inv s'"
    and "\<And>i. i < length (poller s) \<Longrightarrow> pfd_of (poller s ! i) = f \<Longrightarrow>
           \<exists>j < length (poller s'). poller s' ! j = poller s ! i"
    and "\<And>i. i < length (poller s') \<Longrightarrow> pfd_of (poller s' ! i) = f \<Longrightarrow>
           \<exists>j < length (poller s). poller s ! j = poller s' ! i"
  shows "pp_watched s' f = pp_watched s f"
proof (cases "\<exists>i < length (poller s). pfd_of (poller s ! i) = f")
  case True
  then obtain i where i: "i < length (poller s)" "pfd_of (poller s ! i) = f" by blast
  with assms(3) obtain j where j: "j < length (poller s')" "poller s' ! j = poller s ! i" by blast
  show ?thesis
    using pp_watched_index [OF assms(1) i(1)] pp_watched_index [OF assms(2) j(1)] i(2) j(2) by simp
next
  case False
  then have "pp_watched s f = 0" by (intro pp_watched_none) blast
  moreover have "pp_watched s' f = 0"
  proof (rule pp_watched_none)
    fix i assume "i < length (poller s')"
    with assms(4) False show "pfd_of (poller s' ! i) \<noteq> f" by metis
  qed
  ultimately show ?thesis by simp
qed

lemma pp_update_new:
  assumes inv: "pp_inv s" and c: "heap s a = Some c" and none: "channels s (fd c) = None"
    and idx: "index c = -1" and pos: "0 \<le> fd c" and evs: "events_ok (events c)" "events c \<noteq> 0"
  shows "\<exists>s'. pp_updateChannel a s = Inr s' \<and> pp_inv s' \<and> channels s' = (channels s)(fd c \<mapsto> a) \<and>
     pp_watched s' = (pp_watched s)(fd c := events c) \<and> heap_frame (channels s') (heap s) (heap s')"
proof -
  let ?n = "length (poller s)"
  let ?p = "\<lparr>pfd_fd = fd c, pfd_events = ucast (events c), pfd_revents = 0\<rparr>"
  let ?s = "\<lparr>heap = (heap s)(a \<mapsto> c\<lparr>index := int ?n\<rparr>), channels = (channels s)(fd c \<mapsto> a),
     poller = poller s @ [?p]\<rparr>"
  have run: "pp_updateChannel a s = Inr ?s"
    using none idx c by (simp add: pp_updateChannel_def the_channel_def check_def Let_def put_channel_def)
  have dec: "pfd_of ?p = fd c" using pos by (simp add: pfd_of_def)
  have fresh: "channels s f \<noteq> Some a" for f
    using pp_inv_channel(3) [OF inv _ c] idx by force
  have other: "pfd_of (poller s ! i) \<noteq> fd c" if i: "i < ?n" for i
  proof -
    obtain b d where "channels s (pfd_of (poller s ! i)) = Some b" "heap s b = Some d" "index d = int i"
      by (rule pp_inv_index [OF inv i])
    with none show ?thesis by auto
  qed
  have inv': "pp_inv ?s"
  proof (rule pp_invI)
    fix f b assume b: "channels ?s f = Some b"
    show "\<exists>d. heap ?s b = Some d \<and> fd d = f \<and> 0 \<le> f \<and> 0 \<le> index d \<and> nat (index d) < length (poller ?s) \<and>
        pfd_of (poller ?s ! nat (index d)) = f"
    proof (cases "f = fd c")
      case True
      with b pos dec show ?thesis by simp
    next
      case False
      with b have b': "channels s f = Some b" by simp
      obtain d where d: "heap s b = Some d" by (rule pp_inv_heap [OF inv b'])
      have "b \<noteq> a" using fresh b' by blast
      with pp_inv_channel [OF inv b' d] d show ?thesis by (simp add: nth_append)
    qed
  next
    fix i assume i: "i < length (poller ?s)"
    show "\<exists>b d. channels ?s (pfd_of (poller ?s ! i)) = Some b \<and> heap ?s b = Some d \<and> index d = int i"
    proof (cases "i = ?n")
      case True
      with dec show ?thesis by simp
    next
      case False
      with i have i': "i < ?n" by simp
      obtain b d where bd: "channels s (pfd_of (poller s ! i)) = Some b" "heap s b = Some d" "index d = int i"
        by (rule pp_inv_index [OF inv i'])
      have "b \<noteq> a" using fresh bd(1) by blast
      with bd other [OF i'] i' show ?thesis by (simp add: nth_append)
    qed
  next
    fix p assume "p \<in> set (poller ?s)"
    then show "pfd_fd p < 0 \<longleftrightarrow> pfd_events p = 0"
      using inv pos evs events_short(2) [OF evs(1)] by (auto simp: pp_inv_def)
  qed
  have "pp_watched ?s f = ((pp_watched s)(fd c := events c)) f" for f
  proof (cases "f = fd c")
    case True
    with pp_watched_index [OF inv', of ?n] dec events_short(1) [OF evs(1)] show ?thesis by simp
  next
    case False
    have "pp_watched ?s f = pp_watched s f"
    proof (rule pp_watched_same [OF inv inv'])
      show "\<exists>j < length (poller ?s). poller ?s ! j = poller s ! i" if "i < ?n" for i
        using that by (intro exI [of _ i]) (simp add: nth_append)
      show "\<exists>j < ?n. poller s ! j = poller ?s ! i" if "i < length (poller ?s)" "pfd_of (poller ?s ! i) = f" for i
        using that False dec by (intro exI [of _ i]) (auto simp: nth_append less_Suc_eq)
    qed
    with False show ?thesis by simp
  qed
  then have "pp_watched ?s = (pp_watched s)(fd c := events c)" by blast
  moreover have "heap_frame (channels ?s) (heap s) (heap ?s)"
    using c by (auto simp: heap_frame_def ran_def)
  ultimately show ?thesis using run inv' by (intro exI [of _ ?s]) simp
qed

lemma pp_update_old:
  assumes inv: "pp_inv s" and c: "heap s a = Some c" and reg: "channels s (fd c) = Some a"
    and evs: "events_ok (events c)"
  shows "\<exists>s'. pp_updateChannel a s = Inr s' \<and> pp_inv s' \<and> channels s' = channels s \<and>
     pp_watched s' = (pp_watched s)(fd c := events c) \<and> heap_frame (channels s') (heap s) (heap s')"
proof -
  let ?i = "nat (index c)"
  note ch = pp_inv_channel [OF inv reg c]
  let ?p = "\<lparr>pfd_fd = (if isNoneEvent c then - fd c - 1 else fd c), pfd_events = ucast (events c), pfd_revents = 0\<rparr>"
  let ?s = "s\<lparr>poller := (poller s)[?i := ?p]\<rparr>"
  have "pfd_fd (poller s ! ?i) = fd c \<or> pfd_fd (poller s ! ?i) = - fd c - 1"
    using ch(5) by (auto simp: pfd_of_def split: if_splits)
  with ch reg c have run: "pp_updateChannel a s = Inr ?s"
    by (simp add: pp_updateChannel_def the_channel_def check_def Let_def nat_less_iff)
  have dec: "pfd_of ?p = fd c" using ch(2) by (simp add: pfd_of_def)
  have decs: "pfd_of (poller ?s ! i) = pfd_of (poller s ! i)" if "i < length (poller s)" for i
    using that dec ch(5) by (cases "i = ?i") simp_all
  have sign: "pfd_fd p < 0 \<longleftrightarrow> pfd_events p = 0" if "p \<in> set (poller ?s)" for p
  proof -
    have "p = ?p \<or> p \<in> set (poller s)" using set_update_subset_insert that by fastforce
    then show ?thesis
      using inv ch(2) events_short(2) [OF evs] by (auto simp: pp_inv_def isNoneEvent_def event_defs)
  qed
  have inv': "pp_inv ?s" by (rule pp_inv_cong [OF inv _ _ decs sign]) simp_all
  have "pp_watched ?s f = ((pp_watched s)(fd c := events c)) f" for f
  proof (cases "f = fd c")
    case True
    with pp_watched_index [OF inv', of ?i] dec ch(4) events_short(1) [OF evs] show ?thesis by simp
  next
    case False
    have "pp_watched ?s f = pp_watched s f"
    proof (rule pp_watched_same [OF inv inv'])
      show "\<exists>j < length (poller ?s). poller ?s ! j = poller s ! i"
        if "i < length (poller s)" "pfd_of (poller s ! i) = f" for i
        using that False ch(5) by (intro exI [of _ i]) (cases "i = ?i"; simp)
      show "\<exists>j < length (poller s). poller s ! j = poller ?s ! i"
        if "i < length (poller ?s)" "pfd_of (poller ?s ! i) = f" for i
        using that False dec ch(4) by (intro exI [of _ i]) (cases "i = ?i"; simp)
    qed
    with False show ?thesis by simp
  qed
  then have "pp_watched ?s = (pp_watched s)(fd c := events c)" by blast
  with run inv' show ?thesis by (intro exI [of _ ?s]) simp
qed

text \<open>Replacing the entry \<open>i\<close> by the last one, seen entry by entry.\<close>

definition replaced_by_last :: "nat \<Rightarrow> pollfd list \<Rightarrow> pollfd list \<Rightarrow> bool" where
  "replaced_by_last i ps ps' \<longleftrightarrow> length ps' = length ps - 1 \<and>
     (\<forall>j < length ps - 1. ps' ! j = (if j = i then ps ! (length ps - 1) else ps ! j))"

lemma replaced_by_last_swap:
  assumes "i < length ps" and "i \<noteq> length ps - 1"
  shows "replaced_by_last i ps (butlast (ps[i := last ps, length ps - 1 := ps ! i]))"
proof -
  have "last ps = ps ! (length ps - 1)" using assms(1) by (intro last_conv_nth) auto
  with assms show ?thesis by (auto simp: replaced_by_last_def nth_butlast)
qed

lemma replaced_by_last_end: "replaced_by_last (length ps - 1) ps (butlast ps)"
  by (simp add: replaced_by_last_def nth_butlast)

lemma replaced_by_last_fwd:
  assumes "replaced_by_last i ps ps'" and "i < length ps" and "j < length ps" and "j \<noteq> i"
  shows "\<exists>k < length ps'. ps' ! k = ps ! j"
proof (cases "j = length ps - 1")
  case True
  with assms show ?thesis by (intro exI [of _ i]) (auto simp: replaced_by_last_def)
next
  case False
  with assms show ?thesis by (intro exI [of _ j]) (auto simp: replaced_by_last_def)
qed

lemma replaced_by_last_back:
  assumes "replaced_by_last i ps ps'" and "j < length ps'"
  shows "\<exists>k < length ps. ps ! k = ps' ! j \<and> (k = i \<longrightarrow> i = length ps - 1 \<and> j = i)"
  using assms
  by (cases "j = i") (auto simp: replaced_by_last_def intro: exI [of _ j] exI [of _ "length ps - 1"])

text \<open>The state after a removal: \<open>c\<close> is the removed channel, at \<open>i\<close>.\<close>

lemma pp_remove_state:
  assumes inv: "pp_inv s" and c: "heap s a = Some c" and reg: "channels s (fd c) = Some a"
    and i: "i = nat (index c)" and ps: "replaced_by_last i (poller s) (poller s')"
    and chs: "channels s' = (channels s)(fd c := None)"
    and hp: "\<And>f b d. channels s f = Some b \<Longrightarrow> heap s b = Some d \<Longrightarrow>
       heap s' b = Some (d\<lparr>index := (if index d = int (length (poller s)) - 1 then int i else index d)\<rparr>)"
  shows "pp_inv s'" and "pp_watched s (fd c) = 0 \<Longrightarrow> pp_watched s' = pp_watched s"
proof -
  let ?n = "length (poller s)"
  note ch = pp_inv_channel [OF inv reg c]
  have i_n: "i < ?n" and dec_i: "pfd_of (poller s ! i) = fd c" using ch(4,5) i by simp_all
  have uniq: "j = i" if "j < ?n" "pfd_of (poller s ! j) = fd c" for j
    using pfd_of_inj [OF inv that(1) i_n] that(2) dec_i by simp
  have len: "length (poller s') = ?n - 1"
    and entry: "j < ?n - 1 \<Longrightarrow> poller s' ! j = (if j = i then poller s ! (?n - 1) else poller s ! j)" for j
    using ps by (simp_all add: replaced_by_last_def)
  show inv': "pp_inv s'"
  proof (rule pp_invI)
    fix f b assume "channels s' f = Some b"
    then have b: "channels s f = Some b" "f \<noteq> fd c" by (auto simp: chs split: if_splits)
    obtain d where d: "heap s b = Some d" by (rule pp_inv_heap [OF inv b(1)])
    note facts = pp_inv_channel [OF inv b(1) d]
    have ne: "nat (index d) \<noteq> i" using facts(5) dec_i b(2) by auto
    have last_i: "i \<noteq> ?n - 1" if "nat (index d) = ?n - 1" using that ne by simp
    have "i < ?n - 1 \<and> pfd_of (poller s' ! i) = f" if "nat (index d) = ?n - 1"
      using last_i [OF that] i_n entry [of i] facts(5) that by simp
    moreover have "nat (index d) < ?n - 1 \<and> pfd_of (poller s' ! nat (index d)) = f" if "nat (index d) \<noteq> ?n - 1"
      using that facts(4,5) entry [of "nat (index d)"] ne by simp
    moreover have "index d = int ?n - 1 \<longleftrightarrow> nat (index d) = ?n - 1" using facts(3,4) by auto
    ultimately show "\<exists>d. heap s' b = Some d \<and> fd d = f \<and> 0 \<le> f \<and> 0 \<le> index d \<and>
        nat (index d) < length (poller s') \<and> pfd_of (poller s' ! nat (index d)) = f"
      using hp [OF b(1) d] facts(1-3) len by auto
  next
    fix j assume j: "j < length (poller s')"
    let ?k = "if j = i then ?n - 1 else j"
    have k: "?k < ?n" "poller s' ! j = poller s ! ?k" using j len entry [of j] by auto
    obtain b d where bd: "channels s (pfd_of (poller s ! ?k)) = Some b" "heap s b = Some d" "index d = int ?k"
      by (rule pp_inv_index [OF inv k(1)])
    have "?k \<noteq> i" using j len by (auto split: if_splits)
    then have "pfd_of (poller s ! ?k) \<noteq> fd c" using uniq [OF k(1)] by blast
    moreover have "(if index d = int ?n - 1 then int i else index d) = int j"
      using bd(3) j len by (auto split: if_splits)
    ultimately show "\<exists>b d. channels s' (pfd_of (poller s' ! j)) = Some b \<and> heap s' b = Some d \<and> index d = int j"
      using bd(1) hp [OF bd(1,2)] k(2) by (simp add: chs)
  next
    fix p assume "p \<in> set (poller s')"
    then obtain j where j: "j < length (poller s')" "p = poller s' ! j" by (metis in_set_conv_nth)
    then obtain k where "k < ?n" "p = poller s ! k" using replaced_by_last_back [OF ps j(1)] by auto
    then have "p \<in> set (poller s)" by simp
    with inv show "pfd_fd p < 0 \<longleftrightarrow> pfd_events p = 0" by (simp add: pp_inv_def)
  qed
  assume zero: "pp_watched s (fd c) = 0"
  have "pp_watched s' f = pp_watched s f" for f
  proof (cases "f = fd c")
    case True
    have "pfd_of (poller s' ! j) \<noteq> fd c" if j: "j < length (poller s')" for j
    proof -
      obtain k where k: "k < ?n" "poller s ! k = poller s' ! j" "k = i \<longrightarrow> i = ?n - 1 \<and> j = i"
        using replaced_by_last_back [OF ps j] by blast
      with uniq [OF k(1)] j len show ?thesis by auto
    qed
    then have "pp_watched s' (fd c) = 0" by (rule pp_watched_none)
    with zero True show ?thesis by simp
  next
    case False
    show ?thesis
    proof (rule pp_watched_same [OF inv inv'])
      show "\<exists>k < length (poller s'). poller s' ! k = poller s ! j"
        if "j < ?n" "pfd_of (poller s ! j) = f" for j
        using replaced_by_last_fwd [OF ps i_n that(1)] that(2) dec_i False by blast
      show "\<exists>k < ?n. poller s ! k = poller s' ! j" if "j < length (poller s')" for j
        using replaced_by_last_back [OF ps that] by blast
    qed
  qed
  then show "pp_watched s' = pp_watched s" by blast
qed

lemma pp_remove_old:
  assumes inv: "pp_inv s" and c: "heap s a = Some c" and reg: "channels s (fd c) = Some a"
    and none: "events c = 0" and zero: "pp_watched s (fd c) = 0"
  shows "\<exists>s'. pp_removeChannel a s = Inr s' \<and> pp_inv s' \<and> channels s' = (channels s)(fd c := None) \<and>
     pp_watched s' = pp_watched s \<and> heap_frame (channels s) (heap s) (heap s')"
proof -
  let ?n = "length (poller s)"
  let ?i = "nat (index c)"
  note ch = pp_inv_channel [OF inv reg c]
  have p: "pfd_events (poller s ! ?i) = 0"
    using pp_watched_index [OF inv ch(4)] ch(5) zero by (simp add: short_zero)
  have neg: "pfd_fd (poller s ! ?i) < 0" using inv ch(4) p by (simp add: pp_inv_def)
  then have fd_i: "pfd_fd (poller s ! ?i) = - fd c - 1" using ch(5) by (simp add: pfd_of_def)
  have is_none: "isNoneEvent c" using none by (simp add: isNoneEvent_def event_defs)
  have last_unique: "d = e \<and> b = b'" if "channels s f = Some b" "heap s b = Some d"
    "channels s f' = Some b'" "heap s b' = Some e" "index d = index e" for f f' b b' d e
    using pp_inv_channel [OF inv that(1,2)] pp_inv_channel [OF inv that(3,4)] that by auto
  show ?thesis
  proof (cases "?i = ?n - 1")
    case True
    let ?s = "s\<lparr>channels := (channels s)(fd c := None), poller := butlast (poller s)\<rparr>"
    have idx: "\<not> index c \<noteq> int ?n - 1" "0 \<le> index c \<and> index c < int ?n" using True ch(3,4) by linarith+
    have run: "pp_removeChannel a s = Inr ?s"
      using c reg is_none fd_i p none idx
      by (simp add: pp_removeChannel_def the_channel_def check_def Let_def)
    have rep: "replaced_by_last ?i (poller s) (poller ?s)" using replaced_by_last_end True by simp
    have "heap ?s b = Some (d\<lparr>index := if index d = int ?n - 1 then int ?i else index d\<rparr>)"
      if "channels s f = Some b" "heap s b = Some d" for f b d
      using that True ch(3,4) by (auto simp: nat_diff_distrib)
    then have "pp_inv ?s" "pp_watched ?s = pp_watched s"
      using pp_remove_state [OF inv c reg refl rep, of] zero by simp_all
    with run show ?thesis by (intro exI [of _ ?s]) simp
  next
    case False
    have n1: "?n - 1 < ?n" using ch(4) by simp
    obtain b d where bd: "channels s (pfd_of (poller s ! (?n - 1))) = Some b" "heap s b = Some d"
      "index d = int (?n - 1)"
      by (rule pp_inv_index [OF inv n1])
    have fdb: "pfd_of (poller s ! (?n - 1)) \<noteq> fd c"
      using pfd_of_inj [OF inv n1 ch(4)] ch(5) False by auto
    have last: "last (poller s) = poller s ! (?n - 1)" using n1 by (intro last_conv_nth) auto
    let ?s = "s\<lparr>channels := (channels s)(fd c := None), heap := (heap s)(b \<mapsto> d\<lparr>index := index c\<rparr>),
       poller := butlast ((poller s)[?i := last (poller s), ?n - 1 := poller s ! ?i])\<rparr>"
    have idx_ne: "index c \<noteq> int ?n - 1" using False ch(3) by auto
    have chan: "((channels s)(fd c := None)) (if pfd_fd (last (poller s)) < 0
        then - pfd_fd (last (poller s)) - 1 else pfd_fd (last (poller s))) = Some b"
      using bd(1) fdb last by (simp add: pfd_of_def split: if_splits)
    have run: "pp_removeChannel a s = Inr ?s"
      using c reg is_none ch(3,4) fd_i p none idx_ne chan bd(2)
      by (simp add: pp_removeChannel_def the_channel_def check_def Let_def nat_less_iff put_channel_def)
    have rep: "replaced_by_last ?i (poller s) (poller ?s)"
      using replaced_by_last_swap [OF ch(4) False] by simp
    have nb: "b' = b \<longleftrightarrow> index e = int ?n - 1" if "channels s f = Some b'" "heap s b' = Some e" for f b' e
    proof
      have end_idx: "index d = int ?n - 1" using bd(3) n1 by simp
      show "b' = b \<Longrightarrow> index e = int ?n - 1" using that(2) bd(2) end_idx by simp
      show "index e = int ?n - 1 \<Longrightarrow> b' = b" using last_unique [OF that bd(1,2)] end_idx by simp
    qed
    have "heap ?s b' = Some (e\<lparr>index := if index e = int ?n - 1 then int ?i else index e\<rparr>)"
      if "channels s f = Some b'" "heap s b' = Some e" for f b' e
      using that nb [OF that] bd(2) ch(3) by auto
    then have "pp_inv ?s" "pp_watched ?s = pp_watched s"
      using pp_remove_state [OF inv c reg refl rep] zero by simp_all
    moreover have "heap_frame (channels s) (heap s) (heap ?s)"
      using bd(1,2) by (auto simp: heap_frame_def ran_def)
    ultimately show ?thesis using run by (intro exI [of _ ?s]) simp
  qed
qed

interpretation pp: poller_contract pp_updateChannel pp_removeChannel pp_inv pp_watched
  by unfold_locales
    (blast intro: pp_inv_put, rule pp_watched_put, rule pp_update_new, assumption+,
     rule pp_update_old, assumption+, rule pp_remove_old, assumption+)

section \<open>Polling\<close>

text \<open>
  What \<^verbatim>\<open>poll(2)\<close> returned: the \<^verbatim>\<open>revents\<close> that it wrote, or the error number. It writes nothing
  for an entry with a negative descriptor, and its result is the number of the entries it wrote.
\<close>

datatype poll_outcome = Poll_events "16 word list" | Poll_error int

definition poll_contract :: "16 word list \<Rightarrow> poll_io \<Rightarrow> bool" where
  "poll_contract rs s \<longleftrightarrow> length rs = length (poller s) \<and>
     (\<forall>i < length rs. 0 \<le> sint (rs ! i) \<and> (pfd_fd (poller s ! i) < 0 \<longrightarrow> rs ! i = 0))"

fun pp_fill ::
  "nat \<Rightarrow> pollfd list \<Rightarrow> poll_io \<Rightarrow> address list \<Rightarrow> (address list \<times> poll_io) result"
where
  "pp_fill numEvents [] s active = Inr (active, s)"
| "pp_fill numEvents (p # ps) s active =
     (if numEvents = 0 then Inr (active, s)
      else if 0 < sint (pfd_revents p) then
        (case channels s (pfd_fd p) of
           None \<Rightarrow> Inl Assert_failed
         | Some a \<Rightarrow> and_then (the_channel s a) (\<lambda>c.
             check (fd c = pfd_fd p)
               (pp_fill (numEvents - 1) ps (put_channel a (c\<lparr>revents := scast (pfd_revents p)\<rparr>) s)
                  (active @ [a]))))
      else pp_fill numEvents ps s active)"

definition pp_poll :: "int \<Rightarrow> poll_outcome \<Rightarrow> poll_io \<Rightarrow> (int \<times> address list \<times> poll_io) result" where
  "pp_poll now outcome s =
     (case outcome of
        Poll_events rs \<Rightarrow>
          (let s1 = s\<lparr>poller := map2 (\<lambda>p r. p\<lparr>pfd_revents := r\<rparr>) (poller s) rs\<rparr>;
               numEvents = length (filter (\<lambda>r. r \<noteq> 0) rs)
           in if numEvents > 0
              then map_sum id (\<lambda>(active, s'). (now, active, s')) (pp_fill numEvents (poller s1) s1 [])
              else Inr (now, [], s1))
      | Poll_error e \<Rightarrow> Inr (now, [], s))"

definition happened :: "pollfd \<Rightarrow> bool" where
  "happened p \<longleftrightarrow> pfd_revents p \<noteq> 0"

definition fillable :: "poll_io \<Rightarrow> pollfd \<Rightarrow> bool" where
  "fillable s p \<longleftrightarrow> 0 \<le> sint (pfd_revents p) \<and> (happened p \<longrightarrow>
     (\<exists>a c. channels s (pfd_fd p) = Some a \<and> heap s a = Some c \<and> fd c = pfd_fd p))"

lemma sint_pos_iff: "0 \<le> sint (w :: 16 word) \<Longrightarrow> 0 < sint w \<longleftrightarrow> w \<noteq> 0"
  by (auto simp: order_less_le signed_eq_0_iff)

definition with_revents :: "poll_io \<Rightarrow> pollfd list \<Rightarrow> address \<Rightarrow> channel option" where
  "with_revents s ps b =
     (case List.find (\<lambda>p. happened p \<and> channels s (pfd_fd p) = Some b) ps of
        None \<Rightarrow> heap s b
      | Some p \<Rightarrow> map_option (\<lambda>c. c\<lparr>revents := scast (pfd_revents p)\<rparr>) (heap s b))"

lemma fillable_put:
  assumes "fillable s q" and "heap s a = Some c" and "fd c' = fd c"
  shows "fillable (put_channel a c' s) q"
proof -
  have "\<exists>b d. channels s (pfd_fd q) = Some b \<and> ((heap s)(a \<mapsto> c')) b = Some d \<and> fd d = pfd_fd q"
    if hq: "happened q"
  proof -
    from assms(1) hq obtain b d where "channels s (pfd_fd q) = Some b" "heap s b = Some d" "fd d = pfd_fd q"
      by (auto simp: fillable_def)
    with assms(2,3) show ?thesis by (cases "b = a") auto
  qed
  with assms(1) show ?thesis by (simp add: fillable_def put_channel_def)
qed

lemma pp_fill_zero: "list_all (\<lambda>p. \<not> happened p) ps \<Longrightarrow> pp_fill n ps s active = Inr (active, s)"
  by (induction ps) (simp_all add: happened_def)

lemma with_revents_poller [simp]: "with_revents (s\<lparr>poller := ps\<rparr>) qs b = with_revents s qs b"
  by (simp add: with_revents_def split: option.split)

lemma pp_fill_ok:
  assumes "\<forall>p \<in> set ps. fillable s p" and "distinct (map pfd_fd ps)"
  shows "\<exists>s'. pp_fill (length (filter happened ps)) ps s active =
       Inr (active @ map (\<lambda>p. the (channels s (pfd_fd p))) (filter happened ps), s') \<and>
     channels s' = channels s \<and> poller s' = poller s \<and> (\<forall>b. heap s' b = with_revents s ps b)"
  using assms
proof (induction ps arbitrary: s active)
  case Nil
  then show ?case by (simp add: with_revents_def)
next
  case (Cons p ps)
  have pos: "0 < sint (pfd_revents p) \<longleftrightarrow> happened p"
    using Cons.prems(1) sint_pos_iff by (simp add: fillable_def happened_def)
  show ?case
  proof (cases "happened p")
    case False
    have "with_revents s (p # ps) = with_revents s ps" using False by (simp add: with_revents_def fun_eq_iff)
    moreover have "pp_fill (length (filter happened ps)) (p # ps) s active =
        pp_fill (length (filter happened ps)) ps s active"
    proof (cases "length (filter happened ps) = 0")
      case True
      then have "list_all (\<lambda>p. \<not> happened p) ps" by (auto simp: list_all_iff filter_empty_conv)
      from pp_fill_zero [OF this] show ?thesis using True by simp
    qed (use False pos in simp)
    ultimately show ?thesis using Cons.IH [of s active] Cons.prems False by simp
  next
    case True
    with Cons.prems(1) obtain a c where a: "channels s (pfd_fd p) = Some a" "heap s a = Some c"
      "fd c = pfd_fd p" by (auto simp: fillable_def)
    let ?c = "c\<lparr>revents := scast (pfd_revents p)\<rparr>"
    let ?s = "put_channel a ?c s"
    have s: "channels ?s = channels s" "poller ?s = poller s" "heap ?s = (heap s)(a \<mapsto> ?c)"
      by (simp_all add: put_channel_def)
    have "\<forall>q \<in> set ps. fillable ?s q"
      using Cons.prems(1) fillable_put [OF _ a(2)] by simp
    then obtain s' where s': "pp_fill (length (filter happened ps)) ps ?s (active @ [a]) =
        Inr ((active @ [a]) @ map (\<lambda>p. the (channels s (pfd_fd p))) (filter happened ps), s')"
      "channels s' = channels s" "poller s' = poller s" "\<forall>b. heap s' b = with_revents ?s ps b"
      using Cons.IH [of ?s "active @ [a]"] Cons.prems(2) s by auto
    have other: "q \<in> set ps \<Longrightarrow> happened q \<Longrightarrow> channels s (pfd_fd q) \<noteq> Some a" for q
    proof
      assume q: "q \<in> set ps" "happened q" "channels s (pfd_fd q) = Some a"
      then have "fillable s q" using Cons.prems(1) by simp
      with q(2,3) a(2) have "fd c = pfd_fd q" by (auto simp: fillable_def)
      with a(3) q(1) Cons.prems(2) show False by (simp add: rev_image_eqI)
    qed
    have "with_revents ?s ps b = with_revents s (p # ps) b" for b
    proof (cases "b = a")
      case b: True
      have "List.find (\<lambda>q. happened q \<and> channels s (pfd_fd q) = Some a) ps = None"
        using other unfolding find_None_iff by blast
      with b True a show ?thesis by (simp add: with_revents_def s)
    next
      case False
      with a(1) show ?thesis by (simp add: with_revents_def s split: option.split)
    qed
    with s' True pos a show ?thesis by (simp add: the_channel_def check_def)
  qed
qed

text \<open>The entries after the kernel wrote \<open>rs\<close>.\<close>

definition written :: "16 word list \<Rightarrow> poll_io \<Rightarrow> pollfd list" where
  "written rs s = map2 (\<lambda>p r. p\<lparr>pfd_revents := r\<rparr>) (poller s) rs"

lemma length_written: "poll_contract rs s \<Longrightarrow> length (written rs s) = length (poller s)"
  by (simp add: written_def poll_contract_def)

lemma nth_written:
  "poll_contract rs s \<Longrightarrow> i < length (poller s) \<Longrightarrow>
     written rs s ! i = (poller s ! i)\<lparr>pfd_revents := rs ! i\<rparr>"
  by (simp add: written_def poll_contract_def)

lemma written_fillable:
  assumes "pp_inv s" and "poll_contract rs s" and "p \<in> set (written rs s)"
  shows "fillable s p"
proof -
  obtain i where i: "i < length (poller s)" "p = written rs s ! i"
    using assms(3) length_written [OF assms(2)] by (metis in_set_conv_nth)
  have c: "0 \<le> sint (rs ! i)" "pfd_fd (poller s ! i) < 0 \<longrightarrow> rs ! i = 0"
    using assms(2) i(1) by (simp_all add: poll_contract_def)
  obtain a d where ad: "channels s (pfd_of (poller s ! i)) = Some a" "heap s a = Some d" "index d = int i"
    by (rule pp_inv_index [OF assms(1) i(1)])
  have "fd d = pfd_of (poller s ! i)" using pp_inv_channel(1) [OF assms(1) ad(1,2)] .
  with ad c nth_written [OF assms(2) i(1)] i(2) show ?thesis
    by (auto simp: fillable_def happened_def pfd_of_def)
qed

lemma written_distinct:
  assumes "pp_inv s" and "poll_contract rs s"
  shows "distinct (map pfd_fd (written rs s))"
proof -
  have len: "length (map pfd_fd (written rs s)) = length (poller s)" using length_written [OF assms(2)] by simp
  have "i = j" if ij: "i < length (poller s)" "j < length (poller s)"
    "map pfd_fd (written rs s) ! i = map pfd_fd (written rs s) ! j" for i j
  proof -
    have "pfd_fd (poller s ! i) = pfd_fd (poller s ! j)"
      using ij nth_written [OF assms(2)] length_written [OF assms(2)] by simp
    then have "pfd_of (poller s ! i) = pfd_of (poller s ! j)" by (simp add: pfd_of_def)
    with pfd_of_inj [OF assms(1) ij(1,2)] show ?thesis .
  qed
  then show ?thesis unfolding distinct_conv_nth len by blast
qed

lemma written_happened:
  assumes "poll_contract rs s"
  shows "filter happened (written rs s) =
      map ((!) (written rs s)) (filter (\<lambda>i. rs ! i \<noteq> 0) [0..<length (poller s)])"
    and "length (filter happened (written rs s)) = length (filter (\<lambda>r. r \<noteq> 0) rs)"
proof -
  let ?I = "[0..<length (poller s)]"
  have "written rs s = map ((!) (written rs s)) ?I" using length_written [OF assms] by (metis map_nth)
  then have "filter happened (written rs s) = map ((!) (written rs s)) (filter (happened \<circ> (!) (written rs s)) ?I)"
    by (metis filter_map)
  also have "filter (happened \<circ> (!) (written rs s)) ?I = filter (\<lambda>i. rs ! i \<noteq> 0) ?I"
    using nth_written [OF assms] by (intro filter_cong refl) (simp add: happened_def)
  finally show eq: "filter happened (written rs s) = map ((!) (written rs s)) (filter (\<lambda>i. rs ! i \<noteq> 0) ?I)" .
  have "rs = map ((!) rs) ?I" using assms by (metis map_nth poll_contract_def)
  then have "filter (\<lambda>r. r \<noteq> 0) rs = map ((!) rs) (filter ((\<lambda>r. r \<noteq> 0) \<circ> (!) rs) ?I)"
    by (metis filter_map)
  then have "length (filter (\<lambda>r. r \<noteq> 0) rs) = length (filter (\<lambda>i. rs ! i \<noteq> 0) ?I)"
    by (simp add: comp_def)
  then show "length (filter happened (written rs s)) = length (filter (\<lambda>r. r \<noteq> 0) rs)" by (simp add: eq)
qed

lemma with_revents_written:
  assumes inv: "pp_inv s" and c: "poll_contract rs s" and p: "p \<in> set (written rs s)" "happened p"
    and a: "channels s (pfd_fd p) = Some a" and d: "heap s a = Some d"
  shows "with_revents s (written rs s) a = Some (d\<lparr>revents := scast (pfd_revents p)\<rparr>)"
proof -
  let ?P = "\<lambda>q. happened q \<and> channels s (pfd_fd q) = Some a"
  have fd_a: "fd d = pfd_fd q" if "q \<in> set (written rs s)" "?P q" for q
    using written_fillable [OF inv c that(1)] that(2) d by (auto simp: fillable_def)
  have "inj_on pfd_fd (set (written rs s))" using written_distinct [OF inv c] by (simp add: distinct_map)
  then have one: "q = p" if "q \<in> set (written rs s)" "?P q" for q
    using fd_a [OF that] fd_a [OF p(1)] p(1,2) a that(1) by (auto dest: inj_onD)
  have "List.find ?P (written rs s) \<noteq> None" using p a by (auto simp: find_None_iff)
  then obtain q where q: "List.find ?P (written rs s) = Some q" by auto
  then have "q \<in> set (written rs s)" "?P q" by (auto simp: find_Some_iff)
  then have "q = p" by (rule one)
  with q d show ?thesis by (simp add: with_revents_def)
qed

section \<open>Properties\<close>

lemma pp_inv_written:
  assumes inv: "pp_inv s" and c: "poll_contract rs s" and chs: "channels s' = channels s"
    and ps: "poller s' = written rs s" and hp: "\<And>b. heap s' b = with_revents s (written rs s) b"
  shows "pp_inv s'"
proof (rule pp_inv_cong [OF inv chs])
  show "length (poller s') = length (poller s)" by (simp add: ps length_written [OF c])
  show "pfd_of (poller s' ! i) = pfd_of (poller s ! i)" if "i < length (poller s)" for i
    using nth_written [OF c that] by (simp add: ps pfd_of_def)
  show "pfd_fd p < 0 \<longleftrightarrow> pfd_events p = 0" if p: "p \<in> set (poller s')" for p
  proof -
    obtain i where i: "i < length (poller s)" "p = written rs s ! i"
      using p length_written [OF c] unfolding ps by (metis in_set_conv_nth)
    then show ?thesis using nth_written [OF c i(1)] pp_inv_sign [OF inv, of "poller s ! i"] by simp
  qed
  show "\<exists>d'. heap s' b = Some d' \<and> fd d' = fd d \<and> index d' = index d" if "heap s b = Some d" for b d
    using that by (simp add: hp with_revents_def split: option.split)
qed

text \<open>
  Under the contract of \<^verbatim>\<open>poll(2)\<close>, \<open>poll\<close> reports exactly the registered channels of the entries
  for which something happened, in the order of the vector, each once and with its own \<open>revents\<close>; no
  assertion fails and the poller stays in order.
\<close>

theorem pp_poll_reports:
  assumes "pp_inv s" and "poll_contract rs s"
  shows "\<exists>s'. pp_poll now (Poll_events rs) s = Inr (now,
       map (\<lambda>i. the (channels s (pfd_fd (poller s ! i)))) (filter (\<lambda>i. rs ! i \<noteq> 0) [0..<length (poller s)]), s') \<and>
     pp_inv s' \<and> channels s' = channels s \<and>
     (\<forall>i c a. i < length (poller s) \<and> rs ! i \<noteq> 0 \<and> channels s (pfd_fd (poller s ! i)) = Some a \<and> heap s a = Some c \<longrightarrow>
        heap s' a = Some (c\<lparr>revents := scast (rs ! i)\<rparr>))"
proof -
  let ?ps = "written rs s"
  let ?s = "s\<lparr>poller := ?ps\<rparr>"
  let ?I = "filter (\<lambda>i. rs ! i \<noteq> 0) [0..<length (poller s)]"
  have fill: "\<forall>p \<in> set ?ps. fillable ?s p"
    using written_fillable [OF assms] by (simp add: fillable_def)
  obtain s' where s': "pp_fill (length (filter happened ?ps)) ?ps ?s [] =
      Inr (map (\<lambda>p. the (channels s (pfd_fd p))) (filter happened ?ps), s')"
    "channels s' = channels s" "\<And>b. heap s' b = with_revents ?s ?ps b" "poller s' = ?ps"
    using pp_fill_ok [OF fill written_distinct [OF assms], of "[]"] by auto
  have active: "map (\<lambda>p. the (channels s (pfd_fd p))) (filter happened ?ps) =
      map (\<lambda>i. the (channels s (pfd_fd (poller s ! i)))) ?I"
    unfolding written_happened(1) [OF assms(2)] using nth_written [OF assms(2)] by simp
  have run: "pp_poll now (Poll_events rs) s =
      Inr (now, map (\<lambda>i. the (channels s (pfd_fd (poller s ! i)))) ?I, s')"
  proof (cases "length (filter (\<lambda>r. r \<noteq> 0) rs) = 0")
    case True
    then have none: "filter happened ?ps = []" using written_happened(2) [OF assms(2)] by simp
    then have "s' = ?s" using s'(1) pp_fill_zero [of ?ps 0 ?s "[]"] by (simp add: filter_empty_conv list_all_iff)
    with True none active show ?thesis by (simp add: pp_poll_def written_def)
  next
    case False
    with s'(1) written_happened(2) [OF assms(2)] active show ?thesis
      by (simp add: pp_poll_def written_def [symmetric] Let_def)
  qed
  have "heap s' a = Some (c\<lparr>revents := scast (rs ! i)\<rparr>)"
    if "i < length (poller s)" "rs ! i \<noteq> 0" "channels s (pfd_fd (poller s ! i)) = Some a" "heap s a = Some c" for i a c
  proof -
    have "?ps ! i \<in> set ?ps" using that(1) length_written [OF assms(2)] by simp
    from with_revents_written [OF assms this] that nth_written [OF assms(2) that(1)]
    have "with_revents s ?ps a = Some (c\<lparr>revents := scast (rs ! i)\<rparr>)" by (simp add: happened_def)
    then show ?thesis by (simp add: s'(3))
  qed
  moreover have "pp_inv s'"
    by (rule pp_inv_written [OF assms s'(2,4)]) (simp add: s'(3))
  ultimately show ?thesis using run s'(2) by blast
qed

theorem pp_poll_reports_witness:
  "\<exists>s'. pp_poll 9 (Poll_events [1]) \<lparr>heap = [7 \<mapsto> (Channel_new 5)\<lparr>events := 3, index := 0\<rparr>], channels = [5 \<mapsto> 7],
       poller = [\<lparr>pfd_fd = 5, pfd_events = 3, pfd_revents = 0\<rparr>]\<rparr> = Inr (9, [7], s')"
proof -
  let ?s = "\<lparr>heap = [7 \<mapsto> (Channel_new 5)\<lparr>events := 3, index := 0\<rparr>], channels = [5 \<mapsto> 7],
       poller = [\<lparr>pfd_fd = 5, pfd_events = 3, pfd_revents = 0\<rparr>]\<rparr> :: poll_io"
  have "pp_inv ?s" by (simp add: pp_inv_def Channel_new_def pfd_of_def)
  moreover have "poll_contract [1] ?s" by (simp add: poll_contract_def)
  ultimately show ?thesis using pp_poll_reports [of ?s "[1]" 9] by auto
qed

text \<open>
  A channel that was removed from a \<open>PollPoller\<close> cannot be used again: its index is not reset to
  -1, so that the next change of its events fails the assertion that it is registered.
\<close>

theorem pp_reuse_asserts:
  assumes "pp_inv s" and "heap s a = Some c" and "channels s (fd c) = Some a" and "events c = 0"
    and "pp_watched s (fd c) = 0" and "pp_removeChannel a s = Inr s'"
  shows "change_events pp_updateChannel ch a s' = Inl Assert_failed"
proof -
  have s': "channels s' = (channels s)(fd c := None)" "heap_frame (channels s) (heap s) (heap s')" "pp_inv s'"
    using pp_remove_old [OF assms(1-5)] assms(6) by auto
  obtain i where i: "heap s' a = Some (c\<lparr>index := i\<rparr>)" using heap_frame_dest [OF s'(2) assms(2)] by blast
  have "0 \<le> i"
  proof -
    note idx = pp_inv_channel(3) [OF assms(1,3,2)]
    have "index d = index c \<or> 0 \<le> index d" if "heap s' a = Some d" for d
      using assms that idx unfolding pp_removeChannel_def by (auto simp: check_def Let_def the_channel_def put_channel_def split: if_splits option.splits)
    with i idx show ?thesis by auto
  qed
  then show ?thesis
    using i s'(1)
    by (simp add: change_events_def channel_update_def the_channel_def put_channel_def
        pp_updateChannel_def check_def)
qed

theorem pp_reuse_asserts_witness:
  "\<exists>s'. pp_removeChannel 7 \<lparr>heap = [7 \<mapsto> (Channel_new 5)\<lparr>index := 0\<rparr>], channels = [5 \<mapsto> 7],
       poller = [\<lparr>pfd_fd = -6, pfd_events = 0, pfd_revents = 0\<rparr>]\<rparr> = Inr s' \<and>
     change_events pp_updateChannel EnableReading 7 s' = Inl Assert_failed"
proof -
  let ?c = "(Channel_new 5)\<lparr>index := 0\<rparr>"
  let ?s = "\<lparr>heap = [7 \<mapsto> ?c], channels = [5 \<mapsto> 7],
       poller = [\<lparr>pfd_fd = -6, pfd_events = 0, pfd_revents = 0\<rparr>]\<rparr> :: poll_io"
  have pre: "pp_inv ?s" "heap ?s 7 = Some ?c" "channels ?s (fd ?c) = Some 7" "events ?c = 0" "pp_watched ?s (fd ?c) = 0"
    by (simp_all add: pp_inv_def Channel_new_def pfd_of_def pp_watched_def)
  obtain s' where "pp_removeChannel 7 ?s = Inr s'" using pp_remove_old [OF pre] by blast
  with pp_reuse_asserts [OF pre this] show ?thesis by blast
qed

end
