(* ===== verification/EPollPoller.thy ===== *)
theory EPollPoller
  imports PollPoller
begin

text \<open>
  \<^verbatim>\<open>gg_lib/net/poller/EPollPoller.cc\<close>, the poller on \<^verbatim>\<open>epoll(7)\<close>. The state is the interest list
  that the requests of \<open>update\<close> build up in the kernel (\<^verbatim>\<open>epoll_ctl(2)\<close>: adding a descriptor twice, and
  modifying or deleting one that is not there, are errors) and the length of the event vector.
  \<open>index\<close> is the state of a channel: new, added or deleted.
\<close>

section \<open>Operations\<close>

datatype epoll_op = EPOLL_CTL_ADD | EPOLL_CTL_MOD | EPOLL_CTL_DEL

record epoll_state =
  interest_list :: "int \<rightharpoonup> event_bits \<times> address"
  events_size :: nat

type_synonym epoll_io = "epoll_state io"

definition kNew :: int where "kNew = -1"

definition kAdded :: int where "kAdded = 1"

definition kDeleted :: int where "kDeleted = 2"

definition kInitEventListSize :: nat where "kInitEventListSize = 64"

lemmas index_defs = kNew_def kAdded_def kDeleted_def

definition EPollPoller_new :: "(address \<rightharpoonup> channel) \<Rightarrow> epoll_io" where
  "EPollPoller_new chs = \<lparr>heap = chs, channels = Map.empty,
     poller = \<lparr>interest_list = Map.empty, events_size = kInitEventListSize\<rparr>\<rparr>"

fun epoll_ctl ::
  "epoll_op \<Rightarrow> int \<Rightarrow> event_bits \<times> address \<Rightarrow> (int \<rightharpoonup> event_bits \<times> address) \<Rightarrow>
     (int \<rightharpoonup> event_bits \<times> address) option"
where
  "epoll_ctl EPOLL_CTL_ADD f ev k = (if k f = None then Some (k(f \<mapsto> ev)) else None)"
| "epoll_ctl EPOLL_CTL_MOD f ev k = (if k f \<noteq> None then Some (k(f \<mapsto> ev)) else None)"
| "epoll_ctl EPOLL_CTL_DEL f ev k = (if k f \<noteq> None then Some (k(f := None)) else None)"

text \<open>A failed deletion is only logged, any other failure ends the program.\<close>

definition ep_update :: "epoll_op \<Rightarrow> address \<Rightarrow> channel \<Rightarrow> epoll_io \<Rightarrow> epoll_io result" where
  "ep_update operation a c s =
     (case epoll_ctl operation (fd c) (events c, a) (interest_list (poller s)) of
        Some k \<Rightarrow> Inr (s\<lparr>poller := (poller s)\<lparr>interest_list := k\<rparr>\<rparr>)
      | None \<Rightarrow> if operation = EPOLL_CTL_DEL then Inr s else Inl Abort)"

definition ep_updateChannel :: "address \<Rightarrow> epoll_io \<Rightarrow> epoll_io result" where
  "ep_updateChannel a s =
     and_then (the_channel s a) (\<lambda>c.
       if index c = kNew \<or> index c = kDeleted then
         and_then
           (if index c = kNew
            then check (channels s (fd c) = None) (Inr (s\<lparr>channels := (channels s)(fd c \<mapsto> a)\<rparr>))
            else check (channels s (fd c) \<noteq> None) (check (channels s (fd c) = Some a) (Inr s)))
           (\<lambda>s1. ep_update EPOLL_CTL_ADD a c (put_channel a (c\<lparr>index := kAdded\<rparr>) s1))
       else
         check (channels s (fd c) \<noteq> None) (check (channels s (fd c) = Some a) (check (index c = kAdded)
           (if isNoneEvent c
            then map_sum id (put_channel a (c\<lparr>index := kDeleted\<rparr>)) (ep_update EPOLL_CTL_DEL a c s)
            else ep_update EPOLL_CTL_MOD a c s))))"

definition ep_removeChannel :: "address \<Rightarrow> epoll_io \<Rightarrow> epoll_io result" where
  "ep_removeChannel a s =
     and_then (the_channel s a) (\<lambda>c.
       check (channels s (fd c) \<noteq> None) (check (channels s (fd c) = Some a) (check (isNoneEvent c)
         (check (index c = kAdded \<or> index c = kDeleted)
           (let s1 = s\<lparr>channels := (channels s)(fd c := None)\<rparr> in
            and_then (if index c = kAdded then ep_update EPOLL_CTL_DEL a c s1 else Inr s1)
              (\<lambda>s2. Inr (put_channel a (c\<lparr>index := kNew\<rparr>) s2)))))))"

definition ep_watched :: "epoll_io \<Rightarrow> int \<Rightarrow> event_bits" where
  "ep_watched s f = (case interest_list (poller s) f of Some (ev, a) \<Rightarrow> ev | None \<Rightarrow> 0)"

section \<open>The invariant\<close>

definition ep_inv :: "epoll_io \<Rightarrow> bool" where
  "ep_inv s \<longleftrightarrow>
     (\<forall>f a. channels s f = Some a \<longrightarrow> (\<exists>c. heap s a = Some c \<and> fd c = f \<and>
        (index c = kAdded \<and> (\<exists>ev. interest_list (poller s) f = Some (ev, a)) \<or>
         index c = kDeleted \<and> interest_list (poller s) f = None))) \<and>
     (\<forall>f. channels s f = None \<longrightarrow> interest_list (poller s) f = None)"

lemma ep_invI:
  assumes "\<And>f a. channels s f = Some a \<Longrightarrow> \<exists>c. heap s a = Some c \<and> fd c = f \<and>
        (index c = kAdded \<and> (\<exists>ev. interest_list (poller s) f = Some (ev, a)) \<or>
         index c = kDeleted \<and> interest_list (poller s) f = None)"
    and "\<And>f. channels s f = None \<Longrightarrow> interest_list (poller s) f = None"
  shows "ep_inv s"
  using assms unfolding ep_inv_def by blast

lemma ep_inv_channel:
  assumes "ep_inv s" and "channels s f = Some a"
  obtains c where "heap s a = Some c" and "fd c = f"
    and "index c = kAdded \<and> (\<exists>ev. interest_list (poller s) f = Some (ev, a)) \<or>
         index c = kDeleted \<and> interest_list (poller s) f = None"
  using assms unfolding ep_inv_def by blast

lemma ep_inv_index:
  assumes "ep_inv s" and "channels s f = Some a" and "heap s a = Some c"
  shows "index c = kAdded \<and> (\<exists>ev. interest_list (poller s) f = Some (ev, a)) \<or>
         index c = kDeleted \<and> interest_list (poller s) f = None"
  by (rule ep_inv_channel [OF assms(1,2)]) (simp add: assms(3))

lemma ep_inv_none: "ep_inv s \<Longrightarrow> channels s f = None \<Longrightarrow> interest_list (poller s) f = None"
  unfolding ep_inv_def by blast

lemma ep_inv_new [simp]: "ep_inv (EPollPoller_new chs)" "channels (EPollPoller_new chs) = Map.empty"
  "ep_watched (EPollPoller_new chs) = (\<lambda>f. 0)" "heap (EPollPoller_new chs) = chs"
  by (simp_all add: ep_inv_def EPollPoller_new_def ep_watched_def fun_eq_iff)

text \<open>
  A change of the entry of one descriptor \<open>f\<close> and of its channel, everything else as it was.
\<close>

lemma ep_inv_change:
  assumes inv: "ep_inv s" and f: "fd c = f" "channels s f = None \<or> channels s f = Some a"
    and chs: "channels s' = (channels s)(f := reg)" and hp: "heap s' = (heap s)(a \<mapsto> c)"
    and k: "\<And>g. g \<noteq> f \<Longrightarrow> interest_list (poller s') g = interest_list (poller s) g"
    and new: "reg = None \<and> interest_list (poller s') f = None \<or>
       reg = Some a \<and> (index c = kAdded \<and> (\<exists>ev. interest_list (poller s') f = Some (ev, a)) \<or>
         index c = kDeleted \<and> interest_list (poller s') f = None)"
    and other: "\<And>g. g \<noteq> f \<Longrightarrow> channels s g \<noteq> Some a"
  shows "ep_inv s'"
proof (rule ep_invI)
  fix g b assume b: "channels s' g = Some b"
  show "\<exists>d. heap s' b = Some d \<and> fd d = g \<and>
      (index d = kAdded \<and> (\<exists>ev. interest_list (poller s') g = Some (ev, b)) \<or>
       index d = kDeleted \<and> interest_list (poller s') g = None)"
  proof (cases "g = f")
    case True
    with b new f(1) show ?thesis by (auto simp: chs hp)
  next
    case False
    with b have b': "channels s g = Some b" by (simp add: chs)
    with other [OF False] have "b \<noteq> a" by auto
    with ep_inv_channel [OF inv b'] k [OF False] show ?thesis by (metis fun_upd_apply hp)
  qed
next
  fix g assume "channels s' g = None"
  with new k ep_inv_none [OF inv] show "interest_list (poller s') g = None"
    by (cases "g = f") (auto simp: chs)
qed

lemma ep_other:
  assumes "ep_inv s" and "heap s a = Some c" and "g \<noteq> fd c"
  shows "channels s g \<noteq> Some a"
  using assms ep_inv_channel [OF assms(1), of g a] by auto

lemma ep_inv_put:
  assumes "ep_inv s" and "heap s a = Some c" and "fd c' = fd c" and "index c' = index c"
  shows "ep_inv (put_channel a c' s)"
proof (rule ep_invI)
  fix f b assume "channels (put_channel a c' s) f = Some b"
  then have b: "channels s f = Some b" by (simp add: put_channel_def)
  from ep_inv_channel [OF assms(1) b] obtain d where d: "heap s b = Some d" "fd d = f"
    "index d = kAdded \<and> (\<exists>ev. interest_list (poller s) f = Some (ev, b)) \<or>
     index d = kDeleted \<and> interest_list (poller s) f = None" by blast
  with assms(2-4) show "\<exists>d. heap (put_channel a c' s) b = Some d \<and> fd d = f \<and>
      (index d = kAdded \<and> (\<exists>ev. interest_list (poller (put_channel a c' s)) f = Some (ev, b)) \<or>
       index d = kDeleted \<and> interest_list (poller (put_channel a c' s)) f = None)"
    by (cases "b = a") (simp_all add: put_channel_def)
next
  fix f assume "channels (put_channel a c' s) f = None"
  then show "interest_list (poller (put_channel a c' s)) f = None"
    using ep_inv_none [OF assms(1)] by (simp add: put_channel_def)
qed

lemma ep_watched_put: "ep_watched (put_channel a c s) = ep_watched s"
  by (simp add: fun_eq_iff ep_watched_def put_channel_def)

lemma ep_watched_upd:
  assumes "interest_list (poller s') = (interest_list (poller s))(f := v)"
  shows "ep_watched s' = (ep_watched s)(f := (case v of Some (ev, a) \<Rightarrow> ev | None \<Rightarrow> 0))"
  using assms by (auto simp: fun_eq_iff ep_watched_def)

lemma ep_frame: "chs f = Some a \<Longrightarrow> h a = Some c \<Longrightarrow> heap_frame chs h (h(a \<mapsto> c\<lparr>index := i\<rparr>))"
  by (auto simp: heap_frame_def ran_def)

lemma ep_update_add:
  assumes inv: "ep_inv s" and c: "heap s a = Some c" and none: "interest_list (poller s) (fd c) = None"
    and reg: "channels s (fd c) = None \<and> index c = kNew \<or> channels s (fd c) = Some a \<and> index c = kDeleted"
  shows "\<exists>s'. ep_updateChannel a s = Inr s' \<and> ep_inv s' \<and> channels s' = (channels s)(fd c \<mapsto> a) \<and>
     ep_watched s' = (ep_watched s)(fd c := events c) \<and> heap_frame (channels s') (heap s) (heap s')"
proof -
  let ?k = "(interest_list (poller s))(fd c \<mapsto> (events c, a))"
  let ?s = "\<lparr>heap = (heap s)(a \<mapsto> c\<lparr>index := kAdded\<rparr>), channels = (channels s)(fd c \<mapsto> a),
     poller = (poller s)\<lparr>interest_list := ?k\<rparr>\<rparr>"
  have chs: "channels s (fd c) = Some a \<Longrightarrow> (channels s)(fd c \<mapsto> a) = channels s" by auto
  have run: "ep_updateChannel a s = Inr ?s"
    using reg
  proof
    assume "channels s (fd c) = None \<and> index c = kNew"
    then show ?thesis
      using none c by (simp add: ep_updateChannel_def the_channel_def check_def put_channel_def ep_update_def)
  next
    assume "channels s (fd c) = Some a \<and> index c = kDeleted"
    then show ?thesis
      using none c chs
      by (simp add: ep_updateChannel_def the_channel_def check_def put_channel_def ep_update_def index_defs)
  qed
  have "ep_inv ?s"
    by (rule ep_inv_change [OF inv, where f = "fd c" and a = a and c = "c\<lparr>index := kAdded\<rparr>" and reg = "Some a"])
      (use reg ep_other [OF inv c] in auto)
  moreover have "heap_frame (channels ?s) (heap s) (heap ?s)"
    using c by (simp add: ep_frame [of _ "fd c"])
  moreover have "ep_watched ?s = (ep_watched s)(fd c := events c)"
    using ep_watched_upd [of ?s s "fd c" "Some (events c, a)"] by simp
  ultimately show ?thesis using run by (intro exI [of _ ?s]) simp
qed

lemma ep_update_old:
  assumes inv: "ep_inv s" and c: "heap s a = Some c" and reg: "channels s (fd c) = Some a"
  shows "\<exists>s'. ep_updateChannel a s = Inr s' \<and> ep_inv s' \<and> channels s' = channels s \<and>
     ep_watched s' = (ep_watched s)(fd c := events c) \<and> heap_frame (channels s') (heap s) (heap s')"
proof -
  have same: "(channels s)(fd c \<mapsto> a) = channels s" using reg by auto
  from ep_inv_index [OF inv reg c]
  consider (deleted) "index c = kDeleted" "interest_list (poller s) (fd c) = None"
    | (added) ev where "index c = kAdded" "interest_list (poller s) (fd c) = Some (ev, a)" by auto
  then show ?thesis
  proof cases
    case deleted
    with ep_update_add [OF inv c deleted(2)] reg same show ?thesis by simp
  next
    case added
    show ?thesis
    proof (cases "isNoneEvent c")
      case True
      let ?s = "\<lparr>heap = (heap s)(a \<mapsto> c\<lparr>index := kDeleted\<rparr>), channels = channels s,
         poller = (poller s)\<lparr>interest_list := (interest_list (poller s))(fd c := None)\<rparr>\<rparr>"
      have run: "ep_updateChannel a s = Inr ?s"
        using True added reg c
        by (simp add: ep_updateChannel_def the_channel_def check_def put_channel_def ep_update_def index_defs)
      have "ep_inv ?s"
        by (rule ep_inv_change [OF inv, where f = "fd c" and a = a and c = "c\<lparr>index := kDeleted\<rparr>" and reg = "Some a"])
          (use reg same ep_other [OF inv c] in auto)
      moreover have "heap_frame (channels ?s) (heap s) (heap ?s)" using c reg by (simp add: ep_frame [of _ "fd c"])
      moreover have "ep_watched ?s = (ep_watched s)(fd c := events c)"
        using ep_watched_upd [of ?s s "fd c" None] True by (simp add: isNoneEvent_def event_defs)
      ultimately show ?thesis using run by (intro exI [of _ ?s]) simp
    next
      case False
      let ?s = "s\<lparr>poller := (poller s)\<lparr>interest_list := (interest_list (poller s))(fd c \<mapsto> (events c, a))\<rparr>\<rparr>"
      have run: "ep_updateChannel a s = Inr ?s"
        using False added reg c
        by (simp add: ep_updateChannel_def the_channel_def check_def put_channel_def ep_update_def index_defs)
      have "ep_inv ?s"
        by (rule ep_inv_change [OF inv, where f = "fd c" and a = a and c = c and reg = "Some a"])
          (use reg same c added ep_other [OF inv c] in auto)
      moreover have "ep_watched ?s = (ep_watched s)(fd c := events c)"
        using ep_watched_upd [of ?s s "fd c" "Some (events c, a)"] by simp
      ultimately show ?thesis using run by (intro exI [of _ ?s]) simp
    qed
  qed
qed

lemma ep_remove_old:
  assumes inv: "ep_inv s" and c: "heap s a = Some c" and reg: "channels s (fd c) = Some a"
    and none: "events c = 0" and zero: "ep_watched s (fd c) = 0"
  shows "\<exists>s'. ep_removeChannel a s = Inr s' \<and> ep_inv s' \<and> channels s' = (channels s)(fd c := None) \<and>
     ep_watched s' = ep_watched s \<and> heap_frame (channels s) (heap s) (heap s')"
proof -
  let ?s = "\<lparr>heap = (heap s)(a \<mapsto> c\<lparr>index := kNew\<rparr>), channels = (channels s)(fd c := None),
     poller = (poller s)\<lparr>interest_list := (interest_list (poller s))(fd c := None)\<rparr>\<rparr>"
  have is_none: "isNoneEvent c" using none by (simp add: isNoneEvent_def event_defs)
  have "index c = kAdded \<and> (\<exists>ev. interest_list (poller s) (fd c) = Some (ev, a)) \<or>
        index c = kDeleted \<and> interest_list (poller s) (fd c) = None"
    by (rule ep_inv_index [OF inv reg c])
  then have run: "ep_removeChannel a s = Inr ?s"
  proof
    assume "index c = kAdded \<and> (\<exists>ev. interest_list (poller s) (fd c) = Some (ev, a))"
    then show ?thesis
      using is_none reg c
      by (auto simp: ep_removeChannel_def the_channel_def check_def put_channel_def ep_update_def Let_def index_defs)
  next
    assume del: "index c = kDeleted \<and> interest_list (poller s) (fd c) = None"
    then have "(interest_list (poller s))(fd c := None) = interest_list (poller s)" by auto
    with del is_none reg c show ?thesis
      by (simp add: ep_removeChannel_def the_channel_def check_def put_channel_def Let_def index_defs)
  qed
  have "ep_inv ?s"
    by (rule ep_inv_change [OF inv, where f = "fd c" and a = a and c = "c\<lparr>index := kNew\<rparr>" and reg = None])
      (use reg ep_other [OF inv c] in auto)
  moreover have "ep_watched ?s = (ep_watched s)(fd c := 0)" using ep_watched_upd [of ?s s "fd c" None] by simp
  moreover have "(ep_watched s)(fd c := 0) = ep_watched s" using zero by auto
  moreover have "heap_frame (channels s) (heap s) (heap ?s)" using c reg by (simp add: ep_frame [of _ "fd c"])
  ultimately show ?thesis using run by (intro exI [of _ ?s]) simp
qed

interpretation ep: poller_contract ep_updateChannel ep_removeChannel ep_inv ep_watched
proof unfold_locales
  fix s :: epoll_io and a c
  assume *: "ep_inv s" "heap s a = Some c" "channels s (fd c) = None" "index c = -1"
  show "\<exists>s'. ep_updateChannel a s = Inr s' \<and> ep_inv s' \<and> channels s' = (channels s)(fd c \<mapsto> a) \<and>
     ep_watched s' = (ep_watched s)(fd c := events c) \<and> heap_frame (channels s') (heap s) (heap s')"
    using ep_update_add [OF *(1,2) ep_inv_none [OF *(1,3)]] *(3,4) by (simp add: kNew_def)
qed (blast intro: ep_inv_put, rule ep_watched_put, rule ep_update_old, assumption+,
     rule ep_remove_old, assumption+)

section \<open>Polling\<close>

text \<open>
  What \<^verbatim>\<open>epoll_wait(2)\<close> stored in the event vector (events and the pointer of the interest list),
  or its error number. It stores no more than the vector holds and reports a descriptor once.
\<close>

datatype epoll_outcome = Epoll_events "(event_bits \<times> address) list" | Epoll_error int

definition epoll_contract :: "(event_bits \<times> address) list \<Rightarrow> epoll_io \<Rightarrow> bool" where
  "epoll_contract evs s \<longleftrightarrow> length evs \<le> events_size (poller s) \<and> distinct (map snd evs) \<and>
     (\<forall>(ev, a) \<in> set evs. \<exists>f ev'. interest_list (poller s) f = Some (ev', a))"

fun ep_fill ::
  "(event_bits \<times> address) list \<Rightarrow> epoll_io \<Rightarrow> address list \<Rightarrow> (address list \<times> epoll_io) result"
where
  "ep_fill [] s active = Inr (active, s)"
| "ep_fill ((ev, a) # evs) s active =
     and_then (the_channel s a) (\<lambda>c.
       check (channels s (fd c) \<noteq> None) (check (channels s (fd c) = Some a)
         (ep_fill evs (put_channel a (c\<lparr>revents := ev\<rparr>) s) (active @ [a]))))"

definition ep_poll :: "int \<Rightarrow> epoll_outcome \<Rightarrow> epoll_io \<Rightarrow> (int \<times> address list \<times> epoll_io) result" where
  "ep_poll now outcome s =
     (case outcome of
        Epoll_events evs \<Rightarrow>
          (let numEvents = length evs in
           if numEvents > 0 then
             check (numEvents \<le> events_size (poller s))
               (and_then (ep_fill evs s []) (\<lambda>(active, s1).
                  let s2 = (if numEvents = events_size (poller s1)
                            then s1\<lparr>poller := (poller s1)\<lparr>events_size := events_size (poller s1) * 2\<rparr>\<rparr>
                            else s1)
                  in Inr (now, active, s2)))
           else Inr (now, [], s))
      | Epoll_error e \<Rightarrow> Inr (now, [], s))"

definition reported :: "epoll_io \<Rightarrow> event_bits \<times> address \<Rightarrow> bool" where
  "reported s e \<longleftrightarrow> (\<exists>c. heap s (snd e) = Some c \<and> channels s (fd c) = Some (snd e))"

lemma reported_put:
  assumes "reported s e" and "heap s a = Some c" and "fd c' = fd c"
  shows "reported (put_channel a c' s) e"
proof -
  from assms(1) obtain d where "heap s (snd e) = Some d" "channels s (fd d) = Some (snd e)"
    by (auto simp: reported_def)
  with assms(2,3) show ?thesis by (cases "snd e = a") (auto simp: reported_def put_channel_def)
qed

lemma ep_fill_ok:
  assumes "ep_inv s" and "\<forall>e \<in> set evs. reported s e" and "distinct (map snd evs)"
  shows "\<exists>s'. ep_fill evs s active = Inr (active @ map snd evs, s') \<and> ep_inv s' \<and>
     channels s' = channels s \<and> poller s' = poller s \<and>
     (\<forall>a. a \<notin> snd ` set evs \<longrightarrow> heap s' a = heap s a) \<and>
     (\<forall>ev a c. (ev, a) \<in> set evs \<and> heap s a = Some c \<longrightarrow> heap s' a = Some (c\<lparr>revents := ev\<rparr>))"
  using assms
proof (induction evs arbitrary: s active)
  case (Cons e evs)
  obtain ev a where e: "e = (ev, a)" by (cases e)
  with Cons.prems(2) obtain c where c: "heap s a = Some c" "channels s (fd c) = Some a"
    by (auto simp: reported_def)
  let ?s = "put_channel a (c\<lparr>revents := ev\<rparr>) s"
  have inv: "ep_inv ?s" by (rule ep_inv_put [OF Cons.prems(1) c(1)]) simp_all
  have rep: "\<forall>e \<in> set evs. reported ?s e" using Cons.prems(2) reported_put [OF _ c(1)] by simp
  have fresh: "a \<notin> snd ` set evs" "distinct (map snd evs)" using Cons.prems(3) e by auto
  obtain s' where s': "ep_fill evs ?s (active @ [a]) = Inr ((active @ [a]) @ map snd evs, s')" "ep_inv s'"
    "channels s' = channels ?s" "poller s' = poller ?s" "\<forall>b. b \<notin> snd ` set evs \<longrightarrow> heap s' b = heap ?s b"
    "\<forall>ev b d. (ev, b) \<in> set evs \<and> heap ?s b = Some d \<longrightarrow> heap s' b = Some (d\<lparr>revents := ev\<rparr>)"
    using Cons.IH [OF inv rep fresh(2), of "active @ [a]"] by auto
  have "heap s' b = Some (d\<lparr>revents := ev'\<rparr>)" if "(ev', b) \<in> set (e # evs)" "heap s b = Some d" for ev' b d
  proof (cases "b = a")
    case True
    with that(1) fresh(1) e have "ev' = ev" by (auto simp: rev_image_eqI)
    with True s'(5) fresh(1) c(1) that(2) show ?thesis by (simp add: put_channel_def)
  next
    case False
    with that e s'(6) show ?thesis by (auto simp: put_channel_def)
  qed
  moreover have "heap s' b = heap s b" if "b \<notin> snd ` set (e # evs)" for b
    using that e s'(5) by (auto simp: put_channel_def)
  ultimately show ?case
    using s'(1-4) c e by (simp add: the_channel_def check_def put_channel_def)
qed simp

section \<open>Properties\<close>

text \<open>
  Under the contract of \<^verbatim>\<open>epoll_wait(2)\<close>, \<open>poll\<close> reports the channels of all events in their
  order, each with its own \<open>revents\<close>; no assertion fails, no stale pointer is followed, and a full
  event vector is doubled for the next turn.
\<close>

theorem ep_poll_reports:
  assumes "ep_inv s" and "epoll_contract evs s"
  shows "\<exists>s'. ep_poll now (Epoll_events evs) s = Inr (now, map snd evs, s') \<and> ep_inv s' \<and>
     channels s' = channels s \<and> interest_list (poller s') = interest_list (poller s) \<and>
     (\<forall>ev a c. (ev, a) \<in> set evs \<and> heap s a = Some c \<longrightarrow> heap s' a = Some (c\<lparr>revents := ev\<rparr>)) \<and>
     (0 < events_size (poller s) \<longrightarrow> length evs \<le> events_size (poller s') \<and>
        (length evs = events_size (poller s) \<longrightarrow> events_size (poller s') = 2 * events_size (poller s)))"
proof -
  have dist: "distinct (map snd evs)" and len: "length evs \<le> events_size (poller s)"
    using assms(2) by (simp_all add: epoll_contract_def)
  have rep: "\<forall>e \<in> set evs. reported s e"
  proof
    fix e assume "e \<in> set evs"
    then obtain f ev' where f: "interest_list (poller s) f = Some (ev', snd e)"
      using assms(2) by (fastforce simp: epoll_contract_def)
    then obtain a where a: "channels s f = Some a" using ep_inv_none [OF assms(1)] by fastforce
    from ep_inv_channel [OF assms(1) a] f a show "reported s e" by (auto simp: reported_def)
  qed
  obtain s1 where s1: "ep_fill evs s [] = Inr (map snd evs, s1)" "ep_inv s1"
    "channels s1 = channels s" "poller s1 = poller s"
    "\<forall>ev a c. (ev, a) \<in> set evs \<and> heap s a = Some c \<longrightarrow> heap s1 a = Some (c\<lparr>revents := ev\<rparr>)"
    using ep_fill_ok [OF assms(1) rep dist, of "[]"] by auto
  let ?s2 = "s1\<lparr>poller := (poller s1)\<lparr>events_size := events_size (poller s1) * 2\<rparr>\<rparr>"
  have inv2: "ep_inv ?s2" using s1(2) by (simp add: ep_inv_def)
  consider "evs = []" | "evs \<noteq> []" "length evs = events_size (poller s)"
    | "evs \<noteq> []" "length evs < events_size (poller s)" using len by fastforce
  then show ?thesis
  proof cases
    case 1
    with assms(1) show ?thesis by (simp add: ep_poll_def)
  next
    case 2
    have "0 < events_size (poller s)" using 2 by (metis length_greater_0_conv)
    with 2 s1 inv2 show ?thesis by (intro exI [of _ ?s2]) (simp add: ep_poll_def check_def Let_def)
  next
    case 3
    with s1 show ?thesis by (intro exI [of _ s1]) (simp add: ep_poll_def check_def Let_def)
  qed
qed

theorem ep_poll_reports_witness:
  "\<exists>s'. ep_poll 9 (Epoll_events [(1, 7)]) \<lparr>heap = [7 \<mapsto> (Channel_new 5)\<lparr>events := 3, index := 1\<rparr>], channels = [5 \<mapsto> 7],
       poller = \<lparr>interest_list = [5 \<mapsto> (3, 7)], events_size = 64\<rparr>\<rparr> = Inr (9, [7], s')"
proof -
  let ?s = "\<lparr>heap = [7 \<mapsto> (Channel_new 5)\<lparr>events := 3, index := 1\<rparr>], channels = [5 \<mapsto> 7],
       poller = \<lparr>interest_list = [5 \<mapsto> (3, 7)], events_size = 64\<rparr>\<rparr> :: epoll_io"
  have "ep_inv ?s" by (simp add: ep_inv_def Channel_new_def index_defs)
  moreover have "epoll_contract [(1, 7)] ?s" by (auto simp: epoll_contract_def intro: exI [of _ 5])
  ultimately show ?thesis using ep_poll_reports [of ?s "[(1, 7)]" 9] by auto
qed

text \<open>
  C16. The two pollers are interchangeable: on channels that were just created, any sequence of
  changes of events and of removals that the contract allows succeeds on both without a failed
  assertion, and afterwards both watch, for the descriptor of every registered channel, exactly the
  events that the channel asked for, and nothing for any other descriptor.
\<close>

theorem pollers_watch_the_same:
  assumes "all_fresh chs" and "io_run_ok ops (fresh_spec chs)"
  shows "\<exists>p e. io_run pp_updateChannel pp_removeChannel ops \<lparr>heap = chs, channels = Map.empty, poller = []\<rparr> = Inr p \<and>
     io_run ep_updateChannel ep_removeChannel ops (EPollPoller_new chs) = Inr e \<and>
     pp_watched p = ep_watched e \<and> channels p = channels e \<and>
     (\<forall>f. ep_watched e f =
        (case channels e f of Some a \<Rightarrow> interest (fold io_spec ops (fresh_spec chs)) a | None \<Rightarrow> 0))"
proof -
  let ?p0 = "\<lparr>heap = chs, channels = Map.empty, poller = []\<rparr> :: poll_io"
  let ?sp = "fold io_spec ops (fresh_spec chs)"
  have "pp.implements (fresh_spec (heap ?p0)) ?p0"
    using assms(1) by (intro pp.implements_fresh) (simp_all add: pp_inv_def pp_watched_def fun_eq_iff)
  then obtain p where p: "io_run pp_updateChannel pp_removeChannel ops ?p0 = Inr p" "pp.implements ?sp p"
    using pp.io_run_refines assms(2) by fastforce
  have "ep.implements (fresh_spec (heap (EPollPoller_new chs))) (EPollPoller_new chs)"
    using assms(1) by (intro ep.implements_fresh) simp_all
  then obtain e where e: "io_run ep_updateChannel ep_removeChannel ops (EPollPoller_new chs) = Inr e"
    "ep.implements ?sp e"
    using ep.io_run_refines assms(2) by fastforce
  have "channels p f = channels e f" for f
    using pp.implements_channels [OF p(2), of f] ep.implements_channels [OF e(2), of f]
    by (metis not_None_eq)
  then have chs: "channels p = channels e" by blast
  have "pp_watched p = ep_watched e"
    using pp.watches_interest(1) [OF p(2)] ep.watches_interest(1) [OF e(2)] by (simp add: fun_eq_iff chs)
  with p(1) e(1) chs ep.watches_interest(1) [OF e(2)] show ?thesis by blast
qed

theorem pollers_watch_the_same_witness:
  "\<exists>p e. io_run pp_updateChannel pp_removeChannel [Change EnableReading 7, Change DisableAll 7, Remove 7]
       \<lparr>heap = [7 \<mapsto> Channel_new 5], channels = Map.empty, poller = []\<rparr> = Inr p \<and>
     io_run ep_updateChannel ep_removeChannel [Change EnableReading 7, Change DisableAll 7, Remove 7]
       (EPollPoller_new [7 \<mapsto> Channel_new 5]) = Inr e \<and> pp_watched p = ep_watched e"
proof -
  have "all_fresh [7 \<mapsto> Channel_new 5]" by (simp add: all_fresh_def Channel_new_def)
  moreover have "io_run_ok [Change EnableReading 7, Change DisableAll 7, Remove 7] (fresh_spec [7 \<mapsto> Channel_new 5])"
    by (simp add: fresh_spec_def event_defs Channel_new_def)
  ultimately show ?thesis using pollers_watch_the_same by blast
qed

end
