(* ===== verification/TcpProps.thy ===== *)
theory TcpProps
  imports TcpInvariant
begin

text \<open>
  What a connection promises over sequences of events: the byte stream, the order of its life, the
  orderly shutdown, and, for clients that do not stop and restart reading, that no assertion fails
  and the channel is unregistered at the end. Two sequences that break the last are shown.
\<close>

section \<open>One step\<close>

lemma pendings_inv: "conn_inv (c\<lparr>pendings := fs\<rparr>) \<longleftrightarrow> conn_inv c"
  by (simp add: conn_inv_def)

lemma pendings_grows: "conn_inv c \<Longrightarrow> grows c (c\<lparr>pendings := fs\<rparr>)"
  by (simp add: grows_def pendings_inv)

lemma timers_grows: "conn_inv c \<Longrightarrow> grows c (c\<lparr>close_timers := ts\<rparr>)"
  by (rule changes_grows [OF timer_changes])

lemma run_functor_sound:
  assumes "conn_inv c"
  shows "sound c (run_functor env f c)"
  using assms
  by (cases f)
    (auto intro: does_sound [OF call_client_changes [where q = False]] does_sound [OF sendInLoop_changes]
      changes_grows [OF shutdownInLoop_changes] changes_grows [OF shutdownAndForceCloseInLoop_changes]
      changes_grows [OF startReadInLoop_changes] changes_grows [OF stopReadInLoop_changes]
      forceCloseInLoop_sound connectDestroyed_sound)

lemma conn_step_sound:
  assumes inv: "conn_inv c"
  shows "sound c (conn_step env e c)"
proof (cases e)
  case Ev_established
  with connectEstablished_sound [OF inv] show ?thesis by simp
next
  case (Ev_io bits outcome t)
  with handleEvent_sound [OF inv] show ?thesis by simp
next
  case Ev_pending
  show ?thesis
  proof (cases "pendings c")
    case Nil
    with Ev_pending inv show ?thesis by simp
  next
    case (Cons f fs)
    have "sound (c\<lparr>pendings := fs\<rparr>) (run_functor env f (c\<lparr>pendings := fs\<rparr>))"
      using inv by (intro run_functor_sound) (simp add: pendings_inv)
    from sound_grows [OF pendings_grows [OF inv] this] Ev_pending Cons show ?thesis by simp
  qed
next
  case (Ev_timer i)
  let ?c = "c\<lparr>close_timers := take i (close_timers c) @ drop (Suc i) (close_timers c)\<rparr>"
  note ch = timers_grows [OF inv, of "take i (close_timers c) @ drop (Suc i) (close_timers c)"]
  then have inv1: "conn_inv ?c" by (simp add: grows_def)
  have "sound ?c (forceCloseInLoop env ?c)" "sound ?c (api_in_loop env Call_forceClose ?c)"
    using forceCloseInLoop_sound [OF inv1] does_sound [OF api_in_loop_changes [OF inv1, of False]]
    by blast+
  with sound_grows [OF ch] inv Ev_timer show ?thesis
    by (simp add: Let_def del: api_in_loop.simps split: close_timer.split)
next
  case (Ev_call a)
  with does_sound [OF api_in_loop_changes [OF inv, of False]] show ?thesis by simp
next
  case (Ev_other_thread a)
  with does_sound [OF api_other_thread_changes [OF inv, of False]] show ?thesis by simp
next
  case Ev_destroy
  with connectDestroyed_sound [OF inv] show ?thesis by simp
qed

interpretation cr: sequential "conn_step env" "conn_run env" for env
  by unfold_locales simp_all

lemma conn_run_sound:
  assumes "conn_inv c"
  shows "sound c (conn_run env es c)"
proof -
  define rel where "rel = (\<lambda>c c' :: 'a conn. conn_inv c \<longrightarrow> grows c c')"
  have "case conn_step env e c of Inl e \<Rightarrow> e = Assert_failed | Inr c' \<Rightarrow> conn_inv c' \<and> rel c c'" if "conn_inv c" for e c
    using conn_step_sound [OF that, of env e] by (auto simp: sound_def rel_def grows_def split: sum.splits)
  then have "case conn_run env es c of Inl e \<Rightarrow> e = Assert_failed | Inr c' \<Rightarrow> conn_inv c' \<and> rel c c'"
    using assms by (intro cr.run_sound [where inv = conn_inv and rel = rel])
      (auto simp: rel_def grows_def intro: prefix_order.trans)
  with assms show ?thesis by (simp add: sound_def rel_def split: sum.splits)
qed

section \<open>Clients that leave reading alone\<close>

definition quiet_inv :: "'cb conn \<Rightarrow> bool" where
  "quiet_inv c \<longleftrightarrow>
     (\<forall>f \<in> set (pendings c). \<not> throttling f) \<and>
     (state c \<noteq> kDisconnected \<longrightarrow> Fn_connectDestroyed \<notin> set (pendings c)) \<and>
     (state c \<in> {kConnected, kDisconnecting} \<longrightarrow> addedToLoop (conn_channel c)) \<and>
     (state c = kDisconnected \<longrightarrow> events (conn_channel c) = 0 \<and>
        count_list (pendings c) Fn_connectDestroyed = (if addedToLoop (conn_channel c) then 1 else 0))"

text \<open>
  The events that can happen: the server establishes a new connection and destroys a connected one;
  the poller reports a channel that is established and watches something; a hang-up without input
  comes with no other reading event.
\<close>

fun event_ok :: "'cb conn_event \<Rightarrow> 'cb conn \<Rightarrow> bool" where
  "event_ok Ev_established c \<longleftrightarrow> state c = kConnecting"
| "event_ok (Ev_io bits outcome t) c \<longleftrightarrow> events (conn_channel c) \<noteq> 0 \<and> state c \<noteq> kConnecting \<and>
     (bits AND POLLHUP \<noteq> 0 \<and> bits AND POLLIN = 0 \<longrightarrow> bits AND (POLLIN OR POLLPRI OR POLLRDHUP) = 0)"
| "event_ok Ev_pending c \<longleftrightarrow> True"
| "event_ok (Ev_timer i) c \<longleftrightarrow> True"
| "event_ok (Ev_call a) c \<longleftrightarrow> quiet_call a"
| "event_ok (Ev_other_thread a) c \<longleftrightarrow> quiet_call a"
| "event_ok Ev_destroy c \<longleftrightarrow> state c = kConnected"

fun events_run_ok :: "'cb conn_env \<Rightarrow> 'cb conn_event list \<Rightarrow> 'cb conn \<Rightarrow> bool" where
  "events_run_ok env [] c \<longleftrightarrow> True"
| "events_run_ok env (e # es) c \<longleftrightarrow> event_ok e c \<and>
     (case conn_step env e c of Inl _ \<Rightarrow> True | Inr c' \<Rightarrow> events_run_ok env es c')"

definition fine :: "'cb conn \<Rightarrow> bool" where
  "fine c \<longleftrightarrow> conn_inv c \<and> quiet_inv c"

definition runs_fine :: "'cb conn result \<Rightarrow> bool" where
  "runs_fine r \<longleftrightarrow> (\<exists>c'. r = Inr c' \<and> fine c')"

lemma runs_fine_Inr [simp]: "runs_fine (Inr c) \<longleftrightarrow> fine c"
  by (simp add: runs_fine_def)

lemma count_list_0: "x \<notin> set xs \<Longrightarrow> count_list xs x = 0"
  by simp

lemma quiet_changes:
  assumes "quiet_inv c" and "changes True c c'"
  shows "quiet_inv c'"
proof -
  obtain fs where fs: "pendings c' = pendings c @ fs" "Fn_connectDestroyed \<notin> set fs" "\<forall>f \<in> set fs. \<not> throttling f"
    using assms(2) by (auto simp: changes_def)
  have st: "state c' = state c \<or> state c = kConnected \<and> state c' = kDisconnecting"
    and added: "addedToLoop (conn_channel c) \<longrightarrow> addedToLoop (conn_channel c')"
    and dis: "state c = kDisconnected \<longrightarrow> events (conn_channel c') = events (conn_channel c) \<and>
        addedToLoop (conn_channel c') = addedToLoop (conn_channel c)"
    using assms(2) unfolding changes_def by blast+
  have "count_list (pendings c') Fn_connectDestroyed = count_list (pendings c) Fn_connectDestroyed"
    using fs by simp
  with assms(1) fs st added dis show ?thesis by (auto simp: quiet_inv_def)
qed

lemma fine_changes: "fine c \<Longrightarrow> changes True c c' \<Longrightarrow> fine c'"
  unfolding fine_def using quiet_changes changes_inv by blast

lemma fine_does: "fine c \<Longrightarrow> does True c r \<Longrightarrow> runs_fine r"
  by (auto simp: does_def intro: fine_changes)

lemma fine_and_then: "runs_fine r \<Longrightarrow> (\<And>c. fine c \<Longrightarrow> runs_fine (f c)) \<Longrightarrow> runs_fine (and_then r f)"
  by (auto simp: runs_fine_def)

text \<open>After the channel was disabled and before \<open>connectDestroyed\<close> is queued.\<close>

definition half_closed :: "'cb conn \<Rightarrow> bool" where
  "half_closed c \<longleftrightarrow> conn_inv c \<and> state c = kDisconnected \<and> events (conn_channel c) = 0 \<and>
     addedToLoop (conn_channel c) \<and> Fn_connectDestroyed \<notin> set (pendings c) \<and>
     (\<forall>f \<in> set (pendings c). \<not> throttling f)"

lemma half_closed_changes:
  assumes "half_closed c" and "changes True c c'"
  shows "half_closed c'"
  using assms by (auto simp: half_closed_def changes_def)

lemma half_closed_disable:
  assumes "fine c" and "state c \<noteq> kDisconnected"
  shows "half_closed (set_channel_events DisableAll (c\<lparr>state := kDisconnected\<rparr>))"
  using assms closed_inv [of c]
  by (simp add: half_closed_def fine_def quiet_inv_def) (simp add: set_channel_events_def event_defs)

lemma half_closed_client:
  assumes "fine c" and "state c \<noteq> kDisconnected" and "quiet_env env"
  obtains c2 where "call_client env cb (set_channel_events DisableAll (c\<lparr>state := kDisconnected\<rparr>)) = Inr c2"
    and "half_closed c2"
proof -
  let ?c = "set_channel_events DisableAll (c\<lparr>state := kDisconnected\<rparr>)"
  note half = half_closed_disable [OF assms(1,2)]
  have "does True ?c (call_client env cb ?c)"
    using half assms(3) by (intro call_client_changes) (simp_all add: half_closed_def)
  then obtain c2 where "call_client env cb ?c = Inr c2" "changes True ?c c2" by (auto simp: does_def)
  with half_closed_changes [OF half] show thesis by (intro that) simp_all
qed

lemma handleClose_fine:
  assumes "fine c" and "state c \<in> {kConnected, kDisconnecting}" and "quiet_env env"
  shows "runs_fine (handleClose env c)"
proof -
  have not_closed: "state c \<noteq> kDisconnected" using assms(2) by auto
  obtain c2 where c2: "call_client env (connectionCallback c)
      (set_channel_events DisableAll (c\<lparr>state := kDisconnected\<rparr>)) = Inr c2" "half_closed c2"
    by (rule half_closed_client [OF assms(1) not_closed assms(3)])
  have "fine (close_callback c2)"
    using c2(2) by (auto simp: fine_def half_closed_def quiet_inv_def close_callback_def queueInLoop_def
        conn_inv_def throttling_def)
  with c2(1) assms(2) show ?thesis by (auto simp: handleClose_def check_def)
qed

lemma forceCloseInLoop_fine: "fine c \<Longrightarrow> quiet_env env \<Longrightarrow> runs_fine (forceCloseInLoop env c)"
  by (auto simp: forceCloseInLoop_def intro: handleClose_fine)

lemma fine_inv: "fine c \<Longrightarrow> conn_inv c"
  by (simp add: fine_def)

lemma handleRead_fine:
  assumes "fine c" and "state c \<in> {kConnected, kDisconnecting}" and "quiet_env env"
  shows "runs_fine (conn_handleRead env outcome c)"
proof -
  obtain n err b where r: "readFd outcome (inputBuffer c) = Inr (n, err, b)"
    "changes True c (c\<lparr>inputBuffer := b\<rparr>)" "conn_inv (c\<lparr>inputBuffer := b\<rparr>)"
    by (rule readFd_result [OF fine_inv [OF assms(1)]])
  let ?c = "c\<lparr>inputBuffer := b\<rparr>"
  have fine1: "fine ?c" by (rule fine_changes [OF assms(1) r(2)])
  have "runs_fine (call_client env (messageCallback ?c) ?c)"
    using assms(3) by (intro fine_does [OF fine1] call_client_changes r(3)) simp
  moreover have "runs_fine (handleClose env ?c)" using assms(2,3) by (intro handleClose_fine fine1) simp_all
  ultimately show ?thesis using r(1) fine1 by (simp add: conn_handleRead_def Let_def)
qed

lemma remove_half_closed:
  assumes "half_closed c"
  shows "runs_fine (remove_conn_channel c)"
  using assms by (auto simp: remove_conn_channel_def half_closed_def check_def isNoneEvent_def event_defs
      fine_def quiet_inv_def conn_inv_def)

lemma connectEstablished_fine:
  assumes "fine c" and "state c = kConnecting" and "quiet_env env"
  shows "runs_fine (connectEstablished env c)"
proof -
  let ?c = "set_channel_events EnableReading (c\<lparr>state := kConnected, conn_channel := tie (conn_channel c)\<rparr>)"
  have "conn_inv ?c" using established_changes(1) [OF fine_inv [OF assms(1)] assms(2)] .
  moreover have "quiet_inv ?c" using assms(1,2) by (simp add: fine_def quiet_inv_def)
  ultimately have fine1: "fine ?c" by (simp add: fine_def)
  have "does True ?c (call_client env (connectionCallback c) ?c)"
    using assms(3) by (intro call_client_changes fine_inv [OF fine1]) simp
  from fine_does [OF fine1 this] assms(2) show ?thesis by (simp add: connectEstablished_def check_def Let_def)
qed

lemma connectDestroyed_fine:
  assumes "fine c" and "state c = kConnected" and "quiet_env env"
  shows "runs_fine (connectDestroyed env c)"
proof -
  have not_closed: "state c \<noteq> kDisconnected" using assms(2) by simp
  obtain c2 where "call_client env (connectionCallback c)
      (set_channel_events DisableAll (c\<lparr>state := kDisconnected\<rparr>)) = Inr c2" "half_closed c2"
    by (rule half_closed_client [OF assms(1) not_closed assms(3)])
  with remove_half_closed assms(2) show ?thesis by (simp add: connectDestroyed_def)
qed

lemma handleEvent_fine:
  assumes fine: "fine c" and st: "state c \<in> {kConnected, kDisconnecting}" and env: "quiet_env env"
    and bits: "bits AND POLLHUP \<noteq> 0 \<Longrightarrow> bits AND POLLIN = 0 \<Longrightarrow> bits AND (POLLIN OR POLLPRI OR POLLRDHUP) = 0"
  shows "runs_fine (handleEvent set_handling b True (conn_callbacks env outcome) bits t c)"
proof -
  let ?c = "set_handling True c"
  let ?hup = "bits AND POLLHUP \<noteq> 0 \<and> \<not> bits AND POLLIN \<noteq> 0"
  let ?in = "bits AND (POLLIN OR POLLPRI OR POLLRDHUP) \<noteq> 0"
  have fine1: "fine ?c" by (rule fine_changes [OF fine set_handling_changes [OF fine_inv [OF fine]]])
  have st1: "state ?c \<in> {kConnected, kDisconnecting}" using st by (simp add: set_handling_def)
  have wr: "runs_fine (and_then (call (bits AND POLLOUT \<noteq> 0) (Some (handleWrite env)) c1)
      (\<lambda>c2. Inr (set_handling False c2)))" if "fine c1" for c1
    using that fine_does [OF that handleWrite_changes [OF fine_inv [OF that]]]
    by (intro fine_and_then) (auto simp: call_def intro: fine_changes set_handling_changes fine_inv)
  have rd: "runs_fine (and_then (call ?in (Some (conn_handleRead env outcome)) c1)
      (\<lambda>c2. and_then (call (bits AND POLLOUT \<noteq> 0) (Some (handleWrite env)) c2)
        (\<lambda>c3. Inr (set_handling False c3))))"
    if "fine c1" "?in \<Longrightarrow> state c1 \<in> {kConnected, kDisconnecting}" for c1
    using that handleRead_fine [OF that(1) _ env] by (intro fine_and_then wr) (auto simp: call_def)
  have "runs_fine (handleEventWithGuard set_handling (conn_callbacks env outcome) bits t c)"
  proof (cases ?hup)
    case True
    then have noin: "\<not> ?in" using bits by simp
    have "runs_fine (handleClose env ?c)" by (rule handleClose_fine [OF fine1 st1 env])
    then obtain c2 where c2: "handleClose env ?c = Inr c2" "fine c2" by (auto simp: runs_fine_def)
    from rd [OF c2(2)] noin c2(1) True show ?thesis
      by (simp add: handleEventWithGuard_def conn_callbacks_def call_def)
  next
    case False
    then have "call ?hup (Some (handleClose env)) ?c = Inr ?c" unfolding call_def by (rule if_not_P)
    with rd [OF fine1 st1] show ?thesis
      by (simp add: handleEventWithGuard_def conn_callbacks_def) (simp add: call_def)
  qed
  then show ?thesis by (simp add: handleEvent_def)
qed

lemma fine_pending:
  assumes "fine c" and "pendings c = f # fs"
  shows "conn_inv (c\<lparr>pendings := fs\<rparr>)" and "\<not> throttling f"
    and "f \<noteq> Fn_connectDestroyed \<Longrightarrow> fine (c\<lparr>pendings := fs\<rparr>)"
    and "f = Fn_connectDestroyed \<Longrightarrow> half_closed (c\<lparr>pendings := fs\<rparr>)"
proof -
  show inv: "conn_inv (c\<lparr>pendings := fs\<rparr>)" using assms by (simp add: pendings_inv fine_def)
  show "\<not> throttling f" using assms by (simp add: fine_def quiet_inv_def)
  show "fine (c\<lparr>pendings := fs\<rparr>)" if "f \<noteq> Fn_connectDestroyed"
    using assms that inv by (auto simp: fine_def quiet_inv_def)
  show "half_closed (c\<lparr>pendings := fs\<rparr>)" if "f = Fn_connectDestroyed"
    using assms that inv
    by (auto simp: fine_def quiet_inv_def half_closed_def count_list_0_iff split: if_splits)
qed

lemma run_functor_fine:
  assumes "fine c" and "pendings c = f # fs" and "quiet_env env"
  shows "runs_fine (run_functor env f (c\<lparr>pendings := fs\<rparr>))"
proof (cases "f = Fn_connectDestroyed")
  case True
  note half = fine_pending(4) [OF assms(1,2) True]
  then have "state (c\<lparr>pendings := fs\<rparr>) = kDisconnected" by (simp add: half_closed_def)
  with True remove_half_closed [OF half] show ?thesis by (simp add: connectDestroyed_def)
next
  case False
  note inv = fine_pending(1) [OF assms(1,2)] and fine = fine_pending(3) [OF assms(1,2) False]
  have quiet: "True \<longrightarrow> quiet_env env" using assms(3) by simp
  show ?thesis
    using False fine_pending(2) [OF assms(1,2)]
      fine_does [OF fine call_client_changes [OF inv quiet]]
      fine_does [OF fine sendInLoop_changes [OF inv]]
      fine_changes [OF fine shutdownInLoop_changes [OF inv]]
      fine_changes [OF fine shutdownAndForceCloseInLoop_changes [OF inv]]
      forceCloseInLoop_fine [OF fine assms(3)]
    by (cases f) (simp_all add: throttling_def)
qed

lemma conn_step_fine:
  assumes fine: "fine c" and ok: "event_ok e c" and env: "quiet_env env"
  shows "runs_fine (conn_step env e c)"
proof (cases e)
  case Ev_established
  with connectEstablished_fine [OF fine _ env] ok show ?thesis by simp
next
  case (Ev_io bits outcome t)
  with ok fine have "state c \<in> {kConnected, kDisconnecting}"
    by (cases "state c") (auto simp: fine_def quiet_inv_def)
  from handleEvent_fine [OF fine this env] Ev_io ok show ?thesis by simp
next
  case Ev_pending
  with run_functor_fine [OF fine _ env] fine show ?thesis by (simp split: list.split)
next
  case (Ev_timer i)
  let ?c = "c\<lparr>close_timers := take i (close_timers c) @ drop (Suc i) (close_timers c)\<rparr>"
  have fine1: "fine ?c" by (rule fine_changes [OF fine timer_changes [OF fine_inv [OF fine]]])
  have "runs_fine (forceCloseInLoop env ?c)" by (rule forceCloseInLoop_fine [OF fine1 env])
  moreover have "runs_fine (api_in_loop env Call_forceClose ?c)"
    by (rule fine_does [OF fine1 api_in_loop_changes [OF fine_inv [OF fine1]]]) simp
  ultimately show ?thesis
    using fine Ev_timer by (simp add: Let_def del: api_in_loop.simps split: close_timer.split)
next
  case (Ev_call a)
  with ok fine_does [OF fine api_in_loop_changes [OF fine_inv [OF fine]]] show ?thesis by simp
next
  case (Ev_other_thread a)
  with ok fine_does [OF fine api_other_thread_changes [OF fine_inv [OF fine]]] show ?thesis by simp
next
  case Ev_destroy
  with connectDestroyed_fine [OF fine _ env] ok show ?thesis by simp
qed

interpretation cg: guarded "conn_step env" "conn_run env" event_ok "events_run_ok env"
    "\<lambda>c. quiet_env env \<and> fine c" for env
  by unfold_locales (use conn_step_fine in \<open>auto simp: runs_fine_def\<close>)

lemma conn_run_fine:
  assumes "quiet_env env" and "fine c" and "events_run_ok env es c"
  shows "runs_fine (conn_run env es c)"
  using cg.run_total [of env c es] assms by (simp add: runs_fine_def)

lemma fine_new: "fine (TcpConnection_new f cb1 cb2)"
  by (simp add: fine_def quiet_inv_def) (simp add: TcpConnection_new_def)

section \<open>Draining\<close>

text \<open>\<open>handleWrite\<close> when a positive number of bytes is accepted.\<close>

lemma handleWrite_accept:
  assumes inv: "conn_inv c" and st: "state c = kDisconnecting" and un: "unsent c \<noteq> []"
    and acc: "env_write env (writes c) = Accept n" "0 < n"
  obtains c' where "handleWrite env c = Inr c'" and "conn_inv c'" and "state c' = kDisconnecting"
    and "writes c' = Suc (writes c)" and "unsent c' = drop n (unsent c)" and "accepted c' = accepted c"
    and "unsent c' = [] \<longrightarrow> write_shut c'"
proof -
  have out: "buffer_inv (outputBuffer c)" using inv by (simp add: conn_inv_def)
  have wr: "writing c" using inv st un by (simp add: conn_inv_def)
  let ?k = "min n (length (unsent c))"
  let ?c1 = "c\<lparr>writes := Suc (writes c), sent := sent c @ take ?k (unsent c)\<rparr>"
  have k: "0 < ?k" "?k \<le> readableBytes (outputBuffer c)" using acc(2) un by (simp_all add: length_toStringView [OF out, symmetric])
  obtain b where b: "retrieve ?k (outputBuffer c) = Inr b" "buffer_inv b" "toStringView b = drop ?k (unsent c)"
    using retrieve_correct [OF out k(2)] by blast
  have dw: "do_write env (unsent c) c = (Inr ?k, ?c1)" by (simp add: do_write_def acc(1) Let_def)
  let ?c2 = "?c1\<lparr>outputBuffer := b\<rparr>"
  define c3 where "c3 = queue_write_complete (set_channel_events DisableWriting ?c2)"
  let ?c' = "if readableBytes b = 0 then shutdownInLoop c3 else ?c2"
  have ev: "events_ok (events (conn_channel ?c2))" using inv by (simp add: conn_inv_def)
  have run: "handleWrite env c = Inr ?c'"
    using wr k(1) b(1) st by (simp add: handleWrite_def dw Let_def c3_def)
  have inv': "conn_inv ?c'"
    using handleWrite_changes [OF inv, of False env] run by (simp add: does_def changes_inv)
  have drop: "toStringView b = drop n (unsent c)" using b(3) by (simp add: min_def)
  have "\<not> writing c3" using writing_set(2) [OF ev] by (simp add: c3_def)
  then have shut3: "shutdownInLoop c3 = shutdownWrite c3" by (simp add: shutdownInLoop_def)
  have c3: "state c3 = kDisconnecting" "outputBuffer c3 = b" "accepted c3 = accepted c" "writes c3 = Suc (writes c)"
    using st by (simp_all add: c3_def)
      (simp add: queue_write_complete_def queueInLoop_def set_channel_events_def split: option.split)
  have emp: "readableBytes b = 0 \<longleftrightarrow> drop n (unsent c) = []" using readable_unsent [OF b(2)] drop by simp
  show thesis
    by (rule that [OF run inv']) (use st drop emp c3 in \<open>simp_all add: shut3 shutdownWrite_def\<close>)
qed

fun write_turns :: "'cb conn_env \<Rightarrow> nat \<Rightarrow> 'cb conn \<Rightarrow> 'cb conn result" where
  "write_turns env 0 c = Inr c"
| "write_turns env (Suc k) c = and_then (handleWrite env c) (write_turns env k)"

lemma write_turns_idle:
  assumes "conn_inv c" and "unsent c = []" and "state c = kDisconnecting"
  shows "write_turns env k c = Inr c"
proof -
  have "\<not> writing c" using assms by (simp add: conn_inv_def)
  then have "handleWrite env c = Inr c" by (simp add: handleWrite_def)
  then show ?thesis by (induction k) simp_all
qed

lemma write_turns_drain:
  assumes "conn_inv c" and "state c = kDisconnecting" and "unsent c \<noteq> []" and "length (unsent c) \<le> k"
    and "\<And>i. writes c \<le> i \<Longrightarrow> \<exists>n>0. env_write env i = Accept n"
  shows "\<exists>c'. write_turns env k c = Inr c' \<and> unsent c' = [] \<and> sent c' = accepted c \<and> write_shut c'"
  using assms
proof (induction k arbitrary: c)
  case (Suc k)
  obtain n where n: "env_write env (writes c) = Accept n" "0 < n" using Suc.prems(5) [of "writes c"] by auto
  obtain c1 where c1: "handleWrite env c = Inr c1" "conn_inv c1" "state c1 = kDisconnecting"
      "writes c1 = Suc (writes c)" "unsent c1 = drop n (unsent c)" "accepted c1 = accepted c"
      "unsent c1 = [] \<longrightarrow> write_shut c1"
    by (rule handleWrite_accept [OF Suc.prems(1-3) n])
  show ?case
  proof (cases "unsent c1 = []")
    case True
    with c1 write_turns_idle [OF c1(2) True c1(3)] show ?thesis by (simp add: conn_inv_def)
  next
    case False
    have "length (unsent c1) \<le> k" using Suc.prems(4) c1(5) n(2) by simp
    moreover have "\<exists>n>0. env_write env i = Accept n" if "writes c1 \<le> i" for i
      using Suc.prems(5) [of i] that c1(4) by simp
    ultimately show ?thesis using Suc.IH [OF c1(2,3) False] c1(1,6) by simp
  qed
qed simp

lemma conn_run_inv: "conn_run env es (TcpConnection_new f cb1 cb2) = Inr c \<Longrightarrow> conn_inv c"
  using conn_run_sound [of "TcpConnection_new f cb1 cb2" env es] by (simp add: grows_def)

section \<open>The properties\<close>


text \<open>
  The life of a connection goes forward only: connecting, connected, disconnecting,
  disconnected; and what was sent and accepted stays sent and accepted.
\<close>

theorem life_goes_forward:
  assumes "conn_run env es (TcpConnection_new f cb1 cb2) = Inr c" and "conn_run env es' c = Inr c'"
  shows "rank (state c) \<le> rank (state c') \<and> prefix (sent c) (sent c') \<and> prefix (accepted c) (accepted c')"
  using conn_run_sound [OF conn_run_inv [OF assms(1)], of env es'] assms(2) by (simp add: grows_def)


text \<open>
  C5. An orderly shutdown loses nothing: a connection in state \<open>kDisconnecting\<close> with bytes left
  writes them all and shuts the write side, within as many turns as there are bytes, if the kernel
  takes at least one byte each time.
\<close>

theorem shutdown_completes:
  assumes "conn_run env es (TcpConnection_new f cb1 cb2) = Inr c" and "state c = kDisconnecting"
    and "toStringView (outputBuffer c) \<noteq> []"
    and "\<And>i. writes c \<le> i \<Longrightarrow> \<exists>n>0. env_write env i = Accept n"
  shows "\<exists>c'. write_turns env (length (toStringView (outputBuffer c))) c = Inr c' \<and>
     toStringView (outputBuffer c') = [] \<and> sent c' = accepted c \<and> write_shut c'"
  by (rule write_turns_drain [OF conn_run_inv [OF assms(1)] assms(2,3) order.refl assms(4)])

text \<open>
  Restarting reading on a closed connection, as the callback does that the library offers for
  throttling, registers the channel again, and \<^verbatim>\<open>connectDestroyed\<close> aborts: \<^verbatim>\<open>send\<close> and
  \<^verbatim>\<open>forceClose\<close> from another thread are enough.
\<close>

theorem restart_after_close_asserts:
  assumes "env_calls env on_connection = (\<lambda>k. [])"
    and "env_calls env resume = (\<lambda>k. optionalDoneHighWaterMarkCallback)"
    and "env_write env 0 = Accept n" and "length message \<le> n"
  shows "conn_run env [Ev_established, Ev_call (Call_setWriteCompleteCallback (Some resume)),
       Ev_other_thread (Call_send message), Ev_other_thread Call_forceClose,
       Ev_pending, Ev_pending, Ev_pending, Ev_pending] (TcpConnection_new f on_connection on_message) =
     Inl Assert_failed"
  using assms
  by (simp add: TcpConnection_new_def connectEstablished_def call_client_def set_channel_events_def
      Channel_new_def tie_def queueInLoop_def sendInLoop_def send_directly_def isWriting_def event_defs
      do_write_def queue_write_complete_def forceCloseInLoop_def handleClose_def close_callback_def
      optionalDoneHighWaterMarkCallback_def startReadInLoop_def isReading_def connectDestroyed_def
      remove_conn_channel_def isNoneEvent_def readableBytes_def Buffer_new_def)

text \<open>
  Destroying the server while a connection waits for the peer to finish aborts: in state
  \<open>kDisconnecting\<close>, \<^verbatim>\<open>connectDestroyed\<close> removes the channel without disabling it.
\<close>

theorem destroy_while_disconnecting_asserts:
  assumes "env_calls env on_connection = (\<lambda>k. [])"
  shows "conn_run env [Ev_established, Ev_call Call_shutdown, Ev_destroy]
       (TcpConnection_new f on_connection on_message) = Inl Assert_failed"
  using assms
  by (simp add: TcpConnection_new_def connectEstablished_def call_client_def set_channel_events_def
      Channel_new_def tie_def shutdownInLoop_def shutdownWrite_def isWriting_def event_defs
      connectDestroyed_def remove_conn_channel_def isNoneEvent_def)

section \<open>Witnesses\<close>

definition calm :: "nat conn_env" where
  "calm = \<lparr>env_write = (\<lambda>k. Accept 3), env_calls = (\<lambda>cb k. [])\<rparr>"

lemmas conn_run_defs = TcpConnection_new_def connectEstablished_def call_client_def set_channel_events_def
  Channel_new_def tie_def queueInLoop_def sendInLoop_def send_directly_def isWriting_def event_defs
  do_write_def queue_write_complete_def shutdownInLoop_def shutdownWrite_def connectDestroyed_def
  remove_conn_channel_def isNoneEvent_def calm_def readableBytes_def Buffer_new_def

lemma quiet_calm: "quiet_env calm"
  by (simp add: quiet_env_def calm_def)

lemma life_goes_forward_witness:
  "\<exists>c c'. conn_run calm [Ev_established] (TcpConnection_new 5 0 1) = Inr c \<and>
     conn_run calm [Ev_call Call_shutdown] c = Inr c' \<and> rank (state c) \<le> rank (state c')"
proof -
  let ?r = "conn_run calm [Ev_established] (TcpConnection_new 5 0 1)"
  obtain c where c: "?r = Inr c" "conn_run calm [Ev_call Call_shutdown] c \<noteq> Inl Assert_failed"
    by (simp add: conn_run_defs)
  then obtain c' where c': "conn_run calm [Ev_call Call_shutdown] c = Inr c'"
    by simp
  from life_goes_forward [OF c(1) c'] c(1) c' show ?thesis by blast
qed


lemma restart_after_close_asserts_witness:
  "\<exists>env. conn_run env [Ev_established, Ev_call (Call_setWriteCompleteCallback (Some (2 :: nat))),
       Ev_other_thread (Call_send ''ab''), Ev_other_thread Call_forceClose,
       Ev_pending, Ev_pending, Ev_pending, Ev_pending] (TcpConnection_new 5 0 1) = Inl Assert_failed"
  using restart_after_close_asserts
      [of "\<lparr>env_write = (\<lambda>k. Accept 3), env_calls = (\<lambda>cb k. if cb = 2 then optionalDoneHighWaterMarkCallback else [])\<rparr>"
        "0 :: nat" 2 3 "''ab''" 5 1]
  by (intro exI) simp

lemma destroy_while_disconnecting_asserts_witness:
  "conn_run calm [Ev_established, Ev_call Call_shutdown, Ev_destroy] (TcpConnection_new 5 0 1) = Inl Assert_failed"
  by (rule destroy_while_disconnecting_asserts) (simp add: calm_def)

definition slow :: "nat conn_env" where
  "slow = \<lparr>env_write = (\<lambda>k. Accept 1), env_calls = (\<lambda>cb k. [])\<rparr>"

lemma shutdown_completes_witness:
  "\<exists>c c'. conn_run slow [Ev_established, Ev_call (Call_send ''ab''), Ev_call Call_shutdown] (TcpConnection_new 5 0 1) = Inr c \<and>
     write_turns slow 1 c = Inr c' \<and> sent c' = ''ab'' \<and> write_shut c'"
proof -
  let ?r = "conn_run slow [Ev_established, Ev_call (Call_send ''ab''), Ev_call Call_shutdown] (TcpConnection_new 5 0 1)"
  obtain b where b: "append_bytes ''b'' (Buffer_new kInitialSize) = Inr b" "toStringView b = ''b''"
    using append_bytes_correct [of "Buffer_new kInitialSize" "''b''"] by auto
  have "\<exists>c. ?r = Inr c \<and> state c = kDisconnecting \<and> outputBuffer c = b \<and> accepted c = ''ab''"
    using b(1) by (simp add: conn_run_defs slow_def subrange_def)
  then obtain c where c: "?r = Inr c" "state c = kDisconnecting" "outputBuffer c = b" "accepted c = ''ab''" by blast
  have nonempty: "toStringView (outputBuffer c) \<noteq> []" by (simp add: c(3) b(2))
  have takes: "\<exists>n>0. env_write slow i = Accept n" for i by (simp add: slow_def)
  have "length (toStringView (outputBuffer c)) = 1" by (simp add: c(3) b(2))
  with shutdown_completes [OF c(1,2) nonempty takes] c(4)
  obtain c' where "write_turns slow 1 c = Inr c'" "sent c' = ''ab''" "write_shut c'" by metis
  with c(1) show ?thesis by blast
qed

end
