(* ===== verification/ConnLife.thy ===== *)
theory ConnLife
  imports TcpProps
begin

text \<open>
  How long a \<^verbatim>\<open>TcpConnection\<close> exists. The object of theory \<open>TcpConnection\<close> with its owners: the map of the
  server, the \<^verbatim>\<open>shared_ptr\<close>s that clients keep, and the functors of the loop that are bound to one. The
  functors that calls of other threads queue are bound to the bare \<^verbatim>\<open>this\<close>; they run on whatever is there.
  The vector of functors that \<^verbatim>\<open>doPendingFunctors\<close> runs releases its pointers at its end, and timers hold
  weak pointers. The server lives in the loop of the connection.
\<close>

section \<open>Owners\<close>

fun binds_this :: "'cb pending_functor \<Rightarrow> bool" where
  "binds_this (Fn_sendInLoop message) \<longleftrightarrow> True"
| "binds_this Fn_shutdownInLoop \<longleftrightarrow> True"
| "binds_this Fn_shutdownAndForceCloseInLoop \<longleftrightarrow> True"
| "binds_this Fn_startReadInLoop \<longleftrightarrow> True"
| "binds_this Fn_stopReadInLoop \<longleftrightarrow> True"
| "binds_this (Fn_writeComplete cb) \<longleftrightarrow> False"
| "binds_this (Fn_highWaterMark cb n) \<longleftrightarrow> False"
| "binds_this Fn_forceCloseInLoop \<longleftrightarrow> False"
| "binds_this Fn_connectDestroyed \<longleftrightarrow> False"

text \<open>
  \<open>to_run\<close> functors of the vector in \<^verbatim>\<open>doPendingFunctors\<close> are still to run, the first ones of \<open>pendings\<close>;
  \<open>held\<close> of that vector have an owning pointer.
\<close>

record 'cb owned_conn =
  the_conn :: "'cb conn"
  in_map :: bool
  users :: nat
  to_run :: nat
  held :: nat
  exists_obj :: bool

definition owning :: "'cb pending_functor list \<Rightarrow> nat" where
  "owning fs = length (filter (\<lambda>f. \<not> binds_this f) fs)"

definition owners :: "'cb owned_conn \<Rightarrow> nat" where
  "owners s = (if in_map s then 1 else 0) + users s + held s + owning (drop (to_run s) (pendings (the_conn s)))"

definition owned_new :: "int \<Rightarrow> 'cb \<Rightarrow> 'cb \<Rightarrow> 'cb owned_conn" where
  "owned_new sockfd on_connection on_message =
     \<lparr>the_conn = TcpConnection_new sockfd on_connection on_message, in_map = True, users = 0, to_run = 0, held = 0,
      exists_obj = True\<rparr>"

text \<open>The destructor of the connection and that of its channel.\<close>

definition TcpConnection_delete :: "'cb conn \<Rightarrow> unit result" where
  "TcpConnection_delete c =
     check (state c = kDisconnected)
       (check (\<not> eventHandling (conn_channel c)) (check (\<not> addedToLoop (conn_channel c)) (Inr ())))"

text \<open>The last owner destroys the object.\<close>

definition release :: "'cb owned_conn \<Rightarrow> 'cb owned_conn result" where
  "release s =
     (if exists_obj s \<and> owners s = 0 then map_sum id (\<lambda>_. s\<lparr>exists_obj := False\<rparr>) (TcpConnection_delete (the_conn s)) else Inr s)"

text \<open>After a step of the connection; \<^verbatim>\<open>removeConnectionInLoop\<close> erases the entry when it queues \<^verbatim>\<open>connectDestroyed\<close>.\<close>

definition stepped :: "'cb owned_conn \<Rightarrow> 'cb conn \<Rightarrow> 'cb owned_conn" where
  "stepped s c = s\<lparr>the_conn := c, in_map := in_map s \<and> Fn_connectDestroyed \<notin> set (pendings c)\<rparr>"

text \<open>\<^verbatim>\<open>WeakCallback\<close> of \<^verbatim>\<open>gg_lib/WeakCallback.h\<close>, which the timers of a connection hold: it calls what is still there.\<close>

definition weak_call :: "bool \<Rightarrow> ('s \<Rightarrow> 's result) \<Rightarrow> 's \<Rightarrow> 's result" where
  "weak_call alive f s = (if alive then f s else Inr s)"

datatype 'cb life_event =
    Lf_conn "'cb conn_event"
  | Lf_timer nat
  | Lf_swap
  | Lf_functor
  | Lf_done
  | Lf_take
  | Lf_drop
  | Lf_destroy_server

fun life_step :: "'cb conn_env \<Rightarrow> 'cb life_event \<Rightarrow> 'cb owned_conn \<Rightarrow> 'cb owned_conn result" where
  "life_step env (Lf_conn e) s =
     (if exists_obj s then and_then (conn_step env e (the_conn s)) (\<lambda>c. release (stepped s c)) else Inl Dangling)"
| "life_step env (Lf_timer i) s =
     weak_call (exists_obj s)
       (\<lambda>s. and_then (conn_step env (Ev_timer i) (the_conn s)) (\<lambda>c. release (stepped s c))) s"
| "life_step env Lf_swap s =
     Inr (s\<lparr>to_run := length (pendings (the_conn s)), held := owning (pendings (the_conn s))\<rparr>)"
| "life_step env Lf_functor s =
     (if exists_obj s
      then and_then (conn_step env Ev_pending (the_conn s)) (\<lambda>c. release (stepped (s\<lparr>to_run := to_run s - 1\<rparr>) c))
      else Inl Dangling)"
| "life_step env Lf_done s = release (s\<lparr>held := 0\<rparr>)"
| "life_step env Lf_take s = (if exists_obj s then Inr (s\<lparr>users := users s + 1\<rparr>) else Inl Dangling)"
| "life_step env Lf_drop s = release (s\<lparr>users := users s - 1\<rparr>)"
| "life_step env Lf_destroy_server s =
     (if exists_obj s
      then and_then (conn_step env Ev_destroy (the_conn s)) (\<lambda>c. release ((stepped s c)\<lparr>in_map := False\<rparr>)) else Inl Dangling)"

fun life_run :: "'cb conn_env \<Rightarrow> 'cb life_event list \<Rightarrow> 'cb owned_conn \<Rightarrow> 'cb owned_conn result" where
  "life_run env [] s = Inr s"
| "life_run env (e # es) s = and_then (life_step env e s) (life_run env es)"

text \<open>
  What can happen, with clients that leave reading alone: whoever calls has a pointer, the loop runs what it
  has swapped, and the server is destroyed when no call of another thread is waiting.
\<close>

fun life_ok :: "'cb life_event \<Rightarrow> 'cb owned_conn \<Rightarrow> bool" where
  "life_ok (Lf_conn e) s \<longleftrightarrow>
     (case e of
        Ev_established \<Rightarrow> event_ok e (the_conn s)
      | Ev_io bits outcome t \<Rightarrow> event_ok e (the_conn s)
      | Ev_call a \<Rightarrow> event_ok e (the_conn s) \<and> users s > 0
      | Ev_other_thread a \<Rightarrow> event_ok e (the_conn s) \<and> users s > 0
      | _ \<Rightarrow> False)"
| "life_ok (Lf_timer i) s \<longleftrightarrow> True"
| "life_ok Lf_swap s \<longleftrightarrow> to_run s = 0 \<and> held s = 0"
| "life_ok Lf_functor s \<longleftrightarrow> to_run s > 0"
| "life_ok Lf_done s \<longleftrightarrow> to_run s = 0"
| "life_ok Lf_take s \<longleftrightarrow> exists_obj s"
| "life_ok Lf_drop s \<longleftrightarrow> users s > 0"
| "life_ok Lf_destroy_server s \<longleftrightarrow> event_ok Ev_destroy (the_conn s) \<and> (\<forall>f \<in> set (pendings (the_conn s)). \<not> binds_this f)"

fun life_run_ok :: "'cb conn_env \<Rightarrow> 'cb life_event list \<Rightarrow> 'cb owned_conn \<Rightarrow> bool" where
  "life_run_ok env [] s \<longleftrightarrow> True"
| "life_run_ok env (e # es) s \<longleftrightarrow> life_ok e s \<and>
     (case life_step env e s of Inl x \<Rightarrow> True | Inr s' \<Rightarrow> life_run_ok env es s')"

section \<open>What the operations of a connection queue\<close>

text \<open>
  An operation only appends functors that own the connection, leaves the mark of the dispatch alone,
  and a channel stays registered when the connection closes.
\<close>

definition closing :: "'cb conn \<Rightarrow> 'cb conn \<Rightarrow> bool" where
  "closing c c' \<longleftrightarrow> state c \<noteq> kDisconnected \<and> state c' = kDisconnected"

definition owns_rel :: "'cb conn \<Rightarrow> 'cb conn \<Rightarrow> bool" where
  "owns_rel c c' \<longleftrightarrow>
     (\<exists>fs. pendings c' = pendings c @ fs \<and> list_all (\<lambda>f. \<not> binds_this f) fs) \<and>
     eventHandling (conn_channel c') = eventHandling (conn_channel c) \<and>
     (addedToLoop (conn_channel c) \<or> closing c c' \<longrightarrow> addedToLoop (conn_channel c'))"

definition owns :: "'cb conn \<Rightarrow> 'cb conn result \<Rightarrow> bool" where
  "owns c r \<longleftrightarrow> (case r of Inl e \<Rightarrow> True | Inr c' \<Rightarrow> owns_rel c c')"

lemma owns_simps [simp]: "owns c (Inl e)" "owns c (Inr c') \<longleftrightarrow> owns_rel c c'"
  by (simp_all add: owns_def)

lemma owns_rel_refl [simp]: "owns_rel c c"
  by (simp add: owns_rel_def closing_def)

lemma owns_rel_trans: "owns_rel c c1 \<Longrightarrow> owns_rel c1 c2 \<Longrightarrow> owns_rel c c2"
  unfolding owns_rel_def closing_def by auto

lemma owns_and_then: "owns c r \<Longrightarrow> (\<And>c1. owns c1 (f c1)) \<Longrightarrow> owns c (and_then r f)"
proof (cases r)
  case (Inr c1)
  assume "owns c r" and "\<And>c1. owns c1 (f c1)"
  with Inr have "owns_rel c c1" and "owns c1 (f c1)" by simp_all
  with Inr show ?thesis by (auto simp: owns_def split: sum.splits intro: owns_rel_trans)
qed simp

lemma owns_from: "owns_rel c c0 \<Longrightarrow> owns c0 r \<Longrightarrow> owns c r"
  by (auto simp: owns_def split: sum.splits intro: owns_rel_trans)

lemma owns_check: "(b \<Longrightarrow> owns c r) \<Longrightarrow> owns c (check b r)"
  by (simp add: check_def)

text \<open>The changes that touch neither the functors nor the channel.\<close>

lemma owns_rel_same:
  "pendings c' = pendings c \<Longrightarrow> conn_channel c' = conn_channel c \<Longrightarrow>
     state c' = kDisconnected \<longrightarrow> state c = kDisconnected \<Longrightarrow> owns_rel c c'"
  by (auto simp: owns_rel_def closing_def)

lemma queueInLoop_owns: "\<not> binds_this f \<Longrightarrow> owns_rel c (queueInLoop f c)"
  by (simp add: owns_rel_def closing_def queueInLoop_def)

lemma queue_write_complete_owns: "owns_rel c (queue_write_complete c)"
  by (simp add: queue_write_complete_def queueInLoop_owns split: option.split)

lemma set_channel_owns: "owns_rel c (set_channel_events ch c)"
  by (simp add: owns_rel_def set_channel_events_def)

lemma shutdownWrite_owns: "owns_rel c (shutdownWrite c)"
  by (simp add: shutdownWrite_def owns_rel_same)

lemma shutdownInLoop_owns: "owns_rel c (shutdownInLoop c)"
  by (simp add: shutdownInLoop_def shutdownWrite_owns)

lemma shutdownAndForceCloseInLoop_owns: "owns_rel c (shutdownAndForceCloseInLoop c)"
  by (simp add: shutdownAndForceCloseInLoop_def shutdownWrite_def owns_rel_same)

lemma startReadInLoop_owns: "owns_rel c (startReadInLoop c)"
  by (simp add: startReadInLoop_def owns_rel_trans [OF set_channel_owns [of c EnableReading] owns_rel_same])

lemma stopReadInLoop_owns: "owns_rel c (stopReadInLoop c)"
  by (simp add: stopReadInLoop_def owns_rel_trans [OF set_channel_owns [of c DisableReading] owns_rel_same])

lemma do_write_owns: "do_write env m c = (r, c1) \<Longrightarrow> owns_rel c c1"
  by (auto simp: do_write_def Let_def intro!: owns_rel_same split: write_outcome.splits)

lemma send_directly_owns: "send_directly env m c = (nw, rem, fault, c1) \<Longrightarrow> owns_rel c c1"
  by (auto simp: send_directly_def Let_def split: if_splits prod.splits sum.splits
      dest!: do_write_owns intro: owns_rel_trans [OF _ queue_write_complete_owns])

lemma append_rest_owns:
  "owns c (and_then (append_bytes rest (outputBuffer c)) (\<lambda>b.
     let c3 = c\<lparr>outputBuffer := b, accepted := a\<rparr>
     in Inr (if \<not> isWriting (conn_channel c3) then set_channel_events EnableWriting c3 else c3)))"
  by (cases "append_bytes rest (outputBuffer c)")
    (auto simp: Let_def intro: owns_rel_same owns_rel_trans [OF owns_rel_same set_channel_owns])

lemma send_rest_owns: "owns c (send_rest message rest remaining c)"
  unfolding send_rest_def Let_def [of "readableBytes _"] Let_def [of "case _ of None \<Rightarrow> _ | Some x \<Rightarrow> _ x"]
  by (rule owns_from [OF _ append_rest_owns]) (simp add: queueInLoop_owns split: option.split)

lemma sendInLoop_owns: "owns c (sendInLoop env message c)"
proof (cases "state c = kDisconnected")
  case False
  obtain nw rem fault c1 where d: "send_directly env message c = (nw, rem, fault, c1)" by (metis prod_cases4)
  note c1 = send_directly_owns [OF d]
  show ?thesis
  proof (cases "rem \<le> length message")
    case True
    show ?thesis
      by (simp add: sendInLoop_rest [OF False d True] owns_from [OF c1 send_rest_owns]
          owns_rel_trans [OF c1 owns_rel_same])
  qed (simp add: sendInLoop_def False d check_def)
qed (simp add: sendInLoop_def)

lemma api_in_loop_owns: "owns c (api_in_loop env a c)"
proof (cases a)
  case (Call_consume n)
  then show ?thesis
    by (cases "retrieve (min n (readableBytes (inputBuffer c))) (inputBuffer c)") (simp_all add: owns_rel_same)
qed (auto simp: sendInLoop_owns startReadInLoop_owns stopReadInLoop_owns
    intro: owns_rel_same owns_rel_trans [OF owns_rel_same shutdownInLoop_owns]
      owns_rel_trans [OF owns_rel_same shutdownAndForceCloseInLoop_owns]
      owns_rel_trans [OF owns_rel_same queueInLoop_owns])

lemma api_calls_owns: "owns c (api_calls env calls c)"
  by (induction calls arbitrary: c) (auto intro: owns_and_then api_in_loop_owns)

lemma call_client_owns: "owns c (call_client env cb c)"
  unfolding call_client_def by (rule owns_from [OF owns_rel_same api_calls_owns]) simp_all

lemma closed_owns: "owns c (call_client env cb (set_channel_events DisableAll (c\<lparr>state := kDisconnected\<rparr>)))"
  by (rule owns_from [OF _ call_client_owns]) (simp add: owns_rel_def set_channel_events_def)

lemma handleClose_owns: "owns c (handleClose env c)"
proof -
  have "owns c (map_sum id close_callback r)" if "owns c r" for r
    using that by (cases r) (auto simp: close_callback_def intro: owns_rel_trans [OF _ queueInLoop_owns])
  from this [OF closed_owns] show ?thesis unfolding handleClose_def by (rule owns_check)
qed

lemma forceCloseInLoop_owns: "owns c (forceCloseInLoop env c)"
  by (simp add: forceCloseInLoop_def handleClose_owns)

lemma connectEstablished_owns: "owns c (connectEstablished env c)"
  unfolding connectEstablished_def Let_def
  by (intro owns_check owns_from [OF _ call_client_owns])
    (simp add: owns_rel_def closing_def set_channel_events_def tie_def)

lemma handleRead_owns: "owns c (conn_handleRead env outcome c)"
proof (cases "readFd outcome (inputBuffer c)")
  case (Inr r)
  have same: "owns_rel c (c\<lparr>inputBuffer := b\<rparr>)" for b by (simp add: owns_rel_same)
  from Inr show ?thesis
    by (cases r) (simp add: conn_handleRead_def Let_def same owns_from [OF same call_client_owns]
        owns_from [OF same handleClose_owns])
qed (simp add: conn_handleRead_def)

lemma handleWrite_owns: "owns c (handleWrite env c)"
proof (cases "isWriting (conn_channel c)")
  case True
  obtain r c1 where w: "do_write env (toStringView (outputBuffer c)) c = (r, c1)" by fastforce
  note c1 = do_write_owns [OF w]
  let ?emptied = "\<lambda>b. queue_write_complete (set_channel_events DisableWriting (c1\<lparr>outputBuffer := b\<rparr>))"
  have buf: "owns_rel c (c1\<lparr>outputBuffer := b\<rparr>)" for b by (rule owns_rel_trans [OF c1 owns_rel_same]) simp_all
  have emptied: "owns_rel c (?emptied b)" for b
    by (rule owns_rel_trans [OF owns_rel_trans [OF buf set_channel_owns] queue_write_complete_owns])
  show ?thesis
  proof (cases r)
    case (Inr n)
    with True w c1 buf show ?thesis
      by (cases "retrieve n (outputBuffer c1)")
        (simp_all add: handleWrite_def Let_def emptied
          owns_rel_trans [OF emptied shutdownInLoop_owns])
  qed (use True w c1 in \<open>simp add: handleWrite_def\<close>)
qed (simp add: handleWrite_def)

text \<open>A dispatch ends with the mark cleared.\<close>

lemma cleared_owns:
  assumes "owns (set_handling True c) r" and "\<not> eventHandling (conn_channel c)"
  shows "owns c (and_then r (\<lambda>c1. Inr (set_handling False c1)))"
  using assms by (cases r) (auto simp: owns_rel_def closing_def set_handling_def)

lemma call_owns: "(\<And>f. cb = Some f \<Longrightarrow> owns c (f c)) \<Longrightarrow> owns c (call b cb c)"
  by (simp add: call_def split: option.split)

lemma handleEvent_owns:
  assumes "\<not> eventHandling (conn_channel c)"
  shows "owns c (handleEvent set_handling guard True (conn_callbacks env outcome) bits t c)"
proof -
  let ?cb = "conn_callbacks env outcome"
  have cb: "owns c (f c)"
    if "closeCallback ?cb = Some f \<or> errorCallback ?cb = Some f \<or> writeCallback ?cb = Some f \<or>
      map_option (\<lambda>g. g t) (readCallback ?cb) = Some f" for f c
    using that by (auto simp: conn_callbacks_def handleClose_owns handleWrite_owns handleRead_owns)
  have assoc: "and_then (and_then r f) g = and_then r (\<lambda>x. and_then (f x) g)" for r :: "'a conn result" and f g
    by (cases r) simp_all
  have "owns c (handleEventWithGuard set_handling ?cb bits t c)"
    unfolding handleEventWithGuard_def Let_def
    by (simp only: assoc [symmetric])
      (intro cleared_owns assms owns_and_then call_owns cb; simp)
  then show ?thesis by (simp add: handleEvent_def)
qed

section \<open>The invariant\<close>

text \<open>The functors behind \<^verbatim>\<open>connectDestroyed\<close> own the connection.\<close>

definition tail_owned :: "'cb conn \<Rightarrow> bool" where
  "tail_owned c \<longleftrightarrow>
     (if addedToLoop (conn_channel c)
      then \<exists>pre post. pendings c = pre @ Fn_connectDestroyed # post \<and> list_all (\<lambda>f. \<not> binds_this f) post
      else list_all (\<lambda>f. \<not> binds_this f) (pendings c))"

definition conn_fine :: "'cb conn \<Rightarrow> bool" where
  "conn_fine c \<longleftrightarrow> fine c \<and> \<not> eventHandling (conn_channel c) \<and> (state c = kDisconnected \<longrightarrow> tail_owned c)"

lemma fine_closed:
  "fine c \<Longrightarrow> state c = kDisconnected \<Longrightarrow> addedToLoop (conn_channel c) \<longleftrightarrow> Fn_connectDestroyed \<in> set (pendings c)"
  using count_list_0_iff [of "pendings c" Fn_connectDestroyed]
  by (auto simp: fine_def quiet_inv_def split: if_splits)

lemma fine_open: "fine c \<Longrightarrow> Fn_connectDestroyed \<in> set (pendings c) \<Longrightarrow> state c = kDisconnected"
  by (auto simp: fine_def quiet_inv_def)

lemma owns_tail:
  assumes "fine c" and "fine c'" and "state c = kDisconnected \<longrightarrow> tail_owned c" and "owns_rel c c'"
    and closed: "state c' = kDisconnected"
  shows "tail_owned c'"
proof -
  obtain fs where fs: "pendings c' = pendings c @ fs" "list_all (\<lambda>f. \<not> binds_this f) fs"
    using assms(4) by (auto simp: owns_rel_def)
  show ?thesis
  proof (cases "addedToLoop (conn_channel c')")
    case False
    then have "state c = kDisconnected" "\<not> addedToLoop (conn_channel c)"
      using assms(4) closed by (auto simp: owns_rel_def closing_def)
    with assms(3) fs False show ?thesis by (simp add: tail_owned_def)
  next
    case True
    then have cd: "Fn_connectDestroyed \<in> set (pendings c')" using fine_closed [OF assms(2) closed] by simp
    have "\<exists>pre post. pendings c' = pre @ Fn_connectDestroyed # post \<and> list_all (\<lambda>f. \<not> binds_this f) post"
    proof (cases "Fn_connectDestroyed \<in> set (pendings c)")
      case False
      with cd fs(1) obtain as bs where "fs = as @ Fn_connectDestroyed # bs" by (auto dest: split_list)
      with fs show ?thesis by (intro exI [of _ "pendings c @ as"] exI [of _ bs]) simp
    next
      case old: True
      then have "tail_owned c" using assms(3) fine_open [OF assms(1)] by simp
      moreover have "addedToLoop (conn_channel c)" using old fine_closed fine_open assms(1) by blast
      ultimately obtain pre post where "pendings c = pre @ Fn_connectDestroyed # post"
        "list_all (\<lambda>f. \<not> binds_this f) post" by (auto simp: tail_owned_def)
      with fs show ?thesis by (intro exI [of _ pre] exI [of _ "post @ fs"]) simp
    qed
    with True show ?thesis by (simp add: tail_owned_def)
  qed
qed

lemma owns_conn_fine: "conn_fine c \<Longrightarrow> runs_fine (Inr c') \<Longrightarrow> owns c (Inr c') \<Longrightarrow> conn_fine c'"
  using owns_tail [of c c'] by (auto simp: conn_fine_def owns_rel_def)

text \<open>What a step does to the functors that were there, and to the entry in the map.\<close>

definition keeps_map :: "'cb conn \<Rightarrow> 'cb conn \<Rightarrow> bool" where
  "keeps_map c c' \<longleftrightarrow>
     (state c = kDisconnected \<longrightarrow> state c' = kDisconnected) \<and>
     (closing c c' \<longrightarrow> Fn_connectDestroyed \<in> set (pendings c'))"

lemma owns_keeps_map:
  assumes "fine c'" and "owns_rel c c'" and "rank (state c) \<le> rank (state c')"
  shows "keeps_map c c'"
proof -
  have "state c' = kDisconnected" if "state c = kDisconnected" using that assms(3) by (cases "state c'") auto
  moreover have "Fn_connectDestroyed \<in> set (pendings c')" if "closing c c'"
    using that assms(2) fine_closed [OF assms(1)] by (auto simp: owns_rel_def closing_def)
  ultimately show ?thesis by (simp add: keeps_map_def)
qed

lemma other_thread_closed:
  "state c = kDisconnected \<Longrightarrow> quiet_call a \<Longrightarrow> owns c (api_other_thread env a c)"
  using api_in_loop_owns [of c env a] by (cases a) simp_all

text \<open>Every step of a connection, with the functors that it appends.\<close>

definition step_adds :: "'cb conn_event \<Rightarrow> 'cb conn \<Rightarrow> 'cb conn \<Rightarrow> bool" where
  "step_adds e c c' \<longleftrightarrow>
     (\<exists>fs. pendings c' = (if e = Ev_pending then tl (pendings c) else pendings c) @ fs)"

definition steps_well :: "'cb conn_env \<Rightarrow> 'cb conn_event \<Rightarrow> 'cb conn \<Rightarrow> bool" where
  "steps_well env e c \<longleftrightarrow> (\<exists>c'. conn_step env e c = Inr c' \<and> conn_fine c' \<and> keeps_map c c' \<and> step_adds e c c')"

lemma step_rank: "fine c \<Longrightarrow> conn_step env e c = Inr c' \<Longrightarrow> rank (state c) \<le> rank (state c')"
  using conn_step_sound [OF fine_inv, of c env e] by (simp add: sound_def grows_def)

lemma owning_step:
  assumes c: "conn_fine c" and ok: "event_ok e c" and env: "quiet_env env"
    and e: "e \<noteq> Ev_pending" and own: "owns c (conn_step env e c)"
  shows "steps_well env e c"
proof -
  have fine: "fine c" using c by (simp add: conn_fine_def)
  obtain c' where c': "conn_step env e c = Inr c'" "fine c'"
    using conn_step_fine [OF fine ok env] by (auto simp: runs_fine_def)
  with own have rel: "owns_rel c c'" by simp
  then have "step_adds e c c'" using e by (auto simp: owns_rel_def step_adds_def)
  with c' rel owns_conn_fine [OF c, of c'] owns_keeps_map [OF c'(2) rel step_rank [OF fine c'(1)]]
  show ?thesis by (simp add: steps_well_def)
qed

lemma timer_owns: "owns c (conn_step env (Ev_timer i) c)"
proof -
  let ?c = "c\<lparr>close_timers := take i (close_timers c) @ drop (Suc i) (close_timers c)\<rparr>"
  have "owns_rel c ?c" by (rule owns_rel_same) simp_all
  from owns_from [OF this forceCloseInLoop_owns] owns_from [OF this api_in_loop_owns]
  show ?thesis by (simp add: Let_def del: api_in_loop.simps split: close_timer.split)
qed

lemma in_loop_step:
  assumes "conn_fine c" and "event_ok e c" and "quiet_env env"
    and "e = Ev_established \<or> (\<exists>bits outcome t. e = Ev_io bits outcome t) \<or> (\<exists>i. e = Ev_timer i) \<or> (\<exists>a. e = Ev_call a)"
  shows "steps_well env e c"
proof -
  have off: "\<not> eventHandling (conn_channel c)" using assms(1) by (simp add: conn_fine_def)
  have "owns c (conn_step env e c)"
    using assms(4) connectEstablished_owns handleEvent_owns [OF off] timer_owns api_in_loop_owns
    by (elim disjE exE) (simp_all only: conn_step.simps)
  with assms show ?thesis by (intro owning_step) auto
qed

lemma other_thread_step:
  assumes c: "conn_fine c" and ok: "quiet_call a" and env: "quiet_env env"
  shows "steps_well env (Ev_other_thread a) c"
proof (cases "state c = kDisconnected")
  case True
  with assms show ?thesis by (intro owning_step) (simp_all add: other_thread_closed)
next
  case False
  have fine: "fine c" using c by (simp add: conn_fine_def)
  obtain c' where c': "api_other_thread env a c = Inr c'" "changes True c c'"
    using api_other_thread_changes [OF fine_inv [OF fine], of True a env] ok by (auto simp: does_def)
  then have "state c' \<noteq> kDisconnected" "step_adds (Ev_other_thread a) c c'"
    using False by (auto simp: changes_def step_adds_def)
  moreover have "eventHandling (conn_channel c') = eventHandling (conn_channel c)"
    using c'(1) api_in_loop_owns [of c env a]
    by (cases a) (auto simp: queueInLoop_def owns_rel_def split: if_splits)
  ultimately show ?thesis
    using c' c False fine_changes [OF fine c'(2)]
    by (simp add: steps_well_def conn_fine_def keeps_map_def closing_def)
qed

text \<open>A functor that leaves the queue.\<close>

lemma tail_next:
  assumes "tail_owned c" and "pendings c = f # fs" and "f \<noteq> Fn_connectDestroyed"
  shows "tail_owned (c\<lparr>pendings := fs\<rparr>)"
  using assms by (fastforce simp: tail_owned_def Cons_eq_append_conv)

lemma run_functor_owns: "f \<noteq> Fn_connectDestroyed \<Longrightarrow> owns c (run_functor env f c)"
  by (cases f) (simp_all add: call_client_owns sendInLoop_owns shutdownInLoop_owns
      shutdownAndForceCloseInLoop_owns forceCloseInLoop_owns startReadInLoop_owns stopReadInLoop_owns)

lemma last_functor:
  assumes "conn_fine c" and "pendings c = Fn_connectDestroyed # fs"
  obtains c' where "connectDestroyed env (c\<lparr>pendings := fs\<rparr>) = Inr c'" and "conn_fine c'"
    and "pendings c' = fs" and "state c' = kDisconnected" and "state c = kDisconnected"
proof -
  let ?c = "c\<lparr>pendings := fs\<rparr>" let ?d = "?c\<lparr>conn_channel := (conn_channel ?c)\<lparr>addedToLoop := False\<rparr>\<rparr>"
  have fine: "fine c" using assms(1) by (simp add: conn_fine_def)
  have closed: "state c = kDisconnected" using fine_open [OF fine] assms(2) by simp
  note half = fine_pending(4) [OF fine assms(2) refl]
  have run: "connectDestroyed env ?c = Inr ?d"
    using closed half by (simp add: connectDestroyed_def remove_conn_channel_def half_closed_def check_def
        isNoneEvent_def event_defs)
  have "fine ?d" using remove_half_closed [OF half] run closed by (simp add: connectDestroyed_def)
  moreover have "tail_owned ?d"
  proof -
    have added: "addedToLoop (conn_channel c)" using fine_closed [OF fine closed] assms(2) by simp
    with assms(1) closed obtain pre post where p: "pendings c = pre @ Fn_connectDestroyed # post"
      "list_all (\<lambda>f. \<not> binds_this f) post" by (auto simp: conn_fine_def tail_owned_def)
    have "Fn_connectDestroyed \<notin> set fs" using half by (simp add: half_closed_def)
    with p assms(2) have "fs = post" by (auto simp: Cons_eq_append_conv)
    with p show ?thesis by (simp add: tail_owned_def)
  qed
  ultimately have "conn_fine ?d" using assms(1) by (simp add: conn_fine_def)
  with run closed that show thesis by simp
qed

lemma functor_step:
  assumes c: "conn_fine c" and env: "quiet_env env"
  shows "steps_well env Ev_pending c"
proof (cases "pendings c")
  case Nil
  with c show ?thesis by (simp add: steps_well_def keeps_map_def closing_def step_adds_def)
next
  case (Cons f fs)
  have fine: "fine c" using c by (simp add: conn_fine_def)
  show ?thesis
  proof (cases "f = Fn_connectDestroyed")
    case True
    from last_functor [OF c Cons [unfolded True]] obtain c' where
      "connectDestroyed env (c\<lparr>pendings := fs\<rparr>) = Inr c'" "conn_fine c'" "pendings c' = fs"
      "state c' = kDisconnected" "state c = kDisconnected" .
    with Cons True show ?thesis by (simp add: steps_well_def keeps_map_def closing_def step_adds_def)
  next
    case False
    let ?c = "c\<lparr>pendings := fs\<rparr>"
    have c1: "conn_fine ?c"
      using c fine_pending(3) [OF fine Cons False] tail_next [OF _ Cons False] by (simp add: conn_fine_def)
    obtain c' where c': "run_functor env f ?c = Inr c'" "fine c'"
      using run_functor_fine [OF fine Cons env] by (auto simp: runs_fine_def)
    with run_functor_owns [OF False, of ?c env] have rel: "owns_rel ?c c'" by simp
    have step: "conn_step env Ev_pending c = Inr c'" using Cons c'(1) by simp
    have "keeps_map ?c c'" using owns_keeps_map [OF c'(2) rel] step_rank [OF fine step] by simp
    moreover have "conn_fine c'" using owns_conn_fine [OF c1, of c'] c'(2) rel by simp
    ultimately show ?thesis
      using step rel Cons by (auto simp: steps_well_def keeps_map_def closing_def step_adds_def owns_rel_def)
  qed
qed

lemma destroy_step:
  assumes c: "conn_fine c" and st: "state c = kConnected" and env: "quiet_env env"
    and none: "\<forall>f \<in> set (pendings c). \<not> binds_this f"
  shows "\<exists>c'. conn_step env Ev_destroy c = Inr c' \<and> conn_fine c' \<and> state c' = kDisconnected \<and>
    step_adds Ev_destroy c c'"
proof -
  have fine: "fine c" using c by (simp add: conn_fine_def)
  let ?c = "set_channel_events DisableAll (c\<lparr>state := kDisconnected\<rparr>)"
  obtain c2 where c2: "call_client env (connectionCallback c) ?c = Inr c2" "half_closed c2"
    using half_closed_client [OF fine _ env] st by auto
  let ?d = "c2\<lparr>conn_channel := (conn_channel c2)\<lparr>addedToLoop := False\<rparr>\<rparr>"
  have run: "remove_conn_channel c2 = Inr ?d"
    using c2(2) by (simp add: remove_conn_channel_def half_closed_def check_def isNoneEvent_def event_defs)
  have "owns_rel c c2" using closed_owns [of c env "connectionCallback c"] c2(1) by simp
  then obtain fs where fs: "pendings c2 = pendings c @ fs" "list_all (\<lambda>f. \<not> binds_this f) fs"
    "eventHandling (conn_channel c2) = eventHandling (conn_channel c)" by (auto simp: owns_rel_def)
  have "fine ?d" using remove_half_closed [OF c2(2)] run by simp
  then have "conn_fine ?d" using fs none c by (auto simp: conn_fine_def tail_owned_def list_all_iff)
  moreover have "conn_step env Ev_destroy c = Inr ?d" using st c2(1) run by (simp add: connectDestroyed_def)
  moreover have "state ?d = kDisconnected" using c2(2) by (simp add: half_closed_def)
  ultimately show ?thesis using fs by (auto simp: step_adds_def)
qed

section \<open>Who owns the connection\<close>

definition counted :: "'cb owned_conn \<Rightarrow> bool" where
  "counted s \<longleftrightarrow> conn_fine (the_conn s) \<and> (in_map s \<longleftrightarrow> state (the_conn s) \<noteq> kDisconnected) \<and>
     to_run s \<le> length (pendings (the_conn s)) \<and>
     owning (take (to_run s) (pendings (the_conn s))) \<le> held s"

definition life_inv :: "'cb owned_conn \<Rightarrow> bool" where
  "life_inv s \<longleftrightarrow> counted s \<and> (exists_obj s \<longleftrightarrow> owners s > 0)"

lemma owning_simps [simp]:
  "owning [] = 0" "owning (fs @ gs) = owning fs + owning gs" "owning (f # fs) = (if binds_this f then 0 else 1) + owning fs"
  by (simp_all add: owning_def)

lemma owning_none: "owning fs = 0 \<longleftrightarrow> list_all binds_this fs"
  by (induction fs) auto

lemma owning_split: "owning (take n fs) + owning (drop n fs) = owning fs"
  by (metis append_take_drop_id owning_simps(2))

text \<open>Without owners the connection is closed and unregistered, and no functor waits.\<close>

lemma abandoned:
  assumes "counted s" and "owners s = 0"
  shows "state (the_conn s) = kDisconnected \<and> \<not> addedToLoop (conn_channel (the_conn s)) \<and> pendings (the_conn s) = []"
proof -
  let ?c = "the_conn s"
  have closed: "state ?c = kDisconnected" using assms by (auto simp: counted_def owners_def split: if_splits)
  have "held s = 0" "owning (drop (to_run s) (pendings ?c)) = 0" using assms(2) by (simp_all add: owners_def)
  then have "owning (pendings ?c) = 0"
    using assms(1) owning_split [of "to_run s" "pendings ?c"] by (simp add: counted_def)
  then have raw: "list_all binds_this (pendings ?c)" by (simp add: owning_none)
  have tail: "tail_owned ?c" using assms(1) closed by (simp add: counted_def conn_fine_def)
  with raw have "\<not> addedToLoop (conn_channel ?c)" by (auto simp: tail_owned_def)
  moreover with raw tail have "pendings ?c = []"
    by (cases "pendings ?c") (simp_all add: tail_owned_def)
  ultimately show ?thesis using closed by simp
qed

lemma counted_exists [simp]: "counted (s\<lparr>exists_obj := b\<rparr>) \<longleftrightarrow> counted s"
  by (simp add: counted_def)

lemma owners_exists [simp]: "owners (s\<lparr>exists_obj := b\<rparr>) = owners s"
  by (simp add: owners_def)

lemma release_well:
  assumes "counted s" and "owners s > 0 \<Longrightarrow> exists_obj s"
  shows "\<exists>s'. release s = Inr s' \<and> life_inv s'"
proof (cases "exists_obj s \<and> owners s = 0")
  case True
  with abandoned [OF assms(1)] assms(1) have "TcpConnection_delete (the_conn s) = Inr ()"
    by (simp add: TcpConnection_delete_def check_def counted_def conn_fine_def)
  with True assms(1) show ?thesis by (simp add: release_def life_inv_def)
next
  case False
  with assms show ?thesis by (auto simp: release_def life_inv_def)
qed

lemma owning_appended: "n \<le> length fs \<Longrightarrow> owning (take n (fs @ gs)) = owning (take n fs)"
  by simp

lemma stepped_counted:
  assumes "counted s" and "conn_fine c'" and "keeps_map (the_conn s) c'"
    and "pendings c' = pendings (the_conn s) @ fs"
  shows "counted (stepped s c')"
proof -
  have "Fn_connectDestroyed \<notin> set (pendings c')" if "state c' \<noteq> kDisconnected"
    using that fine_open [of c'] assms(2) by (auto simp: conn_fine_def)
  then have "(in_map s \<and> Fn_connectDestroyed \<notin> set (pendings c')) \<longleftrightarrow> state c' \<noteq> kDisconnected"
    using assms(1,3) by (auto simp: counted_def keeps_map_def closing_def)
  then show ?thesis using assms(1,2,4) by (simp add: counted_def stepped_def)
qed

lemma stepped_functor_counted:
  assumes s: "counted s" and "conn_fine c'" and "keeps_map (the_conn s) c'" and some: "to_run s > 0"
    and c': "pendings c' = tl (pendings (the_conn s)) @ fs"
  shows "counted (stepped (s\<lparr>to_run := to_run s - 1\<rparr>) c')"
proof -
  have "Fn_connectDestroyed \<notin> set (pendings c')" if "state c' \<noteq> kDisconnected"
    using that fine_open [of c'] assms(2) by (auto simp: conn_fine_def)
  then have "(in_map s \<and> Fn_connectDestroyed \<notin> set (pendings c')) \<longleftrightarrow> state c' \<noteq> kDisconnected"
    using assms(1,3) by (auto simp: counted_def keeps_map_def closing_def)
  moreover obtain f gs n where "pendings (the_conn s) = f # gs" "to_run s = Suc n" "n \<le> length gs"
    using s some by (cases "pendings (the_conn s)"; cases "to_run s") (auto simp: counted_def)
  ultimately show ?thesis using s assms(2) c' by (simp add: counted_def stepped_def)
qed

lemma stepped_exists [simp]: "exists_obj (stepped s c) \<longleftrightarrow> exists_obj s"
  by (simp add: stepped_def)

lemma exists_if_open: "life_inv s \<Longrightarrow> state (the_conn s) \<noteq> kDisconnected \<Longrightarrow> exists_obj s"
  by (simp add: life_inv_def counted_def owners_def)

lemma exists_if_used: "life_inv s \<Longrightarrow> users s > 0 \<Longrightarrow> exists_obj s"
  by (simp add: life_inv_def owners_def)

lemma exists_if_waiting: "life_inv s \<Longrightarrow> pendings (the_conn s) \<noteq> [] \<Longrightarrow> exists_obj s"
  using abandoned [of s] by (auto simp: life_inv_def)

lemma conn_step_life:
  assumes inv: "life_inv s" and alive: "exists_obj s" and step: "steps_well env e (the_conn s)" and e: "e \<noteq> Ev_pending"
  shows "\<exists>s'. and_then (conn_step env e (the_conn s)) (\<lambda>c. release (stepped s c)) = Inr s' \<and> life_inv s'"
proof -
  obtain c' fs where c': "conn_step env e (the_conn s) = Inr c'" "conn_fine c'" "keeps_map (the_conn s) c'"
    "pendings c' = pendings (the_conn s) @ fs" using step e by (auto simp: steps_well_def step_adds_def)
  have "counted (stepped s c')" using inv stepped_counted [OF _ c'(2-4)] by (simp add: life_inv_def)
  from release_well [OF this] alive c'(1) show ?thesis by simp
qed

lemma life_step_well:
  assumes env: "quiet_env env" and inv: "life_inv s" and ok: "life_ok e s"
  shows "\<exists>s'. life_step env e s = Inr s' \<and> life_inv s'"
proof -
  let ?c = "the_conn s"
  have c: "conn_fine ?c" "counted s" using inv by (simp_all add: life_inv_def counted_def)
  have fine: "fine ?c" using c by (simp add: conn_fine_def)
  show ?thesis
  proof (cases e)
    case (Lf_conn a)
    have alive: "exists_obj s"
    proof (cases "state ?c = kDisconnected")
      case True
      then have "events (conn_channel ?c) = 0" using fine by (simp add: fine_def quiet_inv_def)
      with True ok Lf_conn have "users s > 0" by (cases a) auto
      with inv show ?thesis by (rule exists_if_used)
    qed (rule exists_if_open [OF inv])
    have "steps_well env a ?c" "a \<noteq> Ev_pending"
      using ok Lf_conn in_loop_step [OF c(1) _ env] other_thread_step [OF c(1) _ env] by (cases a; simp)+
    from conn_step_life [OF inv alive this] Lf_conn alive show ?thesis by simp
  next
    case (Lf_timer i)
    have "steps_well env (Ev_timer i) ?c" by (rule in_loop_step [OF c(1) _ env]) simp_all
    from conn_step_life [OF inv _ this] Lf_timer inv show ?thesis by (simp add: weak_call_def)
  next
    case Lf_swap
    with ok c inv show ?thesis by (simp add: life_inv_def counted_def owners_def)
  next
    case Lf_functor
    have some: "to_run s > 0" using ok Lf_functor by simp
    then have "pendings ?c \<noteq> []" using c(2) by (auto simp: counted_def)
    with inv have alive: "exists_obj s" by (rule exists_if_waiting)
    obtain c' fs where c': "conn_step env Ev_pending ?c = Inr c'" "conn_fine c'" "keeps_map ?c c'"
      "pendings c' = tl (pendings ?c) @ fs"
      using functor_step [OF c(1) env] by (auto simp: steps_well_def step_adds_def)
    from release_well [OF stepped_functor_counted [OF c(2) c'(2,3) some c'(4)]] c'(1) alive Lf_functor
    show ?thesis by simp
  next
    case Lf_done
    have "counted (s\<lparr>held := 0\<rparr>)" using c ok Lf_done by (simp add: counted_def)
    moreover have "exists_obj (s\<lparr>held := 0\<rparr>)" if "owners (s\<lparr>held := 0\<rparr>) > 0"
      using that inv by (auto simp: life_inv_def owners_def split: if_splits)
    ultimately have "\<exists>s'. release (s\<lparr>held := 0\<rparr>) = Inr s' \<and> life_inv s'" by (rule release_well)
    with Lf_done show ?thesis by simp
  next
    case Lf_take
    with ok inv show ?thesis by (simp add: life_inv_def counted_def owners_def)
  next
    case Lf_drop
    have "counted (s\<lparr>users := users s - 1\<rparr>)" using c by (simp add: counted_def)
    moreover have "exists_obj (s\<lparr>users := users s - 1\<rparr>)"
      using exists_if_used [OF inv] ok Lf_drop by simp
    ultimately have "\<exists>s'. release (s\<lparr>users := users s - 1\<rparr>) = Inr s' \<and> life_inv s'" by (rule release_well)
    with Lf_drop show ?thesis by simp
  next
    case Lf_destroy_server
    have st: "state ?c = kConnected" using ok Lf_destroy_server by simp
    then have alive: "exists_obj s" using exists_if_open [OF inv] by simp
    obtain c' where c': "conn_step env Ev_destroy ?c = Inr c'" "conn_fine c'" "state c' = kDisconnected"
      "step_adds Ev_destroy ?c c'" using destroy_step [OF c(1) st env] ok Lf_destroy_server by auto
    then have "counted ((stepped s c')\<lparr>in_map := False\<rparr>)"
      using c(2) by (auto simp: counted_def stepped_def step_adds_def)
    from release_well [OF this] c'(1) alive Lf_destroy_server show ?thesis by simp
  qed
qed

interpretation lv: guarded "life_step env" "life_run env" life_ok "life_run_ok env"
    "\<lambda>s. quiet_env env \<and> life_inv s" for env
  by unfold_locales (use life_step_well in auto)

lemma life_inv_new: "life_inv (owned_new f cb1 cb2)"
  using fine_new [of f cb1 cb2]
  by (simp add: life_inv_def counted_def owners_def owned_new_def conn_fine_def)
    (simp add: TcpConnection_new_def Channel_new_def)

section \<open>Properties\<close>


definition full_life :: "nat life_event list" where
  "full_life = [Lf_conn Ev_established, Lf_take, Lf_conn (Ev_call Call_forceClose), Lf_drop, Lf_swap, Lf_functor,
     Lf_done, Lf_swap, Lf_functor, Lf_done]"

lemmas life_defs = owned_new_def owning_def owners_def release_def stepped_def TcpConnection_delete_def check_def
  forceCloseInLoop_def handleClose_def close_callback_def conn_run_defs


text \<open>
  The functors of other threads are bound to the bare \<^verbatim>\<open>this\<close>. A \<^verbatim>\<open>send\<close> that is still waiting when the
  server is destroyed, and a \<^verbatim>\<open>startRead\<close> that is still waiting when the last pointer to a closed connection
  goes, run on freed memory.
\<close>

lemma waiting_send_dangles:
  "life_run calm [Lf_conn Ev_established, Lf_take, Lf_conn (Ev_other_thread (Call_send ''ab'')), Lf_drop,
     Lf_destroy_server, Lf_swap, Lf_functor] (owned_new 5 0 1) = Inl Dangling"
  by (simp add: life_defs)

lemma waiting_startRead_dangles:
  "life_run calm [Lf_conn Ev_established, Lf_take, Lf_conn (Ev_call Call_forceClose), Lf_swap, Lf_functor, Lf_done,
     Lf_swap, Lf_functor, Lf_conn (Ev_other_thread Call_startRead), Lf_drop, Lf_done, Lf_swap, Lf_functor]
     (owned_new 5 0 1) = Inl Dangling"
  by (simp add: life_defs)

end
