(* ===== verification/TcpServer.thy ===== *)
theory TcpServer
  imports Runs
begin

text \<open>
  \<^verbatim>\<open>gg_lib/net/EventLoopThreadPool.cc\<close>, \<^verbatim>\<open>Acceptor.cc\<close> and \<^verbatim>\<open>TcpServer.cc\<close>. Loops are numbers; \<open>posted\<close>
  is the sequence of the functors that the server sends to the loops of its connections. The outcomes
  of the successive calls of \<^verbatim>\<open>accept4\<close> are an argument of the acceptor.
\<close>

section \<open>The pool of loops\<close>

record loop_pool =
  baseLoop :: nat
  pool_name :: string
  pool_started :: bool
  numThreads :: int
  next_index :: nat
  loops :: "nat list"
  thread_names :: "string list"

definition EventLoopThreadPool_new :: "nat \<Rightarrow> string \<Rightarrow> loop_pool" where
  "EventLoopThreadPool_new base name =
     \<lparr>baseLoop = base, pool_name = name, pool_started = False, numThreads = 0, next_index = 0, loops = [],
      thread_names = []\<rparr>"

definition setThreadNum :: "int \<Rightarrow> loop_pool \<Rightarrow> loop_pool" where
  "setThreadNum n p = p\<lparr>numThreads := n\<rparr>"

text \<open>
  \<open>new_loop i\<close> is the loop of the thread \<open>i\<close>. The result tells in which loops the initialisation
  callback runs, when there is one.
\<close>

definition pool_start :: "(nat \<Rightarrow> nat) \<Rightarrow> bool \<Rightarrow> loop_pool \<Rightarrow> (nat list \<times> loop_pool) result" where
  "pool_start new_loop has_callback p =
     check (\<not> pool_started p) (check (numThreads p \<ge> 0)
       (let n = nat (numThreads p);
            started = map new_loop [0..<n];
            names = map (\<lambda>i. snprintf (length (pool_name p) + 32) (c_str (pool_name p) @ ''-'' @ show_nat i)) [0..<n]
        in Inr (if has_callback then (if numThreads p = 0 then [baseLoop p] else started) else [],
                p\<lparr>pool_started := True, loops := loops p @ started, thread_names := thread_names p @ names\<rparr>)))"

definition getNextLoop :: "loop_pool \<Rightarrow> (nat \<times> loop_pool) result" where
  "getNextLoop p =
     check (pool_started p)
       (if loops p \<noteq> [] then
          (if next_index p < length (loops p) then
             (let i = Suc (next_index p)
              in Inr (loops p ! next_index p, p\<lparr>next_index := (if i \<ge> length (loops p) then 0 else i)\<rparr>))
           else Inl Out_of_bounds)
        else Inr (baseLoop p, p))"

definition getLoopForHash :: "nat \<Rightarrow> loop_pool \<Rightarrow> nat" where
  "getLoopForHash hash p = (if loops p \<noteq> [] then loops p ! (hash mod length (loops p)) else baseLoop p)"

definition getAllLoops :: "loop_pool \<Rightarrow> nat list result" where
  "getAllLoops p = check (pool_started p) (Inr (if loops p = [] then [baseLoop p] else loops p))"

fun next_loops :: "nat \<Rightarrow> loop_pool \<Rightarrow> nat list result" where
  "next_loops 0 p = Inr []"
| "next_loops (Suc k) p = and_then (getNextLoop p) (\<lambda>(l, p'). map_sum id ((#) l) (next_loops k p'))"

section \<open>The acceptor\<close>

datatype accept_outcome = Accepted int | Accept_errno int

text \<open>The values of \<^verbatim>\<open>errno\<close> on Linux.\<close>

definition EPERM :: int where "EPERM = 1"
definition EINTR :: int where "EINTR = 4"
definition EAGAIN :: int where "EAGAIN = 11"
definition EMFILE :: int where "EMFILE = 24"
definition EPROTO :: int where "EPROTO = 71"
definition ECONNABORTED :: int where "ECONNABORTED = 103"

lemmas errno_defs = EPERM_def EINTR_def EAGAIN_def EMFILE_def EPROTO_def ECONNABORTED_def

record acceptor =
  listening :: bool
  has_callback :: bool
  accepts :: nat
  handed_over :: "int list"
  dropped :: "int list"

text \<open>\<^verbatim>\<open>sockets::accept\<close>: an unexpected error is fatal.\<close>

definition socket_accept :: "(nat \<Rightarrow> accept_outcome) \<Rightarrow> acceptor \<Rightarrow> (accept_outcome \<times> acceptor) result" where
  "socket_accept outcome a =
     (let r = outcome (accepts a); a' = a\<lparr>accepts := accepts a + 1\<rparr> in
      case r of
        Accepted fd \<Rightarrow> Inr (r, a')
      | Accept_errno e \<Rightarrow>
          if e \<in> {EAGAIN, EINTR} then Inr (r, a')
          else if e \<in> {ECONNABORTED, EPROTO, EPERM, EMFILE} then Inr (r, a')
          else Inl Abort)"

text \<open>Closing the idle descriptor, accepting a connection in its place, closing it, and opening it again.\<close>

definition shed_connection :: "(nat \<Rightarrow> accept_outcome) \<Rightarrow> acceptor \<Rightarrow> acceptor" where
  "shed_connection outcome a =
     (let a' = a\<lparr>accepts := accepts a + 1\<rparr> in
      case outcome (accepts a) of Accepted fd \<Rightarrow> a'\<lparr>dropped := dropped a' @ [fd]\<rparr> | Accept_errno e \<Rightarrow> a')"

definition Acceptor_listen :: "acceptor \<Rightarrow> acceptor" where
  "Acceptor_listen a = a\<lparr>listening := True\<rparr>"

text \<open>The body of the loop of \<^verbatim>\<open>handleRead\<close>; \<open>True\<close> is \<^verbatim>\<open>break\<close>.\<close>

definition accept_turn :: "(nat \<Rightarrow> accept_outcome) \<Rightarrow> acceptor \<Rightarrow> (bool \<times> acceptor) result" where
  "accept_turn outcome a =
     and_then (socket_accept outcome a) (\<lambda>(r, a1).
       case r of
         Accepted connfd \<Rightarrow>
           Inr (False, if has_callback a1 then a1\<lparr>handed_over := handed_over a1 @ [connfd]\<rparr>
                       else a1\<lparr>dropped := dropped a1 @ [connfd]\<rparr>)
       | Accept_errno e \<Rightarrow>
           if e = EAGAIN then Inr (True, a1)
           else Inr (False, if e = EMFILE then shed_connection outcome a1 else a1))"

text \<open>\<^verbatim>\<open>for (;;)\<close> with fuel: \<open>None\<close> when it is used up.\<close>

fun acceptor_handleRead :: "nat \<Rightarrow> (nat \<Rightarrow> accept_outcome) \<Rightarrow> acceptor \<Rightarrow> acceptor result option" where
  "acceptor_handleRead 0 outcome a = None"
| "acceptor_handleRead (Suc fuel) outcome a =
     (case accept_turn outcome a of
        Inl e \<Rightarrow> Some (Inl e)
      | Inr (True, a') \<Rightarrow> Some (Inr a')
      | Inr (False, a') \<Rightarrow> acceptor_handleRead fuel outcome a')"

section \<open>The server\<close>

datatype server_task = Established string | Destroyed string

record server_conn =
  conn_fd :: int
  conn_loop :: nat

record tcp_server =
  server_name :: string
  ipPort :: string
  threadPool :: loop_pool
  nextConnId :: int
  server_started :: int
  connections :: "(string \<times> server_conn) list"
  posted :: "(nat \<times> server_task) list"

definition TcpServer_new :: "nat \<Rightarrow> string \<Rightarrow> string \<Rightarrow> tcp_server" where
  "TcpServer_new loop address name =
     \<lparr>server_name = name, ipPort = address, threadPool = EventLoopThreadPool_new loop name, nextConnId = 1,
      server_started = 0, connections = [], posted = []\<rparr>"

definition server_setThreadNum :: "int \<Rightarrow> tcp_server \<Rightarrow> tcp_server result" where
  "server_setThreadNum n s = check (n \<ge> 0) (Inr (s\<lparr>threadPool := setThreadNum n (threadPool s)\<rparr>))"

text \<open>\<open>start\<close> starts the pool and the acceptor on the first call only.\<close>

definition server_start :: "(nat \<Rightarrow> nat) \<Rightarrow> bool \<Rightarrow> tcp_server \<times> acceptor \<Rightarrow> (tcp_server \<times> acceptor) result" where
  "server_start new_loop init = (\<lambda>(s, a).
     let s1 = s\<lparr>server_started := 1\<rparr> in
     if server_started s = 0 then
       and_then (pool_start new_loop init (threadPool s1)) (\<lambda>(_, p).
         check (\<not> listening a) (Inr (s1\<lparr>threadPool := p\<rparr>, Acceptor_listen a)))
     else Inr (s1, a))"

definition newConnection :: "int \<Rightarrow> tcp_server \<Rightarrow> tcp_server result" where
  "newConnection sockfd s =
     and_then (getNextLoop (threadPool s)) (\<lambda>(ioLoop, p).
       let connName = server_name s @ ''-'' @ ipPort s @ ''#'' @ show_int (nextConnId s);
           conn = \<lparr>conn_fd = sockfd, conn_loop = ioLoop\<rparr>
       in Inr (s\<lparr>threadPool := p, nextConnId := nextConnId s + 1,
                 connections := filter (\<lambda>c. fst c \<noteq> connName) (connections s) @ [(connName, conn)],
                 posted := posted s @ [(ioLoop, Established connName)]\<rparr>))"

definition removeConnectionInLoop :: "string \<Rightarrow> nat \<Rightarrow> tcp_server \<Rightarrow> tcp_server result" where
  "removeConnectionInLoop name ioLoop s =
     check (name \<in> fst ` set (connections s))
       (Inr (s\<lparr>connections := filter (\<lambda>c. fst c \<noteq> name) (connections s),
               posted := posted s @ [(ioLoop, Destroyed name)]\<rparr>))"

text \<open>The destructor posts \<^verbatim>\<open>connectDestroyed\<close> for every connection that is left.\<close>

definition TcpServer_delete :: "tcp_server \<Rightarrow> tcp_server" where
  "TcpServer_delete s =
     s\<lparr>connections := [], posted := posted s @ map (\<lambda>c. (conn_loop (snd c), Destroyed (fst c))) (connections s)\<rparr>"

section \<open>Round robin\<close>

definition pool_ok :: "loop_pool \<Rightarrow> bool" where
  "pool_ok p \<longleftrightarrow> pool_started p \<and> (loops p = [] \<or> next_index p < length (loops p))"

lemma getNextLoop_ok:
  assumes "pool_ok p"
  shows "\<exists>l p'. getNextLoop p = Inr (l, p') \<and> pool_ok p' \<and> loops p' = loops p \<and>
     l = (if loops p = [] then baseLoop p else loops p ! next_index p) \<and> baseLoop p' = baseLoop p \<and>
     next_index p' = (if loops p = [] then next_index p else Suc (next_index p) mod length (loops p))"
  using assms by (auto simp: pool_ok_def getNextLoop_def Let_def not_less_eq_eq mod_Suc)

lemma next_loops_from:
  "pool_ok p \<Longrightarrow> loops p \<noteq> [] \<Longrightarrow>
   next_loops k p = Inr (map (\<lambda>i. loops p ! ((next_index p + i) mod length (loops p))) [0..<k])"
proof (induction k arbitrary: p)
  case (Suc k)
  obtain l p' where n: "getNextLoop p = Inr (l, p')" "pool_ok p'" "loops p' = loops p" "l = loops p ! next_index p"
    "next_index p' = Suc (next_index p) mod length (loops p)"
    using getNextLoop_ok [OF Suc.prems(1)] Suc.prems(2) by auto
  have "next_index p < length (loops p)" using Suc.prems by (simp add: pool_ok_def)
  then have "[0..<Suc k] = 0 # map Suc [0..<k]" "l = loops p ! (next_index p mod length (loops p))"
    using n(4) by (simp_all add: map_Suc_upt upt_conv_Cons del: upt_Suc)
  moreover have "(Suc (next_index p) mod length (loops p) + i) mod length (loops p) =
      (next_index p + Suc i) mod length (loops p)" for i
    by (simp add: mod_add_left_eq)
  ultimately show ?case using n Suc.IH [OF n(2)] Suc.prems(2) by (simp add: comp_def del: upt_Suc)
qed simp

end
