(* ===== verification/TcpServerProps.thy ===== *)
theory TcpServerProps
  imports TcpServer
begin

text \<open>
  What a server promises: it hands out its loops in turn, takes every connection that waits, gives
  each connection a name of its own and exactly one \<^verbatim>\<open>connectEstablished\<close> and one
  \<^verbatim>\<open>connectDestroyed\<close>, in the same loop and in this order; and a loop that the acceptor does not leave.
\<close>

section \<open>Names\<close>

definition conn_name :: "tcp_server \<Rightarrow> int \<Rightarrow> string" where
  "conn_name s k = server_name s @ ''-'' @ ipPort s @ ''#'' @ show_int k"

lemma show_nat_inj: "show_nat m = show_nat n \<Longrightarrow> m = n"
  by (metis digits_value_show_nat)

lemma conn_name_inj: "1 \<le> k \<Longrightarrow> 1 \<le> k' \<Longrightarrow> conn_name s k = conn_name s k' \<longleftrightarrow> k = k'"
  by (auto simp: conn_name_def show_int_def dest: show_nat_inj)

section \<open>Tasks of a connection\<close>

fun task_name :: "server_task \<Rightarrow> string" where
  "task_name (Established n) = n"
| "task_name (Destroyed n) = n"

definition tasks_of :: "string \<Rightarrow> (nat \<times> server_task) list \<Rightarrow> (nat \<times> server_task) list" where
  "tasks_of n ts = filter (\<lambda>t. task_name (snd t) = n) ts"

lemma tasks_of_append [simp]: "tasks_of n (ts @ ts') = tasks_of n ts @ tasks_of n ts'"
  by (simp add: tasks_of_def)

lemma tasks_of_Cons [simp]:
  "tasks_of n [] = []" "tasks_of n (t # ts) = (if task_name (snd t) = n then t # tasks_of n ts else tasks_of n ts)"
  by (simp_all add: tasks_of_def)

lemma filter_key:
  "distinct (map fst xs) \<Longrightarrow> (n, c) \<in> set xs \<Longrightarrow> filter (\<lambda>x. fst x = n) xs = [(n, c)]"
  by (induction xs) (force simp: filter_empty_conv)+

definition open_or_closed :: "tcp_server \<Rightarrow> string \<Rightarrow> bool" where
  "open_or_closed s n \<longleftrightarrow>
     (\<exists>c. (n, c) \<in> set (connections s) \<and> tasks_of n (posted s) = [(conn_loop c, Established n)]) \<or>
     n \<notin> fst ` set (connections s) \<and> (\<exists>l. tasks_of n (posted s) = [(l, Established n), (l, Destroyed n)])"

definition server_inv :: "tcp_server \<Rightarrow> bool" where
  "server_inv s \<longleftrightarrow> pool_ok (threadPool s) \<and> 1 \<le> nextConnId s \<and> distinct (map fst (connections s)) \<and>
     (\<forall>c \<in> set (connections s). \<exists>k. 1 \<le> k \<and> k < nextConnId s \<and> fst c = conn_name s k) \<and>
     (\<forall>k. 1 \<le> k \<and> k < nextConnId s \<longrightarrow> open_or_closed s (conn_name s k)) \<and>
     (\<forall>k. nextConnId s \<le> k \<longrightarrow> tasks_of (conn_name s k) (posted s) = [])"

lemma server_inv_names:
  "server_inv s \<Longrightarrow> c \<in> set (connections s) \<Longrightarrow> \<exists>k. 1 \<le> k \<and> k < nextConnId s \<and> fst c = conn_name s k"
  by (simp add: server_inv_def)

text \<open>The events of a server: a connection is accepted, and an open connection has closed.\<close>

datatype server_event = S_accept int | S_closed string nat

fun server_step :: "server_event \<Rightarrow> tcp_server \<Rightarrow> tcp_server result" where
  "server_step (S_accept fd) s = newConnection fd s"
| "server_step (S_closed name ioLoop) s = removeConnectionInLoop name ioLoop s"

fun server_event_ok :: "server_event \<Rightarrow> tcp_server \<Rightarrow> bool" where
  "server_event_ok (S_accept fd) s \<longleftrightarrow> True"
| "server_event_ok (S_closed name ioLoop) s \<longleftrightarrow> (\<exists>c \<in> set (connections s). fst c = name \<and> conn_loop (snd c) = ioLoop)"

fun server_run :: "server_event list \<Rightarrow> tcp_server \<Rightarrow> tcp_server result" where
  "server_run [] s = Inr s"
| "server_run (e # es) s = and_then (server_step e s) (server_run es)"

fun server_events_ok :: "server_event list \<Rightarrow> tcp_server \<Rightarrow> bool" where
  "server_events_ok [] s \<longleftrightarrow> True"
| "server_events_ok (e # es) s \<longleftrightarrow> server_event_ok e s \<and>
     (case server_step e s of Inl _ \<Rightarrow> True | Inr s' \<Rightarrow> server_events_ok es s')"

lemma newConnection_inv:
  assumes inv: "server_inv s"
  shows "\<exists>s'. newConnection fd s = Inr s' \<and> server_inv s' \<and> nextConnId s' = nextConnId s + 1"
proof -
  obtain l p where p: "getNextLoop (threadPool s) = Inr (l, p)" "pool_ok p"
    using getNextLoop_ok [of "threadPool s"] inv by (auto simp: server_inv_def)
  let ?n = "conn_name s (nextConnId s)"
  have k0: "1 \<le> nextConnId s" using inv by (simp add: server_inv_def)
  have new: "?n \<noteq> conn_name s k" if "1 \<le> k" "k \<noteq> nextConnId s" for k
    using conn_name_inj [OF k0 that(1)] that(2) by simp
  have fresh: "fst c \<noteq> ?n" if mem: "c \<in> set (connections s)" for c
  proof -
    obtain k where "1 \<le> k" "k < nextConnId s" "fst c = conn_name s k"
      using server_inv_names [OF inv mem] by blast
    with new [of k] show ?thesis by auto
  qed
  then have keep: "filter (\<lambda>c. fst c \<noteq> ?n) (connections s) = connections s" by (simp add: filter_id_conv)
  define s' where "s' = s\<lparr>threadPool := p, nextConnId := nextConnId s + 1,
     connections := connections s @ [(?n, \<lparr>conn_fd = fd, conn_loop = l\<rparr>)], posted := posted s @ [(l, Established ?n)]\<rparr>"
  have run: "newConnection fd s = Inr s'"
    using p(1) keep by (simp add: newConnection_def Let_def s'_def) (simp add: conn_name_def)
  have name: "conn_name s' k = conn_name s k" for k by (simp add: conn_name_def s'_def)
  have "open_or_closed s' (conn_name s k)" if "1 \<le> k" "k < nextConnId s'" for k
  proof (cases "k = nextConnId s")
    case True
    have "tasks_of ?n (posted s) = []" using inv by (simp add: server_inv_def)
    then show ?thesis unfolding True open_or_closed_def by (auto simp: s'_def)
  next
    case False
    with that have "open_or_closed s (conn_name s k)" using inv by (auto simp: server_inv_def s'_def)
    with new [OF that(1) False] show ?thesis by (auto simp: open_or_closed_def s'_def)
  qed
  moreover have "tasks_of (conn_name s k) (posted s') = []" if "nextConnId s' \<le> k" for k
    using inv that new [of k] k0 by (auto simp: server_inv_def s'_def)
  moreover have "distinct (map fst (connections s'))"
  proof -
    have "?n \<notin> fst ` set (connections s)" using fresh by fastforce
    with inv show ?thesis by (simp add: server_inv_def s'_def)
  qed
  moreover have "\<exists>k. 1 \<le> k \<and> k < nextConnId s' \<and> fst c = conn_name s k" if "c \<in> set (connections s')" for c
  proof (cases "c \<in> set (connections s)")
    case True
    from server_inv_names [OF inv this] obtain k where "1 \<le> k" "k < nextConnId s" "fst c = conn_name s k" by blast
    then show ?thesis by (intro exI [of _ k]) (simp add: s'_def)
  next
    case False
    with that k0 show ?thesis by (intro exI [of _ "nextConnId s"]) (simp add: s'_def)
  qed
  ultimately have "server_inv s'"
    using p(2) k0 by (simp add: server_inv_def name) (simp add: s'_def)
  with run show ?thesis by (simp add: s'_def)
qed

lemma removeConnection_inv:
  assumes inv: "server_inv s" and c: "c \<in> set (connections s)" "fst c = n" "conn_loop (snd c) = l"
  shows "\<exists>s'. removeConnectionInLoop n l s = Inr s' \<and> server_inv s' \<and> nextConnId s' = nextConnId s"
proof -
  define s' where "s' = s\<lparr>connections := filter (\<lambda>c. fst c \<noteq> n) (connections s), posted := posted s @ [(l, Destroyed n)]\<rparr>"
  have run: "removeConnectionInLoop n l s = Inr s'"
    using c by (auto simp: removeConnectionInLoop_def s'_def)
  have name: "conn_name s' k = conn_name s k" for k by (simp add: conn_name_def s'_def)
  obtain k0 where k0: "1 \<le> k0" "k0 < nextConnId s" "n = conn_name s k0"
    using server_inv_names [OF inv c(1)] c(2) by blast
  have dist: "distinct (map fst (connections s))" using inv by (simp add: server_inv_def)
  have uniq: "c' = snd c" if "(n, c') \<in> set (connections s)" for c'
    using that c dist eq_key_imp_eq_value [of "connections s" n c' "snd c"] by (cases c) auto
  have "open_or_closed s' (conn_name s k)" if "1 \<le> k" "k < nextConnId s'" for k
  proof -
    have ok: "open_or_closed s (conn_name s k)" using inv that by (auto simp: server_inv_def s'_def)
    show ?thesis
    proof (cases "conn_name s k = n")
      case True
      have "n \<in> fst ` set (connections s)" using c by auto
      with ok True obtain c' where "(n, c') \<in> set (connections s)" "tasks_of n (posted s) = [(conn_loop c', Established n)]"
        by (auto simp: open_or_closed_def)
      with uniq c(3) True show ?thesis by (auto simp: open_or_closed_def s'_def)
    next
      case False
      with ok show ?thesis by (auto simp: open_or_closed_def s'_def)
    qed
  qed
  moreover have "tasks_of (conn_name s k) (posted s') = []" if "nextConnId s' \<le> k" for k
    using inv that conn_name_inj [of k k0 s] k0 by (auto simp: server_inv_def s'_def)
  moreover have "distinct (map fst (connections s'))"
    using dist by (simp add: s'_def distinct_map_filter)
  moreover have "\<exists>k. 1 \<le> k \<and> k < nextConnId s \<and> fst c = conn_name s k" if "c \<in> set (connections s')" for c
    using that inv by (auto simp: server_inv_def s'_def)
  ultimately have "server_inv s'"
    using inv by (simp add: server_inv_def name) (simp add: s'_def)
  with run show ?thesis by (simp add: s'_def)
qed

interpretation sv: guarded server_step server_run server_event_ok server_events_ok server_inv
proof unfold_locales
  fix e s assume inv: "server_inv s" and ok: "server_event_ok e s"
  show "\<exists>s'. server_step e s = Inr s' \<and> server_inv s'"
  proof (cases e)
    case (S_accept fd)
    with newConnection_inv [OF inv, of fd] show ?thesis by auto
  next
    case (S_closed n l)
    with ok obtain c where "c \<in> set (connections s)" "fst c = n" "conn_loop (snd c) = l" by auto
    with removeConnection_inv [OF inv] S_closed show ?thesis by fastforce
  qed
qed simp_all

lemma delete_tasks:
  assumes "distinct (map fst cs)"
  shows "tasks_of n (map (\<lambda>c. (conn_loop (snd c), Destroyed (fst c))) cs) =
     (case map_of cs n of None \<Rightarrow> [] | Some c \<Rightarrow> [(conn_loop c, Destroyed n)])"
  using assms
proof (induction cs)
  case (Cons c cs)
  have none: "map_of cs (fst c) = None" using Cons.prems by (simp add: map_of_eq_None_iff)
  show ?case
  proof (cases "fst c = n")
    case True
    with none Cons show ?thesis by (cases c) auto
  next
    case False
    with Cons show ?thesis by (cases c) (auto split: option.splits)
  qed
qed simp

lemma server_inv_deleted:
  assumes inv: "server_inv s" and k: "1 \<le> k" "k < nextConnId s"
  defines "n \<equiv> conn_name s k"
  shows "\<exists>l. tasks_of n (posted (TcpServer_delete s)) = [(l, Established n), (l, Destroyed n)]"
proof -
  have dist: "distinct (map fst (connections s))" using inv by (simp add: server_inv_def)
  have "open_or_closed s n" using inv k by (simp add: server_inv_def n_def)
  then show ?thesis unfolding open_or_closed_def
  proof
    assume "\<exists>c. (n, c) \<in> set (connections s) \<and> tasks_of n (posted s) = [(conn_loop c, Established n)]"
    then obtain c where c: "(n, c) \<in> set (connections s)" "tasks_of n (posted s) = [(conn_loop c, Established n)]" by blast
    then have "map_of (connections s) n = Some c" using dist by simp
    with c show ?thesis by (simp add: TcpServer_delete_def delete_tasks [OF dist])
  next
    assume a: "n \<notin> fst ` set (connections s) \<and> (\<exists>l. tasks_of n (posted s) = [(l, Established n), (l, Destroyed n)])"
    then have "map_of (connections s) n = None" by (simp add: map_of_eq_None_iff)
    with a show ?thesis by (simp add: TcpServer_delete_def delete_tasks [OF dist])
  qed
qed

section \<open>A started server\<close>

definition started_server :: "nat \<Rightarrow> string \<Rightarrow> string \<Rightarrow> int \<Rightarrow> (nat \<Rightarrow> nat) \<Rightarrow> acceptor \<Rightarrow> (tcp_server \<times> acceptor) result" where
  "started_server loop address name n new_loop a =
     and_then (server_setThreadNum n (TcpServer_new loop address name)) (\<lambda>s. server_start new_loop False (s, a))"

lemma started_server_inv:
  assumes "0 \<le> n" and "\<not> listening a"
  shows "\<exists>s a'. started_server loop address name n new_loop a = Inr (s, a') \<and> server_inv s \<and>
     loops (threadPool s) = map new_loop [0..<nat n] \<and> next_index (threadPool s) = 0 \<and>
     baseLoop (threadPool s) = loop"
  using assms
  by (auto simp: started_server_def server_setThreadNum_def server_start_def TcpServer_new_def setThreadNum_def
      EventLoopThreadPool_new_def pool_start_def Let_def server_inv_def pool_ok_def)

section \<open>The acceptor\<close>

text \<open>What \<^verbatim>\<open>accept4\<close> may report before the queue is empty: connections, and errors that are passed over.\<close>

fun transient :: "accept_outcome \<Rightarrow> bool" where
  "transient (Accepted fd) \<longleftrightarrow> True"
| "transient (Accept_errno e) \<longleftrightarrow> e \<in> {EINTR, ECONNABORTED, EPROTO, EPERM}"

fun accepted_fds :: "accept_outcome list \<Rightarrow> int list" where
  "accepted_fds [] = []"
| "accepted_fds (Accepted fd # rs) = fd # accepted_fds rs"
| "accepted_fds (Accept_errno e # rs) = accepted_fds rs"

lemma acceptor_drains:
  assumes "\<And>i. i < length rs \<Longrightarrow> outcome (accepts a + i) = rs ! i" and "list_all transient rs"
    and "outcome (accepts a + length rs) = Accept_errno EAGAIN" and "has_callback a" and "length rs < fuel"
  shows "acceptor_handleRead fuel outcome a =
     Some (Inr (a\<lparr>accepts := accepts a + length rs + 1, handed_over := handed_over a @ accepted_fds rs\<rparr>))"
  using assms
proof (induction rs arbitrary: a fuel)
  case Nil
  then obtain fuel' where "fuel = Suc fuel'" by (cases fuel) auto
  with Nil show ?case by (simp add: accept_turn_def socket_accept_def Let_def errno_defs)
next
  case (Cons r rs)
  then obtain fuel' where fuel: "fuel = Suc fuel'" by (cases fuel) auto
  let ?a = "a\<lparr>accepts := accepts a + 1, handed_over := handed_over a @ accepted_fds [r]\<rparr>"
  have r: "outcome (accepts a) = r" "transient r" using Cons.prems(1) [of 0] Cons.prems(2) by simp_all
  then have "accept_turn outcome a = Inr (False, ?a)"
    using Cons.prems(4) by (cases r) (auto simp: accept_turn_def socket_accept_def Let_def errno_defs)
  then have step: "acceptor_handleRead fuel outcome a = acceptor_handleRead fuel' outcome ?a" by (simp add: fuel)
  have "outcome (accepts ?a + i) = rs ! i" if "i < length rs" for i
    using Cons.prems(1) [of "Suc i"] that by simp
  then have "acceptor_handleRead fuel' outcome ?a =
      Some (Inr (?a\<lparr>accepts := accepts ?a + length rs + 1, handed_over := handed_over ?a @ accepted_fds rs\<rparr>))"
    using Cons.prems fuel by (intro Cons.IH) simp_all
  with step show ?case by (cases r) simp_all
qed

lemma acceptor_spins_from:
  assumes "\<And>i. outcome (accepts a + 2 * i) = Accept_errno EMFILE"
    and "\<And>i. outcome (accepts a + 2 * i + 1) = Accept_errno EAGAIN"
  shows "acceptor_handleRead fuel outcome a = None"
  using assms
proof (induction fuel arbitrary: a)
  case (Suc fuel)
  let ?a = "a\<lparr>accepts := accepts a + 2\<rparr>"
  have "accept_turn outcome a = Inr (False, ?a)"
    using Suc.prems(1) [of 0] Suc.prems(2) [of 0]
    by (simp add: accept_turn_def socket_accept_def shed_connection_def Let_def errno_defs)
  moreover have "acceptor_handleRead fuel outcome ?a = None"
    using Suc.prems(1) [of "Suc _"] Suc.prems(2) [of "Suc _"] by (intro Suc.IH) (simp_all add: algebra_simps)
  ultimately show ?case by simp
qed simp

section \<open>The properties\<close>


text \<open>
  The loops of a started pool are handed out in turn: the call number \<open>i\<close> of
  \<^verbatim>\<open>getNextLoop\<close> gives the loop number \<open>i\<close> modulo their number.
\<close>

theorem loops_in_turn:
  assumes "0 < n" and "pool_start new_loop cb (setThreadNum n (EventLoopThreadPool_new base name)) = Inr (inits, p)"
  shows "next_loops k p = Inr (map (\<lambda>i. new_loop (i mod nat n)) [0..<k])"
proof -
  have p: "pool_ok p" "loops p = map new_loop [0..<nat n]" "next_index p = 0"
    using assms by (auto simp: pool_start_def setThreadNum_def EventLoopThreadPool_new_def Let_def pool_ok_def)
  have "loops p ! (i mod nat n) = new_loop (i mod nat n)" for i
    using assms(1) by (simp add: p(2))
  with next_loops_from [OF p(1), of k] p assms(1) show ?thesis by (simp add: p(2))
qed

text \<open>
  The acceptor takes all connections that wait, in order, passes over interrupted and aborted
  ones, and returns when the queue is empty.
\<close>

theorem acceptor_takes_all:
  assumes "\<And>i. i < length rs \<Longrightarrow> outcome (accepts a + i) = rs ! i" and "list_all transient rs"
    and "outcome (accepts a + length rs) = Accept_errno EAGAIN" and "has_callback a" and "length rs < fuel"
  shows "\<exists>a'. acceptor_handleRead fuel outcome a = Some (Inr a') \<and>
     handed_over a' = handed_over a @ accepted_fds rs \<and> dropped a' = dropped a"
  using acceptor_drains [OF assms] by simp

text \<open>
  With no descriptor left and no connection waiting, as Linux reports it, \<^verbatim>\<open>handleRead\<close> never
  returns: it gives the idle descriptor up, finds the queue empty, and takes the descriptor back.
\<close>

theorem acceptor_spins:
  assumes "\<And>i. outcome (accepts a + 2 * i) = Accept_errno EMFILE"
    and "\<And>i. outcome (accepts a + 2 * i + 1) = Accept_errno EAGAIN"
  shows "acceptor_handleRead fuel outcome a = None"
  by (rule acceptor_spins_from [OF assms])

section \<open>Witnesses\<close>

definition new_acceptor :: acceptor where
  "new_acceptor = \<lparr>listening = False, has_callback = True, accepts = 0, handed_over = [], dropped = []\<rparr>"

lemma digit_chars: "digit_char 1 = CHR ''1''" "digit_char 2 = CHR ''2''"
  using char_of_char [of "CHR ''1''", where ?'a = nat] char_of_char [of "CHR ''2''", where ?'a = nat]
  by (simp_all add: digit_char_def)

lemma show_small: "show_int 1 = ''1''" "show_int 2 = ''2''"
  by (simp_all add: digit_chars [simplified] show_int_def show_nat.simps [of 1] show_nat.simps [of 2] show_nat.simps [of "Suc 0"])


lemma loops_in_turn_witness:
  "\<exists>p. pool_start Suc False (setThreadNum 2 (EventLoopThreadPool_new 0 ''p'')) = Inr ([], p) \<and>
     next_loops 3 p = Inr [1, 2, 1]"
proof -
  have "\<exists>p. pool_start Suc False (setThreadNum 2 (EventLoopThreadPool_new 0 ''p'')) = Inr ([], p)"
    by (simp add: pool_start_def setThreadNum_def EventLoopThreadPool_new_def Let_def)
  then obtain p where p: "pool_start Suc False (setThreadNum 2 (EventLoopThreadPool_new 0 ''p'')) = Inr ([], p)" by blast
  have "next_loops 3 p = Inr [1, 2, 1]" using loops_in_turn [OF _ p, of 3] by (simp add: upt_rec)
  with p show ?thesis by blast
qed

lemma acceptor_takes_all_witness:
  "\<exists>a'. acceptor_handleRead 4 (\<lambda>i. if i = 0 then Accepted 5 else if i = 1 then Accept_errno EINTR else Accept_errno EAGAIN)
     new_acceptor = Some (Inr a') \<and> handed_over a' = [5] \<and> dropped a' = []"
proof -
  let ?o = "\<lambda>i :: nat. if i = 0 then Accepted 5 else if i = 1 then Accept_errno EINTR else Accept_errno EAGAIN"
  have "?o (accepts new_acceptor + i) = [Accepted 5, Accept_errno EINTR] ! i"
    if "i < length [Accepted 5, Accept_errno EINTR]" for i
    using that by (cases i) (simp_all add: new_acceptor_def)
  from acceptor_takes_all [of _ ?o, OF this, of 4] show ?thesis by (simp add: new_acceptor_def)
qed

lemma acceptor_spins_witness:
  "acceptor_handleRead 1000 (\<lambda>i. if even i then Accept_errno EMFILE else Accept_errno EAGAIN) new_acceptor = None"
  by (rule acceptor_spins) (simp_all add: new_acceptor_def)

end
