(* ===== verification/ServerThreads.thy ===== *)
theory ServerThreads
  imports TcpServerProps TcpProps
begin

text \<open>
  A server whose connections live in the loops of other threads: \<^verbatim>\<open>TcpServer.cc\<close> with the queues of functors
  that connect the loop of the server to the loops of the connections. The table and its operations are those
  of theory \<open>TcpServer\<close>; a connection is reduced to its state and the registration of its channel, and the
  first section shows that the connections of theory \<open>TcpConnection\<close> move in this way.
\<close>

section \<open>A connection as the server sees it\<close>

record link =
  life :: conn_state
  registered :: bool
  link_loop :: nat

definition link_established :: "link \<Rightarrow> link result" where
  "link_established l = check (life l = kConnecting) (Inr (l\<lparr>life := kConnected, registered := True\<rparr>))"

definition link_closed :: "link \<Rightarrow> link result" where
  "link_closed l = check (life l = kConnected \<or> life l = kDisconnecting) (Inr (l\<lparr>life := kDisconnected\<rparr>))"

text \<open>Only a closed connection watches nothing, so that its channel can be removed.\<close>

definition link_destroyed :: "link \<Rightarrow> link result" where
  "link_destroyed l =
     (let l1 = (if life l = kConnected then l\<lparr>life := kDisconnected\<rparr> else l)
      in check (life l1 = kDisconnected) (check (registered l1) (Inr (l1\<lparr>registered := False\<rparr>))))"

definition link_of :: "nat \<Rightarrow> 'cb conn \<Rightarrow> link" where
  "link_of k c = \<lparr>life = state c, registered = addedToLoop (conn_channel c), link_loop = k\<rparr>"

text \<open>The callback of a client may shut the connection down in the same step.\<close>

lemma established_link:
  assumes "fine c" and "state c = kConnecting" and "quiet_env env"
  shows "\<exists>c' l. connectEstablished env c = Inr c' \<and> link_established (link_of k c) = Inr l \<and>
     (link_of k c' = l \<or> link_of k c' = l\<lparr>life := kDisconnecting\<rparr>)"
proof -
  let ?c = "set_channel_events EnableReading (c\<lparr>state := kConnected, conn_channel := tie (conn_channel c)\<rparr>)"
  have inv: "conn_inv ?c" using established_changes(1) [OF fine_inv [OF assms(1)] assms(2)] .
  obtain c' where c': "call_client env (connectionCallback c) ?c = Inr c'" "changes True ?c c'"
    using call_client_changes [OF inv, of True env "connectionCallback c"] assms(3) by (auto simp: does_def)
  then have "state c' = kConnected \<or> state c' = kDisconnecting" "addedToLoop (conn_channel c')"
    by (auto simp: changes_def)
  with c'(1) assms(2) show ?thesis
    by (auto simp: connectEstablished_def check_def Let_def link_established_def link_of_def)
qed

lemma closed_link:
  assumes "fine c" and "state c = kConnected \<or> state c = kDisconnecting" and "quiet_env env"
  shows "\<exists>c' l. handleClose env c = Inr c' \<and> link_closed (link_of k c) = Inr l \<and> link_of k c' = l"
proof -
  have open': "state c \<noteq> kDisconnected" using assms(2) by auto
  have added: "addedToLoop (conn_channel c)" using assms(1,2) by (auto simp: fine_def quiet_inv_def)
  obtain c2 where "call_client env (connectionCallback c)
      (set_channel_events DisableAll (c\<lparr>state := kDisconnected\<rparr>)) = Inr c2" "half_closed c2"
    by (rule half_closed_client [OF assms(1) open' assms(3)])
  then show ?thesis using assms(2) added
    by (auto simp: handleClose_def check_def link_closed_def link_of_def close_callback_def queueInLoop_def half_closed_def)
qed

lemma destroyed_link:
  assumes "fine c" and "state c = kConnected" and "quiet_env env"
  shows "\<exists>c' l. connectDestroyed env c = Inr c' \<and> link_destroyed (link_of k c) = Inr l \<and> link_of k c' = l"
proof -
  have open': "state c \<noteq> kDisconnected" using assms(2) by auto
  have added: "addedToLoop (conn_channel c)" using assms(1,2) by (auto simp: fine_def quiet_inv_def)
  obtain c2 where "call_client env (connectionCallback c)
      (set_channel_events DisableAll (c\<lparr>state := kDisconnected\<rparr>)) = Inr c2" "half_closed c2"
    by (rule half_closed_client [OF assms(1) open' assms(3)])
  then show ?thesis using assms(2) added
    by (auto simp: connectDestroyed_def remove_conn_channel_def isNoneEvent_def event_defs check_def
        link_destroyed_def link_of_def half_closed_def)
qed

section \<open>The threads\<close>

text \<open>\<open>to_server\<close> are the removals that wait in the loop of the server, \<open>to_io k\<close> the functors in loop \<open>k\<close>.\<close>

record server_threads =
  srv :: tcp_server
  srv_exists :: bool
  to_server :: "(string \<times> nat) list"
  to_io :: "nat \<Rightarrow> server_task list"
  links :: "string \<rightharpoonup> link"

definition threads_new :: "tcp_server \<Rightarrow> server_threads" where
  "threads_new sv = \<lparr>srv = sv, srv_exists = True, to_server = [], to_io = (\<lambda>k. []), links = Map.empty\<rparr>"

definition with_link :: "string \<Rightarrow> (link \<Rightarrow> link result) \<Rightarrow> server_threads \<Rightarrow> server_threads result" where
  "with_link n f s =
     (case links s n of
        None \<Rightarrow> Inl Dangling
      | Some l \<Rightarrow> map_sum id (\<lambda>l'. s\<lparr>links := (links s)(n \<mapsto> l')\<rparr>) (f l))"

fun run_task_of :: "server_task \<Rightarrow> server_threads \<Rightarrow> server_threads result" where
  "run_task_of (Established n) s = with_link n link_established s"
| "run_task_of (Destroyed n) s = with_link n link_destroyed s"

definition queue_task :: "nat \<Rightarrow> server_task \<Rightarrow> server_threads \<Rightarrow> server_threads" where
  "queue_task k t s = s\<lparr>to_io := (to_io s)(k := to_io s k @ [t])\<rparr>"

text \<open>\<^verbatim>\<open>runInLoop\<close> from the loop of the server.\<close>

definition run_in_loop :: "nat \<Rightarrow> server_task \<Rightarrow> server_threads \<Rightarrow> server_threads result" where
  "run_in_loop k t s = (if k = baseLoop (threadPool (srv s)) then run_task_of t s else Inr (queue_task k t s))"

definition accept_connection :: "int \<Rightarrow> server_threads \<Rightarrow> server_threads result" where
  "accept_connection sock s =
     and_then (newConnection sock (srv s)) (\<lambda>sv.
       case last (posted sv) of (k, t) \<Rightarrow>
         run_in_loop k t (s\<lparr>srv := sv,
           links := (links s)(task_name t \<mapsto> \<lparr>life = kConnecting, registered = False, link_loop = k\<rparr>)\<rparr>))"

text \<open>\<^verbatim>\<open>removeConnectionInLoop\<close> and \<^verbatim>\<open>removeConnection\<close>, both through the pointer to the server.\<close>

definition remove_in_loop :: "string \<Rightarrow> nat \<Rightarrow> server_threads \<Rightarrow> server_threads result" where
  "remove_in_loop n k s =
     (if srv_exists s then
        and_then (removeConnectionInLoop n k (srv s)) (\<lambda>sv.
          case last (posted sv) of (k', t) \<Rightarrow> Inr (queue_task k' t (s\<lparr>srv := sv\<rparr>)))
      else Inl Dangling)"

definition remove_connection :: "string \<Rightarrow> nat \<Rightarrow> server_threads \<Rightarrow> server_threads result" where
  "remove_connection n k s =
     (if srv_exists s then
        (if k = baseLoop (threadPool (srv s)) then remove_in_loop n k s
         else Inr (s\<lparr>to_server := to_server s @ [(n, k)]\<rparr>))
      else Inl Dangling)"

definition close_link :: "string \<Rightarrow> nat \<Rightarrow> server_threads \<Rightarrow> server_threads result" where
  "close_link n k s = and_then (with_link n link_closed s) (remove_connection n k)"

fun run_all_in_loop :: "(nat \<times> server_task) list \<Rightarrow> server_threads \<Rightarrow> server_threads result" where
  "run_all_in_loop [] s = Inr s"
| "run_all_in_loop ((k, t) # ts) s = and_then (run_in_loop k t s) (run_all_in_loop ts)"

definition delete_server :: "server_threads \<Rightarrow> server_threads result" where
  "delete_server s =
     and_then (run_all_in_loop (drop (length (posted (srv s))) (posted (TcpServer_delete (srv s)))) s)
       (\<lambda>s1. Inr (s1\<lparr>srv := TcpServer_delete (srv s), srv_exists := False\<rparr>))"

datatype server_action =
    A_accept int
  | A_functor nat
  | A_removal
  | A_close string
  | A_shutdown string
  | A_delete

definition live :: "link \<Rightarrow> bool" where
  "live l \<longleftrightarrow> life l = kConnected \<or> life l = kDisconnecting"

fun threads_exec :: "server_action \<Rightarrow> server_threads \<Rightarrow> server_threads result option" where
  "threads_exec (A_accept sock) s = (if srv_exists s then Some (accept_connection sock s) else None)"
| "threads_exec (A_functor k) s =
     (case to_io s k of [] \<Rightarrow> None | t # ts \<Rightarrow> Some (run_task_of t (s\<lparr>to_io := (to_io s)(k := ts)\<rparr>)))"
| "threads_exec A_removal s =
     (case to_server s of [] \<Rightarrow> None | (n, k) # rs \<Rightarrow> Some (remove_in_loop n k (s\<lparr>to_server := rs\<rparr>)))"
| "threads_exec (A_close n) s =
     (case links s n of None \<Rightarrow> None | Some l \<Rightarrow> if live l then Some (close_link n (link_loop l) s) else None)"
| "threads_exec (A_shutdown n) s =
     (case links s n of
        None \<Rightarrow> None
      | Some l \<Rightarrow> if life l = kConnected
                 then Some (Inr (s\<lparr>links := (links s)(n \<mapsto> l\<lparr>life := kDisconnecting\<rparr>)\<rparr>)) else None)"
| "threads_exec A_delete s = (if srv_exists s then Some (delete_server s) else None)"

inductive threads_steps :: "server_threads \<Rightarrow> server_action list \<Rightarrow> server_threads result \<Rightarrow> bool" where
  "threads_steps s [] (Inr s)"
| "threads_exec a s = Some (Inr s1) \<Longrightarrow> threads_steps s1 as r \<Longrightarrow> threads_steps s (a # as) r"
| "threads_exec a s = Some (Inl e) \<Longrightarrow> threads_steps s (a # as) (Inl e)"

inductive_cases threads_steps_Cons: "threads_steps s (a # as) r"
inductive_cases threads_steps_Nil: "threads_steps s [] r"

interpretation ts: interleaving threads_exec threads_steps
  by unfold_locales (auto intro: threads_steps.intros elim: threads_steps_Nil threads_steps_Cons)

section \<open>The invariant\<close>

text \<open>What is known about one name, and what the life of a connection allows.\<close>

definition entry :: "server_threads \<Rightarrow> string \<Rightarrow> server_conn option" where
  "entry s n = map_of (connections (srv s)) n"

definition removals :: "server_threads \<Rightarrow> string \<Rightarrow> (string \<times> nat) list" where
  "removals s n = filter (\<lambda>r. fst r = n) (to_server s)"

definition tasks :: "server_threads \<Rightarrow> string \<Rightarrow> nat \<Rightarrow> server_task list" where
  "tasks s n k = filter (\<lambda>t. task_name t = n) (to_io s k)"

definition only_at :: "nat \<Rightarrow> server_task \<Rightarrow> (nat \<Rightarrow> server_task list) \<Rightarrow> bool" where
  "only_at k t f \<longleftrightarrow> f = (\<lambda>j. if j = k then [t] else [])"

definition in_table :: "string \<Rightarrow> link \<Rightarrow> (string \<times> nat) list \<Rightarrow> (nat \<Rightarrow> server_task list) \<Rightarrow> bool" where
  "in_table n l rs f \<longleftrightarrow>
     life l = kConnecting \<and> \<not> registered l \<and> rs = [] \<and> only_at (link_loop l) (Established n) f \<or>
     live l \<and> registered l \<and> rs = [] \<and> f = (\<lambda>k. []) \<or>
     life l = kDisconnected \<and> registered l \<and> rs = [(n, link_loop l)] \<and> f = (\<lambda>k. [])"

definition out_of_table :: "string \<Rightarrow> link \<Rightarrow> (string \<times> nat) list \<Rightarrow> (nat \<Rightarrow> server_task list) \<Rightarrow> bool" where
  "out_of_table n l rs f \<longleftrightarrow> life l = kDisconnected \<and> rs = [] \<and>
     (if registered l then only_at (link_loop l) (Destroyed n) f else f = (\<lambda>k. []))"

definition phase_ok :: "string \<Rightarrow> link option \<Rightarrow> server_conn option \<Rightarrow> (string \<times> nat) list \<Rightarrow>
    (nat \<Rightarrow> server_task list) \<Rightarrow> (nat \<times> server_task) list \<Rightarrow> bool" where
  "phase_ok n lk c rs f log \<longleftrightarrow>
     (case lk of
        None \<Rightarrow> c = None \<and> rs = [] \<and> f = (\<lambda>k. []) \<and> log = []
      | Some l \<Rightarrow> log \<noteq> [] \<and>
          (case c of
             Some c \<Rightarrow> conn_loop c = link_loop l \<and> in_table n l rs f
           | None \<Rightarrow> out_of_table n l rs f))"

definition name_ok :: "server_threads \<Rightarrow> string \<Rightarrow> bool" where
  "name_ok s n \<longleftrightarrow> phase_ok n (links s n) (entry s n) (removals s n) (tasks s n) (tasks_of n (posted (srv s)))"

definition threads_inv :: "server_threads \<Rightarrow> bool" where
  "threads_inv s \<longleftrightarrow> srv_exists s \<and> server_inv (srv s) \<and> (\<forall>n. name_ok s n)"

lemma only_at_simps [simp]: "only_at k t (\<lambda>j. []) \<longleftrightarrow> False" "only_at k t (\<lambda>j. if j = k then [t] else [])"
  by (auto simp: only_at_def fun_eq_iff)

lemma map_of_remove: "map_of (filter (\<lambda>c. fst c \<noteq> m) cs) n = (if n = m then None else map_of cs n)"
  by (induction cs) auto

text \<open>A name is looked at only through its own parts of the state.\<close>

lemma name_ok_frame:
  assumes "name_ok s n" and "links s' n = links s n" and "entry s' n = entry s n" and "removals s' n = removals s n"
    and "tasks s' n = tasks s n" and "tasks_of n (posted (srv s')) = tasks_of n (posted (srv s))"
  shows "name_ok s' n"
  using assms by (simp add: name_ok_def)

lemma threads_inv_step:
  assumes "threads_inv s" and "srv_exists s'" and "server_inv (srv s')" and "name_ok s' n"
    and "\<And>m. m \<noteq> n \<Longrightarrow> links s' m = links s m \<and> entry s' m = entry s m \<and> removals s' m = removals s m \<and>
      tasks s' m = tasks s m \<and> tasks_of m (posted (srv s')) = tasks_of m (posted (srv s))"
  shows "threads_inv s'"
proof -
  have "name_ok s' m" for m
  proof (cases "m = n")
    case False
    from assms(1) have "name_ok s m" by (simp add: threads_inv_def)
    with assms(5) [OF False] show ?thesis by (blast intro: name_ok_frame)
  qed (use assms(4) in simp)
  with assms(2,3) show ?thesis by (simp add: threads_inv_def)
qed

lemmas view_defs = entry_def removals_def tasks_def

lemma view_updates [simp]:
  "entry (s\<lparr>links := x\<rparr>) = entry s" "removals (s\<lparr>links := x\<rparr>) = removals s" "tasks (s\<lparr>links := x\<rparr>) = tasks s"
  "entry (s\<lparr>to_io := y\<rparr>) = entry s" "removals (s\<lparr>to_io := y\<rparr>) = removals s"
  "entry (s\<lparr>to_server := z\<rparr>) = entry s" "tasks (s\<lparr>to_server := z\<rparr>) = tasks s"
  "removals (s\<lparr>srv := v\<rparr>) = removals s" "tasks (s\<lparr>srv := v\<rparr>) = tasks s"
  by (simp_all add: view_defs fun_eq_iff)

lemma tasks_queue:
  "tasks (queue_task k t s) n = (if task_name t = n then (tasks s n)(k := tasks s n k @ [t]) else tasks s n)"
  by (auto simp: tasks_def queue_task_def fun_eq_iff)

lemma queue_task_simps [simp]:
  "links (queue_task k t s) = links s" "entry (queue_task k t s) = entry s" "removals (queue_task k t s) = removals s"
  "srv (queue_task k t s) = srv s" "srv_exists (queue_task k t s) = srv_exists s"
  by (simp_all add: queue_task_def view_defs fun_eq_iff)

section \<open>Steps\<close>

lemma shutdown_inv:
  assumes inv: "threads_inv s" and l: "links s n = Some l" "life l = kConnected"
  shows "threads_inv (s\<lparr>links := (links s)(n \<mapsto> l\<lparr>life := kDisconnecting\<rparr>)\<rparr>)"
proof (rule threads_inv_step [OF inv, where n = n])
  have "name_ok s n" using inv by (simp add: threads_inv_def)
  with l show "name_ok (s\<lparr>links := (links s)(n \<mapsto> l\<lparr>life := kDisconnecting\<rparr>)\<rparr>) n"
    by (auto simp: name_ok_def phase_ok_def in_table_def out_of_table_def live_def split: option.splits)
qed (use inv in \<open>auto simp: threads_inv_def\<close>)

lemma functor_inv:
  assumes inv: "threads_inv s" and q: "to_io s k = t # ts"
  shows "\<exists>s'. run_task_of t (s\<lparr>to_io := (to_io s)(k := ts)\<rparr>) = Inr s' \<and> threads_inv s'"
proof -
  let ?n = "task_name t" let ?s = "s\<lparr>to_io := (to_io s)(k := ts)\<rparr>"
  have ok: "name_ok s ?n" using inv by (simp add: threads_inv_def)
  have first: "tasks s ?n k = t # filter (\<lambda>t'. task_name t' = ?n) ts" by (simp add: tasks_def q)
  have other: "tasks ?s m = tasks s m" if "m \<noteq> ?n" for m using that q by (auto simp: tasks_def fun_eq_iff)
  have only: "tasks ?s ?n = (\<lambda>j. [])" if "only_at j t' (tasks s ?n)" for j t'
    using that first q by (auto simp: tasks_def only_at_def fun_eq_iff split: if_splits)
  have it: "t' = t" if "only_at j t' (tasks s ?n)" for j t' using that first by (simp add: only_at_def split: if_splits)
  have some: "tasks s ?n \<noteq> (\<lambda>j. [])" using first by (metis list.distinct(1))
  obtain l where l: "links s ?n = Some l" using ok some by (auto simp: name_ok_def phase_ok_def split: option.splits)
  have *: "threads_inv (?s\<lparr>links := (links s)(?n \<mapsto> l')\<rparr>)"
    if "phase_ok ?n (Some l') (entry s ?n) (removals s ?n) (tasks ?s ?n) (tasks_of ?n (posted (srv s)))" for l'
    by (rule threads_inv_step [OF inv, where n = ?n])
      (use inv other that in \<open>simp_all add: threads_inv_def name_ok_def\<close>)
  show ?thesis
  proof (cases "entry s ?n")
    case (Some c)
    then have new: "life l = kConnecting" "\<not> registered l" "removals s ?n = []"
      "only_at (link_loop l) (Established ?n) (tasks s ?n)" "conn_loop c = link_loop l"
      "tasks_of ?n (posted (srv s)) \<noteq> []"
      using ok l some by (auto simp: name_ok_def phase_ok_def in_table_def)
    have "t = Established ?n" using it [OF new(4)] by simp
    then have run: "run_task_of t ?s = with_link ?n link_established ?s" by (metis run_task_of.simps(1))
    let ?l = "l\<lparr>life := kConnected, registered := True\<rparr>"
    have "phase_ok ?n (Some ?l) (entry s ?n) (removals s ?n) (tasks ?s ?n) (tasks_of ?n (posted (srv s)))"
      using new only [OF new(4)] Some by (simp add: phase_ok_def in_table_def live_def)
    from * [OF this] new(1) l run show ?thesis by (simp add: with_link_def link_established_def check_def)
  next
    case None
    then have old: "life l = kDisconnected" "registered l" "removals s ?n = []"
      "only_at (link_loop l) (Destroyed ?n) (tasks s ?n)" "tasks_of ?n (posted (srv s)) \<noteq> []"
      using ok l some by (auto simp: name_ok_def phase_ok_def out_of_table_def split: if_splits)
    have "t = Destroyed ?n" using it [OF old(4)] by simp
    then have run: "run_task_of t ?s = with_link ?n link_destroyed ?s" by (metis run_task_of.simps(2))
    let ?l = "l\<lparr>registered := False\<rparr>"
    have "phase_ok ?n (Some ?l) (entry s ?n) (removals s ?n) (tasks ?s ?n) (tasks_of ?n (posted (srv s)))"
      using old only [OF old(4)] None by (simp add: phase_ok_def out_of_table_def)
    from * [OF this] old(1,2) l run show ?thesis by (simp add: with_link_def link_destroyed_def check_def)
  qed
qed

text \<open>The removal of a closed connection from the table, wherever the request comes from.\<close>

lemma remove_well:
  assumes inv: "srv_exists s" "server_inv (srv s)" and n: "entry s n = Some c" "conn_loop c = k"
    and l: "links s n = Some l" "life l = kDisconnected" "registered l" "link_loop l = k"
    and quiet: "removals s n = []" "tasks s n = (\<lambda>j. [])" "tasks_of n (posted (srv s)) \<noteq> []"
    and others: "\<And>m. m \<noteq> n \<Longrightarrow> name_ok s m"
  shows "\<exists>s'. remove_in_loop n k s = Inr s' \<and> threads_inv s'"
proof -
  let ?sv = "(srv s)\<lparr>connections := filter (\<lambda>c. fst c \<noteq> n) (connections (srv s)), posted := posted (srv s) @ [(k, Destroyed n)]\<rparr>"
  have mem: "(n, c) \<in> set (connections (srv s))" using n(1) by (simp add: entry_def map_of_SomeD)
  then have run: "removeConnectionInLoop n k (srv s) = Inr ?sv"
    by (force simp: removeConnectionInLoop_def check_def)
  have sinv: "server_inv ?sv" using removeConnection_inv [OF inv(2) mem, of n k] n(2) run by simp
  let ?s = "queue_task k (Destroyed n) (s\<lparr>srv := ?sv\<rparr>)"
  have e: "entry (s\<lparr>srv := ?sv\<rparr>) m = (if m = n then None else entry s m)" for m by (simp add: entry_def map_of_remove)
  have q: "tasks ?s m = (if m = n then (tasks s n)(k := tasks s n k @ [Destroyed n]) else tasks s m)" for m
    by (simp add: tasks_queue)
  have p: "tasks_of m (posted (srv ?s)) =
      (if m = n then tasks_of n (posted (srv s)) @ [(k, Destroyed n)] else tasks_of m (posted (srv s)))" for m
    by simp
  have "name_ok ?s m" for m
  proof (cases "m = n")
    case True
    have "only_at k (Destroyed n) ((\<lambda>j. [])(k := [Destroyed n]))" by (simp add: only_at_def fun_eq_iff)
    with True l quiet show ?thesis by (simp add: name_ok_def phase_ok_def out_of_table_def e q p)
  next
    case False
    show ?thesis by (rule name_ok_frame [OF others [OF False]]) (simp_all add: e q False False [symmetric])
  qed
  then have "threads_inv ?s" using inv(1) sinv by (simp add: threads_inv_def)
  moreover have "remove_in_loop n k s = Inr ?s" using inv(1) run by (simp add: remove_in_loop_def)
  ultimately show ?thesis by blast
qed

lemma removal_inv:
  assumes inv: "threads_inv s" and q: "to_server s = (n, k) # rs"
  shows "\<exists>s'. remove_in_loop n k (s\<lparr>to_server := rs\<rparr>) = Inr s' \<and> threads_inv s'"
proof -
  let ?s = "s\<lparr>to_server := rs\<rparr>"
  have r: "removals s m = (if m = n then [(n, k)] else []) @ removals ?s m" for m using q by (simp add: removals_def)
  have ok: "name_ok s n" using inv by (simp add: threads_inv_def)
  then obtain l c where l: "links s n = Some l" "entry s n = Some c" "conn_loop c = link_loop l"
      "life l = kDisconnected" "registered l" "removals s n = [(n, link_loop l)]" "tasks s n = (\<lambda>j. [])"
      "tasks_of n (posted (srv s)) \<noteq> []"
    using r [of n] by (auto simp: name_ok_def phase_ok_def in_table_def out_of_table_def split: option.splits)
  then have k: "link_loop l = k" "removals ?s n = []" using r [of n] by simp_all
  have "name_ok ?s m" if "m \<noteq> n" for m
    by (rule name_ok_frame [of s]) (use inv that r [of m] in \<open>simp_all add: threads_inv_def\<close>)
  then show ?thesis
    using inv l k remove_well [of ?s n c k l] by (simp add: threads_inv_def)
qed

lemma close_inv:
  assumes inv: "threads_inv s" and l: "links s n = Some l" "live l"
  shows "\<exists>s'. close_link n (link_loop l) s = Inr s' \<and> threads_inv s'"
proof -
  let ?s = "s\<lparr>links := (links s)(n \<mapsto> l\<lparr>life := kDisconnected\<rparr>)\<rparr>" let ?k = "link_loop l"
  have ok: "name_ok s n" using inv by (simp add: threads_inv_def)
  with l obtain c where c: "entry s n = Some c" "conn_loop c = ?k" "registered l" "removals s n = []"
      "tasks s n = (\<lambda>j. [])" "tasks_of n (posted (srv s)) \<noteq> []"
    by (auto simp: name_ok_def phase_ok_def in_table_def out_of_table_def live_def split: option.splits)
  have ex: "srv_exists s" "server_inv (srv s)" using inv by (simp_all add: threads_inv_def)
  have closed: "with_link n link_closed s = Inr ?s"
    using l by (auto simp: with_link_def link_closed_def check_def live_def)
  have others: "name_ok ?s m" if "m \<noteq> n" for m
    by (rule name_ok_frame [of s]) (use inv that in \<open>simp_all add: threads_inv_def\<close>)
  show ?thesis
  proof (cases "?k = baseLoop (threadPool (srv s))")
    case True
    have "\<exists>s'. remove_in_loop n ?k ?s = Inr s' \<and> threads_inv s'"
      using ex c others remove_well [of ?s n c ?k "l\<lparr>life := kDisconnected\<rparr>"] by simp
    with True ex closed show ?thesis by (simp add: close_link_def remove_connection_def)
  next
    case False
    let ?t = "?s\<lparr>to_server := to_server s @ [(n, ?k)]\<rparr>"
    have r: "removals ?t m = removals s m @ (if m = n then [(n, ?k)] else [])" for m by (simp add: removals_def)
    have "threads_inv ?t"
      by (rule threads_inv_step [OF inv, where n = n])
        (use ex c r in \<open>simp_all add: name_ok_def phase_ok_def in_table_def\<close>)
    with False ex closed show ?thesis by (simp add: close_link_def remove_connection_def)
  qed
qed

text \<open>A new connection.\<close>

lemma newConnection_shape:
  assumes inv: "server_inv s"
  obtains l s' where "newConnection sock s = Inr s'" and "server_inv s'" and "baseLoop (threadPool s') = baseLoop (threadPool s)"
    and "posted s' = posted s @ [(l, Established (conn_name s (nextConnId s)))]"
    and "connections s' = filter (\<lambda>c. fst c \<noteq> conn_name s (nextConnId s)) (connections s) @
      [(conn_name s (nextConnId s), \<lparr>conn_fd = sock, conn_loop = l\<rparr>)]"
    and "tasks_of (conn_name s (nextConnId s)) (posted s) = []"
proof -
  obtain l p where p: "getNextLoop (threadPool s) = Inr (l, p)" "baseLoop p = baseLoop (threadPool s)"
    using getNextLoop_ok [of "threadPool s"] inv by (auto simp: server_inv_def)
  obtain s' where s': "newConnection sock s = Inr s'" "server_inv s'" using newConnection_inv [OF inv] by blast
  have "tasks_of (conn_name s (nextConnId s)) (posted s) = []" using inv by (simp add: server_inv_def)
  moreover from s'(1) p(1) have "s' = s\<lparr>threadPool := p, nextConnId := nextConnId s + 1,
      connections := filter (\<lambda>c. fst c \<noteq> conn_name s (nextConnId s)) (connections s) @
        [(conn_name s (nextConnId s), \<lparr>conn_fd = sock, conn_loop = l\<rparr>)],
      posted := posted s @ [(l, Established (conn_name s (nextConnId s)))]\<rparr>"
    by (simp add: newConnection_def Let_def conn_name_def)
  ultimately show thesis using s' p(2) by (intro that [where s' = s' and l = l]) simp_all
qed

lemma accept_inv:
  assumes inv: "threads_inv s"
  shows "\<exists>s'. accept_connection sock s = Inr s' \<and> threads_inv s'"
proof -
  let ?n = "conn_name (srv s) (nextConnId (srv s))"
  obtain k sv where sv: "newConnection sock (srv s) = Inr sv" "server_inv sv"
    "baseLoop (threadPool sv) = baseLoop (threadPool (srv s))" "posted sv = posted (srv s) @ [(k, Established ?n)]"
    "connections sv = filter (\<lambda>c. fst c \<noteq> ?n) (connections (srv s)) @ [(?n, \<lparr>conn_fd = sock, conn_loop = k\<rparr>)]"
    "tasks_of ?n (posted (srv s)) = []"
    by (rule newConnection_shape [of "srv s" sock]) (use inv in \<open>simp_all add: threads_inv_def\<close>)
  let ?l = "\<lparr>life = kConnecting, registered = False, link_loop = k\<rparr>"
  let ?s = "s\<lparr>srv := sv, links := (links s)(?n \<mapsto> ?l)\<rparr>"
  have "name_ok s ?n" using inv by (simp add: threads_inv_def)
  then have new: "removals s ?n = []" "tasks s ?n = (\<lambda>j. [])"
    using sv(6) by (auto simp: name_ok_def phase_ok_def split: option.splits)
  have e: "entry (s\<lparr>srv := sv\<rparr>) m = (if m = ?n then Some \<lparr>conn_fd = sock, conn_loop = k\<rparr> else entry s m)" for m
    by (simp add: entry_def sv(5) map_of_remove map_add_def split: option.split)
  have ex: "srv_exists s" using inv by (simp add: threads_inv_def)
  have shape: "accept_connection sock s = run_in_loop k (Established ?n) ?s"
    by (simp add: accept_connection_def sv(1,4))
  show ?thesis
  proof (cases "k = baseLoop (threadPool (srv s))")
    case True
    let ?t = "s\<lparr>srv := sv, links := (links s)(?n \<mapsto> ?l\<lparr>life := kConnected, registered := True\<rparr>)\<rparr>"
    have "run_in_loop k (Established ?n) ?s = Inr ?t"
      using True sv(3) by (simp add: run_in_loop_def with_link_def link_established_def check_def)
    moreover have "threads_inv ?t"
      by (rule threads_inv_step [OF inv, where n = ?n])
        (use ex sv(2,4) new e in \<open>simp_all add: name_ok_def phase_ok_def in_table_def live_def\<close>)
    ultimately show ?thesis using shape by simp
  next
    case False
    let ?t = "queue_task k (Established ?n) ?s"
    have "only_at k (Established ?n) ((\<lambda>j. [])(k := [Established ?n]))" by (simp add: only_at_def fun_eq_iff)
    then have "threads_inv ?t"
      by (intro threads_inv_step [OF inv, where n = ?n])
        (use ex sv(2,4) new e in \<open>simp_all add: name_ok_def phase_ok_def in_table_def tasks_queue\<close>)
    moreover have "run_in_loop k (Established ?n) ?s = Inr ?t" using False sv(3) by (simp add: run_in_loop_def)
    ultimately show ?thesis using shape by simp
  qed
qed

lemma threads_exec_inv:
  assumes "a \<noteq> A_delete" and "threads_inv s" and "threads_exec a s = Some r"
  shows "\<exists>s'. r = Inr s' \<and> threads_inv s'"
proof (cases a)
  case (A_accept sock)
  with assms(3) have "r = accept_connection sock s" by (simp split: if_splits)
  with accept_inv [OF assms(2), of sock] show ?thesis by simp
next
  case (A_functor k)
  with assms functor_inv [OF assms(2), of k] show ?thesis by (fastforce split: list.splits)
next
  case A_removal
  with assms removal_inv [OF assms(2)] show ?thesis by (fastforce split: list.splits)
next
  case (A_close n)
  with assms close_inv [OF assms(2), of n] show ?thesis by (fastforce split: option.splits if_splits)
next
  case (A_shutdown n)
  with assms shutdown_inv [OF assms(2), of n] show ?thesis by (auto split: option.splits if_splits)
qed (use assms(1) in simp)

lemma threads_steps_inv:
  assumes "threads_steps s as r" and "threads_inv s" and "A_delete \<notin> set as"
  shows "\<exists>s'. r = Inr s' \<and> threads_inv s'"
proof -
  have step: "case r of Inl e \<Rightarrow> False | Inr s' \<Rightarrow> threads_inv s'"
    if "a \<in> set as" "threads_inv s" "threads_exec a s = Some r" for a s r
  proof -
    have "a \<noteq> A_delete" using that(1) assms(3) by auto
    from threads_exec_inv [OF this that(2,3)] show ?thesis by auto
  qed
  have "case r of Inl e \<Rightarrow> False | Inr s' \<Rightarrow> threads_inv s'"
    by (rule ts.steps_sound [where as = as and s = s and inv = threads_inv and err = "\<lambda>e. False"])
      (use step assms in auto)
  then show ?thesis by (auto split: sum.splits)
qed

lemma threads_inv_new:
  assumes "0 \<le> n" and "\<not> listening a"
  shows "\<exists>sv a'. started_server loop address name n new_loop a = Inr (sv, a') \<and> threads_inv (threads_new sv)"
proof -
  obtain sv a' where sv: "started_server loop address name n new_loop a = Inr (sv, a')" "server_inv sv"
    using started_server_inv [OF assms, of loop address name new_loop] by blast
  then have "connections sv = []" "posted sv = []"
    using assms by (auto simp: started_server_def server_setThreadNum_def server_start_def TcpServer_new_def setThreadNum_def
      EventLoopThreadPool_new_def pool_start_def Let_def)
  with sv show ?thesis
    by (auto simp: threads_inv_def threads_new_def name_ok_def phase_ok_def view_defs fun_eq_iff)
qed

lemma quiet_name:
  assumes "name_ok s m" and "removals s m = []" and "tasks s m = (\<lambda>k. [])"
  shows "entry s m \<noteq> None \<longleftrightarrow> (\<exists>l. links s m = Some l \<and> live l)"
    and "links s m = Some l \<Longrightarrow> \<not> live l \<Longrightarrow> life l = kDisconnected \<and> \<not> registered l"
proof -
  have ok: "phase_ok m (links s m) (entry s m) [] (\<lambda>k. []) (tasks_of m (posted (srv s)))"
    using assms by (simp add: name_ok_def)
  then show "entry s m \<noteq> None \<longleftrightarrow> (\<exists>l. links s m = Some l \<and> live l)"
    by (cases "links s m"; cases "entry s m") (auto simp: phase_ok_def in_table_def out_of_table_def live_def)
  assume "links s m = Some l" "\<not> live l"
  with ok show "life l = kDisconnected \<and> \<not> registered l"
    by (cases "entry s m") (auto simp: phase_ok_def in_table_def out_of_table_def split: if_splits)
qed

section \<open>Properties\<close>


text \<open>
  A server that is destroyed while connections live in other threads: a connection that its loop closes before
  the functor of the destructor calls back through the pointer to the server that is gone, and so does a
  removal that was waiting. A connection that is shutting down fails its assertion.
\<close>

lemmas threads_defs = threads_new_def accept_connection_def run_in_loop_def queue_task_def with_link_def
  link_established_def link_closed_def link_destroyed_def close_link_def remove_connection_def remove_in_loop_def
  delete_server_def live_def started_server_def server_setThreadNum_def server_start_def TcpServer_new_def
  setThreadNum_def EventLoopThreadPool_new_def pool_start_def Let_def new_acceptor_def newConnection_def
  getNextLoop_def removeConnectionInLoop_def TcpServer_delete_def show_small upt_rec check_def


lemma destroyed_server_dangles:
  "\<exists>sv a'. started_server 0 ''0:80'' ''s'' 2 Suc new_acceptor = Inr (sv, a') \<and>
     threads_steps (threads_new sv) [A_accept 5, A_functor 1, A_delete, A_close ''s-0:80#1''] (Inl Dangling) \<and>
     threads_steps (threads_new sv) [A_accept 5, A_functor 1, A_close ''s-0:80#1'', A_delete, A_removal] (Inl Dangling) \<and>
     threads_steps (threads_new sv) [A_accept 5, A_functor 1, A_shutdown ''s-0:80#1'', A_delete, A_functor 1] (Inl Assert_failed)"
  by (simp add: threads_defs ts.steps_Cons ts.steps_Nil)

end
