(* ===== verification/EventLoop.thy ===== *)
theory EventLoop
  imports Runs
begin

text \<open>
  \<^verbatim>\<open>gg_lib/net/EventLoop.cc\<close> and \<^verbatim>\<open>EventLoopThread.cc\<close>: the loop of a thread and the calls that other
  threads make. Threads interleave: every constructor of \<open>loop_action\<close> is one atomic step, of the
  thread of the loop (its program counter is \<open>pc\<close>) or of another thread, and \<open>loop_exec\<close> executes it
  when it is enabled. A functor or a callback of a channel is a number; \<open>body\<close> tells which calls it
  makes, those of the functors that it runs at once (\<^verbatim>\<open>runInLoop\<close> in the thread of the loop)
  included. \<open>wakeups\<close> is the counter of the event descriptor.

  For the proofs, \<open>queued\<close> and \<open>executed\<close> record the functors that were queued and run, \<open>owed\<close> counts
  the other threads that have changed the state and not yet written to the descriptor, and \<open>early\<close>
  tells that the loop's own thread has queued a functor before it entered the loop.
\<close>

section \<open>The state\<close>

datatype loop_call = Call_queueInLoop nat | Call_quit

datatype active = Wakeup_channel | Active_channel nat

datatype loop_pc =
    At_init
  | At_loop
  | At_test
  | At_poll
  | At_events "active list"
  | At_swap
  | At_functors "nat list"
  | At_return
  | At_exit

record event_loop =
  pc :: loop_pc
  looping :: bool
  quit :: bool
  handlingEvents :: bool
  callingPendingFunctors :: bool
  iteration :: nat
  pendingFunctors :: "nat list"
  wakeups :: nat
  published :: bool
  owed :: nat
  early :: bool
  queued :: "nat list"
  executed :: "nat list"

definition EventLoop_new :: event_loop where
  "EventLoop_new =
     \<lparr>pc = At_init, looping = False, quit = False, handlingEvents = False, callingPendingFunctors = False,
      iteration = 0, pendingFunctors = [], wakeups = 0, published = False, owed = 0, early = False,
      queued = [], executed = []\<rparr>"

section \<open>Operations\<close>

definition wakeup :: "event_loop \<Rightarrow> event_loop" where
  "wakeup s = s\<lparr>wakeups := wakeups s + 1\<rparr>"

text \<open>\<^verbatim>\<open>handleRead\<close> of the wake-up channel reads the counter and so resets it.\<close>

definition wakeup_handleRead :: "event_loop \<Rightarrow> event_loop" where
  "wakeup_handleRead s = s\<lparr>wakeups := 0\<rparr>"

definition push_functor :: "nat \<Rightarrow> event_loop \<Rightarrow> event_loop" where
  "push_functor f s = s\<lparr>pendingFunctors := pendingFunctors s @ [f], queued := queued s @ [f]\<rparr>"

text \<open>In the thread of the loop: \<open>loop_queueInLoop\<close>, \<open>quit_in_loop\<close>, and what a callback calls.\<close>

definition loop_queueInLoop :: "nat \<Rightarrow> event_loop \<Rightarrow> event_loop" where
  "loop_queueInLoop f s =
     (let s1 = push_functor f s in if callingPendingFunctors s1 then wakeup s1 else s1)"

definition quit_in_loop :: "event_loop \<Rightarrow> event_loop" where
  "quit_in_loop s = s\<lparr>quit := True\<rparr>"

fun make_call :: "loop_call \<Rightarrow> event_loop \<Rightarrow> event_loop" where
  "make_call (Call_queueInLoop f) s = loop_queueInLoop f s"
| "make_call Call_quit s = quit_in_loop s"

definition run_callback :: "(nat \<Rightarrow> loop_call list) \<Rightarrow> nat \<Rightarrow> event_loop \<Rightarrow> event_loop" where
  "run_callback body f s = fold make_call (body f) s"

text \<open>\<^verbatim>\<open>runInLoop\<close> in the thread of the loop calls its argument.\<close>

definition runInLoop :: "(nat \<Rightarrow> loop_call list) \<Rightarrow> nat \<Rightarrow> event_loop \<Rightarrow> event_loop" where
  "runInLoop body f s = run_callback body f s"

fun handle_active :: "(nat \<Rightarrow> loop_call list) \<Rightarrow> active \<Rightarrow> event_loop \<Rightarrow> event_loop" where
  "handle_active body Wakeup_channel s = wakeup_handleRead s"
| "handle_active body (Active_channel c) s = run_callback body c s"

text \<open>
  The parts of \<^verbatim>\<open>loop\<close> and \<^verbatim>\<open>doPendingFunctors\<close> between which other threads may run: entering,
  the test of \<^verbatim>\<open>quit_\<close>, the return of the poller, the swap of the vector, a call of a functor.
\<close>

definition loop_enter :: "event_loop \<Rightarrow> event_loop" where
  "loop_enter s = s\<lparr>looping := True, quit := False, pc := At_test\<rparr>"

definition loop_test :: "event_loop \<Rightarrow> event_loop" where
  "loop_test s = (if quit s then s\<lparr>looping := False, pc := At_return\<rparr> else s\<lparr>pc := At_poll\<rparr>)"

definition loop_polled :: "active list \<Rightarrow> event_loop \<Rightarrow> event_loop" where
  "loop_polled activeChannels s =
     s\<lparr>iteration := iteration s + 1, handlingEvents := True, pc := At_events activeChannels\<rparr>"

definition loop_handled :: "event_loop \<Rightarrow> event_loop" where
  "loop_handled s = s\<lparr>handlingEvents := False, callingPendingFunctors := True, pc := At_swap\<rparr>"

definition swap_functors :: "event_loop \<Rightarrow> event_loop" where
  "swap_functors s = s\<lparr>pendingFunctors := [], early := False, pc := At_functors (pendingFunctors s)\<rparr>"

definition call_functor :: "(nat \<Rightarrow> loop_call list) \<Rightarrow> nat \<Rightarrow> nat list \<Rightarrow> event_loop \<Rightarrow> event_loop" where
  "call_functor body f fs s = (run_callback body f s)\<lparr>pc := At_functors fs, executed := executed s @ [f]\<rparr>"

definition functors_done :: "event_loop \<Rightarrow> event_loop" where
  "functors_done s = s\<lparr>callingPendingFunctors := False, pc := At_test\<rparr>"

text \<open>The other threads: \<^verbatim>\<open>queueInLoop\<close> and \<^verbatim>\<open>quit\<close> before their write to the descriptor.\<close>

definition push_from_outside :: "nat \<Rightarrow> event_loop \<Rightarrow> event_loop" where
  "push_from_outside f s = (push_functor f s)\<lparr>owed := owed s + 1\<rparr>"

definition quit_from_outside :: "event_loop \<Rightarrow> event_loop" where
  "quit_from_outside s = s\<lparr>quit := True, owed := owed s + 1\<rparr>"

text \<open>\<^verbatim>\<open>threadFunc\<close> of \<^verbatim>\<open>EventLoopThread\<close>: the initialisation callback and the publication; its end.\<close>

definition publish :: "(nat \<Rightarrow> loop_call list) \<Rightarrow> nat list \<Rightarrow> event_loop \<Rightarrow> event_loop" where
  "publish body init s =
     (let s1 = fold (runInLoop body) init s
      in s1\<lparr>pc := At_loop, published := True, early := pendingFunctors s1 \<noteq> []\<rparr>)"

definition unpublish :: "event_loop \<Rightarrow> event_loop" where
  "unpublish s = s\<lparr>published := False, pc := At_exit\<rparr>"

lemmas part_defs [simp] = loop_enter_def loop_test_def loop_polled_def loop_handled_def swap_functors_def
  call_functor_def functors_done_def push_from_outside_def quit_from_outside_def publish_def unpublish_def

section \<open>Steps\<close>

datatype loop_action =
    Enter_thread "nat list"
  | Enter_loop
  | Test_quit
  | Poll "active list"
  | Handle_event
  | Events_done
  | Swap_functors
  | Run_functor
  | Functors_done
  | Leave_thread
  | Push nat
  | Set_quit
  | Write_wakeup

text \<open>
  \<open>Enter_thread\<close>: the constructor and the initialisation callback of \<open>threadFunc\<close>, which may run
  functors of its own, up to the publication of the pointer. \<open>Poll\<close>: the poller reports the wake-up
  channel exactly when the counter is not zero; with no active channel it has timed out. \<open>Push\<close> and
  \<open>Set_quit\<close>, of other threads that hold the pointer, owe a write.
\<close>

fun loop_exec :: "(nat \<Rightarrow> loop_call list) \<Rightarrow> loop_action \<Rightarrow> event_loop \<Rightarrow> event_loop option" where
  "loop_exec body (Enter_thread init) s = (if pc s = At_init then Some (publish body init s) else None)"
| "loop_exec body Enter_loop s = (if pc s = At_loop \<and> \<not> looping s then Some (loop_enter s) else None)"
| "loop_exec body Test_quit s = (if pc s = At_test then Some (loop_test s) else None)"
| "loop_exec body (Poll activeChannels) s =
     (if pc s = At_poll \<and> (Wakeup_channel \<in> set activeChannels \<longleftrightarrow> wakeups s > 0)
      then Some (loop_polled activeChannels s) else None)"
| "loop_exec body Handle_event s =
     (case pc s of
        At_events (c # cs) \<Rightarrow> Some ((handle_active body c s)\<lparr>pc := At_events cs\<rparr>)
      | _ \<Rightarrow> None)"
| "loop_exec body Events_done s = (if pc s = At_events [] then Some (loop_handled s) else None)"
| "loop_exec body Swap_functors s = (if pc s = At_swap then Some (swap_functors s) else None)"
| "loop_exec body Run_functor s =
     (case pc s of
        At_functors (f # fs) \<Rightarrow> Some (call_functor body f fs s)
      | _ \<Rightarrow> None)"
| "loop_exec body Functors_done s = (if pc s = At_functors [] then Some (functors_done s) else None)"
| "loop_exec body Leave_thread s = (if pc s = At_return then Some (unpublish s) else None)"
| "loop_exec body (Push f) s = (if published s then Some (push_from_outside f s) else None)"
| "loop_exec body Set_quit s = (if published s then Some (quit_from_outside s) else None)"
| "loop_exec body Write_wakeup s =
     (if owed s > 0 then Some ((wakeup s)\<lparr>owed := owed s - 1\<rparr>) else None)"

inductive loop_step :: "(nat \<Rightarrow> loop_call list) \<Rightarrow> event_loop \<Rightarrow> loop_action \<Rightarrow> event_loop \<Rightarrow> bool" for body where
  step: "loop_exec body a s = Some s' \<Longrightarrow> loop_step body s a s'"

inductive loop_steps :: "(nat \<Rightarrow> loop_call list) \<Rightarrow> event_loop \<Rightarrow> loop_action list \<Rightarrow> event_loop \<Rightarrow> bool" for body where
  none: "loop_steps body s [] s"
| some: "loop_step body s a s1 \<Longrightarrow> loop_steps body s1 acts s' \<Longrightarrow> loop_steps body s (a # acts) s'"

inductive_simps loop_step_simps: "loop_step body s a s'"
inductive_cases loop_steps_Cons: "loop_steps body s (a # acts) s'"
inductive_cases loop_steps_Nil: "loop_steps body s [] s'"

definition reachable :: "(nat \<Rightarrow> loop_call list) \<Rightarrow> event_loop \<Rightarrow> bool" where
  "reachable body s \<longleftrightarrow> (\<exists>acts. loop_steps body EventLoop_new acts s)"

text \<open>Execution of a list of actions, for the witnesses.\<close>

fun loop_run :: "(nat \<Rightarrow> loop_call list) \<Rightarrow> loop_action list \<Rightarrow> event_loop \<Rightarrow> event_loop option" where
  "loop_run body [] s = Some s"
| "loop_run body (a # acts) s = Option.bind (loop_exec body a s) (loop_run body acts)"

lemma loop_run_steps: "loop_steps body s acts s' \<longleftrightarrow> loop_run body acts s = Some s'"
proof (induction acts arbitrary: s)
  case Nil
  show ?case by (auto intro: loop_steps.none elim: loop_steps_Nil)
next
  case (Cons a acts)
  show ?case
    by (cases "loop_exec body a s")
      (auto simp: loop_step_simps Cons.IH [symmetric] intro: loop_steps.some elim!: loop_steps_Cons)
qed

lemma reachable_run: "loop_run body acts EventLoop_new = Some s \<Longrightarrow> reachable body s"
  by (auto simp: reachable_def loop_run_steps)

lemma loop_run_append:
  "loop_run body (acts1 @ acts2) s = Option.bind (loop_run body acts1 s) (loop_run body acts2)"
  by (induction acts1 arbitrary: s) (simp_all split: bind_split)

lemma reachable_induct [consumes 1, case_names new step]:
  assumes "reachable body s" and "P EventLoop_new"
    and "\<And>s a s'. reachable body s \<Longrightarrow> P s \<Longrightarrow> loop_exec body a s = Some s' \<Longrightarrow> P s'"
  shows "P s"
proof -
  obtain acts where "loop_run body acts EventLoop_new = Some s"
    using assms(1) by (auto simp: reachable_def loop_run_steps)
  then show ?thesis
  proof (induction acts arbitrary: s rule: rev_induct)
    case Nil
    with assms(2) show ?case by simp
  next
    case (snoc a acts)
    then obtain s1 where s1: "loop_run body acts EventLoop_new = Some s1" "loop_exec body a s1 = Some s"
      by (auto simp: loop_run_append split: bind_splits)
    from assms(3) [OF reachable_run [OF s1(1)] snoc.IH [OF s1(1)] s1(2)] show ?case .
  qed
qed

end
