(* ===== verification/EventLoopProps.thy ===== *)
theory EventLoopProps
  imports EventLoop
begin

text \<open>
  What an event loop promises to the threads that use it: every functor that is queued runs once, in
  the order of the queue; the loop does not go to sleep with a functor or a \<^verbatim>\<open>quit\<close> pending that
  nobody is about to announce; a turn runs all that is pending. And what it does not promise: a
  \<^verbatim>\<open>quit\<close> that comes before \<^verbatim>\<open>loop\<close> is forgotten.
\<close>

section \<open>Calls\<close>

definition calls_queued :: "loop_call list \<Rightarrow> nat list" where
  "calls_queued calls = concat (map (\<lambda>c. case c of Call_queueInLoop f \<Rightarrow> [f] | Call_quit \<Rightarrow> []) calls)"

lemma calls_queued_simps [simp]:
  "calls_queued [] = []" "calls_queued (Call_queueInLoop f # cs) = f # calls_queued cs"
  "calls_queued (Call_quit # cs) = calls_queued cs"
  by (simp_all add: calls_queued_def)

definition after_calls :: "nat list \<Rightarrow> bool \<Rightarrow> event_loop \<Rightarrow> event_loop" where
  "after_calls fs q s =
     s\<lparr>pendingFunctors := pendingFunctors s @ fs, queued := queued s @ fs, quit := quit s \<or> q,
       wakeups := wakeups s + (if callingPendingFunctors s then length fs else 0)\<rparr>"

lemma after_calls_simps [simp]:
  "pc (after_calls fs q s) = pc s" "looping (after_calls fs q s) = looping s"
  "callingPendingFunctors (after_calls fs q s) = callingPendingFunctors s"
  "pendingFunctors (after_calls fs q s) = pendingFunctors s @ fs" "quit (after_calls fs q s) \<longleftrightarrow> quit s \<or> q"
  "wakeups (after_calls fs q s) = wakeups s + (if callingPendingFunctors s then length fs else 0)"
  "published (after_calls fs q s) = published s" "owed (after_calls fs q s) = owed s"
  "early (after_calls fs q s) = early s" "queued (after_calls fs q s) = queued s @ fs"
  "executed (after_calls fs q s) = executed s"
  by (simp_all add: after_calls_def)

lemma after_calls_none [simp]: "after_calls [] False s = s"
  by (simp add: after_calls_def)

lemma after_calls_twice: "after_calls fs' q' (after_calls fs q s) = after_calls (fs @ fs') (q \<or> q') s"
  by (simp add: after_calls_def)

lemma make_call_effect: "make_call c s = after_calls (calls_queued [c]) (c = Call_quit) s"
  by (cases c) (simp_all add: loop_queueInLoop_def push_functor_def wakeup_def quit_in_loop_def Let_def after_calls_def)

lemma fold_make_call: "fold make_call calls s = after_calls (calls_queued calls) (Call_quit \<in> set calls) s"
proof (induction calls arbitrary: s)
  case (Cons c calls)
  then show ?case by (cases c) (simp_all add: make_call_effect after_calls_twice del: make_call.simps)
qed simp

lemma run_callback_effect:
  "run_callback body f s = after_calls (calls_queued (body f)) (Call_quit \<in> set (body f)) s"
  by (simp add: run_callback_def fold_make_call)

lemma fold_runInLoop: "\<exists>fs q. fold (runInLoop body) init s = after_calls fs q s"
proof (induction init arbitrary: s)
  case Nil
  show ?case by (intro exI [of _ "[]"] exI [of _ False]) simp
next
  case (Cons f init)
  from Cons [of "runInLoop body f s"] show ?case
    by (auto simp: runInLoop_def run_callback_effect after_calls_twice)
qed

section \<open>The invariant\<close>

fun todo :: "loop_pc \<Rightarrow> nat list" where
  "todo (At_functors fs) = fs"
| "todo _ = []"

fun calling_at :: "loop_pc \<Rightarrow> bool" where
  "calling_at At_swap \<longleftrightarrow> True"
| "calling_at (At_functors fs) \<longleftrightarrow> True"
| "calling_at _ \<longleftrightarrow> False"

fun looping_at :: "loop_pc \<Rightarrow> bool" where
  "looping_at At_init \<longleftrightarrow> False"
| "looping_at At_loop \<longleftrightarrow> False"
| "looping_at At_return \<longleftrightarrow> False"
| "looping_at At_exit \<longleftrightarrow> False"
| "looping_at _ \<longleftrightarrow> True"

text \<open>The points from which the loop reaches the poller without looking at the pending functors.\<close>

fun before_poll :: "loop_pc \<Rightarrow> bool" where
  "before_poll At_loop \<longleftrightarrow> True"
| "before_poll At_test \<longleftrightarrow> True"
| "before_poll At_poll \<longleftrightarrow> True"
| "before_poll (At_functors fs) \<longleftrightarrow> True"
| "before_poll _ \<longleftrightarrow> False"

definition announced :: "event_loop \<Rightarrow> bool" where
  "announced s \<longleftrightarrow> wakeups s > 0 \<or> owed s > 0"

definition loop_inv :: "event_loop \<Rightarrow> bool" where
  "loop_inv s \<longleftrightarrow>
     queued s = executed s @ todo (pc s) @ pendingFunctors s \<and>
     callingPendingFunctors s = calling_at (pc s) \<and> looping s = looping_at (pc s) \<and>
     (pc s = At_init \<longrightarrow> pendingFunctors s = [] \<and> \<not> published s) \<and>
     (before_poll (pc s) \<and> pendingFunctors s \<noteq> [] \<longrightarrow> announced s \<or> early s) \<and>
     (pc s = At_poll \<and> quit s \<longrightarrow> announced s)"

lemma loop_inv_new: "loop_inv EventLoop_new"
  by (simp add: loop_inv_def EventLoop_new_def)

lemma loop_inv_step:
  assumes inv: "loop_inv s" and step: "loop_exec body a s = Some s'"
  shows "loop_inv s'"
proof (cases a)
  case (Enter_thread init)
  with step have pc: "pc s = At_init" by (simp split: if_splits)
  obtain fs q where "fold (runInLoop body) init s = after_calls fs q s"
    using fold_runInLoop [of body init s] by blast
  with step Enter_thread pc inv show ?thesis by (auto simp: loop_inv_def announced_def Let_def)
next
  case Handle_event
  with step obtain c cs where pc: "pc s = At_events (c # cs)"
    and s': "s' = (handle_active body c s)\<lparr>pc := At_events cs\<rparr>"
    by (auto split: loop_pc.splits list.splits)
  with inv show ?thesis
    by (cases c) (simp_all add: loop_inv_def wakeup_handleRead_def run_callback_effect)
next
  case Run_functor
  with step obtain f fs where "pc s = At_functors (f # fs)"
    and "s' = (run_callback body f s)\<lparr>pc := At_functors fs, executed := executed s @ [f]\<rparr>"
    by (auto split: loop_pc.splits list.splits)
  with inv show ?thesis by (auto simp: loop_inv_def run_callback_effect announced_def)
next
  case (Push f)
  with step have "published s" "s' = (push_functor f s)\<lparr>owed := owed s + 1\<rparr>" by (simp_all split: if_splits)
  with inv show ?thesis by (simp add: loop_inv_def push_functor_def announced_def)
next
  case Write_wakeup
  with step have s': "s' = (wakeup s)\<lparr>owed := owed s - 1\<rparr>" by (simp split: if_splits)
  then have "announced s'" by (simp add: announced_def wakeup_def)
  with s' inv show ?thesis by (simp add: loop_inv_def wakeup_def)
next
  case Enter_loop
  with step inv show ?thesis by (simp add: loop_inv_def announced_def split: if_splits) force
next
  case Test_quit
  with step inv show ?thesis by (simp add: loop_inv_def announced_def split: if_splits) force+
next
  case (Poll cs)
  with step inv show ?thesis by (simp add: loop_inv_def split: if_splits) force
next
  case Events_done
  with step inv show ?thesis by (simp add: loop_inv_def split: if_splits) force
next
  case Swap_functors
  with step inv show ?thesis by (simp add: loop_inv_def split: if_splits) force
next
  case Functors_done
  with step inv show ?thesis by (simp add: loop_inv_def announced_def split: if_splits) force
next
  case Leave_thread
  with step inv show ?thesis by (simp add: loop_inv_def split: if_splits) force
next
  case Set_quit
  with step inv show ?thesis by (simp add: loop_inv_def announced_def split: if_splits) force
qed

lemma reachable_inv: "reachable body s \<Longrightarrow> loop_inv s"
  by (induction rule: reachable_induct) (simp_all add: loop_inv_new loop_inv_step)

section \<open>A turn of the loop\<close>

text \<open>The events of a turn: what the poller reports, with the wake-up channel first when it is due.\<close>

definition turn_actions :: "nat list \<Rightarrow> event_loop \<Rightarrow> active list" where
  "turn_actions cs s = (if wakeups s > 0 then [Wakeup_channel] else []) @ map Active_channel cs"

lemma loop_steps_trans:
  "loop_steps body s acts1 s1 \<Longrightarrow> loop_steps body s1 acts2 s2 \<Longrightarrow> loop_steps body s (acts1 @ acts2) s2"
  by (simp add: loop_run_steps loop_run_append)

lemma loop_steps_one: "loop_exec body a s = Some s' \<Longrightarrow> loop_steps body s [a] s'"
  by (simp add: loop_run_steps)

lemma handle_events:
  assumes "pc s = At_events cs"
  shows "\<exists>s' fs. loop_steps body s (replicate (length cs) Handle_event) s' \<and> pc s' = At_events [] \<and>
     pendingFunctors s' = pendingFunctors s @ fs \<and> executed s' = executed s"
  using assms
proof (induction cs arbitrary: s)
  case Nil
  then show ?case by (auto intro: loop_steps.none)
next
  case (Cons c cs)
  let ?s = "(handle_active body c s)\<lparr>pc := At_events cs\<rparr>"
  have step: "loop_steps body s [Handle_event] ?s"
    using Cons.prems by (intro loop_steps_one) simp
  have "\<exists>fs. pendingFunctors ?s = pendingFunctors s @ fs \<and> executed ?s = executed s"
    by (cases c) (simp_all add: wakeup_handleRead_def run_callback_effect)
  then obtain fs where fs: "pendingFunctors ?s = pendingFunctors s @ fs" "executed ?s = executed s" by blast
  obtain s' fs' where s': "loop_steps body ?s (replicate (length cs) Handle_event) s'" "pc s' = At_events []"
    "pendingFunctors s' = pendingFunctors ?s @ fs'" "executed s' = executed ?s"
    using Cons.IH [of ?s] by auto
  from loop_steps_trans [OF step s'(1)] s' fs show ?case by auto
qed

lemma run_functors:
  assumes "pc s = At_functors fs"
  shows "\<exists>s'. loop_steps body s (replicate (length fs) Run_functor) s' \<and> pc s' = At_functors [] \<and> executed s' = executed s @ fs"
  using assms
proof (induction fs arbitrary: s)
  case Nil
  then show ?case by (auto intro: loop_steps.none)
next
  case (Cons f fs)
  let ?s = "(run_callback body f s)\<lparr>pc := At_functors fs, executed := executed s @ [f]\<rparr>"
  have step: "loop_steps body s [Run_functor] ?s"
    using Cons.prems by (intro loop_steps_one) simp
  obtain s' where s': "loop_steps body ?s (replicate (length fs) Run_functor) s'" "pc s' = At_functors []"
    "executed s' = executed ?s @ fs" using Cons.IH [of ?s] by auto
  from loop_steps_trans [OF step s'(1)] s' show ?case by (auto simp: run_callback_effect)
qed

lemma turn:
  assumes "pc s = At_poll"
  shows "\<exists>acts s' fs. Set_quit \<notin> set acts \<and> (\<forall>f. Push f \<notin> set acts) \<and> Write_wakeup \<notin> set acts \<and>
     loop_run body (Poll (turn_actions cs s) # acts) s = Some s' \<and> pc s' = At_test \<and>
     executed s' = executed s @ pendingFunctors s @ fs"
proof -
  let ?es = "turn_actions cs s"
  let ?s1 = "s\<lparr>iteration := iteration s + 1, handlingEvents := True, pc := At_events ?es\<rparr>"
  have poll: "loop_steps body s [Poll ?es] ?s1"
    using assms by (intro loop_steps_one) (auto simp: turn_actions_def)
  obtain s2 fs where s2: "loop_steps body ?s1 (replicate (length ?es) Handle_event) s2" "pc s2 = At_events []"
    "pendingFunctors s2 = pendingFunctors s @ fs" "executed s2 = executed s"
    using handle_events [of ?s1 ?es body] by auto
  let ?s3 = "s2\<lparr>handlingEvents := False, callingPendingFunctors := True, pc := At_swap\<rparr>"
  let ?s4 = "?s3\<lparr>pendingFunctors := [], early := False, pc := At_functors (pendingFunctors s2)\<rparr>"
  have s3: "loop_steps body s2 [Events_done] ?s3" using s2(2) by (intro loop_steps_one) simp
  have s4: "loop_steps body ?s3 [Swap_functors] ?s4" by (intro loop_steps_one) simp
  obtain s5 where s5: "loop_steps body ?s4 (replicate (length (pendingFunctors s2)) Run_functor) s5"
    "pc s5 = At_functors []" "executed s5 = executed s2 @ pendingFunctors s2"
    using run_functors [of ?s4 "pendingFunctors s2" body] by auto
  have s6: "loop_steps body s5 [Functors_done] (s5\<lparr>callingPendingFunctors := False, pc := At_test\<rparr>)"
    using s5(2) by (intro loop_steps_one) simp
  note steps = loop_steps_trans [OF poll loop_steps_trans [OF s2(1) loop_steps_trans [OF s3
    loop_steps_trans [OF s4 loop_steps_trans [OF s5(1) s6]]]]]
  define acts where "acts = replicate (length ?es) Handle_event @ [Events_done] @ [Swap_functors] @
    replicate (length (pendingFunctors s2)) Run_functor @ [Functors_done]"
  have "loop_run body (Poll ?es # acts) s = Some (s5\<lparr>callingPendingFunctors := False, pc := At_test\<rparr>)"
    using steps by (simp add: loop_run_steps acts_def)
  moreover have "Set_quit \<notin> set acts" "\<forall>f. Push f \<notin> set acts" "Write_wakeup \<notin> set acts"
    by (simp_all add: acts_def)
  moreover have "executed s5 = executed s @ pendingFunctors s @ fs" using s2 s5 by simp
  ultimately show ?thesis
    by (intro exI [of _ acts] exI [of _ "s5\<lparr>callingPendingFunctors := False, pc := At_test\<rparr>"] exI [of _ fs])
      (simp del: loop_run.simps)
qed

section \<open>A forgotten quit\<close>

lemma no_quit_step:
  assumes "\<And>f. Call_quit \<notin> set (body f)" and "a \<noteq> Set_quit" and "loop_exec body a s = Some s'"
    and "\<not> quit s" and "pc s \<notin> {At_init, At_return, At_exit}"
  shows "\<not> quit s' \<and> pc s' \<notin> {At_init, At_return, At_exit}"
proof (cases a)
  case Handle_event
  with assms(3) obtain c cs where "pc s = At_events (c # cs)" "s' = (handle_active body c s)\<lparr>pc := At_events cs\<rparr>"
    by (auto split: loop_pc.splits list.splits)
  with assms show ?thesis by (cases c) (simp_all add: wakeup_handleRead_def run_callback_effect)
next
  case Run_functor
  with assms(3) obtain f fs where "pc s = At_functors (f # fs)"
    "s' = (run_callback body f s)\<lparr>pc := At_functors fs, executed := executed s @ [f]\<rparr>"
    by (auto split: loop_pc.splits list.splits)
  with assms show ?thesis by (simp add: run_callback_effect)
qed (use assms in \<open>auto simp: push_functor_def wakeup_def split: if_splits\<close>)

lemma no_quit_run:
  assumes "\<And>f. Call_quit \<notin> set (body f)" and "Set_quit \<notin> set acts" and "loop_run body acts s = Some s'"
    and "\<not> quit s" and "pc s \<notin> {At_init, At_return, At_exit}"
  shows "pc s' \<notin> {At_init, At_return, At_exit}"
  using assms(2-5)
proof (induction acts arbitrary: s)
  case (Cons a acts)
  then obtain s1 where s1: "loop_exec body a s = Some s1" "loop_run body acts s1 = Some s'"
    by (auto split: bind_splits)
  have "\<not> quit s1 \<and> pc s1 \<notin> {At_init, At_return, At_exit}"
    by (rule no_quit_step [OF assms(1) _ s1(1)]) (use Cons.prems in auto)
  with Cons.IH [OF _ s1(2)] Cons.prems(1) show ?case by simp
qed simp

section \<open>The properties\<close>

text \<open>
  C22. At every moment the functors that were queued, in the order of the queue, are those that ran,
  then those of the batch that is running, then those pending: each runs at most once and in order.
\<close>

theorem functors_run_in_order:
  assumes "reachable body s"
  shows "queued s = executed s @ todo (pc s) @ pendingFunctors s"
  using reachable_inv [OF assms] by (simp add: loop_inv_def)

text \<open>
  C23. No wake-up is lost: when the loop is about to sleep in the poller and no other thread is about
  to write to the event descriptor, there is no pending \<^verbatim>\<open>quit\<close> and no pending functor, except those
  that the loop's own thread queued before it entered the loop.
\<close>

theorem no_lost_wakeup:
  assumes "reachable body s" and "pc s = At_poll" and "wakeups s = 0" and "owed s = 0"
  shows "\<not> quit s \<and> (pendingFunctors s = [] \<or> early s)"
  using reachable_inv [OF assms(1)] assms(2-4) by (auto simp: loop_inv_def announced_def)

text \<open>
  A turn returns, whatever channels are active and whatever the callbacks queue, and runs every
  functor that was pending when it began, in order and first.
\<close>

theorem turn_runs_pending:
  assumes "pc s = At_poll"
  shows "\<exists>acts s' fs. Set_quit \<notin> set acts \<and> (\<forall>f. Push f \<notin> set acts) \<and> Write_wakeup \<notin> set acts \<and>
     loop_run body (Poll (turn_actions cs s) # acts) s = Some s' \<and> pc s' = At_test \<and>
     executed s' = executed s @ pendingFunctors s @ fs"
  using turn [OF assms, of body cs] by blast

text \<open>
  A \<^verbatim>\<open>quit\<close> between the publication of the loop and the call of \<^verbatim>\<open>loop\<close> is forgotten: unless
  somebody quits again, the thread never leaves the loop, and the destructor of
  \<^verbatim>\<open>EventLoopThread\<close>, which quits once and joins, does not return.
\<close>

theorem quit_before_loop_is_forgotten:
  assumes "\<And>f. Call_quit \<notin> set (body f)"
    and "loop_run body [Enter_thread init, Set_quit, Write_wakeup, Enter_loop] EventLoop_new = Some s"
    and "Set_quit \<notin> set acts" and "loop_run body acts s = Some s'"
  shows "\<not> quit s \<and> pc s' \<noteq> At_return \<and> pc s' \<noteq> At_exit"
proof -
  have s: "\<not> quit s" "pc s = At_test"
    using assms(2) by (auto split: bind_splits if_splits simp: Let_def)
  with no_quit_run [OF assms(1,3,4)] show ?thesis by simp
qed

section \<open>Witnesses\<close>

text \<open>Functor 1 queues functor 2; no functor quits.\<close>

definition chain :: "nat \<Rightarrow> loop_call list" where
  "chain f = (if f = 1 then [Call_queueInLoop 2] else [])"

definition chain_state :: event_loop where
  "chain_state = the (loop_run chain [Enter_thread [], Enter_loop, Test_quit, Push 1, Write_wakeup,
     Poll [Wakeup_channel], Handle_event, Events_done, Swap_functors, Run_functor, Functors_done, Test_quit] EventLoop_new)"

lemma chain_state_run:
  "loop_run chain [Enter_thread [], Enter_loop, Test_quit, Push 1, Write_wakeup,
     Poll [Wakeup_channel], Handle_event, Events_done, Swap_functors, Run_functor, Functors_done, Test_quit] EventLoop_new =
     Some chain_state"
  and chain_state_fields: "pc chain_state = At_poll" "pendingFunctors chain_state = [2]" "executed chain_state = [1]"
    "wakeups chain_state = 1"
  unfolding chain_state_def
  by (simp_all add: EventLoop_new_def push_functor_def wakeup_def wakeup_handleRead_def run_callback_def
      loop_queueInLoop_def chain_def Let_def)

lemma functors_run_in_order_witness: "queued chain_state = executed chain_state @ todo (pc chain_state) @ [2]"
  using functors_run_in_order [OF reachable_run [OF chain_state_run]] by (simp add: chain_state_fields)

definition idle_state :: event_loop where
  "idle_state = the (loop_run chain [Enter_thread [], Enter_loop, Test_quit] EventLoop_new)"

lemma no_lost_wakeup_witness: "\<not> quit idle_state \<and> (pendingFunctors idle_state = [] \<or> early idle_state)"
proof (rule no_lost_wakeup)
  show "reachable chain idle_state"
    by (rule reachable_run [of _ "[Enter_thread [], Enter_loop, Test_quit]"])
      (simp add: idle_state_def EventLoop_new_def Let_def)
  show "pc idle_state = At_poll" "wakeups idle_state = 0" "owed idle_state = 0"
    by (simp_all add: idle_state_def EventLoop_new_def Let_def)
qed

lemma turn_runs_pending_witness:
  "\<exists>acts s' fs. loop_run chain (Poll (turn_actions [] chain_state) # acts) chain_state = Some s' \<and>
     executed s' = [1] @ [2] @ fs"
  using turn_runs_pending [OF chain_state_fields(1), of chain "[]"] unfolding chain_state_fields by blast

lemma quit_before_loop_is_forgotten_witness:
  "\<exists>s s'. loop_run chain [Enter_thread [], Set_quit, Write_wakeup, Enter_loop] EventLoop_new = Some s \<and>
     loop_run chain [Test_quit, Poll [Wakeup_channel]] s = Some s' \<and> pc s' \<noteq> At_return \<and> pc s' \<noteq> At_exit"
proof -
  have "\<exists>s s'. loop_run chain [Enter_thread [], Set_quit, Write_wakeup, Enter_loop] EventLoop_new = Some s \<and>
     loop_run chain [Test_quit, Poll [Wakeup_channel]] s = Some s'"
    by (simp add: EventLoop_new_def wakeup_def Let_def)
  then obtain s s' where run: "loop_run chain [Enter_thread [], Set_quit, Write_wakeup, Enter_loop] EventLoop_new = Some s"
    "loop_run chain [Test_quit, Poll [Wakeup_channel]] s = Some s'" by blast
  have "\<not> quit s \<and> pc s' \<noteq> At_return \<and> pc s' \<noteq> At_exit"
    by (rule quit_before_loop_is_forgotten [OF _ run(1) _ run(2)]) (simp_all add: chain_def)
  with run show ?thesis by blast
qed

end
