(* ===== verification/AsyncLogging.thy ===== *)
theory AsyncLogging
  imports LogStream
begin

text \<open>
  \<^verbatim>\<open>gg_lib/AsyncLogging.cc\<close>: the front end that any thread appends its log lines to and the thread that
  writes them. Appends, the block of the writer that holds the mutex and the part of its turn that
  works on its own buffers are atomic steps, which interleave in any order; the wait on the condition
  may end at any time. \<open>written\<close> is the sequence of the arguments of the calls of \<^verbatim>\<open>LogFile::append\<close>.
  For the proofs \<open>appended\<close> records the lines and \<open>drops\<close> counts the batches that were cut.
\<close>

section \<open>The state\<close>

datatype writer_pc = Not_started | At_while | At_lock | At_write | Ended

record async_log =
  running :: bool
  currentBuffer :: "fixed_buffer option"
  nextBuffer :: "fixed_buffer option"
  full_buffers :: "fixed_buffer list"
  writer :: writer_pc
  Buffer1 :: "fixed_buffer option"
  Buffer2 :: "fixed_buffer option"
  toWrite :: "fixed_buffer list"
  written :: "bytes list"
  output_flushes :: nat
  notified :: nat
  appended :: "bytes list"
  drops :: nat

definition AsyncLogging_new :: async_log where
  "AsyncLogging_new =
     \<lparr>running = False, currentBuffer = Some (FixedBuffer_new kLargeBuffer),
      nextBuffer = Some (FixedBuffer_new kLargeBuffer), full_buffers = [], writer = Not_started,
      Buffer1 = None, Buffer2 = None, toWrite = [], written = [], output_flushes = 0, notified = 0,
      appended = [], drops = 0\<rparr>"

definition async_append :: "bytes \<Rightarrow> async_log \<Rightarrow> async_log result" where
  "async_append logline s =
     (case currentBuffer s of
        None \<Rightarrow> Inl Dangling
      | Some cur \<Rightarrow>
          if avail cur > length logline then
            Inr (s\<lparr>currentBuffer := Some (buf_append logline cur), appended := appended s @ [logline]\<rparr>)
          else
            let fresh = (case nextBuffer s of Some b \<Rightarrow> b | None \<Rightarrow> FixedBuffer_new kLargeBuffer)
            in Inr (s\<lparr>full_buffers := full_buffers s @ [cur], nextBuffer := None,
                      currentBuffer := Some (buf_append logline fresh), notified := notified s + 1,
                      appended := appended s @ [logline]\<rparr>))"

definition async_start :: "async_log \<Rightarrow> async_log" where
  "async_start s =
     s\<lparr>running := True, writer := At_while, Buffer1 := Some (FixedBuffer_new kLargeBuffer),
       Buffer2 := Some (FixedBuffer_new kLargeBuffer), toWrite := []\<rparr>"

definition async_stop :: "async_log \<Rightarrow> async_log" where
  "async_stop s = s\<lparr>running := False, notified := notified s + 1\<rparr>"

section \<open>The writer\<close>

text \<open>The condition of the loop, the last \<^verbatim>\<open>flush\<close>, and the assertions at the start of a turn.\<close>

definition empty_buffer :: "fixed_buffer option \<Rightarrow> bool" where
  "empty_buffer b \<longleftrightarrow> (case b of Some b \<Rightarrow> buf_length b = 0 | None \<Rightarrow> False)"

definition while_running :: "async_log \<Rightarrow> async_log result" where
  "while_running s =
     (if running s then
        check (empty_buffer (Buffer1 s)) (check (empty_buffer (Buffer2 s)) (check (toWrite s = [])
          (Inr (s\<lparr>writer := At_lock\<rparr>))))
      else Inr (s\<lparr>writer := Ended, output_flushes := output_flushes s + 1\<rparr>))"

text \<open>The block that holds the mutex.\<close>

definition collect :: "async_log \<Rightarrow> async_log result" where
  "collect s =
     (case currentBuffer s of
        None \<Rightarrow> Inl Dangling
      | Some cur \<Rightarrow>
          let s1 = s\<lparr>toWrite := full_buffers s @ [cur], full_buffers := toWrite s,
                     currentBuffer := Buffer1 s, Buffer1 := None, writer := At_write\<rparr>
          in Inr (if nextBuffer s1 = None then s1\<lparr>nextBuffer := Buffer2 s1, Buffer2 := None\<rparr> else s1))"

text \<open>\<open>now\<close> is the text of the current time.\<close>

definition drop_message :: "string \<Rightarrow> nat \<Rightarrow> bytes" where
  "drop_message now n =
     snprintf 256 (c_str (''Dropped log messages at '' @ now @ '', '' @ show_nat (n - 2) @ '' larger buffers'' @ [CHR 0x0A]))"

definition cut_batch :: "string \<Rightarrow> async_log \<Rightarrow> async_log" where
  "cut_batch now s =
     (if length (toWrite s) > 16
      then s\<lparr>written := written s @ [drop_message now (length (toWrite s))], toWrite := take 2 (toWrite s),
             drops := drops s + 1\<rparr>
      else s)"

definition write_batch :: "async_log \<Rightarrow> async_log" where
  "write_batch s = s\<lparr>written := written s @ map content (toWrite s), toWrite := take 2 (toWrite s)\<rparr>"

definition recycle1 :: "async_log \<Rightarrow> async_log result" where
  "recycle1 s =
     (if Buffer1 s = None then
        check (toWrite s \<noteq> []) (Inr (s\<lparr>Buffer1 := Some (reset_buf (last (toWrite s))), toWrite := butlast (toWrite s)\<rparr>))
      else Inr s)"

definition recycle2 :: "async_log \<Rightarrow> async_log result" where
  "recycle2 s =
     (if Buffer2 s = None then
        check (toWrite s \<noteq> []) (Inr (s\<lparr>Buffer2 := Some (reset_buf (last (toWrite s))), toWrite := butlast (toWrite s)\<rparr>))
      else Inr s)"

text \<open>The rest of the turn.\<close>

definition write_out :: "string \<Rightarrow> async_log \<Rightarrow> async_log result" where
  "write_out now s =
     check (toWrite s \<noteq> [])
       (and_then (recycle1 (write_batch (cut_batch now s))) (\<lambda>s1.
        and_then (recycle2 s1) (\<lambda>s2.
          Inr (s2\<lparr>toWrite := [], output_flushes := output_flushes s2 + 1, writer := At_while\<rparr>))))"

section \<open>Steps\<close>

datatype async_action = Log_line bytes | Log_start | Log_stop | Writer_test | Writer_collect | Writer_write string

text \<open>A step of the writer is possible at its place only, \<^verbatim>\<open>start\<close> once and \<^verbatim>\<open>stop\<close> after it.\<close>

fun async_exec :: "async_action \<Rightarrow> async_log \<Rightarrow> async_log result option" where
  "async_exec (Log_line x) s = Some (async_append x s)"
| "async_exec Log_start s = (if writer s = Not_started then Some (Inr (async_start s)) else None)"
| "async_exec Log_stop s = (if writer s \<noteq> Not_started then Some (Inr (async_stop s)) else None)"
| "async_exec Writer_test s = (if writer s = At_while then Some (while_running s) else None)"
| "async_exec Writer_collect s = (if writer s = At_lock then Some (collect s) else None)"
| "async_exec (Writer_write now) s = (if writer s = At_write then Some (write_out now s) else None)"

inductive async_steps :: "async_log \<Rightarrow> async_action list \<Rightarrow> async_log result \<Rightarrow> bool" where
  finished: "async_steps s [] (Inr s)"
| goes_on: "async_exec a s = Some (Inr s1) \<Longrightarrow> async_steps s1 as r \<Longrightarrow> async_steps s (a # as) r"
| fails: "async_exec a s = Some (Inl e) \<Longrightarrow> async_steps s (a # as) (Inl e)"

inductive_cases async_steps_Cons: "async_steps s (a # as) r"
inductive_cases async_steps_Nil: "async_steps s [] r"

interpretation al: interleaving async_exec async_steps
  by unfold_locales (auto intro: async_steps.intros elim: async_steps_Cons async_steps_Nil)

section \<open>The invariant\<close>

definition large :: "fixed_buffer \<Rightarrow> bool" where
  "large b \<longleftrightarrow> capacity b = kLargeBuffer \<and> length (content b) \<le> kLargeBuffer"

definition fresh :: "fixed_buffer option \<Rightarrow> bool" where
  "fresh b \<longleftrightarrow> b = Some (FixedBuffer_new kLargeBuffer)"

definition opt_text :: "fixed_buffer option \<Rightarrow> bytes" where
  "opt_text b = (case b of Some b \<Rightarrow> content b | None \<Rightarrow> [])"

definition texts :: "fixed_buffer list \<Rightarrow> bytes" where
  "texts bs = concat (map content bs)"

text \<open>What was appended and not yet handed to the file.\<close>

definition in_flight :: "async_log \<Rightarrow> bytes" where
  "in_flight s = texts (toWrite s) @ texts (full_buffers s) @ opt_text (currentBuffer s)"

text \<open>Of the thread's buffers: what holds at each place.\<close>

definition writer_inv :: "async_log \<Rightarrow> bool" where
  "writer_inv s \<longleftrightarrow>
     (writer s = At_write \<longrightarrow> Buffer1 s = None \<and> toWrite s \<noteq> [] \<and>
        (Buffer2 s = None \<and> 2 \<le> length (toWrite s) \<or> fresh (Buffer2 s))) \<and>
     (writer s \<noteq> At_write \<longrightarrow> toWrite s = []) \<and>
     (writer s \<noteq> At_write \<and> writer s \<noteq> Not_started \<longrightarrow> fresh (Buffer1 s) \<and> fresh (Buffer2 s))"

definition front_inv :: "async_log \<Rightarrow> bool" where
  "front_inv s \<longleftrightarrow> (\<exists>cur. currentBuffer s = Some cur \<and> large cur) \<and> (nextBuffer s = None \<or> fresh (nextBuffer s)) \<and>
     (nextBuffer s = None \<longrightarrow> full_buffers s \<noteq> []) \<and> list_all large (full_buffers s) \<and> list_all large (toWrite s)"

definition text_inv :: "async_log \<Rightarrow> bool" where
  "text_inv s \<longleftrightarrow> (drops s = 0 \<and> (\<forall>x \<in> set (appended s). length x \<le> kLargeBuffer) \<longrightarrow>
     concat (appended s) = concat (written s) @ in_flight s)"

definition async_inv :: "async_log \<Rightarrow> bool" where
  "async_inv s \<longleftrightarrow> writer_inv s \<and> front_inv s \<and> text_inv s"

lemma kLargeBuffer_pos: "0 < kLargeBuffer"
  by (simp add: kLargeBuffer_def)

lemma fixed_buffer_empty: "large b \<Longrightarrow> reset_buf b = FixedBuffer_new kLargeBuffer"
  by (simp add: large_def reset_buf_def FixedBuffer_new_def)

lemma large_new [simp]: "large (FixedBuffer_new kLargeBuffer)" "content (FixedBuffer_new n) = []"
  "avail (FixedBuffer_new n) = n"
  by (simp_all add: large_def FixedBuffer_new_def avail_def)

lemma texts_simps [simp]: "texts [] = []" "texts (b # bs) = content b @ texts bs" "texts (bs @ bs') = texts bs @ texts bs'"
  by (simp_all add: texts_def)

lemma fresh_simps [simp]: "fresh (Some b) \<longleftrightarrow> b = FixedBuffer_new kLargeBuffer" "\<not> fresh None"
  by (simp_all add: fresh_def)

lemma fresh_empty: "fresh b \<Longrightarrow> empty_buffer b"
  by (simp add: fresh_def empty_buffer_def buf_length_def)

lemma opt_text_simps [simp]: "opt_text (Some b) = content b" "opt_text None = []" "fresh b' \<Longrightarrow> opt_text b' = []"
  by (simp_all add: opt_text_def fresh_def)

lemma async_inv_new: "async_inv AsyncLogging_new"
  by (simp add: async_inv_def AsyncLogging_new_def writer_inv_def front_inv_def text_inv_def in_flight_def)

lemma large_append: "large b \<Longrightarrow> large (buf_append x b)"
  using buf_append_spec [of b x] by (simp add: large_def buf_ok_def)

lemma content_append: "large b \<Longrightarrow> length x \<le> avail b \<Longrightarrow> content (buf_append x b) = content b @ x"
  using buf_append_spec(3) [of b x] by (simp add: large_def buf_ok_def)

lemma append_inv:
  assumes inv: "async_inv s"
  shows "\<exists>s'. async_append x s = Inr s' \<and> async_inv s' \<and> writer s' = writer s \<and> written s' = written s \<and>
     appended s' = appended s @ [x] \<and> drops s' = drops s \<and> running s' = running s \<and> toWrite s' = toWrite s"
proof -
  obtain cur where cur: "currentBuffer s = Some cur" "large cur" using inv by (auto simp: async_inv_def front_inv_def)
  show ?thesis
  proof (cases "avail cur > length x")
    case True
    with inv cur show ?thesis
      by (auto simp: async_append_def async_inv_def writer_inv_def front_inv_def text_inv_def in_flight_def
          large_append content_append)
  next
    case False
    define b where "b = (case nextBuffer s of Some b \<Rightarrow> b | None \<Rightarrow> FixedBuffer_new kLargeBuffer)"
    have b: "b = FixedBuffer_new kLargeBuffer"
      using inv by (auto simp: b_def async_inv_def front_inv_def split: option.splits)
    have "large (buf_append x b)" by (simp add: b large_append)
    moreover have "length x \<le> kLargeBuffer \<Longrightarrow> content (buf_append x b) = x" by (simp add: b content_append)
    ultimately show ?thesis
      using inv cur False
      by (auto simp: async_append_def b_def [symmetric] Let_def async_inv_def writer_inv_def front_inv_def text_inv_def
          in_flight_def)
  qed
qed

lemma collect_inv:
  assumes inv: "async_inv s" and pc: "writer s = At_lock"
  shows "\<exists>s'. collect s = Inr s' \<and> async_inv s' \<and> writer s' = At_write \<and> written s' = written s \<and>
     appended s' = appended s \<and> drops s' = drops s \<and> running s' = running s \<and>
     texts (toWrite s') = in_flight s \<and> length (toWrite s') = Suc (length (full_buffers s)) \<and>
     full_buffers s' = [] \<and> fresh (currentBuffer s')"
proof -
  obtain cur where cur: "currentBuffer s = Some cur" "large cur" using inv by (auto simp: async_inv_def front_inv_def)
  have w: "fresh (Buffer1 s)" "fresh (Buffer2 s)" "toWrite s = []"
    using inv pc by (simp_all add: async_inv_def writer_inv_def)
  have f: "nextBuffer s = None \<or> fresh (nextBuffer s)" "nextBuffer s = None \<longrightarrow> full_buffers s \<noteq> []"
    "list_all large (full_buffers s)" using inv by (simp_all add: async_inv_def front_inv_def)
  have t: "text_inv s" using inv by (simp add: async_inv_def)
  show ?thesis
  proof (cases "nextBuffer s = None")
    case True
    with f(2) have "2 \<le> Suc (length (full_buffers s))" by (cases "full_buffers s") auto
    with True w f t cur show ?thesis
      by (auto simp: collect_def Let_def async_inv_def writer_inv_def front_inv_def text_inv_def in_flight_def fresh_def)
  next
    case False
    with w f t cur show ?thesis
      by (auto simp: collect_def Let_def async_inv_def writer_inv_def front_inv_def text_inv_def in_flight_def fresh_def)
  qed
qed

lemma recycled:
  assumes "1 \<le> length (toWrite s)" and "length (toWrite s) \<le> 2" and "list_all large (toWrite s)"
    and "2 \<le> length (toWrite s) \<or> fresh (Buffer2 s)" and "Buffer2 s = None \<or> fresh (Buffer2 s)"
    and "Buffer1 s = None"
  shows "\<exists>bs. and_then (recycle1 s) recycle2 = Inr (s\<lparr>Buffer1 := Some (FixedBuffer_new kLargeBuffer),
    Buffer2 := Some (FixedBuffer_new kLargeBuffer), toWrite := bs\<rparr>)"
proof -
  from assms(1,2) consider (one) c where "toWrite s = [c]" | (two) c d where "toWrite s = [c, d]"
    by (cases "toWrite s"; cases "tl (toWrite s)"; auto simp: Suc_le_eq)
  then show ?thesis
  proof cases
    case one
    with assms(3-) show ?thesis
      by (cases s) (auto simp: recycle1_def recycle2_def fixed_buffer_empty fresh_def)
  next
    case two
    with assms(3-) show ?thesis
      by (cases s) (auto simp: recycle1_def recycle2_def fixed_buffer_empty fresh_def)
  qed
qed

lemma write_out_inv:
  assumes inv: "async_inv s" and pc: "writer s = At_write"
  shows "\<exists>s'. write_out now s = Inr s' \<and> async_inv s' \<and> writer s' = At_while \<and> appended s' = appended s \<and>
     running s' = running s \<and> full_buffers s' = full_buffers s \<and> currentBuffer s' = currentBuffer s \<and>
     (if length (toWrite s) \<le> 16 then drops s' = drops s \<and> written s' = written s @ map content (toWrite s)
      else drops s' = drops s + 1)"
proof -
  have w: "Buffer1 s = None" "toWrite s \<noteq> []" "Buffer2 s = None \<and> 2 \<le> length (toWrite s) \<or> fresh (Buffer2 s)"
    using inv pc by (simp_all add: async_inv_def writer_inv_def)
  have large: "list_all large (toWrite s)" using inv by (simp add: async_inv_def front_inv_def)
  define s1 where "s1 = write_batch (cut_batch now s)"
  have bs: "toWrite s1 = take 2 (toWrite s)" "Buffer1 s1 = None" "Buffer2 s1 = Buffer2 s" "appended s1 = appended s"
    "running s1 = running s" "full_buffers s1 = full_buffers s" "currentBuffer s1 = currentBuffer s"
    "nextBuffer s1 = nextBuffer s"
    using w(1) by (simp_all add: s1_def write_batch_def cut_batch_def)
  have cut: "if length (toWrite s) \<le> 16 then drops s1 = drops s \<and> written s1 = written s @ map content (toWrite s)
      else drops s1 = drops s + 1"
    by (simp add: s1_def write_batch_def cut_batch_def)
  have "1 \<le> length (toWrite s)" using w(2) by (simp add: Suc_le_eq)
  moreover have "list_all large (take 2 (toWrite s))" using large by (auto simp: list_all_iff dest: in_set_takeD)
  ultimately obtain bs' where r: "and_then (recycle1 s1) recycle2 = Inr (s1\<lparr>Buffer1 := Some (FixedBuffer_new kLargeBuffer),
      Buffer2 := Some (FixedBuffer_new kLargeBuffer), toWrite := bs'\<rparr>)"
    using recycled [of s1] w(3) by (auto simp: bs)
  define s' where "s' = s1\<lparr>Buffer1 := Some (FixedBuffer_new kLargeBuffer),
      Buffer2 := Some (FixedBuffer_new kLargeBuffer), toWrite := [], output_flushes := output_flushes s1 + 1, writer := At_while\<rparr>"
  have "write_out now s = Inr s'"
    using w(2) r unfolding write_out_def s1_def [symmetric] s'_def
    by (auto simp: and_then_assoc [symmetric])
  moreover have "text_inv s'"
  proof (cases "length (toWrite s) \<le> 16")
    case True
    have "text_inv s" using inv by (simp add: async_inv_def)
    with True cut bs show ?thesis by (simp add: text_inv_def s'_def in_flight_def texts_def)
  next
    case False
    with cut show ?thesis by (simp add: text_inv_def s'_def)
  qed
  moreover have "writer_inv s'" "front_inv s'"
    using inv bs by (simp_all add: writer_inv_def front_inv_def s'_def async_inv_def)
  moreover have "appended s' = appended s" "running s' = running s" "full_buffers s' = full_buffers s"
      "currentBuffer s' = currentBuffer s" "writer s' = At_while"
      "if length (toWrite s) \<le> 16 then drops s' = drops s \<and> written s' = written s @ map content (toWrite s)
       else drops s' = drops s + 1"
    using bs cut by (simp_all add: s'_def)
  ultimately show ?thesis unfolding async_inv_def by blast
qed

lemma async_exec_inv:
  assumes inv: "async_inv s" and exec: "async_exec a s = Some r"
  shows "\<exists>s'. r = Inr s' \<and> async_inv s'"
proof (cases a)
  case (Log_line x)
  with exec append_inv [OF inv, of x] show ?thesis by auto
next
  case Log_start
  with exec inv show ?thesis
    by (auto simp: async_start_def async_inv_def writer_inv_def front_inv_def text_inv_def in_flight_def split: if_splits)
next
  case Log_stop
  with exec inv show ?thesis
    by (auto simp: async_stop_def async_inv_def writer_inv_def front_inv_def text_inv_def in_flight_def
        split: if_splits)
next
  case Writer_test
  with exec inv have "fresh (Buffer1 s)" "fresh (Buffer2 s)" "toWrite s = []" "r = while_running s"
    by (auto simp: async_inv_def writer_inv_def split: if_splits)
  with inv show ?thesis
    by (auto simp: while_running_def fresh_empty async_inv_def writer_inv_def front_inv_def text_inv_def in_flight_def)
next
  case Writer_collect
  with exec collect_inv [OF inv] show ?thesis by (auto split: if_splits)
next
  case (Writer_write now)
  with exec write_out_inv [OF inv, of now] show ?thesis by (auto split: if_splits)
qed

lemma async_steps_inv: "async_steps s as r \<Longrightarrow> async_inv s \<Longrightarrow> \<exists>s'. r = Inr s' \<and> async_inv s'"
  by (rule al.steps_inv [OF async_exec_inv])

lemma appends_inv:
  "async_inv s \<Longrightarrow> \<exists>s'. async_steps s (map Log_line xs) (Inr s') \<and> async_inv s' \<and> writer s' = writer s \<and>
     written s' = written s \<and> appended s' = appended s @ xs \<and> drops s' = drops s \<and> toWrite s' = toWrite s"
proof (induction xs arbitrary: s)
  case Nil
  then show ?case by (auto intro: async_steps.finished)
next
  case (Cons x xs)
  obtain s1 where s1: "async_append x s = Inr s1" "async_inv s1" "writer s1 = writer s" "written s1 = written s"
    "appended s1 = appended s @ [x]" "drops s1 = drops s" "toWrite s1 = toWrite s"
    using append_inv [OF Cons.prems, of x] by blast
  obtain s2 where s2: "async_steps s1 (map Log_line xs) (Inr s2)" "async_inv s2" "writer s2 = writer s1"
    "written s2 = written s1" "appended s2 = appended s1 @ xs" "drops s2 = drops s1" "toWrite s2 = toWrite s1"
    using Cons.IH [OF s1(2)] by blast
  have "async_steps s (map Log_line (x # xs)) (Inr s2)" using s1(1) s2(1) by (auto intro: async_steps.goes_on)
  with s1 s2 show ?case by (intro exI [of _ s2]) simp
qed

text \<open>Once the writer has ended nothing is written.\<close>

lemma ended_writes_nothing:
  "async_steps s as r \<Longrightarrow> writer s = Ended \<Longrightarrow> r = Inr s' \<Longrightarrow> writer s' = Ended \<and> written s' = written s"
proof (induction arbitrary: s' rule: async_steps.induct)
  case (goes_on a s s1 as r)
  have "writer s1 = Ended \<and> written s1 = written s"
    using goes_on.hyps(1) goes_on.prems(1)
    by (cases a) (auto simp: async_append_def async_stop_def Let_def split: option.splits if_splits)
  with goes_on show ?case by auto
qed simp_all

section \<open>The properties\<close>


text \<open>
  A turn of the writer hands over everything that was appended before it took the buffers, and it can
  always be made, whatever is appended meanwhile; only a batch of more than 16 buffers is cut.
\<close>

lemma turn_hands_over:
  assumes "async_steps AsyncLogging_new as (Inr s)" and "writer s = At_while" and "running s"
  shows "\<exists>s'. async_steps s (Writer_test # map Log_line xs @ Writer_collect # map Log_line ys @ [Writer_write now]) (Inr s') \<and>
     writer s' = At_while \<and> appended s' = appended s @ xs @ ys \<and>
     (drops s' = 0 \<and> (\<forall>x \<in> set (appended s'). length x \<le> kLargeBuffer) \<longrightarrow>
        concat (written s') = concat (appended s @ xs))"
proof -
  have inv: "async_inv s" using async_steps_inv [OF assms(1) async_inv_new] by simp
  define s1 where "s1 = s\<lparr>writer := At_lock\<rparr>"
  have e1: "async_exec Writer_test s = Some (Inr s1)"
    using assms(2,3) inv by (simp add: while_running_def fresh_empty async_inv_def writer_inv_def s1_def)
  have i1: "async_inv s1" using async_exec_inv [OF inv e1] by simp
  obtain s2 where s2: "async_steps s1 (map Log_line xs) (Inr s2)" "async_inv s2" "writer s2 = At_lock"
    "written s2 = written s" "appended s2 = appended s @ xs" "drops s2 = drops s"
    using appends_inv [OF i1, of xs] by (auto simp: s1_def)
  obtain s3 where s3: "collect s2 = Inr s3" "async_inv s3" "writer s3 = At_write" "written s3 = written s2"
    "appended s3 = appended s2" "drops s3 = drops s2" "texts (toWrite s3) = in_flight s2"
    using collect_inv [OF s2(2,3)] by blast
  obtain s4 where s4: "async_steps s3 (map Log_line ys) (Inr s4)" "async_inv s4" "writer s4 = At_write"
    "written s4 = written s3" "appended s4 = appended s3 @ ys" "drops s4 = drops s3" "toWrite s4 = toWrite s3"
    using appends_inv [OF s3(2), of ys] s3(3) by auto
  obtain s5 where s5: "write_out now s4 = Inr s5" "async_inv s5" "writer s5 = At_while" "appended s5 = appended s4"
    "if length (toWrite s4) \<le> 16 then drops s5 = drops s4 \<and> written s5 = written s4 @ map content (toWrite s4)
     else drops s5 = drops s4 + 1"
    using write_out_inv [OF s4(2,3), of now] by blast
  have e2: "async_exec Writer_collect s2 = Some (Inr s3)" using s2(3) s3(1) by simp
  have e4: "async_exec (Writer_write now) s4 = Some (Inr s5)" using s4(3) s5(1) by simp
  have "async_steps s1 (map Log_line xs @ [Writer_collect] @ map Log_line ys @ [Writer_write now]) (Inr s5)"
    by (rule al.steps_append [OF s2(1) al.steps_append [OF al.steps_one [OF e2]
          al.steps_append [OF s4(1) al.steps_one [OF e4]]]])
  then have "async_steps s (Writer_test # map Log_line xs @ Writer_collect # map Log_line ys @ [Writer_write now]) (Inr s5)"
    using e1 by (auto intro: async_steps.goes_on)
  moreover have "concat (written s5) = concat (appended s @ xs)"
    if "drops s5 = 0" and "\<forall>x \<in> set (appended s5). length x \<le> kLargeBuffer"
  proof -
    have "written s5 = written s2 @ map content (toWrite s3)" "drops s2 = 0"
      using s5(5) that(1) s4 s3 by (auto split: if_splits)
    moreover have "\<forall>x \<in> set (appended s2). length x \<le> kLargeBuffer" using that(2) s5(4) s4(5) s3(5) by simp
    ultimately have "concat (written s5) = concat (appended s2)"
      using s2(2) s3(7) by (simp add: async_inv_def text_inv_def texts_def)
    then show ?thesis using s2(5) by simp
  qed
  moreover have "appended s5 = appended s @ xs @ ys" using s5(4) s4(5) s3(5) s2(5) by simp
  ultimately show ?thesis using s5(3) by (intro exI [of _ s5]) simp
qed

text \<open>
  What is not promised: a line appended after the writer has taken the buffers for the last time
  and before \<^verbatim>\<open>stop\<close> is in the buffers when the thread ends, and nothing writes it any more.
\<close>

theorem lines_lost_at_stop:
  assumes "async_steps AsyncLogging_new as (Inr s)" and "writer s = At_while"
  shows "\<exists>s'. async_steps s [Log_line x, Log_stop, Writer_test] (Inr s') \<and> appended s' = appended s @ [x] \<and>
     (\<forall>bs s''. async_steps s' bs (Inr s'') \<longrightarrow> writer s'' = Ended \<and> written s'' = written s)"
proof -
  have inv: "async_inv s" using async_steps_inv [OF assms(1) async_inv_new] by simp
  obtain s1 where s1: "async_append x s = Inr s1" "writer s1 = At_while" "written s1 = written s"
    "appended s1 = appended s @ [x]"
    using append_inv [OF inv, of x] assms(2) by auto
  define s3 where "s3 = (async_stop s1)\<lparr>writer := Ended, output_flushes := output_flushes s1 + 1\<rparr>"
  have "async_exec (Log_line x) s = Some (Inr s1)" "async_exec Log_stop s1 = Some (Inr (async_stop s1))"
    "async_exec Writer_test (async_stop s1) = Some (Inr s3)"
    using s1 by (simp_all add: while_running_def s3_def async_stop_def)
  then have "async_steps s [Log_line x, Log_stop, Writer_test] (Inr s3)"
    by (meson async_steps.goes_on async_steps.finished)
  moreover have "writer s3 = Ended" "written s3 = written s" "appended s3 = appended s @ [x]"
    using s1 by (simp_all add: s3_def async_stop_def)
  ultimately show ?thesis using ended_writes_nothing by metis
qed

lemma started_log:
  "async_steps AsyncLogging_new [Log_start] (Inr (async_start AsyncLogging_new))"
  "writer (async_start AsyncLogging_new) = At_while" "running (async_start AsyncLogging_new)"
  "appended (async_start AsyncLogging_new) = []" "written (async_start AsyncLogging_new) = []"
  by (simp_all add: al.steps_one async_start_def AsyncLogging_new_def)


lemma turn_hands_over_witness:
  "\<exists>s'. async_steps (async_start AsyncLogging_new)
     [Writer_test, Log_line ''a'', Writer_collect, Log_line ''b'', Writer_write ''now''] (Inr s') \<and>
     appended s' = [''a'', ''b'']"
  using turn_hands_over [OF started_log(1-3), of "[''a'']" "[''b'']" "''now''"] by (auto simp: started_log)

lemma lines_lost_at_stop_witness:
  "\<exists>s'. async_steps (async_start AsyncLogging_new) [Log_line ''a'', Log_stop, Writer_test] (Inr s') \<and>
     appended s' = [''a''] \<and> (\<forall>bs s''. async_steps s' bs (Inr s'') \<longrightarrow> written s'' = [])"
  using lines_lost_at_stop [OF started_log(1,2), of "''a''"] started_log by auto

end
