(* ===== verification/LogFile.thy ===== *)
theory LogFile
  imports TimeZoneProps
begin

text \<open>
  \<^verbatim>\<open>AppendFile\<close> and \<^verbatim>\<open>LogFile\<close> of \<^verbatim>\<open>gg_lib/FileUtil.cc\<close>: the files that a log is written to, one after the
  other. \<open>af_bytes\<close> is what \<^verbatim>\<open>fwrite_unlocked\<close> has accepted through a handle, \<open>af_flushed\<close> how much of it
  was flushed. Arguments: how much of the bytes it is given the call number \<open>k\<close> of \<^verbatim>\<open>fwrite_unlocked\<close> on
  the handle number \<open>i\<close> accepts and the \<^verbatim>\<open>ferror\<close> after it, the \<^verbatim>\<open>errno\<close> of the successive calls of \<^verbatim>\<open>fopen\<close>
  (0 when it succeeds), the successive readings of the clock and the process id. The mutex of a
  thread-safe file makes its operations sequential; it has no other effect.
\<close>

section \<open>One file\<close>

record append_file =
  af_name :: string
  af_open :: bool
  af_err :: int
  writtenBytes :: int
  af_bytes :: bytes
  af_flushed :: nat
  af_calls :: nat

definition AppendFile_new :: "int \<Rightarrow> string \<Rightarrow> append_file" where
  "AppendFile_new errno filename =
     \<lparr>af_name = filename, af_open = (errno = 0), af_err = errno, writtenBytes = 0, af_bytes = [],
      af_flushed = 0, af_calls = 0\<rparr>"

definition af_write :: "(nat \<Rightarrow> nat \<Rightarrow> nat \<times> int) \<Rightarrow> bytes \<Rightarrow> append_file \<Rightarrow> nat \<times> int \<times> append_file" where
  "af_write fwrite data f =
     (let (n, ferror) = fwrite (af_calls f) (length data)
      in (n, ferror, f\<lparr>af_calls := af_calls f + 1, af_bytes := af_bytes f @ take n data\<rparr>))"

text \<open>The loop of \<^verbatim>\<open>append\<close>; \<open>None\<close> when it does not end.\<close>

partial_function (option) append_loop ::
    "(nat \<Rightarrow> nat \<Rightarrow> nat \<times> int) \<Rightarrow> bytes \<Rightarrow> nat \<Rightarrow> append_file \<Rightarrow> (nat \<times> append_file) option" where
  "append_loop fwrite data written f =
     (if written < length data then
        let remain = length data - written;
            (n, ferror, f1) = af_write fwrite (drop written data) f;
            f2 = (if n \<noteq> remain then f1\<lparr>af_err := ferror\<rparr> else f1)
        in if n \<noteq> remain \<and> ferror \<noteq> 0 then Some (written, f2)
           else append_loop fwrite data (written + n) f2
      else Some (written, f))"

definition AppendFile_append :: "(nat \<Rightarrow> nat \<Rightarrow> nat \<times> int) \<Rightarrow> bytes \<Rightarrow> append_file \<Rightarrow> append_file option" where
  "AppendFile_append fwrite data f =
     (if af_err f \<noteq> 0 then Some f
      else map_option (\<lambda>(written, f'). f'\<lparr>writtenBytes := writtenBytes f' + int written\<rparr>)
             (append_loop fwrite data 0 f))"

definition AppendFile_flush :: "append_file \<Rightarrow> append_file" where
  "AppendFile_flush f = (if af_open f then f\<lparr>af_flushed := length (af_bytes f)\<rparr> else f)"

section \<open>The files of a log\<close>

record log_env =
  le_time :: "nat \<Rightarrow> int"
  le_fwrite :: "nat \<Rightarrow> nat \<Rightarrow> nat \<Rightarrow> nat \<times> int"
  le_fopen :: "nat \<Rightarrow> int"
  le_pid :: int

record log_file =
  basename :: string
  rollSize :: int
  flushInterval :: int
  startOfPeriod :: int
  lastRoll :: int
  lastFlush :: int
  lf_offset :: int
  log_handle :: "append_file option"
  closed_handles :: "append_file list"
  time_reads :: nat

definition kRollPerSeconds :: int where
  "kRollPerSeconds = 60 * 60 * 24"

definition read_time :: "log_env \<Rightarrow> log_file \<Rightarrow> int \<times> log_file" where
  "read_time env l = (le_time env (time_reads l) + lf_offset l, l\<lparr>time_reads := time_reads l + 1\<rparr>)"

text \<open>The format \<^verbatim>\<open>.%Y%m%d-%H%M%S\<close> of \<^verbatim>\<open>strftime\<close>.\<close>

definition time_suffix :: "'a tm_scheme \<Rightarrow> string" where
  "time_suffix t =
     ''.'' @ show_int (tm_year t + 1900) @ zero_pad 2 (tm_mon t + 1) @ zero_pad 2 (tm_mday t) @ ''-''
       @ zero_pad 2 (tm_hour t) @ zero_pad 2 (tm_min t) @ zero_pad 2 (tm_sec t)"

definition getLogFileName :: "log_env \<Rightarrow> log_file \<Rightarrow> string \<times> int \<times> log_file" where
  "getLogFileName env l =
     (let (now, l') = read_time env l
      in (basename l @ time_suffix (gmtime_r now) @ ''.'' @ show_int (le_pid env) @ ''.log'', now, l'))"

definition handles :: "log_file \<Rightarrow> append_file list" where
  "handles l = closed_handles l @ (case log_handle l of Some f \<Rightarrow> [f] | None \<Rightarrow> [])"

text \<open>\<^verbatim>\<open>file_.reset\<close> opens the new file and then closes the old one.\<close>

definition rollFile :: "log_env \<Rightarrow> log_file \<Rightarrow> bool \<times> log_file" where
  "rollFile env l =
     (let (filename, now, l1) = getLogFileName env l;
          start = now sdiv kRollPerSeconds * kRollPerSeconds
      in if now > lastRoll l1 then
           (True, l1\<lparr>lastRoll := now, lastFlush := now, startOfPeriod := start,
                     closed_handles := map AppendFile_flush (handles l1),
                     log_handle := Some (AppendFile_new (le_fopen env (length (handles l1))) filename)\<rparr>)
         else (False, l1))"

text \<open>The time zone of the log gives the offset; reading it reads the clock.\<close>

definition LogFile_new :: "log_env \<Rightarrow> string \<Rightarrow> int \<Rightarrow> int \<Rightarrow> zone_data option \<Rightarrow> log_file result" where
  "LogFile_new env name roll_size flush_interval g_logTimeZone =
     (let l = \<lparr>basename = name, rollSize = roll_size, flushInterval = flush_interval, startOfPeriod = 0,
               lastRoll = 0, lastFlush = 0, lf_offset = 0, log_handle = None, closed_handles = [], time_reads = 0\<rparr>
      in case g_logTimeZone of
           Some zone \<Rightarrow> map_sum id (\<lambda>off. snd (rollFile env (l\<lparr>lf_offset := off, time_reads := 1\<rparr>)))
             (getTimeOff (le_time env 0) zone)
         | None \<Rightarrow> Inr (snd (rollFile env l)))"

text \<open>The part of \<^verbatim>\<open>append_unlocked\<close> after the bytes were written to the file \<open>f\<close>.\<close>

definition roll_or_flush :: "log_env \<Rightarrow> append_file \<Rightarrow> log_file \<Rightarrow> log_file" where
  "roll_or_flush env f l =
     (if writtenBytes f > rollSize l then snd (rollFile env l)
      else let (now, l1) = read_time env l;
               thisPeriod = now sdiv kRollPerSeconds * kRollPerSeconds
           in if thisPeriod \<noteq> startOfPeriod l1 then snd (rollFile env l1)
              else if now - lastFlush l1 > flushInterval l1
              then l1\<lparr>lastFlush := now, log_handle := Some (AppendFile_flush f)\<rparr>
              else l1)"

definition append_unlocked :: "log_env \<Rightarrow> bytes \<Rightarrow> log_file \<Rightarrow> log_file result option" where
  "append_unlocked env logline l =
     (case log_handle l of
        None \<Rightarrow> Some (Inl Dangling)
      | Some f \<Rightarrow> map_option (\<lambda>f1. Inr (roll_or_flush env f1 (l\<lparr>log_handle := Some f1\<rparr>)))
          (AppendFile_append (le_fwrite env (length (closed_handles l))) logline f))"

definition LogFile_append :: "log_env \<Rightarrow> bytes \<Rightarrow> log_file \<Rightarrow> log_file result option" where
  "LogFile_append env logline l = append_unlocked env logline l"

definition LogFile_flush :: "log_file \<Rightarrow> log_file result" where
  "LogFile_flush l =
     (case log_handle l of None \<Rightarrow> Inl Dangling | Some f \<Rightarrow> Inr (l\<lparr>log_handle := Some (AppendFile_flush f)\<rparr>))"

text \<open>Several lines, one after the other.\<close>

fun append_lines :: "log_env \<Rightarrow> bytes list \<Rightarrow> log_file \<Rightarrow> log_file result option" where
  "append_lines env [] l = Some (Inr l)"
| "append_lines env (x # xs) l =
     (case LogFile_append env x l of
        Some (Inr l1) \<Rightarrow> append_lines env xs l1
      | r \<Rightarrow> r)"

section \<open>Names\<close>

lemma show_int_inj: "show_int i = show_int j \<Longrightarrow> i = j"
proof -
  have sign: "CHR ''-'' # xs \<noteq> show_nat n" for xs n
  proof (induction n arbitrary: xs rule: show_nat.induct)
    case (1 n)
    show ?case
    proof (cases "n < 10")
      case True
      then have "(of_char (digit_char n) :: nat) \<noteq> of_char (CHR ''-'')" by (simp add: of_char_digit_char)
      then have "digit_char n \<noteq> CHR ''-''" by metis
      with True show ?thesis by (simp add: show_nat.simps [of n])
    next
      case False
      with 1 show ?thesis
        by (simp add: show_nat.simps [of n] show_nat_nonempty Cons_eq_append_conv)
    qed
  qed
  assume "show_int i = show_int j"
  then show ?thesis
    using sign [of "show_nat (nat (- i))" "nat j"] sign [of "show_nat (nat (- j))" "nat i"]
    by (auto simp: show_int_def eq_nat_nat_iff dest: arg_cong [of _ _ digits_value] split: if_splits
        simp: digits_value_show_nat)
qed

lemma zero_pad_value:
  assumes "0 \<le> i" and "i < 100"
  shows "digits_value (zero_pad 2 i) = nat i"
proof -
  have "digits_value (replicate k (CHR ''0'') @ s) = digits_value s" for k s
    by (induction k) (simp_all add: digits_value_def)
  then show ?thesis using assms by (simp add: pad_int_def show_int_def digits_value_show_nat)
qed

lemma zero_pad_inj:
  assumes "zero_pad 2 i = zero_pad 2 j" and "0 \<le> i" "i < 100" "0 \<le> j" "j < 100"
  shows "i = j"
  using arg_cong [OF assms(1), of digits_value] assms(2-) by (simp add: zero_pad_value)

lemma tm_valid_fields:
  assumes "tm_valid t"
  shows "0 \<le> tm_mon t + 1" "tm_mon t + 1 < 100" "0 \<le> tm_mday t" "tm_mday t < 100"
    "0 \<le> tm_hour t" "tm_hour t < 100" "0 \<le> tm_min t" "tm_min t < 100" "0 \<le> tm_sec t" "tm_sec t < 100"
proof -
  have "tm_mday t \<le> 31" using assms
    by (auto simp: tm_valid_def valid_date_def days_in_month_def split: if_splits)
  then show "0 \<le> tm_mon t + 1" "tm_mon t + 1 < 100" "0 \<le> tm_mday t" "tm_mday t < 100"
    "0 \<le> tm_hour t" "tm_hour t < 100" "0 \<le> tm_min t" "tm_min t < 100" "0 \<le> tm_sec t" "tm_sec t < 100"
    using assms by (simp_all add: tm_valid_def valid_date_def)
qed

lemma time_suffix_inj:
  assumes "time_suffix (gmtime_r t) = time_suffix (gmtime_r u)" and "utc_range t" and "utc_range u"
  shows "t = u"
proof -
  let ?t = "gmtime_r t" and ?u = "gmtime_r u"
  have v: "tm_valid ?t" "tm_valid ?u" "fromUtcTime ?t = t" "fromUtcTime ?u = u"
    using toUtcTime_correct [OF assms(2)] toUtcTime_correct [OF assms(3)] by (simp_all add: gmtime_r_def)
  note ft = tm_valid_fields [OF v(1)] and fu = tm_valid_fields [OF v(2)]
  have "show_int (tm_year ?t + 1900) = show_int (tm_year ?u + 1900) \<and>
      zero_pad 2 (tm_mon ?t + 1) = zero_pad 2 (tm_mon ?u + 1) \<and> zero_pad 2 (tm_mday ?t) = zero_pad 2 (tm_mday ?u) \<and>
      zero_pad 2 (tm_hour ?t) = zero_pad 2 (tm_hour ?u) \<and> zero_pad 2 (tm_min ?t) = zero_pad 2 (tm_min ?u) \<and>
      zero_pad 2 (tm_sec ?t) = zero_pad 2 (tm_sec ?u)"
    using assms(1) ft fu by (simp add: time_suffix_def append_eq_append_conv length_digits_pad)
  then have e: "show_int (tm_year ?t + 1900) = show_int (tm_year ?u + 1900)"
      "zero_pad 2 (tm_mon ?t + 1) = zero_pad 2 (tm_mon ?u + 1)" "zero_pad 2 (tm_mday ?t) = zero_pad 2 (tm_mday ?u)"
      "zero_pad 2 (tm_hour ?t) = zero_pad 2 (tm_hour ?u)" "zero_pad 2 (tm_min ?t) = zero_pad 2 (tm_min ?u)"
      "zero_pad 2 (tm_sec ?t) = zero_pad 2 (tm_sec ?u)" by blast+
  note same = show_int_inj [OF e(1)] zero_pad_inj [OF e(2) ft(1,2) fu(1,2)] zero_pad_inj [OF e(3) ft(3,4) fu(3,4)]
    zero_pad_inj [OF e(4) ft(5,6) fu(5,6)] zero_pad_inj [OF e(5) ft(7,8) fu(7,8)] zero_pad_inj [OF e(6) ft(9,10) fu(9,10)]
  have "fromUtcTime ?t = fromUtcTime ?u" by (simp only: fromUtcTime_def same)
  then show ?thesis by (simp only: v(3,4))
qed

end
