(* ===== verification/LogFileProps.thy ===== *)
theory LogFileProps
  imports LogFile
begin

text \<open>
  What the log files promise: a line is written whole into one file or an error is remembered, no two
  files have the same name, and after every append the file is the one of the day and within its size.
\<close>

section \<open>One file\<close>

text \<open>The C library: \<^verbatim>\<open>fwrite\<close> accepts at most what it is given, and nothing only when there is an error.\<close>

definition fwrite_ok :: "(nat \<Rightarrow> nat \<Rightarrow> nat \<times> int) \<Rightarrow> bool" where
  "fwrite_ok fwrite \<longleftrightarrow>
     (\<forall>k n. 0 < n \<longrightarrow> fst (fwrite k n) \<le> n \<and> (fst (fwrite k n) = 0 \<longrightarrow> snd (fwrite k n) \<noteq> 0))"

definition same_handle :: "append_file \<Rightarrow> append_file \<Rightarrow> bool" where
  "same_handle f f' \<longleftrightarrow> af_name f' = af_name f \<and> af_open f' = af_open f \<and> af_flushed f' = af_flushed f"

lemma append_loop_spec:
  assumes "fwrite_ok fwrite" and "written \<le> length data" and "af_err f = 0"
  shows "\<exists>w m f'. append_loop fwrite data written f = Some (w, f') \<and> same_handle f f' \<and> written \<le> w \<and>
     af_bytes f' = af_bytes f @ take m (drop written data) \<and> writtenBytes f' = writtenBytes f \<and>
     (if af_err f' = 0 then w = length data \<and> length data - written \<le> m else w < length data)"
  using assms(2,3)
proof (induction "length data - written" arbitrary: written f rule: less_induct)
  case less
  show ?case
  proof (cases "written < length data")
    case False
    with less.prems show ?thesis
      by (subst append_loop.simps) (auto simp: same_handle_def intro: exI [of _ 0])
  next
    case True
    define remain where "remain = length data - written"
    obtain n e where ne: "fwrite (af_calls f) remain = (n, e)" by fastforce
    define f1 where "f1 = f\<lparr>af_calls := af_calls f + 1, af_bytes := af_bytes f @ take n (drop written data)\<rparr>"
    define f2 where "f2 = (if n \<noteq> remain then f1\<lparr>af_err := e\<rparr> else f1)"
    have rem: "0 < remain" using True by (simp add: remain_def)
    have n: "n \<le> remain" "n = 0 \<Longrightarrow> e \<noteq> 0"
      using assms(1) rem ne unfolding fwrite_ok_def by (metis fst_conv snd_conv)+
    have unfold: "append_loop fwrite data written f =
        (if n \<noteq> remain \<and> e \<noteq> 0 then Some (written, f2) else append_loop fwrite data (written + n) f2)"
      using True ne by (subst append_loop.simps) (simp add: af_write_def remain_def f1_def f2_def Let_def)
    have f2: "same_handle f f2" "af_bytes f2 = af_bytes f @ take n (drop written data)"
      "writtenBytes f2 = writtenBytes f" "af_err f2 = (if n \<noteq> remain then e else 0)"
      using less.prems by (simp_all add: f2_def f1_def same_handle_def)
    show ?thesis
    proof (cases "n \<noteq> remain \<and> e \<noteq> 0")
      case err: True
      with unfold f2 True show ?thesis by (intro exI [of _ written] exI [of _ n] exI [of _ f2]) simp
    next
      case ok: False
      have n0: "0 < n" using ok n rem by (cases "n = remain") auto
      have "length data - (written + n) < length data - written" "written + n \<le> length data" "af_err f2 = 0"
        using n0 n(1) True ok f2(4) by (auto simp: remain_def)
      from less.hyps [OF this] obtain w m f' where IH: "append_loop fwrite data (written + n) f2 = Some (w, f')"
        "same_handle f2 f'" "written + n \<le> w" "af_bytes f' = af_bytes f2 @ take m (drop (written + n) data)"
        "writtenBytes f' = writtenBytes f2"
        "if af_err f' = 0 then w = length data \<and> length data - (written + n) \<le> m else w < length data" by blast
      have "af_bytes f' = af_bytes f @ take (n + m) (drop written data)"
        using IH(4) f2(2) by (simp add: take_add add.commute [of written n])
      moreover have "same_handle f f'" using f2(1) IH(2) by (simp add: same_handle_def)
      ultimately show ?thesis
        using unfold ok IH f2(3) by (intro exI [of _ w] exI [of _ "n + m"] exI [of _ f']) (auto split: if_splits)
    qed
  qed
qed

text \<open>A file holds the text \<open>s\<close>: all of it, and counted, unless there was an error.\<close>

definition holds :: "append_file \<Rightarrow> bytes \<Rightarrow> bool" where
  "holds f s \<longleftrightarrow> (\<exists>r. s = af_bytes f @ r) \<and>
     (af_err f = 0 \<longrightarrow> af_bytes f = s \<and> writtenBytes f = int (length s))"

lemma append_holds:
  assumes "fwrite_ok fwrite" and "holds f s"
  shows "\<exists>f'. AppendFile_append fwrite data f = Some f' \<and> same_handle f f' \<and> holds f' (s @ data) \<and>
     (af_err f \<noteq> 0 \<longrightarrow> f' = f)"
proof (cases "af_err f = 0")
  case False
  with assms(2) show ?thesis by (auto simp: AppendFile_append_def holds_def same_handle_def)
next
  case True
  obtain w m f' where l: "append_loop fwrite data 0 f = Some (w, f')" "same_handle f f'"
    "af_bytes f' = af_bytes f @ take m data" "writtenBytes f' = writtenBytes f"
    "if af_err f' = 0 then w = length data \<and> length data \<le> m else w < length data"
    using append_loop_spec [OF assms(1) le0 True, of data, unfolded drop_0 diff_zero] by blast
  have s: "s = af_bytes f" "writtenBytes f = int (length s)" using assms(2) True by (simp_all add: holds_def)
  have "s @ data = af_bytes f' @ drop m data" using l(3) s by simp
  then show ?thesis
    using True l s by (auto simp: AppendFile_append_def holds_def same_handle_def intro: exI [of _ "drop m data"])
qed

lemma holds_flush [simp]: "holds (AppendFile_flush f) s = holds f s" "af_name (AppendFile_flush f) = af_name f"
  "writtenBytes (AppendFile_flush f) = writtenBytes f"
  by (simp_all add: AppendFile_flush_def holds_def)

lemma holds_new [simp]: "holds (AppendFile_new e n) []"
  by (simp add: AppendFile_new_def holds_def)

section \<open>All files\<close>

definition period_start :: "int \<Rightarrow> int" where
  "period_start t = t sdiv kRollPerSeconds * kRollPerSeconds"

definition log_name :: "log_env \<Rightarrow> string \<Rightarrow> int \<Rightarrow> string" where
  "log_name env base now = base @ time_suffix (gmtime_r now) @ ''.'' @ show_int (le_pid env) @ ''.log''"

lemma log_name_inj: "log_name env base t = log_name env base u \<Longrightarrow> utc_range t \<Longrightarrow> utc_range u \<Longrightarrow> t = u"
  by (auto simp: log_name_def intro: time_suffix_inj)

text \<open>The environment: the clock does not go back, and its readings with the offset are positive.\<close>

definition clock_fine :: "log_env \<Rightarrow> int \<Rightarrow> bool" where
  "clock_fine env off \<longleftrightarrow> mono (le_time env) \<and> (\<forall>k. 0 < le_time env k + off \<and> utc_range (le_time env k + off)) \<and>
     (\<forall>i. fwrite_ok (le_fwrite env i))"

text \<open>\<open>now_of\<close> is the last reading of the clock.\<close>

definition now_of :: "log_env \<Rightarrow> log_file \<Rightarrow> int" where
  "now_of env l = le_time env (time_reads l - 1) + lf_offset l"

definition log_inv :: "log_env \<Rightarrow> bytes list \<Rightarrow> log_file \<Rightarrow> bool" where
  "log_inv env lines l \<longleftrightarrow>
     (\<exists>f parts part ts. log_handle l = Some f \<and> concat parts @ part = lines \<and>
        list_all2 (\<lambda>f p. holds f (concat p)) (closed_handles l) parts \<and> holds f (concat part) \<and>
        map af_name (closed_handles l) = map (log_name env (basename l)) ts \<and>
        af_name f = log_name env (basename l) (lastRoll l) \<and>
        sorted_wrt (<) (ts @ [lastRoll l]) \<and> (\<forall>t \<in> set (ts @ [lastRoll l]). utc_range t)) \<and>
     clock_fine env (lf_offset l) \<and> 0 < time_reads l \<and> lastRoll l \<le> now_of env l \<and>
     lastRoll l \<le> lastFlush l \<and> startOfPeriod l = period_start (lastRoll l)"

text \<open>A file is open, at most one second and one day old when it is too big or of another day.\<close>

definition rolled :: "log_env \<Rightarrow> log_file \<Rightarrow> bool" where
  "rolled env l \<longleftrightarrow> lastRoll l = now_of env l"

lemma rollFile_inv:
  assumes "log_inv env lines l"
  shows "log_inv env lines (snd (rollFile env l))" and "rolled env (snd (rollFile env l))"
    and "time_reads (snd (rollFile env l)) = time_reads l + 1"
    and "basename (snd (rollFile env l)) = basename l" "lf_offset (snd (rollFile env l)) = lf_offset l"
    "rollSize (snd (rollFile env l)) = rollSize l" "flushInterval (snd (rollFile env l)) = flushInterval l"
proof -
  obtain f parts part ts where inv: "log_handle l = Some f" "concat parts @ part = lines"
      "list_all2 (\<lambda>f p. holds f (concat p)) (closed_handles l) parts" "holds f (concat part)"
      "map af_name (closed_handles l) = map (log_name env (basename l)) ts"
      "af_name f = log_name env (basename l) (lastRoll l)"
      "sorted_wrt (<) (ts @ [lastRoll l])" "\<forall>t \<in> set (ts @ [lastRoll l]). utc_range t"
    and rest: "clock_fine env (lf_offset l)" "0 < time_reads l" "lastRoll l \<le> now_of env l"
      "lastRoll l \<le> lastFlush l" "startOfPeriod l = period_start (lastRoll l)"
    using assms unfolding log_inv_def by blast
  define now where "now = le_time env (time_reads l) + lf_offset l"
  have later: "lastRoll l \<le> now" and range: "utc_range now"
    using rest(1,3) by (auto simp: clock_fine_def now_of_def now_def mono_def intro: order_trans)
  define l' where "l' = snd (rollFile env l)"
  have l': "l' = (if now > lastRoll l
      then l\<lparr>time_reads := time_reads l + 1, lastRoll := now, lastFlush := now, startOfPeriod := period_start now,
             closed_handles := map AppendFile_flush (closed_handles l @ [f]),
             log_handle := Some (AppendFile_new (le_fopen env (Suc (length (closed_handles l)))) (log_name env (basename l) now))\<rparr>
      else l\<lparr>time_reads := time_reads l + 1\<rparr>)"
    using inv(1) by (simp add: l'_def rollFile_def getLogFileName_def read_time_def Let_def now_def handles_def
        period_start_def log_name_def)
  have now': "now_of env l' = now" by (simp add: l' now_of_def now_def)
  show "rolled env (snd (rollFile env l))"
    using later unfolding l'_def [symmetric] rolled_def now' by (simp add: l')
  show "time_reads (snd (rollFile env l)) = time_reads l + 1"
    "basename (snd (rollFile env l)) = basename l" "lf_offset (snd (rollFile env l)) = lf_offset l"
    "rollSize (snd (rollFile env l)) = rollSize l" "flushInterval (snd (rollFile env l)) = flushInterval l"
    unfolding l'_def [symmetric] by (simp_all add: l')
  show "log_inv env lines (snd (rollFile env l))"
  proof (cases "now > lastRoll l")
    case False
    then have "log_handle l' = Some f" "closed_handles l' = closed_handles l" "basename l' = basename l"
      "lastRoll l' = lastRoll l" "lf_offset l' = lf_offset l" "time_reads l' = Suc (time_reads l)"
      "lastFlush l' = lastFlush l" "startOfPeriod l' = startOfPeriod l" by (simp_all add: l' inv(1))
    with inv rest later now' show ?thesis unfolding l'_def [symmetric] log_inv_def by auto
  next
    case True
    define g where "g = AppendFile_new (le_fopen env (Suc (length (closed_handles l)))) (log_name env (basename l) now)"
    have flds: "log_handle l' = Some g"
      "closed_handles l' = map AppendFile_flush (closed_handles l @ [f])" "basename l' = basename l"
      "lastRoll l' = now" "lf_offset l' = lf_offset l" "time_reads l' = Suc (time_reads l)"
      "lastFlush l' = now" "startOfPeriod l' = period_start now"
      using True by (simp_all add: l' g_def)
    have "list_all2 (\<lambda>f p. holds f (concat p)) (closed_handles l') (parts @ [part])"
      using inv(3,4) by (simp add: flds list_all2_map1 list_all2_appendI)
    moreover have "sorted_wrt (<) ((ts @ [lastRoll l]) @ [now])"
      using inv(7) True by (auto simp: sorted_wrt_append)
    moreover have "map af_name (closed_handles l') = map (log_name env (basename l')) (ts @ [lastRoll l])"
      using inv(5,6) by (simp add: flds comp_def)
    moreover have "af_name g = log_name env (basename l') now" "holds g (concat [])"
      by (simp_all add: g_def flds) (simp add: AppendFile_new_def)
    moreover have "\<forall>t \<in> set ((ts @ [lastRoll l]) @ [now]). utc_range t" using inv(8) range by auto
    moreover have "concat (parts @ [part]) @ [] = lines" using inv(2) by simp
    ultimately have "\<exists>f parts part ts. log_handle l' = Some f \<and> concat parts @ part = lines \<and>
        list_all2 (\<lambda>f p. holds f (concat p)) (closed_handles l') parts \<and> holds f (concat part) \<and>
        map af_name (closed_handles l') = map (log_name env (basename l')) ts \<and>
        af_name f = log_name env (basename l') (lastRoll l') \<and>
        sorted_wrt (<) (ts @ [lastRoll l']) \<and> (\<forall>t \<in> set (ts @ [lastRoll l']). utc_range t)"
      using flds(1,4) by blast
    then show ?thesis
      using rest(1,2) now' unfolding l'_def [symmetric] log_inv_def by (simp add: flds)
  qed
qed

text \<open>Writing to the current file.\<close>

lemma log_inv_write:
  assumes "log_inv env lines l"
  shows "\<exists>f f1. log_handle l = Some f \<and>
     AppendFile_append (le_fwrite env (length (closed_handles l))) line f = Some f1 \<and>
     log_inv env (lines @ [line]) (l\<lparr>log_handle := Some f1\<rparr>)"
proof -
  obtain f parts part ts where inv: "log_handle l = Some f" "concat parts @ part = lines"
      "list_all2 (\<lambda>f p. holds f (concat p)) (closed_handles l) parts" "holds f (concat part)"
      "map af_name (closed_handles l) = map (log_name env (basename l)) ts"
      "af_name f = log_name env (basename l) (lastRoll l)"
      "sorted_wrt (<) (ts @ [lastRoll l])" "\<forall>t \<in> set (ts @ [lastRoll l]). utc_range t"
    and rest: "clock_fine env (lf_offset l)" "0 < time_reads l" "lastRoll l \<le> now_of env l"
      "lastRoll l \<le> lastFlush l" "startOfPeriod l = period_start (lastRoll l)"
    using assms unfolding log_inv_def by blast
  have "fwrite_ok (le_fwrite env (length (closed_handles l)))" using rest(1) by (simp add: clock_fine_def)
  from append_holds [OF this inv(4)] obtain f1 where
    f1: "AppendFile_append (le_fwrite env (length (closed_handles l))) line f = Some f1" "same_handle f f1"
      "holds f1 (concat part @ line)" by blast
  have "holds f1 (concat (part @ [line]))" "concat parts @ (part @ [line]) = lines @ [line]"
      "af_name f1 = log_name env (basename l) (lastRoll l)"
    using f1 inv(2,6) by (simp_all add: same_handle_def)
  then have "\<exists>f parts part ts. Some f1 = Some f \<and> concat parts @ part = lines @ [line] \<and>
        list_all2 (\<lambda>f p. holds f (concat p)) (closed_handles l) parts \<and> holds f (concat part) \<and>
        map af_name (closed_handles l) = map (log_name env (basename l)) ts \<and>
        af_name f = log_name env (basename l) (lastRoll l) \<and>
        sorted_wrt (<) (ts @ [lastRoll l]) \<and> (\<forall>t \<in> set (ts @ [lastRoll l]). utc_range t)"
    using inv(3,5,7,8) by blast
  then have "log_inv env (lines @ [line]) (l\<lparr>log_handle := Some f1\<rparr>)"
    using rest by (simp add: log_inv_def now_of_def)
  with inv(1) f1(1) show ?thesis by blast
qed

lemma log_inv_flushed:
  assumes "log_inv env lines l" and "log_handle l = Some f" and "lastRoll l \<le> t"
  shows "log_inv env lines (l\<lparr>lastFlush := t, log_handle := Some (AppendFile_flush f)\<rparr>)"
  using assms unfolding log_inv_def now_of_def by simp

lemma log_inv_tick:
  assumes "log_inv env lines l"
  shows "log_inv env lines (l\<lparr>time_reads := Suc (time_reads l)\<rparr>)"
    and "lastRoll l \<le> le_time env (time_reads l) + lf_offset l"
proof -
  have "mono (le_time env)" "lastRoll l \<le> now_of env l" using assms by (simp_all add: log_inv_def clock_fine_def)
  then show later: "lastRoll l \<le> le_time env (time_reads l) + lf_offset l"
    by (auto simp: now_of_def mono_def intro: order_trans)
  show "log_inv env lines (l\<lparr>time_reads := Suc (time_reads l)\<rparr>)"
    using assms later unfolding log_inv_def now_of_def by simp
qed

text \<open>After an append: the day and the size of the current file, and the time of the last flush.\<close>

definition up_to_date :: "log_env \<Rightarrow> log_file \<Rightarrow> bool" where
  "up_to_date env l \<longleftrightarrow> startOfPeriod l = period_start (now_of env l) \<and>
     now_of env l - lastFlush l \<le> max 0 (flushInterval l) \<and>
     (\<forall>f. log_handle l = Some f \<and> rollSize l < writtenBytes f \<longrightarrow> lastRoll l = now_of env l)"

lemma rolled_up_to_date: "log_inv env lines l \<Longrightarrow> rolled env l \<Longrightarrow> up_to_date env l"
  by (auto simp: log_inv_def rolled_def up_to_date_def)

lemma log_append_inv:
  assumes "log_inv env lines l"
  shows "\<exists>l'. LogFile_append env line l = Some (Inr l') \<and> log_inv env (lines @ [line]) l' \<and> up_to_date env l'"
proof -
  obtain f f1 where f1: "log_handle l = Some f"
    "AppendFile_append (le_fwrite env (length (closed_handles l))) line f = Some f1"
    "log_inv env (lines @ [line]) (l\<lparr>log_handle := Some f1\<rparr>)"
    using log_inv_write [OF assms] by blast
  define l1 where "l1 = l\<lparr>log_handle := Some f1\<rparr>"
  define l2 where "l2 = l1\<lparr>time_reads := Suc (time_reads l1)\<rparr>"
  define now where "now = le_time env (time_reads l1) + lf_offset l1"
  note inv1 = f1(3) [folded l1_def]
  note tick = log_inv_tick [OF inv1, folded l2_def now_def]
  have app: "LogFile_append env line l = Some (Inr (roll_or_flush env f1 l1))"
    using f1(1,2) by (simp add: LogFile_append_def append_unlocked_def l1_def)
  have roll: "log_inv env (lines @ [line]) (snd (rollFile env k)) \<and> up_to_date env (snd (rollFile env k))"
    if "log_inv env (lines @ [line]) k" for k
    using rollFile_inv(1,2) [OF that] rolled_up_to_date by blast
  have now2: "now_of env l2 = now" by (simp add: now_of_def l2_def now_def)
  consider (big) "writtenBytes f1 > rollSize l1"
    | (day) "\<not> writtenBytes f1 > rollSize l1" "period_start now \<noteq> startOfPeriod l2"
    | (flush) "\<not> writtenBytes f1 > rollSize l1" "period_start now = startOfPeriod l2" "now - lastFlush l2 > flushInterval l2"
    | (none) "\<not> writtenBytes f1 > rollSize l1" "period_start now = startOfPeriod l2" "\<not> now - lastFlush l2 > flushInterval l2"
    by blast
  then have "log_inv env (lines @ [line]) (roll_or_flush env f1 l1) \<and> up_to_date env (roll_or_flush env f1 l1)"
  proof cases
    case big
    then show ?thesis using roll [OF inv1] by (simp add: roll_or_flush_def)
  next
    case day
    then have "roll_or_flush env f1 l1 = snd (rollFile env l2)"
      by (simp add: roll_or_flush_def read_time_def Let_def l2_def now_def period_start_def)
    then show ?thesis using roll [OF tick(1)] by simp
  next
    case flush
    then have eq: "roll_or_flush env f1 l1 = l2\<lparr>lastFlush := now, log_handle := Some (AppendFile_flush f1)\<rparr>"
      by (simp add: roll_or_flush_def read_time_def Let_def l2_def now_def period_start_def)
    have h: "log_handle l2 = Some f1" "lastRoll l2 = lastRoll l1" "rollSize l2 = rollSize l1"
      by (simp_all add: l2_def l1_def)
    have "up_to_date env (roll_or_flush env f1 l1)"
      using flush now2 h unfolding eq up_to_date_def by (simp add: now_of_def)
    then show ?thesis using log_inv_flushed [OF tick(1) h(1)] tick(2) eq h(2) by simp
  next
    case none
    then have eq: "roll_or_flush env f1 l1 = l2"
      by (simp add: roll_or_flush_def read_time_def Let_def l2_def now_def period_start_def)
    have "up_to_date env l2"
      using none now2 unfolding up_to_date_def by (simp add: l2_def l1_def)
    then show ?thesis using tick(1) eq by simp
  qed
  with app show ?thesis by blast
qed

lemma append_lines_inv:
  "log_inv env lines l \<Longrightarrow>
   \<exists>l'. append_lines env xs l = Some (Inr l') \<and> log_inv env (lines @ xs) l' \<and> (xs \<noteq> [] \<longrightarrow> up_to_date env l')"
proof (induction xs arbitrary: lines l)
  case (Cons x xs)
  obtain l1 where l1: "LogFile_append env x l = Some (Inr l1)" "log_inv env (lines @ [x]) l1" "up_to_date env l1"
    using log_append_inv [OF Cons.prems] by blast
  from Cons.IH [OF l1(2)] obtain l2 where l2: "append_lines env xs l1 = Some (Inr l2)"
    "log_inv env (lines @ x # xs) l2" "xs \<noteq> [] \<longrightarrow> up_to_date env l2" by auto
  from l1 l2 show ?case by (cases xs) auto
qed simp

lemma LogFile_new_inv:
  assumes "clock_fine env 0"
  shows "\<exists>l. LogFile_new env name roll flush None = Inr l \<and> log_inv env [] l"
proof -
  define now where "now = le_time env 0"
  have now: "0 < now" "utc_range now" using assms by (auto simp: clock_fine_def now_def dest: spec [of _ 0])
  define l where "l = \<lparr>basename = name, rollSize = roll, flushInterval = flush, startOfPeriod = period_start now,
      lastRoll = now, lastFlush = now, lf_offset = 0,
      log_handle = Some (AppendFile_new (le_fopen env 0) (log_name env name now)), closed_handles = [], time_reads = 1\<rparr>"
  have "LogFile_new env name roll flush None = Inr l"
    using now(1) by (simp add: LogFile_new_def rollFile_def getLogFileName_def read_time_def Let_def handles_def
        l_def now_def log_name_def period_start_def)
  moreover have "log_inv env [] l"
  proof -
    have "af_name (AppendFile_new (le_fopen env 0) (log_name env name now)) = log_name env name now"
      by (simp add: AppendFile_new_def)
    then have "\<exists>f parts part ts. log_handle l = Some f \<and> concat parts @ part = [] \<and>
        list_all2 (\<lambda>f p. holds f (concat p)) (closed_handles l) parts \<and> holds f (concat part) \<and>
        map af_name (closed_handles l) = map (log_name env (basename l)) ts \<and>
        af_name f = log_name env (basename l) (lastRoll l) \<and>
        sorted_wrt (<) (ts @ [lastRoll l]) \<and> (\<forall>t \<in> set (ts @ [lastRoll l]). utc_range t)"
      using now(2) by (intro exI [of _ "AppendFile_new (le_fopen env 0) (log_name env name now)"]
          exI [of _ "[]"]) (simp add: l_def)
    then show ?thesis using assms unfolding log_inv_def by (simp add: l_def now_of_def now_def)
  qed
  ultimately show ?thesis by blast
qed

lemma log_files_hold:
  assumes "clock_fine env 0"
  shows "\<exists>l l' parts. LogFile_new env name roll flush None = Inr l \<and> append_lines env lines l = Some (Inr l') \<and>
     concat parts = lines \<and> list_all2 (\<lambda>f p. holds f (concat p)) (handles l') parts \<and>
     distinct (map af_name (handles l'))"
proof -
  obtain l where l: "LogFile_new env name roll flush None = Inr l" "log_inv env [] l"
    using LogFile_new_inv [OF assms] by blast
  obtain l' where l': "append_lines env lines l = Some (Inr l')" "log_inv env lines l'"
    using append_lines_inv [OF l(2), of lines] by auto
  then obtain f parts part ts where inv: "log_handle l' = Some f" "concat parts @ part = lines"
      "list_all2 (\<lambda>f p. holds f (concat p)) (closed_handles l') parts" "holds f (concat part)"
      "map af_name (closed_handles l') = map (log_name env (basename l')) ts"
      "af_name f = log_name env (basename l') (lastRoll l')"
      "sorted_wrt (<) (ts @ [lastRoll l'])" "\<forall>t \<in> set (ts @ [lastRoll l']). utc_range t"
    unfolding log_inv_def by blast
  have "map af_name (handles l') = map (log_name env (basename l')) (ts @ [lastRoll l'])"
    using inv(1,5,6) by (simp add: handles_def)
  moreover have "inj_on (log_name env (basename l')) (set (ts @ [lastRoll l']))"
    using inv(8) log_name_inj by (meson inj_onI)
  moreover have "distinct (ts @ [lastRoll l'])" using inv(7) by (simp only: strict_sorted_iff)
  ultimately have "distinct (map af_name (handles l'))" by (simp only: distinct_map)
  moreover have "concat (parts @ [part]) = lines" using inv(2) by simp
  moreover have "list_all2 (\<lambda>f p. holds f (concat p)) (handles l') (parts @ [part])"
    using inv(1,3,4) by (simp add: handles_def list_all2_appendI)
  ultimately show ?thesis using l(1) l'(1) by blast
qed

section \<open>The properties\<close>


text \<open>
  After an append the current file was started on the day of the append, the last flush is not
  older than the interval, and the file is longer than the roll size only when it was started in the
  same second.
\<close>

theorem log_rolls_by_day_and_size:
  assumes "clock_fine env 0" and "lines \<noteq> []"
  shows "\<exists>l l'. LogFile_new env name roll flush None = Inr l \<and> append_lines env lines l = Some (Inr l') \<and>
     startOfPeriod l' \<le> now_of env l' \<and> now_of env l' < startOfPeriod l' + 86400 \<and>
     now_of env l' - lastFlush l' \<le> max 0 (flushInterval l') \<and>
     (\<forall>f. log_handle l' = Some f \<and> rollSize l' < writtenBytes f \<longrightarrow> lastRoll l' = now_of env l')"
proof -
  obtain l where l: "LogFile_new env name roll flush None = Inr l" "log_inv env [] l"
    using LogFile_new_inv [OF assms(1)] by blast
  obtain l' where l': "append_lines env lines l = Some (Inr l')" "log_inv env lines l'" "up_to_date env l'"
    using append_lines_inv [OF l(2), of lines] assms(2) by auto
  have "0 < now_of env l'" using l'(2) by (simp add: log_inv_def clock_fine_def now_of_def)
  then have "period_start (now_of env l') = now_of env l' div 86400 * 86400"
    by (simp add: period_start_def kRollPerSeconds_def sdiv_nonneg)
  moreover have "now_of env l' div 86400 * 86400 + now_of env l' mod 86400 = now_of env l'" by simp
  moreover have "0 \<le> now_of env l' mod 86400" "now_of env l' mod 86400 < 86400" by simp_all
  ultimately have "period_start (now_of env l') \<le> now_of env l'" "now_of env l' < period_start (now_of env l') + 86400"
    by linarith+
  with l(1) l' show ?thesis unfolding up_to_date_def by auto
qed

text \<open>A night, and a disk that takes all it is given.\<close>

definition midnight_env :: log_env where
  "midnight_env = \<lparr>le_time = (\<lambda>k. if k < 2 then 86399 else 86401), le_fwrite = (\<lambda>i k n. (n, 0)), le_fopen = (\<lambda>k. 0),
     le_pid = 7\<rparr>"

lemma midnight_env_fine: "clock_fine midnight_env 0"
  by (auto simp: clock_fine_def midnight_env_def mono_def utc_range_def fwrite_ok_def)


lemma log_rolls_by_day_and_size_witness:
  "\<exists>l l'. LogFile_new midnight_env ''log'' 100 3 None = Inr l \<and>
     append_lines midnight_env [''a'', ''b'', ''c''] l = Some (Inr l') \<and> now_of midnight_env l' < startOfPeriod l' + 86400"
  using log_rolls_by_day_and_size [OF midnight_env_fine, of "[''a'', ''b'', ''c'']" "''log''" 100 3] by blast

end
