(* ===== verification/LogPipeline.thy ===== *)
theory LogPipeline
  imports AsyncLogging LogFileProps
begin

text \<open>
  Logging from end to end: the front end of theory \<open>AsyncLogging\<close> and the files of theory \<open>LogFile\<close>, which
  the writer appends its buffers to.
\<close>

definition file_text :: "log_file \<Rightarrow> bytes" where
  "file_text l = concat (map af_bytes (handles l))"

lemma held_text:
  "list_all2 (\<lambda>f p. holds f (concat p)) fs parts \<Longrightarrow> list_all (\<lambda>f. af_err f = 0) fs \<Longrightarrow>
   concat (map af_bytes fs) = concat (concat parts)"
  by (induction rule: list_all2_induct) (simp_all add: holds_def)



end
