(* ===== verification/AnyValue.thy ===== *)
theory AnyValue
  imports Runs
begin

text \<open>
  \<^verbatim>\<open>include/gg_lib/any.h\<close>: a box for a value of any type. Each \<^verbatim>\<open>any\<close> object, here a number, has a pointer
  to a holder on the heap or a null pointer; a holder has a type and a value. Deleting a holder that
  is not on the heap is an error. Types are their names; \<open>void\<close> is the type of an empty box.
\<close>

section \<open>The code\<close>

record 'v any_heap =
  holders :: "nat \<rightharpoonup> string \<times> 'v"
  next_holder :: nat
  contents :: "nat \<rightharpoonup> nat option"

definition any_heap_new :: "'v any_heap" where
  "any_heap_new = \<lparr>holders = Map.empty, next_holder = 0, contents = Map.empty\<rparr>"

definition new_holder :: "string \<times> 'v \<Rightarrow> 'v any_heap \<Rightarrow> nat \<times> 'v any_heap" where
  "new_holder h s = (next_holder s, s\<lparr>holders := (holders s)(next_holder s \<mapsto> h), next_holder := next_holder s + 1\<rparr>)"

text \<open>\<^verbatim>\<open>delete content_\<close>\<close>

definition delete_holder :: "nat option \<Rightarrow> 'v any_heap \<Rightarrow> 'v any_heap result" where
  "delete_holder c s =
     (case c of
        None \<Rightarrow> Inr s
      | Some a \<Rightarrow> if holders s a = None then Inl Dangling else Inr (s\<lparr>holders := (holders s)(a := None)\<rparr>))"

text \<open>The pointer of an object; an object that does not live is an error.\<close>

definition content_of :: "nat \<Rightarrow> 'v any_heap \<Rightarrow> nat option result" where
  "content_of x s = (case contents s x of Some c \<Rightarrow> Inr c | None \<Rightarrow> Inl Dangling)"

definition set_content :: "nat \<Rightarrow> nat option \<Rightarrow> 'v any_heap \<Rightarrow> 'v any_heap" where
  "set_content x c s = s\<lparr>contents := (contents s)(x \<mapsto> c)\<rparr>"

definition clone :: "nat option \<Rightarrow> 'v any_heap \<Rightarrow> (nat option \<times> 'v any_heap) result" where
  "clone c s =
     (case c of
        None \<Rightarrow> Inr (None, s)
      | Some a \<Rightarrow> (case holders s a of
          None \<Rightarrow> Inl Dangling
        | Some h \<Rightarrow> (case new_holder h s of (b, s') \<Rightarrow> Inr (Some b, s'))))"

definition any_default :: "nat \<Rightarrow> 'v any_heap \<Rightarrow> 'v any_heap result" where
  "any_default x s = Inr (set_content x None s)"

definition any_value :: "nat \<Rightarrow> string \<times> 'v \<Rightarrow> 'v any_heap \<Rightarrow> 'v any_heap result" where
  "any_value x h s = (case new_holder h s of (a, s1) \<Rightarrow> Inr (set_content x (Some a) s1))"

definition any_copy :: "nat \<Rightarrow> nat \<Rightarrow> 'v any_heap \<Rightarrow> 'v any_heap result" where
  "any_copy x other s =
     and_then (content_of other s) (\<lambda>c. and_then (clone c s) (\<lambda>(c', s1). Inr (set_content x c' s1)))"

definition any_move :: "nat \<Rightarrow> nat \<Rightarrow> 'v any_heap \<Rightarrow> 'v any_heap result" where
  "any_move x other s =
     and_then (content_of other s) (\<lambda>c. Inr (set_content other None (set_content x c s)))"

definition any_delete :: "nat \<Rightarrow> 'v any_heap \<Rightarrow> 'v any_heap result" where
  "any_delete x s =
     and_then (content_of x s) (\<lambda>c. and_then (delete_holder c s) (\<lambda>s1. Inr (s1\<lparr>contents := (contents s1)(x := None)\<rparr>)))"

definition swap_any :: "nat \<Rightarrow> nat \<Rightarrow> 'v any_heap \<Rightarrow> 'v any_heap result" where
  "swap_any x rhs s =
     and_then (content_of x s) (\<lambda>tmp. and_then (content_of rhs s) (\<lambda>c.
       Inr (set_content rhs tmp (set_content x c s))))"

text \<open>
  Swapping with a temporary: the object gets the pointer of the temporary, whose destructor then
  deletes the old one.
\<close>

definition swap_temporary :: "nat option \<Rightarrow> nat \<Rightarrow> 'v any_heap \<Rightarrow> 'v any_heap result" where
  "swap_temporary c x s =
     and_then (content_of x s) (\<lambda>old. delete_holder old (set_content x c s))"

definition assign_copy :: "nat \<Rightarrow> nat \<Rightarrow> 'v any_heap \<Rightarrow> 'v any_heap result" where
  "assign_copy x rhs s =
     and_then (content_of rhs s) (\<lambda>c. and_then (clone c s) (\<lambda>(c', s1). swap_temporary c' x s1))"

definition assign_move :: "nat \<Rightarrow> nat \<Rightarrow> 'v any_heap \<Rightarrow> 'v any_heap result" where
  "assign_move x rhs s = and_then (swap_any rhs x s) (swap_temporary None rhs)"

definition assign_value :: "nat \<Rightarrow> string \<times> 'v \<Rightarrow> 'v any_heap \<Rightarrow> 'v any_heap result" where
  "assign_value x h s = (case new_holder h s of (a, s1) \<Rightarrow> swap_temporary (Some a) x s1)"

definition any_clear :: "nat \<Rightarrow> 'v any_heap \<Rightarrow> 'v any_heap result" where
  "any_clear x s = swap_temporary None x s"

definition any_empty :: "nat \<Rightarrow> 'v any_heap \<Rightarrow> bool result" where
  "any_empty x s = map_sum id (\<lambda>c. c = None) (content_of x s)"

definition any_type :: "nat \<Rightarrow> 'v any_heap \<Rightarrow> string result" where
  "any_type x s =
     and_then (content_of x s) (\<lambda>c.
       case c of
         None \<Rightarrow> Inr ''void''
       | Some a \<Rightarrow> (case holders s a of Some h \<Rightarrow> Inr (fst h) | None \<Rightarrow> Inl Dangling))"

text \<open>The pointer to the value; a null operand is \<open>None\<close>.\<close>

definition any_cast_ptr :: "string \<Rightarrow> nat option \<Rightarrow> 'v any_heap \<Rightarrow> nat option result" where
  "any_cast_ptr ty operand s =
     (case operand of
        None \<Rightarrow> Inr None
      | Some x \<Rightarrow> and_then (any_type x s) (\<lambda>t. if t = ty then content_of x s else Inr None))"

definition any_cast :: "string \<Rightarrow> nat \<Rightarrow> 'v any_heap \<Rightarrow> 'v result" where
  "any_cast ty x s =
     and_then (any_cast_ptr ty (Some x) s) (\<lambda>p.
       case p of
         None \<Rightarrow> Inl Bad_any_cast
       | Some a \<Rightarrow> (case holders s a of Some h \<Rightarrow> Inr (snd h) | None \<Rightarrow> Inl Dangling))"

section \<open>Sequences of operations\<close>

datatype 'v any_op =
    Default_any nat
  | Value_any nat "string \<times> 'v"
  | Copy_any nat nat
  | Move_any nat nat
  | Delete_any nat
  | Swap_any nat nat
  | Assign_copy nat nat
  | Assign_move nat nat
  | Assign_value nat "string \<times> 'v"
  | Clear_any nat

fun any_step :: "'v any_op \<Rightarrow> 'v any_heap \<Rightarrow> 'v any_heap result" where
  "any_step (Default_any x) s = any_default x s"
| "any_step (Value_any x h) s = any_value x h s"
| "any_step (Copy_any x y) s = any_copy x y s"
| "any_step (Move_any x y) s = any_move x y s"
| "any_step (Delete_any x) s = any_delete x s"
| "any_step (Swap_any x y) s = swap_any x y s"
| "any_step (Assign_copy x y) s = assign_copy x y s"
| "any_step (Assign_move x y) s = assign_move x y s"
| "any_step (Assign_value x h) s = assign_value x h s"
| "any_step (Clear_any x) s = any_clear x s"

fun any_run :: "'v any_op list \<Rightarrow> 'v any_heap \<Rightarrow> 'v any_heap result" where
  "any_run [] s = Inr s"
| "any_run (a # as) s = and_then (any_step a s) (any_run as)"

section \<open>Values\<close>

text \<open>The same with plain values: every object is empty or has a typed value.\<close>

type_synonym 'v boxes = "nat \<rightharpoonup> (string \<times> 'v) option"

fun box_step :: "'v any_op \<Rightarrow> 'v boxes \<Rightarrow> 'v boxes" where
  "box_step (Default_any x) m = m(x \<mapsto> None)"
| "box_step (Value_any x h) m = m(x \<mapsto> Some h)"
| "box_step (Copy_any x y) m = m(x := m y)"
| "box_step (Move_any x y) m = m(x := m y, y \<mapsto> None)"
| "box_step (Delete_any x) m = m(x := None)"
| "box_step (Swap_any x y) m = m(x := m y, y := m x)"
| "box_step (Assign_copy x y) m = m(x := m y)"
| "box_step (Assign_move x y) m = m(x := m y, y \<mapsto> None)"
| "box_step (Assign_value x h) m = m(x \<mapsto> Some h)"
| "box_step (Clear_any x) m = m(x \<mapsto> None)"

text \<open>Constructors make new objects; the other operations need objects that live.\<close>

fun box_op_ok :: "'v any_op \<Rightarrow> 'v boxes \<Rightarrow> bool" where
  "box_op_ok (Default_any x) m \<longleftrightarrow> x \<notin> dom m"
| "box_op_ok (Value_any x h) m \<longleftrightarrow> x \<notin> dom m \<and> fst h \<noteq> ''void''"
| "box_op_ok (Copy_any x y) m \<longleftrightarrow> x \<notin> dom m \<and> y \<in> dom m"
| "box_op_ok (Move_any x y) m \<longleftrightarrow> x \<notin> dom m \<and> y \<in> dom m"
| "box_op_ok (Assign_value x h) m \<longleftrightarrow> x \<in> dom m \<and> fst h \<noteq> ''void''"
| "box_op_ok (Delete_any x) m \<longleftrightarrow> x \<in> dom m"
| "box_op_ok (Clear_any x) m \<longleftrightarrow> x \<in> dom m"
| "box_op_ok (Swap_any x y) m \<longleftrightarrow> x \<in> dom m \<and> y \<in> dom m"
| "box_op_ok (Assign_copy x y) m \<longleftrightarrow> x \<in> dom m \<and> y \<in> dom m"
| "box_op_ok (Assign_move x y) m \<longleftrightarrow> x \<in> dom m \<and> y \<in> dom m"

fun box_ops_ok :: "'v any_op list \<Rightarrow> 'v boxes \<Rightarrow> bool" where
  "box_ops_ok [] m \<longleftrightarrow> True"
| "box_ops_ok (a # as) m \<longleftrightarrow> box_op_ok a m \<and> box_ops_ok as (box_step a m)"

section \<open>The invariant\<close>

definition boxes_of :: "'v any_heap \<Rightarrow> 'v boxes" where
  "boxes_of s = (\<lambda>x. map_option (\<lambda>c. Option.bind c (holders s)) (contents s x))"

text \<open>Every holder on the heap belongs to exactly one object.\<close>

definition any_inv :: "'v any_heap \<Rightarrow> bool" where
  "any_inv s \<longleftrightarrow>
     (\<forall>x a. contents s x = Some (Some a) \<longrightarrow> (\<exists>h. holders s a = Some h)) \<and>
     (\<forall>x y a. contents s x = Some (Some a) \<and> contents s y = Some (Some a) \<longrightarrow> x = y) \<and>
     (\<forall>a h. holders s a = Some h \<longrightarrow> a < next_holder s \<and> fst h \<noteq> ''void'' \<and> (\<exists>x. contents s x = Some (Some a)))"

lemma any_inv_new: "any_inv any_heap_new" "boxes_of any_heap_new = Map.empty"
  by (simp_all add: any_inv_def any_heap_new_def boxes_of_def fun_eq_iff)

lemma dom_boxes_of [simp]: "x \<in> dom (boxes_of s) \<longleftrightarrow> x \<in> dom (contents s)"
  by (auto simp: boxes_of_def)

section \<open>Changes of one object\<close>

text \<open>The heap without the holder of an object.\<close>

definition freed :: "nat \<Rightarrow> 'v any_heap \<Rightarrow> nat \<rightharpoonup> string \<times> 'v" where
  "freed x s = (case contents s x of Some (Some a) \<Rightarrow> (holders s)(a := None) | _ \<Rightarrow> holders s)"

lemma any_invD:
  assumes "any_inv s"
  shows "contents s x = Some (Some a) \<Longrightarrow> \<exists>h. holders s a = Some h"
    and "contents s x = Some (Some a) \<Longrightarrow> contents s y = Some (Some a) \<Longrightarrow> x = y"
    and "holders s a = Some h \<Longrightarrow> a < next_holder s" and "holders s a = Some h \<Longrightarrow> fst h \<noteq> ''void''"
    and "holders s a = Some h \<Longrightarrow> \<exists>x. contents s x = Some (Some a)"
  using assms unfolding any_inv_def by blast+

lemma any_invI:
  assumes "\<And>x a. contents s x = Some (Some a) \<Longrightarrow> \<exists>h. holders s a = Some h"
    and "\<And>x y a. contents s x = Some (Some a) \<Longrightarrow> contents s y = Some (Some a) \<Longrightarrow> x = y"
    and "\<And>a h. holders s a = Some h \<Longrightarrow>
      a < next_holder s \<and> fst h \<noteq> ''void'' \<and> (\<exists>x. contents s x = Some (Some a))"
  shows "any_inv s"
  using assms unfolding any_inv_def by blast

lemma freed_other:
  "any_inv s \<Longrightarrow> contents s y = Some (Some a) \<Longrightarrow> y \<noteq> x \<Longrightarrow> freed x s a = holders s a"
  by (auto simp: freed_def dest: any_invD(2) split: option.split)

lemma freed_Some:
  "any_inv s \<Longrightarrow> freed x s a = Some h \<Longrightarrow> holders s a = Some h \<and> (\<exists>y. y \<noteq> x \<and> contents s y = Some (Some a))"
proof -
  assume inv: "any_inv s" and f: "freed x s a = Some h"
  then have a: "holders s a = Some h" "contents s x \<noteq> Some (Some a)"
    by (auto simp: freed_def split: option.splits if_splits)
  with any_invD(5) [OF inv a(1)] show ?thesis by metis
qed

lemma replace_null:
  assumes inv: "any_inv s" and c: "c = None \<or> c = Some None"
  shows "any_inv (s\<lparr>holders := freed x s, contents := (contents s)(x := c)\<rparr>)" (is "any_inv ?s")
    and "boxes_of (s\<lparr>holders := freed x s, contents := (contents s)(x := c)\<rparr>) = (boxes_of s)(x := map_option (\<lambda>_. None) c)"
proof -
  have h: "\<exists>h. freed x s a = Some h" if "((contents s)(x := c)) y = Some (Some a)" for y a
  proof -
    from that c have y: "y \<noteq> x" "contents s y = Some (Some a)" by (auto split: if_splits)
    then show ?thesis using freed_other [OF inv y(2,1)] any_invD(1) [OF inv y(2)] by simp
  qed
  have u: "y = z" if "((contents s)(x := c)) y = Some (Some a)" "((contents s)(x := c)) z = Some (Some a)" for y z a
    using that c any_invD(2) [OF inv] by (auto split: if_splits)
  have o: "a < next_holder s \<and> fst h \<noteq> ''void'' \<and> (\<exists>y. ((contents s)(x := c)) y = Some (Some a))"
    if "freed x s a = Some h" for a h
  proof -
    from freed_Some [OF inv that] obtain y where "holders s a = Some h" "y \<noteq> x" "contents s y = Some (Some a)" by blast
    with any_invD(3,4) [OF inv] show ?thesis by fastforce
  qed
  show "any_inv ?s"
  proof (rule any_invI, goal_cases)
    case (1 y a) then show ?case using h [of y a] by (simp del: fun_upd_apply)
  next
    case (2 y z a) then show ?case using u [of y a z] by (simp del: fun_upd_apply)
  next
    case (3 a g) then show ?case using o [of a g] by (simp del: fun_upd_apply)
  qed
  show "boxes_of ?s = (boxes_of s)(x := map_option (\<lambda>_. None) c)"
  proof
    fix y
    show "boxes_of ?s y = ((boxes_of s)(x := map_option (\<lambda>_. None) c)) y"
    proof (cases "y = x")
      case True
      with c show ?thesis by (auto simp: boxes_of_def)
    next
      case False
      then show ?thesis
        by (cases "contents s y"; cases "the (contents s y)") (auto simp: boxes_of_def freed_other [OF inv])
    qed
  qed
qed

lemma replace_new:
  assumes inv: "any_inv s" and h: "fst h \<noteq> ''void''"
  shows "any_inv (s\<lparr>holders := (freed x s)(next_holder s \<mapsto> h), next_holder := next_holder s + 1,
       contents := (contents s)(x \<mapsto> Some (next_holder s))\<rparr>)" (is "any_inv ?s")
    and "boxes_of (s\<lparr>holders := (freed x s)(next_holder s \<mapsto> h), next_holder := next_holder s + 1,
       contents := (contents s)(x \<mapsto> Some (next_holder s))\<rparr>) = (boxes_of s)(x \<mapsto> Some h)"
proof -
  let ?n = "next_holder s" and ?H = "(freed x s)(next_holder s \<mapsto> h)" and ?C = "(contents s)(x \<mapsto> Some (next_holder s))"
  have old: "a \<noteq> ?n" if "contents s y = Some (Some a)" for y a
    using any_invD(1) [OF inv that] any_invD(3) [OF inv] by fastforce
  have e: "\<exists>g. ?H a = Some g" if "?C y = Some (Some a)" for y a
  proof (cases "y = x")
    case True
    with that show ?thesis by auto
  next
    case False
    with that have "contents s y = Some (Some a)" by simp
    with False show ?thesis using freed_other [OF inv, of y a x] any_invD(1) [OF inv, of y a] by auto
  qed
  have u: "y = z" if "?C y = Some (Some a)" "?C z = Some (Some a)" for y z a
    using that old any_invD(2) [OF inv] by (auto split: if_splits)
  have o: "a < ?n + 1 \<and> fst g \<noteq> ''void'' \<and> (\<exists>y. ?C y = Some (Some a))" if "?H a = Some g" for a g
  proof (cases "a = ?n")
    case True
    with that h show ?thesis by auto
  next
    case False
    with that have "freed x s a = Some g" by simp
    from freed_Some [OF inv this] obtain y where "holders s a = Some g" "y \<noteq> x" "contents s y = Some (Some a)" by blast
    with any_invD(3,4) [OF inv] show ?thesis by fastforce
  qed
  show "any_inv ?s"
  proof (rule any_invI, goal_cases)
    case (1 y a) then show ?case using e [of y a] by (simp del: fun_upd_apply)
  next
    case (2 y z a) then show ?case using u [of y a z] by (simp del: fun_upd_apply)
  next
    case (3 a g) then show ?case using o [of a g] by (simp del: fun_upd_apply)
  qed
  show "boxes_of ?s = (boxes_of s)(x \<mapsto> Some h)"
  proof
    fix y
    show "boxes_of ?s y = ((boxes_of s)(x \<mapsto> Some h)) y"
    proof (cases "y = x")
      case True
      then show ?thesis by (simp add: boxes_of_def)
    next
      case False
      then show ?thesis using old [of y]
        by (cases "contents s y"; cases "the (contents s y)") (auto simp: boxes_of_def freed_other [OF inv])
    qed
  qed
qed

lemma swap_contents:
  assumes inv: "any_inv s"
  shows "any_inv (s\<lparr>contents := (contents s)(x := contents s y, y := contents s x)\<rparr>)" (is "any_inv ?s")
    and "boxes_of (s\<lparr>contents := (contents s)(x := contents s y, y := contents s x)\<rparr>) =
      (boxes_of s)(x := boxes_of s y, y := boxes_of s x)"
proof -
  have "\<exists>z'. contents s z = ((contents s)(x := contents s y, y := contents s x)) z'" for z
    by (cases "z = x"; cases "z = y") (auto intro: exI [of _ x] exI [of _ y] exI [of _ z])
  then have o: "\<exists>z'. ((contents s)(x := contents s y, y := contents s x)) z' = Some (Some a)"
    if "contents s z = Some (Some a)" for z a using that by metis
  show "any_inv ?s"
  proof (rule any_invI, goal_cases)
    case (1 z a) then show ?case using any_invD(1) [OF inv] by (auto split: if_splits)
  next
    case (2 z w a) then show ?case using any_invD(2) [OF inv] by (simp split: if_splits)
  next
    case (3 a g)
    then have "holders s a = Some g" by simp
    with any_invD(3-5) [OF inv this] o show ?case by (auto simp del: fun_upd_apply)
  qed
  show "boxes_of ?s = (boxes_of s)(x := boxes_of s y, y := boxes_of s x)"
    by (auto simp: boxes_of_def fun_eq_iff)
qed

section \<open>The operations\<close>

definition refines_box :: "'v any_heap result \<Rightarrow> 'v boxes \<Rightarrow> bool" where
  "refines_box r m \<longleftrightarrow> (\<exists>s'. r = Inr s' \<and> any_inv s' \<and> boxes_of s' = m)"

lemma swap_temporary_null:
  assumes "any_inv s" and "x \<in> dom (contents s)"
  shows "refines_box (swap_temporary None x s) ((boxes_of s)(x \<mapsto> None))"
proof -
  have "swap_temporary None x s = Inr (s\<lparr>holders := freed x s, contents := (contents s)(x := Some None)\<rparr>)"
    using assms any_invD(1) [OF assms(1), of x]
    by (auto simp: swap_temporary_def content_of_def delete_holder_def set_content_def freed_def split: option.splits)
  with replace_null [OF assms(1), of "Some None" x] show ?thesis by (simp add: refines_box_def)
qed

lemma new_temporary:
  assumes inv: "any_inv s" and x: "x \<in> dom (contents s)" and h: "fst h \<noteq> ''void''"
  shows "refines_box (case new_holder h s of (a, s1) \<Rightarrow> swap_temporary (Some a) x s1) ((boxes_of s)(x \<mapsto> Some h))"
proof -
  have old: "a \<noteq> next_holder s" if "contents s x = Some (Some a)" for a
    using any_invD(1) [OF inv that] any_invD(3) [OF inv] by fastforce
  have "(case new_holder h s of (a, s1) \<Rightarrow> swap_temporary (Some a) x s1) =
      Inr (s\<lparr>holders := (freed x s)(next_holder s \<mapsto> h), next_holder := next_holder s + 1,
             contents := (contents s)(x \<mapsto> Some (next_holder s))\<rparr>)"
    using x any_invD(1) [OF inv, of x] old
    by (auto simp: new_holder_def swap_temporary_def content_of_def delete_holder_def set_content_def freed_def
        fun_upd_twist split: option.splits)
  with replace_new [OF inv h, of x] show ?thesis by (simp add: refines_box_def)
qed

lemma box_content:
  assumes "any_inv s" and "contents s x = Some c"
  shows "boxes_of s x = Some (Option.bind c (holders s))" and "c = Some a \<Longrightarrow> \<exists>h. holders s a = Some h \<and> fst h \<noteq> ''void''"
  using assms any_invD(1) [OF assms(1), of x] any_invD(4) [OF assms(1)] by (auto simp: boxes_of_def)

lemma new_object:
  assumes inv: "any_inv s" and x: "x \<notin> dom (contents s)" and h: "fst h \<noteq> ''void''"
  shows "refines_box (case new_holder h s of (a, s1) \<Rightarrow> Inr (set_content x (Some a) s1)) ((boxes_of s)(x \<mapsto> Some h))"
proof -
  have "freed x s = holders s" using x by (auto simp: freed_def split: option.splits)
  with replace_new [OF inv h, of x] show ?thesis
    by (simp add: refines_box_def new_holder_def set_content_def)
qed

lemma new_null:
  assumes "any_inv s" and "x \<notin> dom (contents s)"
  shows "any_inv (set_content x None s)" and "boxes_of (set_content x None s) = (boxes_of s)(x \<mapsto> None)"
proof -
  have "freed x s = holders s" using assms(2) by (auto simp: freed_def split: option.splits)
  with replace_null [OF assms(1), of "Some None" x]
  show "any_inv (set_content x None s)" "boxes_of (set_content x None s) = (boxes_of s)(x \<mapsto> None)"
    by (simp_all add: set_content_def)
qed

lemma swap_any_refines:
  assumes "any_inv s" and "x \<in> dom (contents s)" and "y \<in> dom (contents s)"
  shows "refines_box (swap_any x y s) ((boxes_of s)(x := boxes_of s y, y := boxes_of s x))"
proof -
  have "swap_any x y s = Inr (s\<lparr>contents := (contents s)(x := contents s y, y := contents s x)\<rparr>)"
    using assms(2,3) by (auto simp: swap_any_def content_of_def set_content_def)
  with swap_contents [OF assms(1), of x y] show ?thesis by (simp add: refines_box_def)
qed

lemma any_step_refines:
  assumes inv: "any_inv s" and ok: "box_op_ok a (boxes_of s)"
  shows "refines_box (any_step a s) (box_step a (boxes_of s))"
proof (cases a)
  case (Default_any x)
  with ok new_null [OF inv, of x] show ?thesis by (simp add: refines_box_def any_default_def)
next
  case (Value_any x h)
  with ok new_object [OF inv, of x h] show ?thesis by (simp add: any_value_def)
next
  case (Copy_any x y)
  with ok have x: "x \<notin> dom (contents s)" and "y \<in> dom (contents s)" by simp_all
  then obtain c where c: "contents s y = Some c" by auto
  note bc = box_content [OF inv c]
  show ?thesis
  proof (cases c)
    case None
    with bc c new_null [OF inv x] Copy_any show ?thesis
      by (simp add: any_copy_def content_of_def clone_def refines_box_def)
  next
    case (Some b)
    then obtain h where h: "holders s b = Some h" "fst h \<noteq> ''void''" using bc(2) by blast
    with bc c Some new_object [OF inv x h(2)] Copy_any show ?thesis
      by (simp add: any_copy_def content_of_def clone_def new_holder_def)
  qed
next
  case (Move_any x y)
  with ok have x: "x \<notin> dom (contents s)" and y: "y \<in> dom (contents s)" by simp_all
  note n = new_null [OF inv x]
  obtain c where c: "contents s y = Some c" using y by auto
  have "swap_any x y (set_content x None s) = any_move x y s"
    using x c by (auto simp: swap_any_def any_move_def content_of_def set_content_def)
  moreover have ne: "y \<noteq> x" using x y by auto
  moreover have "x \<in> dom (contents (set_content x None s))" "y \<in> dom (contents (set_content x None s))"
    using y by (auto simp: set_content_def)
  then have "refines_box (swap_any x y (set_content x None s)) (box_step a (boxes_of s))"
    using swap_any_refines [OF n(1), of x y] ne Move_any by (simp add: n(2))
  ultimately show ?thesis using Move_any by simp
next
  case (Delete_any x)
  with ok have x: "x \<in> dom (contents s)" by simp
  have "any_delete x s = Inr (s\<lparr>holders := freed x s, contents := (contents s)(x := None)\<rparr>)"
    using x any_invD(1) [OF inv, of x]
    by (auto simp: any_delete_def content_of_def delete_holder_def freed_def split: option.splits)
  with replace_null [OF inv, of None x] Delete_any show ?thesis by (simp add: refines_box_def)
next
  case (Swap_any x y)
  with ok swap_any_refines [OF inv, of x y] show ?thesis by simp
next
  case (Assign_copy x y)
  with ok have x: "x \<in> dom (contents s)" and "y \<in> dom (contents s)" by simp_all
  then obtain c where c: "contents s y = Some c" by auto
  note bc = box_content [OF inv c]
  show ?thesis
  proof (cases c)
    case None
    with bc c swap_temporary_null [OF inv x] Assign_copy show ?thesis
      by (simp add: assign_copy_def content_of_def clone_def)
  next
    case (Some b)
    then obtain h where h: "holders s b = Some h" "fst h \<noteq> ''void''" using bc(2) by blast
    with bc c Some new_temporary [OF inv x h(2)] Assign_copy show ?thesis
      by (simp add: assign_copy_def content_of_def clone_def new_holder_def)
  qed
next
  case (Assign_move x y)
  with ok have xy: "x \<in> dom (contents s)" "y \<in> dom (contents s)" by simp_all
  from swap_any_refines [OF inv xy(2,1)] obtain s1 where s1: "swap_any y x s = Inr s1" "any_inv s1"
    "boxes_of s1 = (boxes_of s)(y := boxes_of s x, x := boxes_of s y)" by (auto simp: refines_box_def)
  have "boxes_of s1 y \<noteq> None" unfolding s1(3) using xy by (auto simp: boxes_of_def)
  then have "y \<in> dom (contents s1)" by (auto simp: boxes_of_def)
  from swap_temporary_null [OF s1(2) this] s1 Assign_move show ?thesis
    by (auto simp: assign_move_def fun_upd_twist)
next
  case (Assign_value x h)
  with ok new_temporary [OF inv, of x h] show ?thesis by (simp add: assign_value_def)
next
  case (Clear_any x)
  with ok swap_temporary_null [OF inv, of x] show ?thesis by (simp add: any_clear_def)
qed

lemma any_run_refines:
  "any_inv s \<Longrightarrow> box_ops_ok as (boxes_of s) \<Longrightarrow> refines_box (any_run as s) (fold box_step as (boxes_of s))"
proof (induction as arbitrary: s)
  case Nil
  then show ?case by (simp add: refines_box_def)
next
  case (Cons a as)
  from any_step_refines [OF Cons.prems(1)] Cons.prems(2) obtain s1 where
    s1: "any_step a s = Inr s1" "any_inv s1" "boxes_of s1 = box_step a (boxes_of s)" by (auto simp: refines_box_def)
  with Cons.IH [of s1] Cons.prems(2) show ?case by simp
qed

lemma any_run_new:
  "box_ops_ok as Map.empty \<Longrightarrow>
   \<exists>s. any_run as any_heap_new = Inr s \<and> any_inv s \<and> boxes_of s = fold box_step as Map.empty"
  using any_run_refines [OF any_inv_new(1), of as, unfolded any_inv_new(2)] unfolding refines_box_def by blast

section \<open>The properties\<close>

text \<open>
  C36. An \<^verbatim>\<open>any\<close> is a value: whatever constructors, assignments, swaps, moves and destructors run on
  living objects, aliases included, no holder is deleted twice or used after its deletion, every holder
  that is left belongs to exactly one object, and the objects have the values that plain assignment
  of boxes gives them.
\<close>

theorem any_is_a_value:
  assumes "box_ops_ok as Map.empty"
  shows "\<exists>s. any_run as any_heap_new = Inr s \<and> boxes_of s = fold box_step as Map.empty \<and>
     (\<forall>a \<in> dom (holders s). \<exists>!x. contents s x = Some (Some a))"
proof -
  obtain s where s: "any_run as any_heap_new = Inr s" "any_inv s" "boxes_of s = fold box_step as Map.empty"
    using any_run_new [OF assms] by blast
  have "\<exists>!x. contents s x = Some (Some a)" if a: "a \<in> dom (holders s)" for a
  proof -
    obtain x where x: "contents s x = Some (Some a)" using a any_invD(5) [OF s(2)] by blast
    from any_invD(2) [OF s(2) x] show ?thesis using x by (intro ex1I [of _ x]) metis+
  qed
  with s show ?thesis by blast
qed

text \<open>
  C37. A cast is typed: after any such operations \<^verbatim>\<open>any_cast\<close> to a type gives the value exactly when the
  object holds one of this very type, and throws \<^verbatim>\<open>bad_any_cast\<close> for every other type and for an
  empty object; it never reads a holder at a wrong type or after its deletion.
\<close>

theorem any_cast_is_typed:
  assumes "box_ops_ok as Map.empty" and "any_run as any_heap_new = Inr s" and "fold box_step as Map.empty x = Some b"
    and "ty \<noteq> ''void''"
  shows "any_cast ty x s = (case b of Some (t, v) \<Rightarrow> if t = ty then Inr v else Inl Bad_any_cast | None \<Rightarrow> Inl Bad_any_cast)"
proof -
  from any_run_new [OF assms(1)] assms(2) have s: "any_inv s" "boxes_of s = fold box_step as Map.empty" by simp_all
  then obtain c where c: "contents s x = Some c" "b = Option.bind c (holders s)"
    using assms(3) by (auto simp: boxes_of_def fun_eq_iff dest!: spec [of _ x])
  from box_content(2) [OF s(1) c(1)] c assms(4) show ?thesis
    by (cases c) (auto simp: any_cast_def any_cast_ptr_def any_type_def content_of_def)
qed

definition sample_ops :: "nat any_op list" where
  "sample_ops = [Value_any 1 (''int'', 5), Default_any 2, Assign_copy 2 1, Assign_move 1 1, Value_any 3 (''char'', 7), Swap_any 3 2, Delete_any 3]"

lemma sample_ops_ok: "box_ops_ok sample_ops Map.empty"
  "fold box_step sample_ops Map.empty 2 = Some (Some (''char'', 7))" "fold box_step sample_ops Map.empty 1 = Some None"
  by (simp_all add: sample_ops_def)

lemma any_is_a_value_witness:
  "\<exists>s. any_run sample_ops any_heap_new = Inr s \<and> boxes_of s 2 = Some (Some (''char'', 7)) \<and> boxes_of s 1 = Some None"
proof -
  obtain s where "any_run sample_ops any_heap_new = Inr s" "boxes_of s = fold box_step sample_ops Map.empty"
    using any_is_a_value [OF sample_ops_ok(1)] by blast
  with sample_ops_ok(2,3) show ?thesis by metis
qed

lemma any_cast_is_typed_witness:
  "\<exists>s. any_run sample_ops any_heap_new = Inr s \<and> any_cast ''char'' 2 s = Inr 7 \<and> any_cast ''int'' 2 s = Inl Bad_any_cast"
proof -
  obtain s where s: "any_run sample_ops any_heap_new = Inr s"
    using any_run_new [OF sample_ops_ok(1)] by blast
  show ?thesis
    using any_cast_is_typed [OF sample_ops_ok(1) s sample_ops_ok(2), of "''char''"]
      any_cast_is_typed [OF sample_ops_ok(1) s sample_ops_ok(2), of "''int''"] s by simp
qed

end
