(* ===== verification/ThreadPool.thy ===== *)
theory ThreadPool
  imports Runs
begin

text \<open>
  \<^verbatim>\<open>gg_lib/ThreadPool.cc\<close>: a queue of tasks, perhaps of bounded size, and the threads that take tasks
  from it. A task is a number, and \<open>body\<close> lists the tasks that it hands to \<^verbatim>\<open>run\<close> itself. Threads
  interleave: an action is one step of one worker, up to the next release of the mutex, the part of
  \<^verbatim>\<open>run\<close> of another thread that holds the mutex, or \<^verbatim>\<open>stop\<close>. A step that would wait on a condition is not
  enabled. \<open>accepted\<close>, \<open>taken\<close>, \<open>finished\<close> and \<open>refused\<close> record the tasks for the proofs.
\<close>

section \<open>The code\<close>

datatype worker =
    W_test
  | W_take
  | W_run nat "nat list"
  | W_exit

record thread_pool =
  pool_running :: bool
  workers :: "worker list"
  task_queue :: "nat list"
  maxQueueSize :: nat
  init_calls :: nat
  accepted :: "nat list"
  taken :: "nat list"
  finished :: "nat list"
  refused :: "nat list"

definition ThreadPool_new :: thread_pool where
  "ThreadPool_new =
     \<lparr>pool_running = False, workers = [], task_queue = [], maxQueueSize = 0, init_calls = 0, accepted = [],
      taken = [], finished = [], refused = []\<rparr>"

definition setMaxQueueSize :: "nat \<Rightarrow> thread_pool \<Rightarrow> thread_pool" where
  "setMaxQueueSize n p = p\<lparr>maxQueueSize := n\<rparr>"

text \<open>The initialisation callback, when there is one, runs in every thread, or here when there is none.\<close>

definition ThreadPool_start :: "nat \<Rightarrow> bool \<Rightarrow> thread_pool \<Rightarrow> thread_pool result" where
  "ThreadPool_start numThreads has_init p =
     check (\<not> pool_running p \<and> workers p = [])
       (Inr (p\<lparr>pool_running := True, workers := replicate numThreads W_test,
               init_calls := init_calls p + (if has_init then max 1 numThreads else 0)\<rparr>))"

definition ThreadPool_stop :: "thread_pool \<Rightarrow> thread_pool" where
  "ThreadPool_stop p = p\<lparr>pool_running := False\<rparr>"

definition isFull :: "thread_pool \<Rightarrow> bool" where
  "isFull p \<longleftrightarrow> maxQueueSize p > 0 \<and> length (task_queue p) \<ge> maxQueueSize p"

definition queueSize :: "thread_pool \<Rightarrow> nat" where
  "queueSize p = length (task_queue p)"

text \<open>\<^verbatim>\<open>run\<close>, in a pool with threads: \<open>None\<close> while it waits.\<close>

definition run_task :: "nat \<Rightarrow> thread_pool \<Rightarrow> thread_pool result option" where
  "run_task task p =
     (if isFull p \<and> pool_running p then None
      else if \<not> pool_running p then Some (Inr (p\<lparr>refused := refused p @ [task]\<rparr>))
      else Some (check (\<not> isFull p)
        (Inr (p\<lparr>task_queue := task_queue p @ [task], accepted := accepted p @ [task]\<rparr>))))"

text \<open>\<^verbatim>\<open>take\<close>: \<open>None\<close> while it waits; the task is \<open>None\<close> when the pool was stopped and nothing is left.\<close>

definition take_task :: "thread_pool \<Rightarrow> (nat option \<times> thread_pool) option" where
  "take_task p =
     (if task_queue p = [] \<and> pool_running p then None
      else case task_queue p of
        [] \<Rightarrow> Some (None, p)
      | t # ts \<Rightarrow> Some (Some t, p\<lparr>task_queue := ts, taken := taken p @ [t]\<rparr>))"

definition set_worker :: "nat \<Rightarrow> worker \<Rightarrow> thread_pool \<Rightarrow> thread_pool" where
  "set_worker i w p = p\<lparr>workers := (workers p)[i := w]\<rparr>"

text \<open>The loop of \<^verbatim>\<open>runInThread\<close>, step by step.\<close>

definition worker_step :: "(nat \<Rightarrow> nat list) \<Rightarrow> nat \<Rightarrow> thread_pool \<Rightarrow> thread_pool result option" where
  "worker_step body i p =
     (case workers p ! i of
        W_test \<Rightarrow> Some (Inr (set_worker i (if pool_running p then W_take else W_exit) p))
      | W_take \<Rightarrow> map_option (\<lambda>(t, p'). Inr (set_worker i (case t of Some t \<Rightarrow> W_run t (body t) | None \<Rightarrow> W_test) p'))
          (take_task p)
      | W_run t [] \<Rightarrow> Some (Inr (set_worker i W_test (p\<lparr>finished := finished p @ [t]\<rparr>)))
      | W_run t (u # us) \<Rightarrow> map_option (map_sum id (set_worker i (W_run t us))) (run_task u p)
      | W_exit \<Rightarrow> None)"

datatype pool_action = Submit nat | Worker nat | Stop_pool

text \<open>Without threads \<^verbatim>\<open>run\<close> calls the task at once.\<close>

fun pool_exec :: "(nat \<Rightarrow> nat list) \<Rightarrow> pool_action \<Rightarrow> thread_pool \<Rightarrow> thread_pool result option" where
  "pool_exec body (Submit t) p =
     (if workers p = [] then Some (Inr (p\<lparr>accepted := accepted p @ [t], taken := taken p @ [t], finished := finished p @ [t]\<rparr>))
      else run_task t p)"
| "pool_exec body (Worker i) p = (if i < length (workers p) then worker_step body i p else None)"
| "pool_exec body Stop_pool p = Some (Inr (ThreadPool_stop p))"

inductive pool_steps :: "(nat \<Rightarrow> nat list) \<Rightarrow> thread_pool \<Rightarrow> pool_action list \<Rightarrow> thread_pool result \<Rightarrow> bool" for body where
  no_step: "pool_steps body p [] (Inr p)"
| one_more: "pool_exec body a p = Some (Inr p1) \<Longrightarrow> pool_steps body p1 as r \<Longrightarrow> pool_steps body p (a # as) r"
| error: "pool_exec body a p = Some (Inl e) \<Longrightarrow> pool_steps body p (a # as) (Inl e)"

inductive_cases pool_steps_Cons: "pool_steps body p (a # as) r"
inductive_cases pool_steps_Nil: "pool_steps body p [] r"

interpretation tp: interleaving "pool_exec body" "pool_steps body" for body
  by unfold_locales (auto intro: pool_steps.intros elim: pool_steps_Cons pool_steps_Nil)

definition started_pool :: "nat \<Rightarrow> nat \<Rightarrow> thread_pool" where
  "started_pool maxSize n = (setMaxQueueSize maxSize ThreadPool_new)\<lparr>pool_running := True, workers := replicate n W_test\<rparr>"

lemma started_pool: "ThreadPool_start n False (setMaxQueueSize maxSize ThreadPool_new) = Inr (started_pool maxSize n)"
  by (simp add: ThreadPool_start_def started_pool_def setMaxQueueSize_def ThreadPool_new_def)

section \<open>Order and bound\<close>

fun running_task :: "worker \<Rightarrow> nat list" where
  "running_task (W_run t us) = [t]"
| "running_task _ = []"

definition pool_inv :: "thread_pool \<Rightarrow> bool" where
  "pool_inv p \<longleftrightarrow> accepted p = taken p @ task_queue p \<and> (workers p = [] \<longrightarrow> task_queue p = []) \<and>
     (maxQueueSize p > 0 \<longrightarrow> length (task_queue p) \<le> maxQueueSize p)"

lemma run_task_inv:
  assumes "pool_inv p" and "workers p \<noteq> []" and "run_task t p = Some r"
  shows "\<exists>p'. r = Inr p' \<and> pool_inv p' \<and> workers p' = workers p \<and> taken p' = taken p \<and> finished p' = finished p"
  using assms by (auto simp: run_task_def pool_inv_def isFull_def split: if_splits)

lemma set_worker_simps [simp]:
  "pool_inv (set_worker i w p) = pool_inv p" "taken (set_worker i w p) = taken p" "pool_running (set_worker i w p) = pool_running p"
  "finished (set_worker i w p) = finished p" "workers (set_worker i w p) = (workers p)[i := w]"
  "task_queue (set_worker i w p) = task_queue p"
  by (auto simp add: set_worker_def pool_inv_def)

lemma pool_exec_inv:
  assumes inv: "pool_inv p" and exec: "pool_exec body a p = Some r"
  shows "\<exists>p'. r = Inr p' \<and> pool_inv p'"
proof (cases a)
  case (Submit t)
  show ?thesis
  proof (cases "workers p = []")
    case True
    with Submit exec inv show ?thesis by (auto simp: pool_inv_def)
  next
    case False
    with Submit exec run_task_inv [OF inv False, of t r] show ?thesis by auto
  qed
next
  case (Worker i)
  with exec have w: "worker_step body i p = Some r" and ne: "workers p \<noteq> []" by (auto split: if_splits)
  show ?thesis
  proof (cases "workers p ! i")
    case W_take
    with w inv show ?thesis
      by (auto simp: worker_step_def take_task_def pool_inv_def set_worker_def split: list.splits if_splits)
  next
    case (W_run t us)
    show ?thesis
    proof (cases us)
      case Nil
      with W_run w inv show ?thesis by (auto simp: worker_step_def pool_inv_def set_worker_def)
    next
      case (Cons u vs)
      with W_run w obtain r' where "run_task u p = Some r'" "r = map_sum id (set_worker i (W_run t vs)) r'"
        by (auto simp: worker_step_def)
      with run_task_inv [OF inv ne this(1)] show ?thesis by auto
    qed
  qed (use w inv in \<open>auto simp: worker_step_def\<close>)
next
  case Stop_pool
  with exec inv show ?thesis by (auto simp: ThreadPool_stop_def pool_inv_def)
qed

lemma pool_steps_inv: "pool_steps body p as r \<Longrightarrow> pool_inv p \<Longrightarrow> \<exists>p'. r = Inr p' \<and> pool_inv p'"
  by (rule tp.steps_inv [OF pool_exec_inv])

lemma pool_inv_started: "pool_inv (started_pool m n)"
  by (simp add: pool_inv_def started_pool_def setMaxQueueSize_def ThreadPool_new_def)

section \<open>Stopping\<close>

text \<open>A worker of a stopped pool, alone, comes to its end.\<close>

lemma stopped_task_ends:
  "\<not> pool_running p \<Longrightarrow> i < length (workers p) \<Longrightarrow> workers p ! i = W_run t us \<Longrightarrow>
   \<exists>as p'. set as \<subseteq> {Worker i} \<and> pool_steps body p as (Inr p') \<and> \<not> pool_running p' \<and>
     workers p' = (workers p)[i := W_exit] \<and> taken p' = taken p \<and> task_queue p' = task_queue p \<and> finished p' = finished p @ [t]"
proof (induction us arbitrary: p)
  case Nil
  define p1 where "p1 = set_worker i W_test (p\<lparr>finished := finished p @ [t]\<rparr>)"
  have e1: "pool_exec body (Worker i) p = Some (Inr p1)"
    using Nil by (simp add: worker_step_def p1_def)
  have e2: "pool_exec body (Worker i) p1 = Some (Inr (set_worker i W_exit p1))"
    using Nil by (simp add: worker_step_def p1_def set_worker_def)
  have "pool_steps body p [Worker i, Worker i] (Inr (set_worker i W_exit p1))"
    using e1 e2 by (meson pool_steps.intros)
  then show ?case using Nil
    by (intro exI [of _ "[Worker i, Worker i]"] exI [of _ "set_worker i W_exit p1"]) (simp add: p1_def set_worker_def)
next
  case (Cons u us)
  define p1 where "p1 = set_worker i (W_run t us) (p\<lparr>refused := refused p @ [u]\<rparr>)"
  have e1: "pool_exec body (Worker i) p = Some (Inr p1)"
    using Cons.prems by (simp add: worker_step_def run_task_def p1_def)
  have "\<not> pool_running p1" "i < length (workers p1)" "workers p1 ! i = W_run t us"
    using Cons.prems by (simp_all add: p1_def set_worker_def)
  from Cons.IH [OF this] obtain as p' where IH: "set as \<subseteq> {Worker i}" "pool_steps body p1 as (Inr p')"
    "\<not> pool_running p'" "workers p' = (workers p1)[i := W_exit]" "taken p' = taken p1" "task_queue p' = task_queue p1"
    "finished p' = finished p1 @ [t]" by blast
  have "pool_steps body p (Worker i # as) (Inr p')" using e1 IH(2) by (rule pool_steps.one_more)
  then show ?case using IH
    by (intro exI [of _ "Worker i # as"] exI [of _ p']) (simp add: p1_def set_worker_def)
qed

lemma stopped_worker_ends:
  assumes stopped: "\<not> pool_running p" and i: "i < length (workers p)"
  shows "\<exists>as p' xs. set as \<subseteq> {Worker i} \<and> pool_steps body p as (Inr p') \<and> \<not> pool_running p' \<and>
     workers p' = (workers p)[i := W_exit] \<and> taken p' = taken p @ xs \<and> task_queue p = xs @ task_queue p' \<and> length xs \<le> 1"
proof (cases "workers p ! i")
  case W_test
  have "pool_exec body (Worker i) p = Some (Inr (set_worker i W_exit p))"
    using W_test assms by (simp add: worker_step_def)
  then have "pool_steps body p [Worker i] (Inr (set_worker i W_exit p))" by (meson pool_steps.intros)
  with stopped show ?thesis by (intro exI [of _ "[Worker i]"] exI [of _ "set_worker i W_exit p"] exI [of _ "[]"]) simp
next
  case W_exit
  have "pool_steps body p [] (Inr p)" by (rule pool_steps.no_step)
  moreover have "(workers p)[i := W_exit] = workers p" using W_exit by (metis list_update_id)
  ultimately show ?thesis using stopped by (intro exI [of _ "[]"] exI [of _ p]) simp
next
  case (W_run t us)
  from stopped_task_ends [OF stopped i W_run, of body] show ?thesis by (metis append_Nil append_Nil2 list.size(3) zero_le_one)
next
  case W_take
  show ?thesis
  proof (cases "task_queue p")
    case Nil
    define p1 where "p1 = set_worker i W_test p"
    have e1: "pool_exec body (Worker i) p = Some (Inr p1)"
      using W_take Nil assms by (simp add: worker_step_def take_task_def p1_def)
    have e2: "pool_exec body (Worker i) p1 = Some (Inr (set_worker i W_exit p1))"
      using assms by (simp add: worker_step_def p1_def)
    have "pool_steps body p [Worker i, Worker i] (Inr (set_worker i W_exit p1))"
      using e1 e2 by (meson pool_steps.intros)
    then show ?thesis using stopped
      by (intro exI [of _ "[Worker i, Worker i]"] exI [of _ "set_worker i W_exit p1"] exI [of _ "[]"]) (simp add: p1_def)
  next
    case (Cons t ts)
    define p1 where "p1 = set_worker i (W_run t (body t)) (p\<lparr>task_queue := ts, taken := taken p @ [t]\<rparr>)"
    have e1: "pool_exec body (Worker i) p = Some (Inr p1)"
      using W_take Cons assms by (simp add: worker_step_def take_task_def p1_def)
    have p1: "\<not> pool_running p1" "i < length (workers p1)" "workers p1 ! i = W_run t (body t)"
      "taken p1 = taken p @ [t]" "task_queue p1 = ts" "(workers p1)[i := W_exit] = (workers p)[i := W_exit]"
      using assms by (simp_all add: p1_def set_worker_def)
    from stopped_task_ends [OF p1(1-3), of body] obtain as p' where as: "set as \<subseteq> {Worker i}" "pool_steps body p1 as (Inr p')"
      "\<not> pool_running p'" "workers p' = (workers p)[i := W_exit]" "taken p' = taken p @ [t]" "task_queue p' = ts"
      using p1(4-6) by auto
    have "pool_steps body p (Worker i # as) (Inr p')" using e1 as(2) by (rule pool_steps.one_more)
    with as Cons show ?thesis by (intro exI [of _ "Worker i # as"] exI [of _ p'] exI [of _ "[t]"]) simp
  qed
qed

lemma stopped_workers_end:
  "\<not> pool_running p \<Longrightarrow> k \<le> length (workers p) \<Longrightarrow>
   \<exists>as p' xs. set as \<subseteq> Worker ` {..<k} \<and> pool_steps body p as (Inr p') \<and> \<not> pool_running p' \<and>
     workers p' = replicate k W_exit @ drop k (workers p) \<and> taken p' = taken p @ xs \<and>
     task_queue p = xs @ task_queue p' \<and> length xs \<le> k"
proof (induction k)
  case 0
  then show ?case by (intro exI [of _ "[]"] exI [of _ p]) (simp add: pool_steps.no_step)
next
  case (Suc k)
  then obtain as p' xs where IH: "set as \<subseteq> Worker ` {..<k}" "pool_steps body p as (Inr p')" "\<not> pool_running p'"
    "workers p' = replicate k W_exit @ drop k (workers p)" "taken p' = taken p @ xs"
    "task_queue p = xs @ task_queue p'" "length xs \<le> k" by auto
  have "k < length (workers p')" using IH(4) Suc.prems(2) by simp
  from stopped_worker_ends [OF IH(3) this, of body] obtain bs p2 ys where st: "set bs \<subseteq> {Worker k}"
    "pool_steps body p' bs (Inr p2)" "\<not> pool_running p2" "workers p2 = (workers p')[k := W_exit]"
    "taken p2 = taken p' @ ys" "task_queue p' = ys @ task_queue p2" "length ys \<le> 1" by blast
  have "drop k (workers p) = workers p ! k # drop (Suc k) (workers p)" using Suc.prems(2) by (simp add: Cons_nth_drop_Suc)
  then have "(replicate k W_exit @ drop k (workers p))[k := W_exit] = replicate k W_exit @ W_exit # drop (Suc k) (workers p)"
    by (simp add: list_update_append)
  also have "\<dots> = replicate (Suc k) W_exit @ drop (Suc k) (workers p)"
    by (simp add: replicate_append_same [symmetric])
  finally have w: "workers p2 = replicate (Suc k) W_exit @ drop (Suc k) (workers p)"
    using st(4) IH(4) by simp
  have "pool_steps body p (as @ bs) (Inr p2)" by (rule tp.steps_append [OF IH(2) st(2)])
  moreover have "set (as @ bs) \<subseteq> Worker ` {..<Suc k}" using IH(1) st(1) by auto
  ultimately show ?case using w IH st
    by (intro exI [of _ "as @ bs"] exI [of _ p2] exI [of _ "xs @ ys"]) simp
qed

section \<open>The properties\<close>

text \<open>
  C38. However the threads interleave, tasks are taken in the order in which they were accepted, each
  once, a bounded queue never exceeds its bound, and the assertion of \<^verbatim>\<open>run\<close> never fails.
\<close>

theorem pool_is_fifo:
  assumes "pool_steps body (started_pool maxSize n) as r"
  shows "\<exists>p. r = Inr p \<and> accepted p = taken p @ task_queue p \<and>
     (maxQueueSize p > 0 \<longrightarrow> length (task_queue p) \<le> maxQueueSize p)"
  using pool_steps_inv [OF assms pool_inv_started] by (auto simp: pool_inv_def)


text \<open>
  With a bounded queue, a task that hands in more tasks than there is room for stops the pool for ever:
  here one worker, a bound of one, and a task that hands in two.
\<close>

lemma bounded_pool_deadlocks:
  "\<exists>p. pool_steps (\<lambda>t. if t = 0 then [1, 2] else []) (started_pool 1 1)
       [Submit 0, Worker 0, Worker 0, Worker 0] (Inr p) \<and> pool_running p \<and>
     (\<forall>i t. pool_exec (\<lambda>t. if t = 0 then [1, 2] else []) (Worker i) p = None \<and>
        pool_exec (\<lambda>t. if t = 0 then [1, 2] else []) (Submit t) p = None)"
proof -
  let ?b = "\<lambda>t. if t = 0 then [1, 2] else [] :: nat list"
  define p0 where "p0 = started_pool 1 1"
  define p1 where "p1 = p0\<lparr>task_queue := [0], accepted := [0]\<rparr>"
  define p2 where "p2 = p1\<lparr>workers := [W_take]\<rparr>"
  define p3 where "p3 = p2\<lparr>workers := [W_run 0 [1, 2]], task_queue := [], taken := [0]\<rparr>"
  define p4 where "p4 = p3\<lparr>workers := [W_run 0 [2]], task_queue := [1], accepted := [0, 1]\<rparr>"
  note defs = p4_def p3_def p2_def p1_def p0_def started_pool_def setMaxQueueSize_def ThreadPool_new_def
    worker_step_def run_task_def take_task_def isFull_def set_worker_def
  have "pool_exec ?b (Submit 0) p0 = Some (Inr p1)" "pool_exec ?b (Worker 0) p1 = Some (Inr p2)"
    "pool_exec ?b (Worker 0) p2 = Some (Inr p3)" "pool_exec ?b (Worker 0) p3 = Some (Inr p4)"
    by (simp_all add: defs)
  then have "pool_steps ?b p0 [Submit 0, Worker 0, Worker 0, Worker 0] (Inr p4)" by (meson pool_steps.intros)
  moreover have "pool_running p4" "pool_exec ?b (Worker i) p4 = None" "pool_exec ?b (Submit t) p4 = None" for i t
    by (simp_all add: defs)
  ultimately show ?thesis unfolding p0_def by blast
qed

lemma pool_is_fifo_witness:
  "\<exists>p. pool_steps (\<lambda>t. []) (started_pool 0 1) [Submit 3, Submit 4, Worker 0, Worker 0] (Inr p) \<and>
     accepted p = [3, 4] \<and> accepted p = taken p @ task_queue p"
proof -
  define p where "p = (started_pool 0 1)\<lparr>workers := [W_run 3 []], task_queue := [4], accepted := [3, 4], taken := [3]\<rparr>"
  have "pool_steps (\<lambda>t. []) (started_pool 0 1) [Submit 3, Submit 4, Worker 0, Worker 0] (Inr p)"
    by (rule pool_steps.one_more, simp add: run_task_def isFull_def worker_step_def take_task_def set_worker_def
        started_pool_def setMaxQueueSize_def ThreadPool_new_def)+
      (simp add: p_def started_pool_def setMaxQueueSize_def ThreadPool_new_def pool_steps.no_step)
  with pool_is_fifo [OF this] show ?thesis by (auto simp: p_def)
qed


end
