(* ===== verification/InetAddress.thy ===== *)
theory InetAddress
  imports Endian
begin

text \<open>
  The class \<^verbatim>\<open>InetAddress\<close> and the address functions of \<^verbatim>\<open>gg_lib/net/SocketsHelper.cc\<close>. An address is the
  union of a \<^verbatim>\<open>sockaddr_in\<close> and a \<^verbatim>\<open>sockaddr_in6\<close>: the 28 bytes of its memory, in which the fields overlap
  (the family in bytes 0 and 1, the port in 2 and 3, the IPv4 address and the flow information in 4 to
  7, the IPv6 address in 8 to 23, the scope in 24 to 27). \<^verbatim>\<open>inet_ntop\<close>, \<^verbatim>\<open>inet_pton\<close>, the outcome of
  \<^verbatim>\<open>gethostbyname_r\<close> and the bytes of memory that a constructor leaves as they are, are arguments.
\<close>

section \<open>The memory of an address\<close>

definition field :: "nat \<Rightarrow> nat \<Rightarrow> bytes \<Rightarrow> bytes" where
  "field i n a = take n (drop i a)"

definition store :: "nat \<Rightarrow> bytes \<Rightarrow> bytes \<Rightarrow> bytes" where
  "store i xs a = take i a @ xs @ drop (i + length xs) a"

definition AF_INET :: "16 word" where "AF_INET = 2"
definition AF_INET6 :: "16 word" where "AF_INET6 = 10"
definition kInaddrAny :: "32 word" where "kInaddrAny = 0"
definition kInaddrLoopback :: "32 word" where "kInaddrLoopback = 0x7F000001"

definition in6addr :: "bool \<Rightarrow> bytes" where
  "in6addr loopback = replicate 15 (CHR 0x00) @ [if loopback then CHR 0x01 else CHR 0x00]"

definition addr_family :: "bytes \<Rightarrow> 16 word" where
  "addr_family a = bytes_object (field 0 2 a)"

definition portNetEndian :: "bytes \<Rightarrow> 16 word" where
  "portNetEndian a = bytes_object (field 2 2 a)"

definition addr_port :: "bytes \<Rightarrow> 16 word" where
  "addr_port a = networkToHost16 (portNetEndian a)"

definition set_family_port :: "16 word \<Rightarrow> 16 word \<Rightarrow> bytes \<Rightarrow> bytes" where
  "set_family_port fam p a = store 2 (object_bytes (hostToNetwork16 p)) (store 0 (object_bytes fam) a)"

section \<open>Construction\<close>

definition InetAddress_new :: "bytes \<Rightarrow> 16 word \<Rightarrow> bool \<Rightarrow> bool \<Rightarrow> bytes" where
  "InetAddress_new mem p loopbackOnly ipv6 =
     (if ipv6 then store 8 (in6addr loopbackOnly) (set_family_port AF_INET6 p (replicate 28 (CHR 0x00)))
      else store 4 (object_bytes (hostToNetwork32 (if loopbackOnly then kInaddrLoopback else kInaddrAny)))
             (set_family_port AF_INET p (store 0 (replicate 16 (CHR 0x00)) mem)))"

text \<open>\<open>False\<close> when the text is not an address, which is only logged.\<close>

definition fromIpPort4 :: "(string \<Rightarrow> bytes option) \<Rightarrow> string \<Rightarrow> 16 word \<Rightarrow> bytes \<Rightarrow> bool \<times> bytes" where
  "fromIpPort4 pton4 ip p a =
     (let a' = set_family_port AF_INET p a in
      case pton4 ip of Some b \<Rightarrow> (True, store 4 b a') | None \<Rightarrow> (False, a'))"

definition fromIpPort6 :: "(string \<Rightarrow> bytes option) \<Rightarrow> string \<Rightarrow> 16 word \<Rightarrow> bytes \<Rightarrow> bool \<times> bytes" where
  "fromIpPort6 pton6 ip p a =
     (let a' = set_family_port AF_INET6 p a in
      case pton6 ip of Some b \<Rightarrow> (True, store 8 b a') | None \<Rightarrow> (False, a'))"

record inet_text =
  ntop4 :: "bytes \<Rightarrow> string"
  ntop6 :: "bytes \<Rightarrow> string"
  pton4 :: "string \<Rightarrow> bytes option"
  pton6 :: "string \<Rightarrow> bytes option"

definition InetAddress_of :: "inet_text \<Rightarrow> bytes \<Rightarrow> string \<Rightarrow> 16 word \<Rightarrow> bool \<Rightarrow> bool \<times> bytes" where
  "InetAddress_of net mem ip p ipv6 =
     (if ipv6 \<or> CHR '':'' \<in> set (c_str ip)
      then fromIpPort6 (pton6 net) (c_str ip) p (replicate 28 (CHR 0x00))
      else fromIpPort4 (pton4 net) (c_str ip) p (store 0 (replicate 16 (CHR 0x00)) mem))"

text \<open>From the socket addresses themselves: the smaller one leaves the rest of the memory as it is.\<close>

definition InetAddress_in :: "bytes \<Rightarrow> bytes \<Rightarrow> bytes" where
  "InetAddress_in mem addr = store 0 addr mem"

definition setSockAddrInet6 :: "bytes \<Rightarrow> bytes \<Rightarrow> bytes" where
  "setSockAddrInet6 addr6 a = store 0 addr6 a"

section \<open>Text\<close>

definition INET_ADDRSTRLEN :: nat where "INET_ADDRSTRLEN = 16"
definition INET6_ADDRSTRLEN :: nat where "INET6_ADDRSTRLEN = 46"

text \<open>The buffer is empty before; for an unknown family it is left so.\<close>

definition sockets_toIp :: "inet_text \<Rightarrow> nat \<Rightarrow> bytes \<Rightarrow> string result" where
  "sockets_toIp net n a =
     (if addr_family a = AF_INET then check (n \<ge> INET_ADDRSTRLEN) (Inr (c_str (ntop4 net (field 4 4 a))))
      else if addr_family a = AF_INET6 then check (n \<ge> INET6_ADDRSTRLEN) (Inr (c_str (ntop6 net (field 8 16 a))))
      else Inr [])"

definition sockets_toIpPort :: "inet_text \<Rightarrow> nat \<Rightarrow> bytes \<Rightarrow> string result" where
  "sockets_toIpPort net n a =
     (if addr_family a = AF_INET6 then
        and_then (sockets_toIp net (n - 1) a) (\<lambda>ip.
          let s = ''['' @ ip in
          check (n > length s) (Inr (s @ snprintf (n - length s) ('']:'' @ show_nat (unat (addr_port a))))))
      else
        and_then (sockets_toIp net n a) (\<lambda>ip.
          check (n > length ip) (Inr (ip @ snprintf (n - length ip) ('':'' @ show_nat (unat (addr_port a)))))))"

definition addr_toIp :: "inet_text \<Rightarrow> bytes \<Rightarrow> string result" where
  "addr_toIp net a = sockets_toIp net 64 a"

definition addr_toIpPort :: "inet_text \<Rightarrow> bytes \<Rightarrow> string result" where
  "addr_toIpPort net a = sockets_toIpPort net 64 a"

section \<open>Other operations\<close>

definition ipv4NetEndian :: "bytes \<Rightarrow> 32 word result" where
  "ipv4NetEndian a = check (addr_family a = AF_INET) (Inr (bytes_object (field 4 4 a)))"

definition setScopeId :: "32 word \<Rightarrow> bytes \<Rightarrow> bytes" where
  "setScopeId scope a = (if addr_family a = AF_INET6 then store 24 (object_bytes scope) a else a)"

text \<open>The host entry that was found: its address type, its length and its first address.\<close>

definition resolve :: "(16 word \<times> nat \<times> bytes) option \<Rightarrow> bytes \<Rightarrow> (bool \<times> bytes) result" where
  "resolve he a =
     (case he of
        Some (h_addrtype, h_length, h_addr) \<Rightarrow>
          check (h_addrtype = AF_INET \<and> h_length = 4) (Inr (True, store 4 h_addr a))
      | None \<Rightarrow> Inr (False, a))"

definition isSelfConnect :: "bytes \<Rightarrow> bytes \<Rightarrow> bool" where
  "isSelfConnect localaddr peeraddr =
     (if addr_family localaddr = AF_INET then
        field 2 2 localaddr = field 2 2 peeraddr \<and> field 4 4 localaddr = field 4 4 peeraddr
      else if addr_family localaddr = AF_INET6 then
        field 2 2 localaddr = field 2 2 peeraddr \<and> field 8 16 localaddr = field 8 16 peeraddr
      else False)"

section \<open>Fields\<close>

lemma length_store [simp]: "i + length xs \<le> length a \<Longrightarrow> length (store i xs a) = length a"
  by (simp add: store_def)

lemma field_store_same: "i + length xs \<le> length a \<Longrightarrow> n = length xs \<Longrightarrow> field i n (store i xs a) = xs"
  by (simp add: field_def store_def)

lemma field_store_other:
  assumes "i + length xs \<le> length a" and "j + n \<le> i \<or> i + length xs \<le> j"
  shows "field j n (store i xs a) = field j n a"
  using assms(2)
proof
  assume "j + n \<le> i"
  then have le: "i \<le> length a" "j \<le> i" "n \<le> i - j" using assms(1) by simp_all
  then have "length (take i a) = i" by simp
  then have "take n (drop j (take i a @ r)) = take n (drop j (take i a))" for r
    using le by simp
  also have "take n (drop j (take i a)) = take n (drop j a)" using le by (simp add: drop_take)
  finally show ?thesis unfolding field_def store_def .
next
  assume "i + length xs \<le> j"
  with assms(1) show ?thesis by (simp add: field_def store_def)
qed

lemma length_words [simp]: "length (object_bytes (w :: 16 word)) = 2" "length (object_bytes (v :: 32 word)) = 4"
  by simp_all

lemma set_family_port_fields:
  assumes "length a = 28"
  shows "addr_family (set_family_port fam p a) = fam" and "addr_port (set_family_port fam p a) = p"
    and "4 \<le> j \<Longrightarrow> field j n (set_family_port fam p a) = field j n a" and "length (set_family_port fam p a) = 28"
proof -
  show "addr_family (set_family_port fam p a) = fam"
    using assms by (simp add: addr_family_def set_family_port_def field_store_other field_store_same bytes_object_bytes)
  show "addr_port (set_family_port fam p a) = p"
    using assms by (simp add: addr_port_def portNetEndian_def set_family_port_def field_store_same bytes_object_bytes
        network_defs byteswap_byteswap)
  show "4 \<le> j \<Longrightarrow> field j n (set_family_port fam p a) = field j n a"
    using assms by (simp add: set_family_port_def field_store_other)
  show "length (set_family_port fam p a) = 28" using assms by (simp add: set_family_port_def)
qed

lemma family_port_store:
  assumes "4 \<le> i" and "i + length xs \<le> length a"
  shows "addr_family (store i xs a) = addr_family a" and "addr_port (store i xs a) = addr_port a"
  using assms by (simp_all add: addr_family_def addr_port_def portNetEndian_def field_store_other)

section \<open>Addresses and their texts\<close>

text \<open>
  POSIX: the texts of \<^verbatim>\<open>inet_ntop\<close> have at most 15 and 45 characters, only those of IPv6 addresses have
  colons, and \<^verbatim>\<open>inet_pton\<close> reads them back.
\<close>

definition inet_ok :: "inet_text \<Rightarrow> bool" where
  "inet_ok net \<longleftrightarrow>
     (\<forall>b. length b = 4 \<longrightarrow> pton4 net (ntop4 net b) = Some b \<and> length (ntop4 net b) \<le> 15 \<and>
        CHR '':'' \<notin> set (ntop4 net b) \<and> CHR 0x00 \<notin> set (ntop4 net b)) \<and>
     (\<forall>b. length b = 16 \<longrightarrow> pton6 net (ntop6 net b) = Some b \<and> length (ntop6 net b) \<le> 45 \<and>
        CHR '':'' \<in> set (ntop6 net b) \<and> CHR 0x00 \<notin> set (ntop6 net b))"

definition inet_address :: "bytes \<Rightarrow> bool" where
  "inet_address a \<longleftrightarrow> length a = 28 \<and> (addr_family a = AF_INET \<or> addr_family a = AF_INET6)"

definition ip_bytes :: "bytes \<Rightarrow> bytes" where
  "ip_bytes a = (if addr_family a = AF_INET then field 4 4 a else field 8 16 a)"

definition ip_text :: "inet_text \<Rightarrow> bytes \<Rightarrow> string" where
  "ip_text net a = (if addr_family a = AF_INET then ntop4 net (field 4 4 a) else ntop6 net (field 8 16 a))"

lemma families_differ [simp]: "AF_INET \<noteq> AF_INET6" "AF_INET6 \<noteq> AF_INET"
  by (simp_all add: AF_INET_def AF_INET6_def)

lemma c_str_id: "CHR 0x00 \<notin> set s \<Longrightarrow> c_str s = s"
  by (auto simp: c_str_def intro: takeWhile_eq_all_conv [THEN iffD2])

lemma addr_texts:
  assumes "inet_ok net" and "inet_address a"
  shows "addr_family a = AF_INET \<Longrightarrow> pton4 net (ip_text net a) = Some (ip_bytes a)"
    and "addr_family a = AF_INET6 \<Longrightarrow> pton6 net (ip_text net a) = Some (ip_bytes a)"
    and "length (ip_text net a) \<le> 45" "addr_family a = AF_INET \<Longrightarrow> length (ip_text net a) \<le> 15"
    and "CHR 0x00 \<notin> set (ip_text net a)"
    and "CHR '':'' \<in> set (ip_text net a) \<longleftrightarrow> addr_family a = AF_INET6"
proof -
  have len: "length (field 4 4 a) = 4" "length (field 8 16 a) = 16"
    using assms(2) by (simp_all add: inet_address_def field_def)
  have "addr_family a = AF_INET \<or> addr_family a = AF_INET6" using assms(2) by (simp add: inet_address_def)
  then show "addr_family a = AF_INET \<Longrightarrow> pton4 net (ip_text net a) = Some (ip_bytes a)"
    "addr_family a = AF_INET6 \<Longrightarrow> pton6 net (ip_text net a) = Some (ip_bytes a)"
    "length (ip_text net a) \<le> 45" "addr_family a = AF_INET \<Longrightarrow> length (ip_text net a) \<le> 15"
    "CHR 0x00 \<notin> set (ip_text net a)" "CHR '':'' \<in> set (ip_text net a) \<longleftrightarrow> addr_family a = AF_INET6"
    using assms(1) len by (auto simp: inet_ok_def ip_text_def ip_bytes_def intro: order_trans [of _ 15])
qed

lemma toIp_text:
  assumes "inet_ok net" and "inet_address a" and "46 \<le> n"
  shows "sockets_toIp net n a = Inr (ip_text net a)"
proof -
  have "c_str (ip_text net a) = ip_text net a" using addr_texts(5) [OF assms(1,2)] by (rule c_str_id)
  then show ?thesis
    using assms(2,3) by (auto simp: sockets_toIp_def ip_text_def INET_ADDRSTRLEN_def INET6_ADDRSTRLEN_def inet_address_def)
qed

lemma port_digits: "length (show_nat (unat (p :: 16 word))) \<le> 5"
proof -
  have "unat p < 2 ^ 16" using unsigned_less [where ?'a = nat, of p] by simp
  then show ?thesis using length_show_nat [of "unat p" 5] by simp
qed

lemma toIpPort_text:
  assumes "inet_ok net" and "inet_address a"
  shows "addr_toIpPort net a = Inr ((if addr_family a = AF_INET6 then ''['' @ ip_text net a @ '']'' else ip_text net a)
     @ '':'' @ show_nat (unat (addr_port a)))"
  using addr_texts(3) [OF assms] port_digits [of "addr_port a"] toIp_text [OF assms, of 63] toIp_text [OF assms, of 64]
  by (simp add: addr_toIpPort_def sockets_toIpPort_def Let_def snprintf_def)

lemma digits_no_colon: "CHR '':'' \<notin> set (show_nat n)"
proof (induction n rule: show_nat.induct)
  case (1 n)
  have d: "digit_char k \<noteq> CHR '':''" if "k < 10" for k
    using of_char_digit_char [OF that] that by auto
  show ?case using 1 d [of n] d [of "n mod 10"]
    by (cases "n < 10") (auto simp: show_nat.simps [of n])
qed

lemma first_colon: "xs @ c # ys = xs' @ c # ys' \<Longrightarrow> c \<notin> set xs \<Longrightarrow> c \<notin> set xs' \<Longrightarrow> xs = xs' \<and> ys = ys'"
proof (induction xs arbitrary: xs')
  case Nil
  then show ?case by (cases xs') auto
next
  case (Cons x xs)
  then show ?case by (cases xs') auto
qed

lemma last_colon:
  assumes "xs @ CHR '':'' # ds = ys @ CHR '':'' # es" and "CHR '':'' \<notin> set ds" and "CHR '':'' \<notin> set es"
  shows "xs = ys \<and> ds = es"
proof -
  have "rev ds @ CHR '':'' # rev xs = rev es @ CHR '':'' # rev ys"
    using arg_cong [OF assms(1), of rev] by simp
  then have "rev ds = rev es \<and> rev xs = rev ys"
    using assms(2,3) by (intro first_colon) simp_all
  then show ?thesis by simp
qed

section \<open>The properties\<close>

text \<open>
  C40. An address is recovered from its text and its port: what \<^verbatim>\<open>toIp\<close> and \<^verbatim>\<open>port\<close> give makes an address
  with the same family, port and IP address, for both families, whatever memory it is built in.
\<close>

theorem address_round_trip:
  assumes "inet_ok net" and "inet_address a" and "length mem = 28"
  shows "\<exists>ip b. addr_toIp net a = Inr ip \<and> InetAddress_of net mem ip (addr_port a) False = (True, b) \<and>
     inet_address b \<and> addr_family b = addr_family a \<and> addr_port b = addr_port a \<and> ip_bytes b = ip_bytes a"
proof -
  note t = addr_texts [OF assms(1,2)]
  have ip: "addr_toIp net a = Inr (ip_text net a)" "c_str (ip_text net a) = ip_text net a"
    using toIp_text [OF assms(1,2), of 64] c_str_id [OF t(5)] by (simp_all add: addr_toIp_def)
  show ?thesis
  proof (cases "addr_family a = AF_INET6")
    case True
    define b0 where "b0 = set_family_port AF_INET6 (addr_port a) (replicate 28 (CHR 0x00))"
    define b where "b = store 8 (ip_bytes a) b0"
    have len: "length (ip_bytes a) = 16" "length b0 = 28"
      using assms(2) True by (simp_all add: ip_bytes_def field_def inet_address_def b0_def set_family_port_fields)
    have "InetAddress_of net mem (ip_text net a) (addr_port a) False = (True, b)"
      using t(2) [OF True] t(6) True ip(2) by (simp add: InetAddress_of_def fromIpPort6_def Let_def b_def b0_def)
    moreover have "addr_family b = AF_INET6" "addr_port b = addr_port a"
      using len by (simp_all add: b_def family_port_store) (simp_all add: b0_def set_family_port_fields)
    moreover have "field 8 16 b = ip_bytes a" "length b = 28" using len by (simp_all add: b_def field_store_same)
    ultimately show ?thesis using True ip(1) by (auto simp: inet_address_def ip_bytes_def)
  next
    case False
    then have v4: "addr_family a = AF_INET" using assms(2) by (simp add: inet_address_def)
    define m where "m = store 0 (replicate 16 (CHR 0x00)) mem"
    have m: "length m = 28" using assms(3) by (simp add: m_def)
    define b0 where "b0 = set_family_port AF_INET (addr_port a) m"
    define b where "b = store 4 (ip_bytes a) b0"
    have len: "length (ip_bytes a) = 4" "length b0 = 28"
      using assms(2) v4 m by (simp_all add: ip_bytes_def field_def inet_address_def b0_def set_family_port_fields)
    have "InetAddress_of net mem (ip_text net a) (addr_port a) False = (True, b)"
      using t(1) [OF v4] t(6) v4 ip(2) by (simp add: InetAddress_of_def fromIpPort4_def Let_def b_def b0_def m_def)
    moreover have "addr_family b = AF_INET" "addr_port b = addr_port a"
      using len by (simp_all add: b_def family_port_store) (simp_all add: b0_def set_family_port_fields m)
    moreover have "field 4 4 b = ip_bytes a" "length b = 28" using len by (simp_all add: b_def field_store_same)
    ultimately show ?thesis using v4 ip(1) by (auto simp: inet_address_def ip_bytes_def)
  qed
qed

text \<open>
  \<^verbatim>\<open>toIpPort\<close> never runs out of its buffer of 64 characters, and its text tells addresses apart: two
  addresses with the same text have the same family, IP address and port.
\<close>

theorem ip_port_text_identifies:
  assumes "inet_ok net" and "inet_address a" and "inet_address b"
  shows "\<exists>s t. addr_toIpPort net a = Inr s \<and> addr_toIpPort net b = Inr t \<and>
     (s = t \<longleftrightarrow> addr_family a = addr_family b \<and> ip_bytes a = ip_bytes b \<and> addr_port a = addr_port b)"
proof -
  let ?host = "\<lambda>a. if addr_family a = AF_INET6 then ''['' @ ip_text net a @ '']'' else ip_text net a"
  note ta = addr_texts [OF assms(1,2)] and tb = addr_texts [OF assms(1,3)]
  have fam: "addr_family a = AF_INET \<or> addr_family a = AF_INET6" "addr_family b = AF_INET \<or> addr_family b = AF_INET6"
    using assms(2,3) by (simp_all add: inet_address_def)
  have "addr_family a = addr_family b \<and> ip_bytes a = ip_bytes b \<and> addr_port a = addr_port b"
    if eq: "?host a @ '':'' @ show_nat (unat (addr_port a)) = ?host b @ '':'' @ show_nat (unat (addr_port b))"
  proof -
    have h: "?host a = ?host b" and p: "show_nat (unat (addr_port a)) = show_nat (unat (addr_port b))"
      using last_colon [of "?host a" "show_nat (unat (addr_port a))" "?host b"] eq digits_no_colon by auto
    have "unat (addr_port a) = unat (addr_port b)" using p by (metis digits_value_show_nat)
    moreover have colon: "addr_family a = AF_INET6 \<longleftrightarrow> addr_family b = AF_INET6"
    proof -
      have "CHR '':'' \<in> set (?host a) \<longleftrightarrow> addr_family a = AF_INET6" "CHR '':'' \<in> set (?host b) \<longleftrightarrow> addr_family b = AF_INET6"
        using ta(6) tb(6) by auto
      with h show ?thesis by simp
    qed
    moreover from h colon have "ip_text net a = ip_text net b" by (auto split: if_splits)
    ultimately show ?thesis using fam ta(1,2) tb(1,2) by (metis families_differ(1) option.inject word_unat_eq_iff)
  qed
  moreover have "ip_text net a = ip_text net b" if "addr_family a = addr_family b" "ip_bytes a = ip_bytes b"
    using that by (simp add: ip_text_def ip_bytes_def split: if_splits)
  ultimately have "?host a @ '':'' @ show_nat (unat (addr_port a)) = ?host b @ '':'' @ show_nat (unat (addr_port b)) \<longleftrightarrow>
      addr_family a = addr_family b \<and> ip_bytes a = ip_bytes b \<and> addr_port a = addr_port b" by metis
  with toIpPort_text [OF assms(1,2)] toIpPort_text [OF assms(1,3)] show ?thesis by blast
qed

section \<open>An instance\<close>

text \<open>Texts that satisfy the contract: two letters for every byte, and a colon in front of IPv6 ones.\<close>

definition letters :: "char \<Rightarrow> string" where
  "letters c = [char_of (97 + (of_char c :: nat) div 16), char_of (97 + (of_char c :: nat) mod 16)]"

fun bytes_of_letters :: "string \<Rightarrow> bytes" where
  "bytes_of_letters (x # y # s) = char_of (((of_char x :: nat) - 97) * 16 + ((of_char y :: nat) - 97)) # bytes_of_letters s"
| "bytes_of_letters _ = []"

definition sample_net :: inet_text where
  "sample_net = \<lparr>ntop4 = (\<lambda>b. concat (map letters b)), ntop6 = (\<lambda>b. CHR '':'' # concat (map letters b)),
     pton4 = (\<lambda>s. Some (bytes_of_letters s)), pton6 = (\<lambda>s. Some (bytes_of_letters (tl s)))\<rparr>"

lemma letter: "n < 16 \<Longrightarrow> (of_char (char_of (97 + n) :: char) :: nat) = 97 + n"
  by simp

lemma letters_inverse: "bytes_of_letters (concat (map letters b)) = b"
proof (induction b)
  case (Cons c b)
  have "(of_char c :: nat) div 16 < 16" "(of_char c :: nat) mod 16 < 16"
    by (simp_all add: less_mult_imp_div_less)
  with Cons show ?case by (simp add: letters_def letter)
qed simp

lemma letters_plain: "CHR '':'' \<notin> set (letters c)" "CHR 0x00 \<notin> set (letters c)" "length (letters c) = 2"
proof -
  have lt: "(of_char c :: nat) div 16 < 16" "(of_char c :: nat) mod 16 < 16"
    by (simp_all add: less_mult_imp_div_less)
  have ne: "char_of (97 + n) \<noteq> CHR '':''" "char_of (97 + n) \<noteq> CHR 0x00" if "n < 16" for n :: nat
  proof -
    have "(of_char (char_of (97 + n) :: char) :: nat) \<noteq> of_char (CHR '':'')"
      "(of_char (char_of (97 + n) :: char) :: nat) \<noteq> of_char (CHR 0x00)"
      unfolding letter [OF that] by simp_all
    then show "char_of (97 + n) \<noteq> CHR '':''" "char_of (97 + n) \<noteq> CHR 0x00" by metis+
  qed
  show "CHR '':'' \<notin> set (letters c)" "CHR 0x00 \<notin> set (letters c)" "length (letters c) = 2"
    using ne(1) [OF lt(1), symmetric] ne(1) [OF lt(2), symmetric] ne(2) [OF lt(1), symmetric]
      ne(2) [OF lt(2), symmetric]
    unfolding letters_def by simp_all
qed

lemma sample_net_ok: "inet_ok sample_net"
proof -
  have len: "length (concat (map letters b)) = 2 * length b" for b
    by (induction b) (simp_all add: letters_plain)
  show ?thesis
    using letters_plain len by (auto simp: inet_ok_def sample_net_def letters_inverse)
qed

lemma sample_addresses:
  "inet_address (InetAddress_new (replicate 28 (CHR 0x00)) 80 True v6)"
proof -
  have m: "length (replicate 28 (CHR 0x00)) = 28" "length (store 0 (replicate 16 (CHR 0x00)) (replicate 28 (CHR 0x00))) = 28"
    by simp_all
  show ?thesis
    using set_family_port_fields(4) [OF m(1)] set_family_port_fields(4) [OF m(2)]
      set_family_port_fields(1) [OF m(1)] set_family_port_fields(1) [OF m(2)]
    by (simp add: inet_address_def InetAddress_new_def family_port_store in6addr_def)
qed

lemma address_round_trip_witness:
  "\<exists>ip b. addr_toIp sample_net (InetAddress_new (replicate 28 (CHR 0x00)) 80 True False) = Inr ip \<and>
     InetAddress_of sample_net (replicate 28 (CHR 0x00)) ip
       (addr_port (InetAddress_new (replicate 28 (CHR 0x00)) 80 True False)) False = (True, b)"
  using address_round_trip [OF sample_net_ok sample_addresses [of False], of "replicate 28 (CHR 0x00)"] by auto

lemma ip_port_text_identifies_witness:
  "\<exists>s t. addr_toIpPort sample_net (InetAddress_new (replicate 28 (CHR 0x00)) 80 True False) = Inr s \<and>
     addr_toIpPort sample_net (InetAddress_new (replicate 28 (CHR 0x00)) 80 True True) = Inr t"
  using ip_port_text_identifies [OF sample_net_ok sample_addresses [of False] sample_addresses [of True]] by blast

end
