(* ===== verification/Threads.thy ===== *)
theory Threads
  imports Runs
begin

text \<open>
  \<^verbatim>\<open>gg_lib/ThreadHelper.cc\<close> and \<^verbatim>\<open>gg_lib/CountDownLatch.cc\<close>: a \<^verbatim>\<open>Thread\<close> object, the thread that it
  starts, and the latch by which \<^verbatim>\<open>start\<close> waits for it. The owner of the object and the new thread take
  atomic steps that interleave; a wait is a step that is possible once its condition holds. How
  \<^verbatim>\<open>std::thread\<close> prints an identifier, whether the system has a thread to give and how the function of
  the thread ends are arguments.
\<close>

section \<open>The latch\<close>

record latch =
  latch_count :: int
  latch_notified :: nat

definition CountDownLatch_new :: "int \<Rightarrow> latch" where
  "CountDownLatch_new n = \<lparr>latch_count = n, latch_notified = 0\<rparr>"

text \<open>\<^verbatim>\<open>wait\<close> returns when the count is not positive; \<^verbatim>\<open>notify_all\<close> comes with the count zero.\<close>

definition latch_open :: "latch \<Rightarrow> bool" where
  "latch_open l \<longleftrightarrow> \<not> latch_count l > 0"

definition countDown :: "latch \<Rightarrow> latch" where
  "countDown l =
     (let l1 = l\<lparr>latch_count := latch_count l - 1\<rparr>
      in if latch_count l1 = 0 then l1\<lparr>latch_notified := latch_notified l1 + 1\<rparr> else l1)"

definition getCount :: "latch \<Rightarrow> int" where
  "getCount l = latch_count l"

lemma countDown_simps [simp]:
  "latch_count (countDown l) = latch_count l - 1"
  "latch_notified (countDown l) = (if latch_count l = 1 then latch_notified l + 1 else latch_notified l)"
  by (simp_all add: countDown_def Let_def)

lemma latch_after: "latch_count ((countDown ^^ k) (CountDownLatch_new n)) = n - int k"
  by (induction k) (simp_all add: CountDownLatch_new_def)

text \<open>A latch of \<open>n\<close> opens with the \<open>n\<close>th call, which is the only one that notifies.\<close>

lemma latch_opens:
  "latch_open ((countDown ^^ k) (CountDownLatch_new (int n))) \<longleftrightarrow> n \<le> k"
  "latch_notified ((countDown ^^ k) (CountDownLatch_new (int (Suc n)))) = (if Suc n \<le> k then 1 else 0)"
proof -
  show "latch_open ((countDown ^^ k) (CountDownLatch_new (int n))) \<longleftrightarrow> n \<le> k"
    by (auto simp: latch_open_def latch_after)
  show "latch_notified ((countDown ^^ k) (CountDownLatch_new (int (Suc n)))) = (if Suc n \<le> k then 1 else 0)"
  proof (induction k)
    case 0
    then show ?case by (simp add: CountDownLatch_new_def)
  next
    case (Suc k)
    have "latch_count ((countDown ^^ k) (CountDownLatch_new (int (Suc n)))) = 1 \<longleftrightarrow> k = n"
      unfolding latch_after by auto
    with Suc show ?case by auto
  qed
qed

section \<open>The current thread\<close>

record thread_locals =
  t_tid :: nat
  t_tidString :: bytes
  t_tidStringLength :: nat
  t_threadName :: bytes

definition thread_locals_new :: thread_locals where
  "thread_locals_new = \<lparr>t_tid = 0, t_tidString = [], t_tidStringLength = 0, t_threadName = ''unknown''\<rparr>"

text \<open>\<open>hex\<close> is what a stream prints for an identifier.\<close>

definition tidToString :: "(nat \<Rightarrow> bytes) \<Rightarrow> nat \<Rightarrow> bytes" where
  "tidToString hex i = ''0x'' @ hex i"

definition cacheTid :: "(nat \<Rightarrow> bytes) \<Rightarrow> nat \<Rightarrow> thread_locals \<Rightarrow> thread_locals" where
  "cacheTid hex self t =
     (if t_tidStringLength t = 0 then
        (let text = tidToString hex self @ '' ''
         in t\<lparr>t_tid := self, t_tidString := snprintf 32 text, t_tidStringLength := length text\<rparr>)
      else t)"

definition current_tid :: "(nat \<Rightarrow> bytes) \<Rightarrow> nat \<Rightarrow> thread_locals \<Rightarrow> nat \<times> thread_locals" where
  "current_tid hex self t =
     (let t1 = (if t_tidStringLength t = 0 then cacheTid hex self t else t) in (t_tid t1, t1))"

definition tidString :: "(nat \<Rightarrow> bytes) \<Rightarrow> nat \<Rightarrow> thread_locals \<Rightarrow> bytes \<times> thread_locals" where
  "tidString hex self t =
     (let t1 = (if t_tidStringLength t = 0 then cacheTid hex self t else t) in (t_tidString t1, t1))"

text \<open>The child of a \<^verbatim>\<open>fork\<close>, and the main thread.\<close>

definition afterFork :: "(nat \<Rightarrow> bytes) \<Rightarrow> nat \<Rightarrow> thread_locals \<Rightarrow> thread_locals" where
  "afterFork hex self t = cacheTid hex self (t\<lparr>t_tidStringLength := 0, t_threadName := ''main''\<rparr>)"

definition ThreadNameInitializer :: "(nat \<Rightarrow> bytes) \<Rightarrow> nat \<Rightarrow> thread_locals \<Rightarrow> thread_locals" where
  "ThreadNameInitializer hex self t = cacheTid hex self (t\<lparr>t_threadName := ''main''\<rparr>)"

text \<open>The cache holds the identifier of the thread that reads it, also after a \<^verbatim>\<open>fork\<close>.\<close>

definition tid_cached :: "(nat \<Rightarrow> bytes) \<Rightarrow> nat \<Rightarrow> thread_locals \<Rightarrow> bool" where
  "tid_cached hex self t \<longleftrightarrow> t_tidStringLength t \<noteq> 0 \<and> t_tid t = self \<and> t_tidString t = snprintf 32 (tidToString hex self @ '' '')"

lemma tid_cached_simps [simp]:
  "tid_cached hex self (t\<lparr>t_threadName := n\<rparr>) = tid_cached hex self t"
  "tid_cached hex self (afterFork hex self t)"
  "t_tidStringLength t = 0 \<Longrightarrow> tid_cached hex self (cacheTid hex self t)"
  "tid_cached hex self t \<Longrightarrow> cacheTid hex self t = t"
  by (simp_all add: tid_cached_def afterFork_def cacheTid_def Let_def)

lemma current_tid_cached:
  "t_tidStringLength t = 0 \<or> tid_cached hex self t \<Longrightarrow>
   fst (current_tid hex self t) = self \<and> tid_cached hex self (snd (current_tid hex self t))"
  by (auto simp: current_tid_def tid_cached_def cacheTid_def Let_def)

section \<open>The object and its thread\<close>

datatype std_thread = No_thread | Joinable

datatype owner_pc = Owner_idle | Owner_in_start | Owner_in_join

datatype child_pc = Unborn | Child_cacheTid | Child_countDown | Child_setName | Child_func | Child_end

datatype func_outcome = Func_returns | Func_throws_exception | Func_throws_other

text \<open>
  \<open>data_latch\<close> is whether \<^verbatim>\<open>latch_\<close> of \<^verbatim>\<open>ThreadData\<close> still points to the latch of the object; \<open>object_alive\<close>
  whether the object has not been destroyed.
\<close>

record thread =
  started :: bool
  joined :: bool
  thread_handle :: std_thread
  thread_name :: bytes
  thread_latch :: latch
  owner :: owner_pc
  child :: child_pc
  data_latch :: bool
  child_locals :: thread_locals
  object_alive :: bool

text \<open>The constructor: \<open>numCreated\<close> is the counter of the class, which it increments.\<close>

definition setDefaultName :: "nat \<Rightarrow> bytes \<Rightarrow> bytes \<times> nat" where
  "setDefaultName numCreated name =
     ((if name = [] then snprintf 32 (''Thread'' @ show_nat numCreated) else name), numCreated + 1)"

definition Thread_new :: "bytes \<Rightarrow> nat \<Rightarrow> thread \<times> nat" where
  "Thread_new name numCreated =
     (case setDefaultName numCreated name of (name', num) \<Rightarrow>
       (\<lparr>started = False, joined = False, thread_handle = No_thread, thread_name = name',
         thread_latch = CountDownLatch_new 1, owner = Owner_idle, child = Unborn, data_latch = False,
         child_locals = thread_locals_new, object_alive = True\<rparr>, num))"

lemma Thread_new_simps [simp]:
  "started (fst (Thread_new name num)) = False" "joined (fst (Thread_new name num)) = False"
  "thread_handle (fst (Thread_new name num)) = No_thread" "owner (fst (Thread_new name num)) = Owner_idle"
  "thread_latch (fst (Thread_new name num)) = CountDownLatch_new 1" "child (fst (Thread_new name num)) = Unborn"
  "data_latch (fst (Thread_new name num)) = False" "child_locals (fst (Thread_new name num)) = thread_locals_new"
  "object_alive (fst (Thread_new name num)) = True"
  by (simp_all add: Thread_new_def split: prod.split)

definition Thread_move :: "thread \<Rightarrow> thread result" where
  "Thread_move th = check (\<not> started th) (Inr (th\<lparr>joined := False, thread_latch := CountDownLatch_new 1\<rparr>))"

text \<open>\<^verbatim>\<open>start\<close> up to the wait; without a thread to start, the fatal log message aborts.\<close>

definition thread_start :: "bool \<Rightarrow> thread \<Rightarrow> thread result" where
  "thread_start available th =
     (if started th then Inr th
      else let th1 = th\<lparr>started := True\<rparr> in
        if available then Inr (th1\<lparr>thread_handle := Joinable, child := Child_cacheTid, data_latch := True, owner := Owner_in_start\<rparr>)
        else Inl Abort)"

definition start_waited :: "thread \<Rightarrow> thread" where
  "start_waited th = th\<lparr>owner := Owner_idle\<rparr>"

definition thread_join :: "thread \<Rightarrow> thread result" where
  "thread_join th =
     check (started th) (check (\<not> joined th) (Inr (th\<lparr>joined := True, owner := Owner_in_join\<rparr>)))"

definition join_waited :: "thread \<Rightarrow> thread" where
  "join_waited th = th\<lparr>owner := Owner_idle, thread_handle := No_thread\<rparr>"

text \<open>The destructor detaches; that of \<^verbatim>\<open>std::thread\<close> terminates the process if it is still joinable.\<close>

definition Thread_delete :: "thread \<Rightarrow> thread result" where
  "Thread_delete th =
     (let th1 = (if started th \<and> \<not> joined th then th\<lparr>thread_handle := No_thread\<rparr> else th)
      in if thread_handle th1 = Joinable then Inl Abort else Inr (th1\<lparr>object_alive := False\<rparr>))"

text \<open>
  \<^verbatim>\<open>runInThread\<close>, one part after the other. An exception of the function ends the process: one that is
  a \<^verbatim>\<open>std::exception\<close> by \<^verbatim>\<open>abort\<close>, any other is thrown again out of the thread.
\<close>

definition child_step :: "(nat \<Rightarrow> bytes) \<Rightarrow> nat \<Rightarrow> func_outcome \<Rightarrow> thread \<Rightarrow> thread result option" where
  "child_step hex self e th =
     (case child th of
        Child_cacheTid \<Rightarrow>
          Some (Inr (th\<lparr>child_locals := cacheTid hex self (child_locals th), child := Child_countDown\<rparr>))
      | Child_countDown \<Rightarrow>
          if \<not> object_alive th then Some (Inl Dangling)
          else Some (Inr (th\<lparr>thread_latch := countDown (thread_latch th), data_latch := False, child := Child_setName\<rparr>))
      | Child_setName \<Rightarrow>
          Some (Inr (th\<lparr>child_locals := (child_locals th)
            \<lparr>t_threadName := (if thread_name th = [] then ''ggThread'' else thread_name th)\<rparr>, child := Child_func\<rparr>))
      | Child_func \<Rightarrow>
          (case e of
             Func_returns \<Rightarrow> Some (Inr (th\<lparr>child_locals := (child_locals th)\<lparr>t_threadName := ''finished''\<rparr>, child := Child_end\<rparr>))
           | Func_throws_exception \<Rightarrow> Some (Inl Abort)
           | Func_throws_other \<Rightarrow> Some (Inl Abort))
      | _ \<Rightarrow> None)"

datatype thread_action = Call_start bool | Start_waits | Call_join | Join_waits | Call_delete | Child_runs func_outcome

text \<open>The owner makes one call at a time, and none on an object that it has destroyed.\<close>

definition idle_owner :: "thread \<Rightarrow> bool" where
  "idle_owner th \<longleftrightarrow> object_alive th \<and> owner th = Owner_idle"

fun thread_exec :: "(nat \<Rightarrow> bytes) \<Rightarrow> nat \<Rightarrow> thread_action \<Rightarrow> thread \<Rightarrow> thread result option" where
  "thread_exec hex self (Call_start available) th = (if idle_owner th then Some (thread_start available th) else None)"
| "thread_exec hex self Start_waits th =
     (if owner th = Owner_in_start \<and> latch_open (thread_latch th) then Some (Inr (start_waited th)) else None)"
| "thread_exec hex self Call_join th = (if idle_owner th then Some (thread_join th) else None)"
| "thread_exec hex self Join_waits th =
     (if owner th = Owner_in_join \<and> child th = Child_end then Some (Inr (join_waited th)) else None)"
| "thread_exec hex self Call_delete th = (if idle_owner th then Some (Thread_delete th) else None)"
| "thread_exec hex self (Child_runs e) th = child_step hex self e th"

inductive thread_steps :: "(nat \<Rightarrow> bytes) \<Rightarrow> nat \<Rightarrow> thread \<Rightarrow> thread_action list \<Rightarrow> thread result \<Rightarrow> bool" for hex self where
  thread_none: "thread_steps hex self th [] (Inr th)"
| thread_more: "thread_exec hex self a th = Some (Inr th1) \<Longrightarrow> thread_steps hex self th1 as r \<Longrightarrow>
    thread_steps hex self th (a # as) r"
| thread_fails: "thread_exec hex self a th = Some (Inl e) \<Longrightarrow> thread_steps hex self th (a # as) (Inl e)"

inductive_cases thread_steps_Cons: "thread_steps hex self th (a # as) r"
inductive_cases thread_steps_Nil: "thread_steps hex self th [] r"

interpretation th: interleaving "thread_exec hex self" "thread_steps hex self" for hex self
  by unfold_locales (auto intro: thread_steps.intros elim: thread_steps_Cons thread_steps_Nil)

section \<open>What start and join promise\<close>

definition before_latch :: "thread \<Rightarrow> bool" where
  "before_latch th \<longleftrightarrow> started th \<and> \<not> joined th \<and> owner th = Owner_in_start \<and> object_alive th \<and>
     latch_count (thread_latch th) = 1 \<and> data_latch th"

definition after_latch :: "thread \<Rightarrow> bool" where
  "after_latch th \<longleftrightarrow> started th \<and> latch_count (thread_latch th) = 0 \<and> \<not> data_latch th \<and>
     (owner th = Owner_in_start \<longrightarrow> object_alive th \<and> \<not> joined th) \<and>
     (owner th = Owner_in_join \<longrightarrow> object_alive th \<and> joined th)"

text \<open>What holds at each place of the new thread.\<close>

definition thread_inv :: "(nat \<Rightarrow> bytes) \<Rightarrow> nat \<Rightarrow> thread \<Rightarrow> bool" where
  "thread_inv hex self th \<longleftrightarrow>
     (case child th of
        Unborn \<Rightarrow> \<not> started th \<and> \<not> joined th \<and> owner th = Owner_idle \<and> latch_count (thread_latch th) = 1 \<and>
          \<not> data_latch th \<and> t_tidStringLength (child_locals th) = 0 \<and> thread_handle th = No_thread
      | Child_cacheTid \<Rightarrow> before_latch th \<and> t_tidStringLength (child_locals th) = 0
      | Child_countDown \<Rightarrow> before_latch th \<and> tid_cached hex self (child_locals th)
      | Child_end \<Rightarrow> after_latch th \<and> tid_cached hex self (child_locals th) \<and> t_threadName (child_locals th) = ''finished'' \<and>
          (joined th \<and> owner th = Owner_idle \<longrightarrow> thread_handle th = No_thread)
      | _ \<Rightarrow> after_latch th \<and> tid_cached hex self (child_locals th) \<and> \<not> (joined th \<and> owner th = Owner_idle))"

lemma thread_inv_new: "thread_inv hex self (fst (Thread_new name num))"
  by (simp add: thread_inv_def CountDownLatch_new_def thread_locals_new_def)

lemmas thread_places = before_latch_def after_latch_def thread_inv_def

lemma thread_inv_step:
  assumes inv: "thread_inv hex self th" and step: "thread_exec hex self a th = Some r"
  shows "case r of Inl e \<Rightarrow> e = Abort \<or> e = Assert_failed | Inr th' \<Rightarrow> thread_inv hex self th'"
proof (cases a)
  case (Call_start available)
  then show ?thesis using step inv
    by (cases "child th") (auto simp: idle_owner_def thread_start_def thread_places Let_def split: if_splits)
next
  case Start_waits
  then show ?thesis using step inv
    by (cases "child th") (auto simp: start_waited_def thread_places latch_open_def split: if_splits)
next
  case Call_join
  then show ?thesis using step inv
    by (cases "child th") (auto simp: idle_owner_def thread_join_def thread_places check_def split: if_splits)
next
  case Join_waits
  then show ?thesis using step inv by (auto simp: join_waited_def thread_places split: if_splits)
next
  case Call_delete
  then show ?thesis using step inv
    by (cases "child th") (auto simp: idle_owner_def Thread_delete_def thread_places Let_def split: if_splits)
next
  case (Child_runs e)
  with step have r: "child_step hex self e th = Some r" by simp
  show ?thesis
  proof (cases "child th")
    case Child_func
    with r inv show ?thesis by (cases e) (auto simp: child_step_def thread_places)
  qed (use r inv in \<open>auto simp: child_step_def thread_places split: if_splits\<close>)
qed

lemma thread_steps_inv:
  "thread_steps hex self (fst (Thread_new name num)) as r \<Longrightarrow>
   case r of Inl e \<Rightarrow> e = Abort \<or> e = Assert_failed | Inr th \<Rightarrow> thread_inv hex self th"
  by (rule th.steps_sound [where inv = "thread_inv hex self"]) (use thread_inv_step thread_inv_new in blast)+

text \<open>The thread, alone, comes to the point where its object may go on.\<close>

lemma latch_comes:
  assumes "thread_inv hex self th" and "owner th = Owner_in_start"
  shows "\<exists>as th'. set as \<subseteq> {Child_runs Func_returns} \<and> thread_steps hex self th (as @ [Start_waits]) (Inr th') \<and>
     owner th' = Owner_idle \<and> started th' \<and> tid_cached hex self (child_locals th')"
proof -
  let ?c = "Child_runs Func_returns"
  note defs = th.steps_Cons th.steps_Nil child_step_def start_waited_def latch_open_def thread_places
  show ?thesis
  proof (cases "child th")
    case Unborn
    with assms show ?thesis by (simp add: thread_inv_def)
  next
    case Child_cacheTid
    with assms show ?thesis by (intro exI [of _ "[?c, ?c]"]) (simp add: defs)
  next
    case Child_countDown
    with assms show ?thesis by (intro exI [of _ "[?c]"]) (simp add: defs)
  qed (use assms in \<open>intro exI [of _ "[]"], simp add: defs\<close>)+
qed

section \<open>The properties\<close>


text \<open>
  \<^verbatim>\<open>start\<close> returns: wherever the threads stand while the owner waits for the latch, the steps of the
  new thread alone lead to the point where the wait is over.
\<close>

theorem start_returns:
  assumes "thread_steps hex self (fst (Thread_new name num)) as (Inr th)" and "owner th = Owner_in_start"
  shows "\<exists>bs th'. set bs \<subseteq> {Child_runs Func_returns} \<and> thread_steps hex self th (bs @ [Start_waits]) (Inr th') \<and>
     owner th' = Owner_idle \<and> tid_cached hex self (child_locals th')"
  using latch_comes [OF _ assms(2)] thread_steps_inv [OF assms(1)] by fastforce

lemma started_example:
  "thread_steps (\<lambda>i. ''7f'') 5 (fst (Thread_new [] 3)) [Call_start True, Child_runs Func_returns, Child_runs Func_returns, Start_waits]
     (Inr ((fst (Thread_new [] 3))\<lparr>started := True, thread_handle := Joinable, child := Child_setName,
        thread_latch := \<lparr>latch_count = 0, latch_notified = 1\<rparr>,
        child_locals := cacheTid (\<lambda>i. ''7f'') 5 thread_locals_new\<rparr>))"
  by (simp add: th.steps_Cons th.steps_Nil idle_owner_def thread_start_def child_step_def
      start_waited_def latch_open_def countDown_def CountDownLatch_new_def Let_def)


lemma start_returns_witness:
  "\<exists>bs th'. thread_steps (\<lambda>i. ''7f'') 5 (fst (Thread_new [] 3)) (Call_start True # bs) (Inr th') \<and>
     owner th' = Owner_idle \<and> tid_cached (\<lambda>i. ''7f'') 5 (child_locals th')"
proof -
  let ?th = "fst (Thread_new [] 3)"
  obtain th1 where th1: "thread_steps (\<lambda>i. ''7f'') 5 ?th [Call_start True] (Inr th1)" "owner th1 = Owner_in_start"
    by (simp add: th.steps_Cons th.steps_Nil idle_owner_def thread_start_def Let_def)
  from start_returns [OF th1] obtain bs th' where "thread_steps (\<lambda>i. ''7f'') 5 th1 (bs @ [Start_waits]) (Inr th')"
    "owner th' = Owner_idle" "tid_cached (\<lambda>i. ''7f'') 5 (child_locals th')" by blast
  with th.steps_append [OF th1(1)] show ?thesis by fastforce
qed

end
