(* ===== verification/LoopThread.thy ===== *)
theory LoopThread
  imports EventLoopProps
begin

text \<open>
  \<^verbatim>\<open>gg_lib/net/EventLoopThread.cc\<close>: the object that starts a thread with an event loop and, when it is
  destroyed, quits the loop and joins the thread. The steps of its owner interleave with those of the
  loop of theory \<open>EventLoop\<close>; \<open>published\<close> is whether \<^verbatim>\<open>loop_\<close> points to the loop. The loop lives on the
  stack of its thread and is gone at \<open>At_exit\<close>. The last section shows what happens to a quick owner.
\<close>

section \<open>The object\<close>

datatype owner_place =
    LT_new
  | LT_starting
  | LT_started
  | LT_deleting
  | LT_joining
  | LT_joined
  | LT_detached

record loop_thread =
  lt_loop :: event_loop
  lt_started :: bool
  lt_exiting :: bool
  lt_owner :: owner_place

definition EventLoopThread_new :: loop_thread where
  "EventLoopThread_new = \<lparr>lt_loop = EventLoop_new, lt_started = False, lt_exiting = False, lt_owner = LT_new\<rparr>"

text \<open>\<^verbatim>\<open>startLoop\<close> up to the wait for \<^verbatim>\<open>loop_\<close>, and the end of the wait.\<close>

definition startLoop :: "loop_thread \<Rightarrow> loop_thread result" where
  "startLoop s = check (\<not> lt_started s) (Inr (s\<lparr>lt_started := True, lt_owner := LT_starting\<rparr>))"

definition got_loop :: "loop_thread \<Rightarrow> loop_thread" where
  "got_loop s = s\<lparr>lt_owner := LT_started\<rparr>"

text \<open>
  The destructor: the test of \<^verbatim>\<open>loop_\<close>, without the lock; when it is null, the destructor of \<^verbatim>\<open>Thread\<close>
  detaches a thread that was started. \<^verbatim>\<open>quit\<close> keeps the lock of the loop until it has written to the
  event descriptor; it is called through the pointer that was read.
\<close>

definition EventLoopThread_delete :: "loop_thread \<Rightarrow> loop_thread" where
  "EventLoopThread_delete s =
     s\<lparr>lt_exiting := True, lt_owner := (if published (lt_loop s) then LT_deleting else LT_detached)\<rparr>"

definition delete_quit :: "loop_thread \<Rightarrow> loop_thread result" where
  "delete_quit s =
     (if pc (lt_loop s) = At_exit then Inl Dangling
      else Inr (s\<lparr>lt_loop := wakeup ((lt_loop s)\<lparr>quit := True\<rparr>), lt_owner := LT_joining\<rparr>))"

definition delete_joined :: "loop_thread \<Rightarrow> loop_thread" where
  "delete_joined s = s\<lparr>lt_owner := LT_joined\<rparr>"

section \<open>Steps\<close>

datatype lt_action = Do_startLoop | Do_got_loop | Do_delete | Do_quit | Do_join | In_loop loop_action

fun lt_exec :: "(nat \<Rightarrow> loop_call list) \<Rightarrow> lt_action \<Rightarrow> loop_thread \<Rightarrow> loop_thread result option" where
  "lt_exec body Do_startLoop s = (if lt_owner s \<in> {LT_new, LT_started} then Some (startLoop s) else None)"
| "lt_exec body Do_got_loop s =
     (if lt_owner s = LT_starting \<and> published (lt_loop s) then Some (Inr (got_loop s)) else None)"
| "lt_exec body Do_delete s =
     (if lt_owner s \<in> {LT_new, LT_started} then Some (Inr (EventLoopThread_delete s)) else None)"
| "lt_exec body Do_quit s = (if lt_owner s = LT_deleting then Some (delete_quit s) else None)"
| "lt_exec body Do_join s =
     (if lt_owner s = LT_joining \<and> pc (lt_loop s) = At_exit then Some (Inr (delete_joined s)) else None)"
| "lt_exec body (In_loop a) s =
     (if lt_started s then map_option (\<lambda>l. Inr (s\<lparr>lt_loop := l\<rparr>)) (loop_exec body a (lt_loop s)) else None)"

inductive lt_steps :: "(nat \<Rightarrow> loop_call list) \<Rightarrow> loop_thread \<Rightarrow> lt_action list \<Rightarrow> loop_thread result \<Rightarrow> bool" for body where
  lt_none: "lt_steps body s [] (Inr s)"
| lt_more: "lt_exec body a s = Some (Inr s1) \<Longrightarrow> lt_steps body s1 as r \<Longrightarrow> lt_steps body s (a # as) r"
| lt_fails: "lt_exec body a s = Some (Inl e) \<Longrightarrow> lt_steps body s (a # as) (Inl e)"

inductive_cases lt_steps_Cons: "lt_steps body s (a # as) r"
inductive_cases lt_steps_Nil: "lt_steps body s [] r"

interpretation lt: interleaving "lt_exec body" "lt_steps body" for body
  by unfold_locales (auto intro: lt_steps.intros elim: lt_steps_Cons lt_steps_Nil)

lemma in_loop_steps:
  "loop_run body as (lt_loop s) = Some l \<Longrightarrow> lt_started s \<Longrightarrow>
   lt_steps body s (map In_loop as) (Inr (s\<lparr>lt_loop := l\<rparr>))"
proof (induction as arbitrary: s)
  case Nil
  then show ?case by (simp add: lt.steps_Nil)
next
  case (Cons a as)
  then obtain l1 where l1: "loop_exec body a (lt_loop s) = Some l1" "loop_run body as l1 = Some l"
    by (auto split: bind_splits)
  have "lt_steps body (s\<lparr>lt_loop := l1\<rparr>) (map In_loop as) (Inr (s\<lparr>lt_loop := l1, lt_loop := l\<rparr>))"
    using Cons.IH [of "s\<lparr>lt_loop := l1\<rparr>"] l1(2) Cons.prems(2) by simp
  with l1(1) Cons.prems(2) show ?case by (simp add: lt.steps_Cons)
qed

section \<open>A loop that has been told to quit comes to its end\<close>

definition loop_only :: "loop_action list \<Rightarrow> bool" where
  "loop_only as \<longleftrightarrow> Set_quit \<notin> set as \<and> (\<forall>f. Push f \<notin> set as) \<and> Write_wakeup \<notin> set as"

lemma loop_only_simps [simp]:
  "loop_only []" "loop_only (as @ bs) \<longleftrightarrow> loop_only as \<and> loop_only bs"
  "loop_only (Test_quit # as) = loop_only as" "loop_only (Leave_thread # as) = loop_only as"
  "loop_only (Events_done # as) = loop_only as" "loop_only (Swap_functors # as) = loop_only as"
  "loop_only (Functors_done # as) = loop_only as" "loop_only (Poll cs # as) = loop_only as"
  "loop_only (replicate n Handle_event)" "loop_only (replicate n Run_functor)"
  by (auto simp: loop_only_def)

text \<open>Nothing but the entry of \<open>loop\<close> takes a \<open>quit\<close> back.\<close>

lemma quit_stays:
  assumes "loop_exec body a s = Some s'" and "quit s" and "pc s \<notin> {At_init, At_loop}"
  shows "quit s' \<and> pc s' \<notin> {At_init, At_loop}"
proof (cases a)
  case Handle_event
  with assms(1) obtain c cs where "pc s = At_events (c # cs)" "s' = (handle_active body c s)\<lparr>pc := At_events cs\<rparr>"
    by (auto split: loop_pc.splits list.splits)
  with assms show ?thesis by (cases c) (simp_all add: wakeup_handleRead_def run_callback_effect)
next
  case Run_functor
  with assms(1) obtain f fs where "pc s = At_functors (f # fs)"
    "s' = (run_callback body f s)\<lparr>pc := At_functors fs, executed := executed s @ [f]\<rparr>"
    by (auto split: loop_pc.splits list.splits)
  with assms show ?thesis by (simp add: run_callback_effect)
qed (use assms in \<open>auto simp: push_functor_def wakeup_def split: if_splits\<close>)

lemma quit_stays_run:
  "loop_run body as s = Some s' \<Longrightarrow> quit s \<Longrightarrow> pc s \<notin> {At_init, At_loop} \<Longrightarrow> quit s' \<and> pc s' \<notin> {At_init, At_loop}"
proof (induction as arbitrary: s)
  case (Cons a as)
  then obtain s1 where "loop_exec body a s = Some s1" "loop_run body as s1 = Some s'" by (auto split: bind_splits)
  with Cons quit_stays [of body a s s1] show ?case by blast
qed simp

text \<open>From every place in the loop its own steps lead to the test of \<^verbatim>\<open>quit_\<close>.\<close>

lemma functors_to_test:
  assumes "pc s = At_functors fs"
  shows "\<exists>as s'. loop_only as \<and> loop_run body as s = Some s' \<and> pc s' = At_test"
proof -
  obtain s1 where s1: "loop_steps body s (replicate (length fs) Run_functor) s1" "pc s1 = At_functors []"
    using run_functors [OF assms] by blast
  have "loop_steps body s1 [Functors_done] (functors_done s1)" using s1(2) by (intro loop_steps_one) simp
  from loop_steps_trans [OF s1(1) this] show ?thesis
    by (intro exI [of _ "replicate (length fs) Run_functor @ [Functors_done]"] exI [of _ "functors_done s1"])
      (simp add: loop_run_steps)
qed

lemma run_first:
  assumes "loop_exec body a s = Some s1" and "loop_only [a]" and "\<exists>as s'. loop_only as \<and> loop_run body as s1 = Some s' \<and> pc s' = At_test"
  shows "\<exists>as s'. loop_only as \<and> loop_run body as s = Some s' \<and> pc s' = At_test"
proof -
  obtain as s' where "loop_only as" "loop_run body as s1 = Some s'" "pc s' = At_test" using assms(3) by blast
  with assms(1,2) show ?thesis by (intro exI [of _ "a # as"] exI [of _ s']) (auto simp: loop_only_def)
qed

lemma events_to_test:
  assumes "pc s = At_events cs"
  shows "\<exists>as s'. loop_only as \<and> loop_run body as s = Some s' \<and> pc s' = At_test"
proof -
  obtain s1 where s1: "loop_run body (replicate (length cs) Handle_event) s = Some s1" "pc s1 = At_events []"
    using handle_events [OF assms] by (auto simp: loop_run_steps)
  have "\<exists>as s'. loop_only as \<and> loop_run body as (swap_functors (loop_handled s1)) = Some s' \<and> pc s' = At_test"
    by (rule functors_to_test) simp
  then have "\<exists>as s'. loop_only as \<and> loop_run body as (loop_handled s1) = Some s' \<and> pc s' = At_test"
    by (rule run_first [rotated 2, where a = Swap_functors]) simp_all
  then have "\<exists>as s'. loop_only as \<and> loop_run body as s1 = Some s' \<and> pc s' = At_test"
    by (rule run_first [rotated 2, where a = Events_done]) (use s1(2) in simp_all)
  then obtain as s' where "loop_only as" "loop_run body as s1 = Some s'" "pc s' = At_test" by blast
  with s1(1) show ?thesis
    by (intro exI [of _ "replicate (length cs) Handle_event @ as"] exI [of _ s']) (simp add: loop_run_append)
qed

lemma loop_to_test:
  assumes "pc s \<notin> {At_init, At_loop, At_return, At_exit}"
  shows "\<exists>as s'. loop_only as \<and> loop_run body as s = Some s' \<and> pc s' = At_test"
proof (cases "pc s")
  case At_test
  then show ?thesis by (intro exI [of _ "[]"] exI [of _ s]) simp
next
  case At_poll
  have "\<exists>as s'. loop_only as \<and> loop_run body as (loop_polled (turn_actions [] s) s) = Some s' \<and> pc s' = At_test"
    by (rule events_to_test) simp
  then show ?thesis
    by (rule run_first [rotated 2, where a = "Poll (turn_actions [] s)"]) (use At_poll in \<open>auto simp: turn_actions_def\<close>)
next
  case (At_events cs)
  then show ?thesis by (rule events_to_test)
next
  case At_swap
  have "\<exists>as s'. loop_only as \<and> loop_run body as (swap_functors s) = Some s' \<and> pc s' = At_test"
    by (rule functors_to_test) simp
  then show ?thesis by (rule run_first [rotated 2, where a = Swap_functors]) (use At_swap in simp_all)
next
  case (At_functors fs)
  then show ?thesis by (rule functors_to_test)
qed (use assms in simp_all)

lemma quit_to_exit:
  assumes "quit s" and "pc s \<notin> {At_init, At_loop}"
  shows "\<exists>as s'. loop_only as \<and> loop_run body as s = Some s' \<and> pc s' = At_exit"
proof (cases "pc s = At_return \<or> pc s = At_exit")
  case True
  then show ?thesis
  proof
    assume "pc s = At_return"
    then show ?thesis by (intro exI [of _ "[Leave_thread]"] exI [of _ "unpublish s"]) simp
  next
    assume "pc s = At_exit"
    then show ?thesis by (intro exI [of _ "[]"] exI [of _ s]) simp
  qed
next
  case False
  with assms(2) obtain as s1 where s1: "loop_only as" "loop_run body as s = Some s1" "pc s1 = At_test"
    using loop_to_test [of s body] by auto
  have "quit s1" using quit_stays_run [OF s1(2) assms] by simp
  with s1 show ?thesis
    by (intro exI [of _ "as @ [Test_quit, Leave_thread]"] exI [of _ "unpublish (loop_test s1)"])
      (simp add: loop_run_append)
qed

section \<open>When nobody else quits the loop\<close>

definition never_quits :: "(nat \<Rightarrow> loop_call list) \<Rightarrow> bool" where
  "never_quits body \<longleftrightarrow> (\<forall>f. Call_quit \<notin> set (body f))"

lemma fold_runInLoop_quiet:
  "never_quits body \<Longrightarrow> quit (fold (runInLoop body) init s) = quit s \<and> pc (fold (runInLoop body) init s) = pc s"
  by (induction init arbitrary: s) (simp_all add: runInLoop_def run_callback_effect never_quits_def)

definition lt_inv :: "loop_thread \<Rightarrow> bool" where
  "lt_inv s \<longleftrightarrow>
     (quit (lt_loop s) \<longrightarrow> lt_owner s \<in> {LT_joining, LT_joined}) \<and>
     (pc (lt_loop s) \<in> {At_return, At_exit} \<longrightarrow> quit (lt_loop s)) \<and>
     (published (lt_loop s) \<longleftrightarrow> pc (lt_loop s) \<notin> {At_init, At_exit}) \<and>
     (pc (lt_loop s) \<noteq> At_init \<or> lt_owner s = LT_starting \<longrightarrow> lt_started s) \<and>
     (lt_owner s \<in> {LT_started, LT_deleting, LT_joining, LT_joined} \<longrightarrow> pc (lt_loop s) \<noteq> At_init)"

lemma quiet_loop_exec:
  assumes "never_quits body" and "a \<noteq> Set_quit" and "loop_exec body a s = Some s'"
    and "pc s \<in> {At_return, At_exit} \<longrightarrow> quit s" and "published s \<longleftrightarrow> pc s \<notin> {At_init, At_exit}"
  shows "(quit s' \<longrightarrow> quit s) \<and> (pc s' \<in> {At_return, At_exit} \<longrightarrow> quit s') \<and>
     (published s' \<longleftrightarrow> pc s' \<notin> {At_init, At_exit}) \<and> (pc s \<noteq> At_init \<longrightarrow> pc s' \<noteq> At_init)"
proof (cases a)
  case (Enter_thread init)
  with assms fold_runInLoop_quiet [OF assms(1), of init s] show ?thesis by (auto simp: Let_def split: if_splits)
next
  case Handle_event
  with assms(3) obtain c cs where "pc s = At_events (c # cs)" "s' = (handle_active body c s)\<lparr>pc := At_events cs\<rparr>"
    by (auto split: loop_pc.splits list.splits)
  with assms show ?thesis by (cases c) (simp_all add: wakeup_handleRead_def run_callback_effect never_quits_def)
next
  case Run_functor
  with assms(3) obtain f fs where "pc s = At_functors (f # fs)"
    "s' = (run_callback body f s)\<lparr>pc := At_functors fs, executed := executed s @ [f]\<rparr>"
    by (auto split: loop_pc.splits list.splits)
  with assms show ?thesis by (simp add: run_callback_effect never_quits_def)
next
  case (Push f)
  with assms(3) have "s' = push_from_outside f s" "published s" by (simp_all split: if_splits)
  with assms(4,5) show ?thesis by (simp add: push_functor_def)
next
  case Set_quit
  with assms(2) show ?thesis by simp
next
  case Write_wakeup
  with assms(3) have "s' = (wakeup s)\<lparr>owed := owed s - 1\<rparr>" by (simp split: if_splits)
  with assms(4,5) show ?thesis by (simp add: wakeup_def)
next
  case Enter_loop
  with assms(3-5) have "pc s = At_loop" "s' = loop_enter s" "published s" by (simp_all split: if_splits)
  then show ?thesis by simp
next
  case Test_quit
  with assms(3-5) have "pc s = At_test" "s' = loop_test s" "published s" by (simp_all split: if_splits)
  then show ?thesis by simp
next
  case (Poll cs)
  with assms(3-5) have "pc s = At_poll" "s' = loop_polled cs s" "published s" by (simp_all split: if_splits)
  then show ?thesis by simp
next
  case Events_done
  with assms(3-5) have "pc s = At_events []" "s' = loop_handled s" "published s" by (simp_all split: if_splits)
  then show ?thesis by simp
next
  case Swap_functors
  with assms(3-5) have "pc s = At_swap" "s' = swap_functors s" "published s" by (simp_all split: if_splits)
  then show ?thesis by simp
next
  case Functors_done
  with assms(3-5) have "pc s = At_functors []" "s' = functors_done s" "published s" by (simp_all split: if_splits)
  then show ?thesis by simp
next
  case Leave_thread
  with assms(3-5) have "pc s = At_return" "s' = unpublish s" "quit s" by (simp_all split: if_splits)
  then show ?thesis by simp
qed

lemma lt_inv_new: "lt_inv EventLoopThread_new"
  by (simp add: lt_inv_def EventLoopThread_new_def EventLoop_new_def)

lemma lt_inv_step:
  assumes "never_quits body" and "a \<noteq> In_loop Set_quit" and "lt_inv s" and "lt_exec body a s = Some r"
  shows "case r of Inl e \<Rightarrow> e = Assert_failed | Inr s' \<Rightarrow> lt_inv s'"
proof (cases a)
  case (In_loop b)
  with assms(4) obtain l where l: "loop_exec body b (lt_loop s) = Some l" "r = Inr (s\<lparr>lt_loop := l\<rparr>)" "lt_started s"
    by (auto split: if_splits)
  have "b \<noteq> Set_quit" using assms(2) In_loop by simp
  from quiet_loop_exec [OF assms(1) this l(1)] assms(3) l(2,3) show ?thesis by (simp add: lt_inv_def)
next
  case Do_startLoop
  with assms(3,4) show ?thesis by (auto simp: lt_inv_def startLoop_def check_def split: if_splits)
next
  case Do_got_loop
  with assms(3,4) show ?thesis by (auto simp: lt_inv_def got_loop_def split: if_splits)
next
  case Do_delete
  with assms(3,4) show ?thesis
    by (cases "published (lt_loop s)") (auto simp: lt_inv_def EventLoopThread_delete_def split: if_splits)
next
  case Do_quit
  with assms(3,4) show ?thesis
    by (auto simp: lt_inv_def delete_quit_def wakeup_def split: if_splits)
next
  case Do_join
  with assms(3,4) show ?thesis by (auto simp: lt_inv_def delete_joined_def split: if_splits)
qed

section \<open>The properties\<close>

text \<open>
  C27. When only its owner quits the loop, the destructor never uses a loop that is gone, and once the
  thread has entered the loop it returns: after its \<^verbatim>\<open>quit\<close> the steps of the loop alone, wherever it
  stands, lead to the end of the thread and the \<^verbatim>\<open>join\<close> succeeds. The only assertion that can fail is the
  one that forbids a second \<^verbatim>\<open>startLoop\<close>.
\<close>

theorem loop_thread_joins:
  assumes "never_quits body" and "In_loop Set_quit \<notin> set as" and "lt_steps body EventLoopThread_new as r"
  shows "case r of
       Inl e \<Rightarrow> e = Assert_failed
     | Inr s \<Rightarrow> lt_owner s = LT_deleting \<and> pc (lt_loop s) \<noteq> At_loop \<longrightarrow>
         (\<exists>bs s'. loop_only bs \<and> lt_steps body s (Do_quit # map In_loop bs @ [Do_join]) (Inr s') \<and> lt_owner s' = LT_joined)"
proof -
  have inv: "case r of Inl e \<Rightarrow> e = Assert_failed | Inr s \<Rightarrow> lt_inv s"
  proof (rule lt.steps_sound [where inv = lt_inv, OF _ assms(3) lt_inv_new])
    fix a s r
    assume "a \<in> set as" "lt_inv s" "lt_exec body a s = Some r"
    with lt_inv_step [OF assms(1), of a s r] assms(2)
    show "case r of Inl e \<Rightarrow> e = Assert_failed | Inr s' \<Rightarrow> lt_inv s'" by blast
  qed
  have "\<exists>bs s'. loop_only bs \<and> lt_steps body s (Do_quit # map In_loop bs @ [Do_join]) (Inr s') \<and> lt_owner s' = LT_joined"
    if s: "lt_inv s" "lt_owner s = LT_deleting" "pc (lt_loop s) \<noteq> At_loop" for s
  proof -
    define s1 where "s1 = s\<lparr>lt_loop := wakeup ((lt_loop s)\<lparr>quit := True\<rparr>), lt_owner := LT_joining\<rparr>"
    have s': "lt_started s" "pc (lt_loop s) \<notin> {At_init, At_exit, At_loop}" using s by (auto simp: lt_inv_def)
    then have quit: "lt_exec body Do_quit s = Some (Inr s1)" using s(2) by (simp add: delete_quit_def s1_def)
    have "quit (lt_loop s1)" "pc (lt_loop s1) \<notin> {At_init, At_loop}" using s' by (simp_all add: s1_def wakeup_def)
    then obtain bs l where l: "loop_only bs" "loop_run body bs (lt_loop s1) = Some l" "pc l = At_exit"
      using quit_to_exit by blast
    have "lt_steps body s1 (map In_loop bs) (Inr (s1\<lparr>lt_loop := l\<rparr>))"
      using l(2) s'(1) by (intro in_loop_steps) (simp_all add: s1_def)
    moreover have "lt_exec body Do_join (s1\<lparr>lt_loop := l\<rparr>) = Some (Inr (delete_joined (s1\<lparr>lt_loop := l\<rparr>)))"
      using l(3) by (simp add: s1_def)
    ultimately have "lt_steps body s1 (map In_loop bs @ [Do_join]) (Inr (delete_joined (s1\<lparr>lt_loop := l\<rparr>)))"
      by (rule lt.steps_snoc)
    with quit l(1) show ?thesis
      by (intro exI [of _ bs] exI [of _ "delete_joined (s1\<lparr>lt_loop := l\<rparr>)"]) (simp add: lt.steps_Cons delete_joined_def)
  qed
  with inv show ?thesis by (simp split: sum.splits)
qed

text \<open>
  An object that is destroyed between the return of \<^verbatim>\<open>startLoop\<close> and the thread's call of \<^verbatim>\<open>loop\<close> never
  finishes its destructor: \<^verbatim>\<open>loop\<close> takes the \<^verbatim>\<open>quit\<close> back, and whatever the threads do then, short of
  another \<^verbatim>\<open>quit\<close>, the owner waits in \<^verbatim>\<open>join\<close>.
\<close>

theorem quick_delete_hangs:
  assumes "never_quits body" and "In_loop Set_quit \<notin> set as"
    and "lt_steps body EventLoopThread_new [Do_startLoop, In_loop (Enter_thread init), Do_got_loop, Do_delete, Do_quit,
       In_loop Enter_loop] (Inr s)"
    and "lt_steps body s as (Inr s')"
  shows "lt_owner s' = LT_joining"
proof -
  define stuck where "stuck t \<longleftrightarrow> lt_owner t = LT_joining \<and> \<not> quit (lt_loop t) \<and>
     pc (lt_loop t) \<notin> {At_init, At_return, At_exit}" for t :: loop_thread
  have "stuck s"
    using assms(3) fold_runInLoop_quiet [OF assms(1), of init EventLoop_new]
    by (auto simp: lt.steps_Cons lt.steps_Nil stuck_def EventLoopThread_new_def startLoop_def check_def got_loop_def
        EventLoopThread_delete_def delete_quit_def wakeup_def Let_def split: if_splits)
  moreover have "stuck t'" if a: "a \<in> set as" "stuck t" "lt_exec body a t = Some (Inr t')" for a t t'
  proof (cases a)
    case (In_loop b)
    with a(3) obtain l where l: "loop_exec body b (lt_loop t) = Some l" "t' = t\<lparr>lt_loop := l\<rparr>" by (auto split: if_splits)
    have b: "b \<noteq> Set_quit" using assms(2) a(1) In_loop by auto
    from no_quit_step [OF _ b l(1)] a(2) assms(1) l(2) show ?thesis by (simp add: stuck_def never_quits_def)
  qed (use a in \<open>auto simp: stuck_def split: if_splits\<close>)
  ultimately have "stuck s'" by (rule lt.steps_keep [where P = stuck, OF _ assms(4), rotated])
  then show ?thesis by (simp add: stuck_def)
qed

section \<open>Two more races of a loop that quits by itself\<close>

lemmas run_loop_thread = lt.steps_Cons lt.steps_Nil EventLoopThread_new_def EventLoop_new_def startLoop_def check_def
  got_loop_def EventLoopThread_delete_def delete_quit_def delete_joined_def wakeup_def wakeup_handleRead_def push_functor_def
  runInLoop_def run_callback_def loop_queueInLoop_def quit_in_loop_def Let_def

text \<open>
  The destructor reads \<^verbatim>\<open>loop_\<close> without the lock: if a functor has quit the loop, the loop may be gone when
  the destructor calls \<^verbatim>\<open>quit\<close> through the pointer.
\<close>

lemma delete_races_with_quit:
  "\<exists>as. lt_steps (\<lambda>f. [Call_quit]) EventLoopThread_new as (Inl Dangling)"
  by (rule exI [of _ "[Do_startLoop, In_loop (Enter_thread []), Do_got_loop, In_loop Enter_loop, In_loop (Push 0),
      In_loop Write_wakeup, In_loop Test_quit, In_loop (Poll [Wakeup_channel]), In_loop Handle_event, In_loop Events_done,
      In_loop Swap_functors, In_loop Run_functor, In_loop Functors_done, In_loop Test_quit, Do_delete, In_loop Leave_thread,
      Do_quit]"]) (simp add: run_loop_thread)

text \<open>
  \<^verbatim>\<open>startLoop\<close> waits for \<^verbatim>\<open>loop_\<close> to be set, not for having been set: a loop that the initialisation
  callback makes quit may be over before the owner wakes up, which then waits for ever.
\<close>

lemma startLoop_misses_the_loop:
  "\<exists>as s. lt_steps (\<lambda>f. if f = 0 then [Call_queueInLoop 1] else [Call_quit]) EventLoopThread_new as (Inr s) \<and>
     lt_owner s = LT_starting \<and>
     (\<forall>bs s'. lt_steps (\<lambda>f. if f = 0 then [Call_queueInLoop 1] else [Call_quit]) s bs (Inr s') \<longrightarrow> lt_owner s' = LT_starting)"
proof -
  let ?body = "\<lambda>f. if f = 0 then [Call_queueInLoop 1] else [Call_quit]"
  let ?as = "[Do_startLoop, In_loop (Enter_thread [0]), In_loop Enter_loop, In_loop Test_quit,
      In_loop (Poll []), In_loop Events_done, In_loop Swap_functors, In_loop Run_functor, In_loop Functors_done,
      In_loop Test_quit, In_loop Leave_thread]"
  define over where "over t \<longleftrightarrow> lt_owner t = LT_starting \<and> pc (lt_loop t) = At_exit \<and> \<not> published (lt_loop t)" for t :: loop_thread
  have "\<exists>s. lt_steps ?body EventLoopThread_new ?as (Inr s) \<and> over s"
    by (simp add: run_loop_thread over_def)
  then obtain s where s: "lt_steps ?body EventLoopThread_new ?as (Inr s)" "over s" by blast
  have "over t'" if a: "over t" "lt_exec ?body a t = Some (Inr t')" for a t t'
  proof (cases a)
    case (In_loop b)
    with a(2) obtain l where l: "loop_exec ?body b (lt_loop t) = Some l" "t' = t\<lparr>lt_loop := l\<rparr>" by (auto split: if_splits)
    then have "pc l = At_exit \<and> \<not> published l" using a(1)
      by (cases b) (auto simp: over_def wakeup_def split: if_splits loop_pc.splits)
    with l(2) a(1) show ?thesis by (simp add: over_def)
  qed (use a in \<open>auto simp: over_def split: if_splits\<close>)
  then have "over s'" if "lt_steps ?body s bs (Inr s')" for bs s'
    using that s(2) by (rule lt.steps_keep [where P = over])
  then have "\<forall>bs s'. lt_steps ?body s bs (Inr s') \<longrightarrow> lt_owner s' = LT_starting" by (simp add: over_def)
  moreover have "lt_owner s = LT_starting" using s(2) by (simp add: over_def)
  ultimately show ?thesis using s(1) by blast
qed

section \<open>Witnesses\<close>

lemma loop_thread_joins_witness:
  "\<exists>s bs s'. lt_steps (\<lambda>f. []) EventLoopThread_new
       [Do_startLoop, In_loop (Enter_thread []), Do_got_loop, In_loop Enter_loop, In_loop Test_quit, Do_delete] (Inr s) \<and>
     lt_steps (\<lambda>f. []) s (Do_quit # map In_loop bs @ [Do_join]) (Inr s') \<and> lt_owner s' = LT_joined"
proof -
  let ?as = "[Do_startLoop, In_loop (Enter_thread []), Do_got_loop, In_loop Enter_loop, In_loop Test_quit, Do_delete]"
  have "\<exists>s. lt_steps (\<lambda>f. []) EventLoopThread_new ?as (Inr s) \<and> lt_owner s = LT_deleting \<and> pc (lt_loop s) \<noteq> At_loop"
    by (simp add: run_loop_thread)
  then obtain s where s: "lt_steps (\<lambda>f. []) EventLoopThread_new ?as (Inr s)" "lt_owner s = LT_deleting" "pc (lt_loop s) \<noteq> At_loop"
    by blast
  have "never_quits (\<lambda>f. [])" "In_loop Set_quit \<notin> set ?as" by (simp_all add: never_quits_def)
  from loop_thread_joins [OF this s(1)] s show ?thesis by simp blast
qed

lemma quick_delete_hangs_witness:
  "\<exists>s s'. lt_steps (\<lambda>f. []) EventLoopThread_new [Do_startLoop, In_loop (Enter_thread []), Do_got_loop, Do_delete, Do_quit,
       In_loop Enter_loop] (Inr s) \<and>
     lt_steps (\<lambda>f. []) s [In_loop Test_quit, In_loop (Poll [Wakeup_channel]), In_loop Handle_event] (Inr s') \<and> lt_owner s' = LT_joining"
proof -
  have "\<exists>s s'. lt_steps (\<lambda>f. []) EventLoopThread_new [Do_startLoop, In_loop (Enter_thread []), Do_got_loop, Do_delete, Do_quit,
       In_loop Enter_loop] (Inr s) \<and> lt_steps (\<lambda>f. []) s [In_loop Test_quit, In_loop (Poll [Wakeup_channel]), In_loop Handle_event] (Inr s')"
    by (simp add: run_loop_thread)
  then obtain s s' where s: "lt_steps (\<lambda>f. []) EventLoopThread_new [Do_startLoop, In_loop (Enter_thread []), Do_got_loop, Do_delete, Do_quit,
       In_loop Enter_loop] (Inr s)" "lt_steps (\<lambda>f. []) s [In_loop Test_quit, In_loop (Poll [Wakeup_channel]), In_loop Handle_event] (Inr s')"
    by blast
  have "never_quits (\<lambda>f. [])"
    "In_loop Set_quit \<notin> set [In_loop Test_quit, In_loop (Poll [Wakeup_channel]), In_loop Handle_event]"
    by (simp_all add: never_quits_def)
  from quick_delete_hangs [OF this s] s show ?thesis by blast
qed

end
