(* ===== verification/LoopChannels.thy ===== *)
theory LoopChannels
  imports Runs EPollPoller
begin

text \<open>
  A turn of the event loop over its channels: the channel operations of \<^verbatim>\<open>gg_lib/net/EventLoop.cc\<close> with
  their assertions, the destructor of \<^verbatim>\<open>Channel\<close>, and the loop that polls and calls the callbacks of the
  active channels, which change, remove, destroy and create channels while it runs. It is proved for
  every poller of the contract and holds for both.
\<close>

section \<open>Channel operations of the loop\<close>

text \<open>
  What the operations look at: the loop and its thread, the thread that calls, the loop that each
  channel belongs to, and the progress of the turn.
\<close>

record loop_view =
  this_loop :: nat
  threadId :: nat
  caller :: nat
  ownerLoop :: "address \<Rightarrow> nat"
  activeChannels :: "address list"
  currentActiveChannel :: "address option"
  loopHandling :: bool

definition isInLoopThread :: "loop_view \<Rightarrow> bool" where
  "isInLoopThread v \<longleftrightarrow> threadId v = caller v"

definition abortNotInLoopThread :: "'a result" where
  "abortNotInLoopThread = Inl Abort"

definition assertInLoopThread :: "loop_view \<Rightarrow> 'a result \<Rightarrow> 'a result" where
  "assertInLoopThread v r = (if \<not> isInLoopThread v then abortNotInLoopThread else r)"

definition channel_in_loop :: "loop_view \<Rightarrow> address \<Rightarrow> 'a result \<Rightarrow> 'a result" where
  "channel_in_loop v a r = check (ownerLoop v a = this_loop v) (assertInLoopThread v r)"

definition loop_updateChannel ::
  "loop_view \<Rightarrow> (address \<Rightarrow> 'p io \<Rightarrow> 'p io result) \<Rightarrow> address \<Rightarrow> 'p io \<Rightarrow> 'p io result" where
  "loop_updateChannel v updateChannel a s = channel_in_loop v a (updateChannel a s)"

definition loop_removeChannel ::
  "loop_view \<Rightarrow> (address \<Rightarrow> 'p io \<Rightarrow> 'p io result) \<Rightarrow> address \<Rightarrow> 'p io \<Rightarrow> 'p io result" where
  "loop_removeChannel v removeChannel a s =
     channel_in_loop v a
       (if loopHandling v
        then check (currentActiveChannel v = Some a \<or> a \<notin> set (activeChannels v)) (removeChannel a s)
        else removeChannel a s)"

definition loop_hasChannel :: "loop_view \<Rightarrow> address \<Rightarrow> 'p io \<Rightarrow> bool result" where
  "loop_hasChannel v a s = channel_in_loop v a (hasChannel a s)"

definition Channel_delete :: "loop_view \<Rightarrow> address \<Rightarrow> 'p io \<Rightarrow> 'p io result" where
  "Channel_delete v a s =
     and_then (the_channel s a) (\<lambda>c.
       check (\<not> eventHandling c) (check (\<not> addedToLoop c)
         (let freed = s\<lparr>heap := (heap s)(a := None)\<rparr> in
          if isInLoopThread v then and_then (loop_hasChannel v a s) (\<lambda>has. check (\<not> has) (Inr freed)) else Inr freed)))"

text \<open>
  The constructor and the destructor of the loop: \<open>this_thread\<close> is \<^verbatim>\<open>t_loopInThisThread\<close>, \<open>w\<close> the wake-up channel. A
  second loop in a thread is a fatal error.
\<close>

definition EventLoop_construct ::
  "loop_view \<Rightarrow> (address \<Rightarrow> 'p io \<Rightarrow> 'p io result) \<Rightarrow> address \<Rightarrow> nat option \<Rightarrow> 'p io \<Rightarrow> (nat option \<times> 'p io) result" where
  "EventLoop_construct v updateChannel w this_thread s =
     (if this_thread \<noteq> None then Inl Abort
      else map_sum id (Pair (Some (this_loop v))) (change_events (loop_updateChannel v updateChannel) EnableReading w s))"

definition EventLoop_destruct ::
  "loop_view \<Rightarrow> (address \<Rightarrow> 'p io \<Rightarrow> 'p io result) \<Rightarrow> (address \<Rightarrow> 'p io \<Rightarrow> 'p io result) \<Rightarrow> address \<Rightarrow> nat option \<Rightarrow> 'p io \<Rightarrow>
     (nat option \<times> 'p io) result" where
  "EventLoop_destruct v updateChannel removeChannel w this_thread s =
     and_then (change_events (loop_updateChannel v updateChannel) DisableAll w s) (\<lambda>s1.
     map_sum id (Pair None) (channel_remove (loop_removeChannel v removeChannel) w s1))"

section \<open>Callbacks\<close>

text \<open>A callback is the list of what it does to channels.\<close>

datatype channel_op = Io io_op | Destroy address | Create address int

fun call_op ::
  "loop_view \<Rightarrow> (address \<Rightarrow> 'p io \<Rightarrow> 'p io result) \<Rightarrow> (address \<Rightarrow> 'p io \<Rightarrow> 'p io result) \<Rightarrow> channel_op \<Rightarrow> 'p io \<Rightarrow> 'p io result"
where
  "call_op v upd rem (Io op) s = io_step (loop_updateChannel v upd) (loop_removeChannel v rem) op s"
| "call_op v upd rem (Destroy a) s = Channel_delete v a s"
| "call_op v upd rem (Create a f) s = Inr (s\<lparr>heap := (heap s)(a \<mapsto> Channel_new f)\<rparr>)"

fun call_ops ::
  "loop_view \<Rightarrow> (address \<Rightarrow> 'p io \<Rightarrow> 'p io result) \<Rightarrow> (address \<Rightarrow> 'p io \<Rightarrow> 'p io result) \<Rightarrow> channel_op list \<Rightarrow> 'p io \<Rightarrow> 'p io result"
where
  "call_ops v upd rem [] s = Inr s"
| "call_ops v upd rem (op # ops) s = and_then (call_op v upd rem op s) (call_ops v upd rem ops)"

interpretation co: sequential "call_op v upd rem" "call_ops v upd rem" for v upd rem
  by unfold_locales simp_all

record channel_script =
  on_read :: "channel_op list"
  on_write :: "channel_op list"
  on_close :: "channel_op list"
  on_error :: "channel_op list"

definition script_callbacks :: "(channel_op list \<Rightarrow> 's \<Rightarrow> 's result) \<Rightarrow> channel_script \<Rightarrow> 's channel_callbacks" where
  "script_callbacks run cb =
     \<lparr>readCallback = Some (\<lambda>receiveTime. run (on_read cb)), writeCallback = Some (run (on_write cb)),
      closeCallback = Some (run (on_close cb)), errorCallback = Some (run (on_error cb))\<rparr>"

section \<open>The turn\<close>

definition mark_handling :: "address \<Rightarrow> bool \<Rightarrow> 'p io \<Rightarrow> 'p io" where
  "mark_handling a b s = s\<lparr>heap := (heap s)(a := map_option (\<lambda>c. c\<lparr>eventHandling := b\<rparr>) (heap s a))\<rparr>"

text \<open>
  After the channels the loop runs the pending functors, which change channels, too.

  \<open>alive\<close>: the object that the channel is tied to exists when its turn comes. Nothing keeps the channel
  itself alive while its callbacks run; \<open>handleEvent\<close> writes to it afterwards.
\<close>

definition handle_channel ::
  "loop_view \<Rightarrow> (address \<Rightarrow> 'p io \<Rightarrow> 'p io result) \<Rightarrow> (address \<Rightarrow> 'p io \<Rightarrow> 'p io result) \<Rightarrow> (address \<Rightarrow> channel_script) \<Rightarrow>
     (address \<Rightarrow> bool) \<Rightarrow> int \<Rightarrow> address \<Rightarrow> 'p io \<Rightarrow> 'p io result" where
  "handle_channel v upd rem cbs alive now a s =
     and_then (the_channel s a) (\<lambda>c.
     and_then (handleEvent (mark_handling a) (tied c) (alive a) (script_callbacks (call_ops v upd rem) (cbs a)) (revents c) now s) (\<lambda>s'.
       and_then (the_channel s' a) (\<lambda>_. Inr s')))"

fun handle_all ::
  "loop_view \<Rightarrow> (address \<Rightarrow> 'p io \<Rightarrow> 'p io result) \<Rightarrow> (address \<Rightarrow> 'p io \<Rightarrow> 'p io result) \<Rightarrow> (address \<Rightarrow> channel_script) \<Rightarrow>
     (address \<Rightarrow> bool) \<Rightarrow> int \<Rightarrow> address list \<Rightarrow> 'p io \<Rightarrow> 'p io result"
where
  "handle_all v upd rem cbs alive now [] s = Inr s"
| "handle_all v upd rem cbs alive now (a # as) s =
     and_then (handle_channel (v\<lparr>currentActiveChannel := Some a\<rparr>) upd rem cbs alive now a s)
       (handle_all v upd rem cbs alive now as)"

definition loop_turn ::
  "loop_view \<Rightarrow> (address \<Rightarrow> 'p io \<Rightarrow> 'p io result) \<Rightarrow> (address \<Rightarrow> 'p io \<Rightarrow> 'p io result) \<Rightarrow>
     ('p io \<Rightarrow> (int \<times> address list \<times> 'p io) result) \<Rightarrow> (address \<Rightarrow> channel_script) \<Rightarrow> (address \<Rightarrow> bool) \<Rightarrow> channel_op list \<Rightarrow>
     'p io \<Rightarrow> 'p io result" where
  "loop_turn v upd rem poll cbs alive functors s =
     assertInLoopThread v
       (and_then (poll s) (\<lambda>(now, active, s1).
          let v1 = v\<lparr>activeChannels := active, loopHandling := True\<rparr> in
          and_then (handle_all v1 upd rem cbs alive now active s1)
            (call_ops (v1\<lparr>currentActiveChannel := None, loopHandling := False\<rparr>) upd rem functors)))"

text \<open>Several turns, each with the answer of the system, its callbacks and its functors.\<close>

record 'o turn_input =
  t_now :: int
  t_answer :: 'o
  t_scripts :: "address \<Rightarrow> channel_script"
  t_alive :: "address \<Rightarrow> bool"
  t_functors :: "channel_op list"

fun loop_turns ::
  "loop_view \<Rightarrow> (address \<Rightarrow> 'p io \<Rightarrow> 'p io result) \<Rightarrow> (address \<Rightarrow> 'p io \<Rightarrow> 'p io result) \<Rightarrow>
     (int \<Rightarrow> 'o \<Rightarrow> 'p io \<Rightarrow> (int \<times> address list \<times> 'p io) result) \<Rightarrow> 'o turn_input list \<Rightarrow> 'p io \<Rightarrow> 'p io result"
where
  "loop_turns v upd rem poll [] s = Inr s"
| "loop_turns v upd rem poll (t # ts) s =
     and_then (loop_turn v upd rem (poll (t_now t) (t_answer t)) (t_scripts t) (t_alive t) (t_functors t) s)
       (loop_turns v upd rem poll ts)"

section \<open>What a turn calls\<close>

text \<open>The callbacks that the bits of a channel call, in their order.\<close>

definition called :: "event_bits \<Rightarrow> channel_script \<Rightarrow> channel_op list" where
  "called bits cb =
     (if bits AND POLLHUP \<noteq> 0 \<and> \<not> bits AND POLLIN \<noteq> 0 then on_close cb else []) @
     (if bits AND (POLLERR OR POLLNVAL) \<noteq> 0 then on_error cb else []) @
     (if bits AND (POLLIN OR POLLPRI OR POLLRDHUP) \<noteq> 0 then on_read cb else []) @
     (if bits AND POLLOUT \<noteq> 0 then on_write cb else [])"

definition channel_calls :: "(address \<Rightarrow> channel_script) \<Rightarrow> (address \<Rightarrow> bool) \<Rightarrow> (address \<rightharpoonup> channel) \<Rightarrow> address \<Rightarrow> channel_op list" where
  "channel_calls cbs alive h a =
     (case h a of None \<Rightarrow> [] | Some c \<Rightarrow> if tied c \<and> \<not> alive a then [] else called (revents c) (cbs a))"

definition turn_calls :: "(address \<Rightarrow> channel_script) \<Rightarrow> (address \<Rightarrow> bool) \<Rightarrow> (address \<rightharpoonup> channel) \<Rightarrow> address list \<Rightarrow> (address option \<times> channel_op) list" where
  "turn_calls cbs alive h active = concat (map (\<lambda>a. map (Pair (Some a)) (channel_calls cbs alive h a)) active)"

text \<open>The client's view: it never uses a channel that it has destroyed, and keeps to the contract of the poller.\<close>

fun op_ok :: "channel_op \<Rightarrow> interest_spec \<Rightarrow> bool" where
  "op_ok (Io op) sp \<longleftrightarrow> io_ok op sp"
| "op_ok (Destroy a) sp \<longleftrightarrow> life_of sp a \<noteq> None"
| "op_ok (Create a f) sp \<longleftrightarrow> life_of sp a = None \<and> 0 \<le> f"

fun op_spec :: "channel_op \<Rightarrow> interest_spec \<Rightarrow> interest_spec" where
  "op_spec (Io op) sp = io_spec op sp"
| "op_spec (Destroy a) sp = sp\<lparr>life_of := (life_of sp)(a := None)\<rparr>"
| "op_spec (Create a f) sp =
     sp\<lparr>life_of := (life_of sp)(a \<mapsto> Fresh), fd_of := (fd_of sp)(a := f), interest := (interest sp)(a := 0)\<rparr>"

fun calls_ok :: "(address option \<times> channel_op) list \<Rightarrow> interest_spec \<Rightarrow> bool" where
  "calls_ok [] sp \<longleftrightarrow> True"
| "calls_ok ((a, op) # ops) sp \<longleftrightarrow> op_ok op sp \<and> calls_ok ops (op_spec op sp)"

text \<open>
  A client that no assertion stops: it removes no active channel but the one whose callback runs, and
  destroys only channels that are not registered, and not that one.
\<close>

fun op_careful :: "address list \<Rightarrow> address option \<Rightarrow> channel_op \<Rightarrow> interest_spec \<Rightarrow> bool" where
  "op_careful active cur (Io (Change ch b)) sp \<longleftrightarrow> True"
| "op_careful active cur (Io (Remove b)) sp \<longleftrightarrow> cur = Some b \<or> b \<notin> set active"
| "op_careful active cur (Destroy b) sp \<longleftrightarrow> cur \<noteq> Some b \<and> life_of sp b \<noteq> Some Registered"
| "op_careful active cur (Create b f) sp \<longleftrightarrow> True"

fun calls_careful :: "address list \<Rightarrow> (address option \<times> channel_op) list \<Rightarrow> interest_spec \<Rightarrow> bool" where
  "calls_careful active [] sp \<longleftrightarrow> True"
| "calls_careful active ((a, op) # ops) sp \<longleftrightarrow> op_careful active a op sp \<and> calls_careful active ops (op_spec op sp)"

text \<open>The turn with its functors.\<close>

definition turn_spec :: "(address option \<times> channel_op) list \<Rightarrow> channel_op list \<Rightarrow> interest_spec \<Rightarrow> interest_spec" where
  "turn_spec calls functors sp = fold op_spec functors (fold (\<lambda>(cur, op). op_spec op) calls sp)"

definition turn_careful :: "address list \<Rightarrow> (address option \<times> channel_op) list \<Rightarrow> channel_op list \<Rightarrow> interest_spec \<Rightarrow> bool" where
  "turn_careful active calls functors sp \<longleftrightarrow> calls_careful active calls sp \<and>
     calls_careful [] (map (Pair None) functors) (fold (\<lambda>(cur, op). op_spec op) calls sp)"

lemma calls_ok_append [simp]:
  "calls_ok (xs @ ys) sp \<longleftrightarrow> calls_ok xs sp \<and> calls_ok ys (fold (\<lambda>(a, op). op_spec op) xs sp)"
  "calls_careful act (xs @ ys) sp \<longleftrightarrow> calls_careful act xs sp \<and> calls_careful act ys (fold (\<lambda>(a, op). op_spec op) xs sp)"
  by (induction xs arbitrary: sp) auto

text \<open>Turns whose clients keep to the contract and, where \<open>careful\<close> holds, run into no assertion.\<close>

fun turns_ok ::
  "bool \<Rightarrow> loop_view \<Rightarrow> (address \<Rightarrow> 'p io \<Rightarrow> 'p io result) \<Rightarrow> (address \<Rightarrow> 'p io \<Rightarrow> 'p io result) \<Rightarrow>
     (int \<Rightarrow> 'o \<Rightarrow> 'p io \<Rightarrow> (int \<times> address list \<times> 'p io) result) \<Rightarrow> ('o \<Rightarrow> 'p io \<Rightarrow> bool) \<Rightarrow> 'o turn_input list \<Rightarrow>
     interest_spec \<Rightarrow> 'p io \<Rightarrow> bool"
where
  "turns_ok careful v upd rem poll good [] sp s \<longleftrightarrow> True"
| "turns_ok careful v upd rem poll good (t # ts) sp s \<longleftrightarrow> good (t_answer t) s \<and>
     (case poll (t_now t) (t_answer t) s of
        Inl e \<Rightarrow> False
      | Inr (now, active, s1) \<Rightarrow>
          let calls = turn_calls (t_scripts t) (t_alive t) (heap s1) active in
          calls_ok (calls @ map (Pair None) (t_functors t)) sp \<and> (careful \<longrightarrow> turn_careful active calls (t_functors t) sp) \<and>
          (case loop_turn v upd rem (poll (t_now t) (t_answer t)) (t_scripts t) (t_alive t) (t_functors t) s of
             Inl e \<Rightarrow> True
           | Inr s2 \<Rightarrow> turns_ok careful v upd rem poll good ts (turn_spec calls (t_functors t) sp) s2))"

section \<open>Outcomes\<close>

text \<open>An assertion may fail when \<open>t\<close> does not hold; no other error is possible.\<close>

definition outcome :: "bool \<Rightarrow> ('a \<Rightarrow> bool) \<Rightarrow> 'a result \<Rightarrow> bool" where
  "outcome t P r \<longleftrightarrow> (case r of Inl e \<Rightarrow> \<not> t \<and> (e = Assert_failed \<or> e = Abort) | Inr x \<Rightarrow> P x)"

lemma outcome_simps [simp]:
  "outcome t P (Inr x) = P x" "outcome t P (Inl e) = (\<not> t \<and> (e = Assert_failed \<or> e = Abort))"
  by (simp_all add: outcome_def)

lemma outcome_and_then:
  assumes "outcome t P r" and "\<And>x. P x \<Longrightarrow> outcome t' Q (f x)" and "t' \<Longrightarrow> t"
  shows "outcome t' Q (and_then r f)"
  using assms by (cases r) auto

lemma outcome_weaken: "outcome t P r \<Longrightarrow> (t' \<Longrightarrow> t) \<Longrightarrow> (\<And>x. P x \<Longrightarrow> Q x) \<Longrightarrow> outcome t' Q r"
  by (cases r) auto

definition view_ok :: "loop_view \<Rightarrow> bool" where
  "view_ok v \<longleftrightarrow> isInLoopThread v \<and> (\<forall>b. ownerLoop v b = this_loop v)"

lemma outcome_in_loop: "outcome t P r \<Longrightarrow> (t' \<Longrightarrow> t \<and> view_ok v) \<Longrightarrow> outcome t' P (channel_in_loop v a r)"
  by (auto simp: channel_in_loop_def check_def assertInLoopThread_def abortNotInLoopThread_def view_ok_def intro: outcome_weaken)

text \<open>The bits and the tie of a channel, as the next turn of the loop will see them.\<close>

definition io_part :: "channel option \<Rightarrow> (event_bits \<times> bool) option" where
  "io_part = map_option (\<lambda>c. (revents c, tied c))"

definition handled_at :: "(address \<rightharpoonup> channel) \<Rightarrow> address \<Rightarrow> bool" where
  "handled_at h a \<longleftrightarrow> (\<exists>c. h a = Some c \<and> eventHandling c)"

text \<open>The channels that may not be removed, and what the callback of a channel leaves alone.\<close>

definition guarded_channels :: "loop_view \<Rightarrow> address list" where
  "guarded_channels v = (if loopHandling v then activeChannels v else [])"

definition keeps :: "loop_view \<Rightarrow> interest_spec \<Rightarrow> interest_spec \<Rightarrow> (address \<rightharpoonup> channel) \<Rightarrow> (address \<rightharpoonup> channel) \<Rightarrow> bool" where
  "keeps v sp sp' h h' \<longleftrightarrow>
     (\<forall>b. handled_at h b \<longrightarrow> handled_at h' b) \<and>
     (\<forall>b \<in> set (guarded_channels v). currentActiveChannel v \<noteq> Some b \<and> life_of sp b = Some Registered \<longrightarrow>
        life_of sp' b = Some Registered \<and> io_part (h' b) = io_part (h b))"

lemma keeps_refl: "keeps v sp sp h h"
  by (simp add: keeps_def)

lemma keeps_trans: "keeps v sp sp' h h' \<Longrightarrow> keeps v sp' sp'' h' h'' \<Longrightarrow> keeps v sp sp'' h h''"
  by (simp add: keeps_def)

text \<open>Only the channel whose callback runs is being handled, and only registered ones are in the loop.\<close>

definition tidy :: "interest_spec \<Rightarrow> (address \<rightharpoonup> channel) \<Rightarrow> address option \<Rightarrow> bool" where
  "tidy sp h cur \<longleftrightarrow> (\<forall>b c. h b = Some c \<longrightarrow> (eventHandling c \<longrightarrow> cur = Some b) \<and>
     (addedToLoop c \<longrightarrow> life_of sp b = Some Registered))"

lemma cores_dest:
  assumes "cores h' = (cores h)(a := map_option (\<lambda>c. c\<lparr>addedToLoop := t\<rparr>) (cores h a))"
  shows "io_part (h' b) = io_part (h b)" "handled_at h b \<Longrightarrow> handled_at h' b"
    and "h' b = Some c' \<Longrightarrow> \<exists>c. h b = Some c \<and> eventHandling c' = eventHandling c \<and>
      addedToLoop c' = (if b = a then t else addedToLoop c)"
proof -
  have b: "cores h' b = (if b = a then map_option (\<lambda>c. c\<lparr>addedToLoop := t\<rparr>) (cores h a) else cores h b)"
    using assms by simp
  have part: "io_part (cores g b) = io_part (g b)" for g by (cases "g b") (simp_all add: io_part_def cores_def)
  have "io_part (cores h' b) = io_part (cores h b)" unfolding b by (cases "cores h b") (auto simp: io_part_def)
  then show "io_part (h' b) = io_part (h b)" unfolding part .
  show *: "h' b = Some c' \<Longrightarrow> \<exists>c. h b = Some c \<and> eventHandling c' = eventHandling c \<and>
      addedToLoop c' = (if b = a then t else addedToLoop c)" for c'
  proof -
    assume c': "h' b = Some c'"
    let ?flags = "map_option (\<lambda>c :: channel. (eventHandling c, addedToLoop c))"
    have flags: "?flags (cores g b) = ?flags (g b)" for g by (cases "g b") (simp_all add: cores_def)
    have "?flags (cores h' b) = map_option (\<lambda>(e, l). (e, if b = a then t else l)) (?flags (cores h b))"
      unfolding b by (cases "cores h b") auto
    then have "?flags (h' b) = map_option (\<lambda>(e, l). (e, if b = a then t else l)) (?flags (h b))" unfolding flags .
    with c' show ?thesis by (cases "h b") auto
  qed
  assume "handled_at h b"
  then obtain c where c: "h b = Some c" "eventHandling c" by (auto simp: handled_at_def)
  then have "cores h' b \<noteq> None" using b by (auto simp: cores_def)
  then obtain c' where "h' b = Some c'" by (auto simp: cores_def)
  with * [OF this] c show "handled_at h' b" by (auto simp: handled_at_def)
qed

lemma call_script: "call hap (Some (call_ops v u r ops)) s = call_ops v u r (if hap then ops else []) s"
  by (simp add: call_def)

lemma guarded_calls:
  "handleEventWithGuard (mark_handling a) (script_callbacks (call_ops v u r) cb) bits now s =
     and_then (call_ops v u r (called bits cb) (mark_handling a True s)) (\<lambda>s'. Inr (mark_handling a False s'))"
  by (simp add: handleEventWithGuard_def script_callbacks_def call_script called_def co.run_append and_then_assoc)

lemma mark_handling_simps:
  "io_part (heap (mark_handling a b s) d) = io_part (heap s d)"
  "heap s a = Some c \<Longrightarrow> handled_at (heap (mark_handling a True s)) a"
  "tidy sp (heap s) None \<Longrightarrow> tidy sp (heap (mark_handling a True s)) (Some a)"
  "tidy sp (heap s) (Some a) \<Longrightarrow> tidy sp (heap (mark_handling a False s)) None"
  by (auto simp: mark_handling_def io_part_def handled_at_def tidy_def option.map_comp comp_def split: if_splits)

text \<open>What the handling of a channel may do to those that wait.\<close>

definition spares :: "address list \<Rightarrow> interest_spec \<Rightarrow> interest_spec \<Rightarrow> (address \<rightharpoonup> channel) \<Rightarrow> (address \<rightharpoonup> channel) \<Rightarrow> address \<Rightarrow> bool" where
  "spares active sp sp' h h' a \<longleftrightarrow> (\<forall>b \<in> set active. b \<noteq> a \<and> life_of sp b = Some Registered \<longrightarrow>
     life_of sp' b = Some Registered \<and> io_part (h' b) = io_part (h b))"

lemma fold_pairs: "fold (\<lambda>(a, op). op_spec op) (map (Pair a) ops) sp = fold op_spec ops sp"
  by (induction ops arbitrary: sp) auto

lemma turn_calls_cong:
  "(\<And>a. a \<in> set active \<Longrightarrow> io_part (h' a) = io_part (h a)) \<Longrightarrow> turn_calls cbs alive h' active = turn_calls cbs alive h active"
proof -
  assume parts: "\<And>a. a \<in> set active \<Longrightarrow> io_part (h' a) = io_part (h a)"
  have "channel_calls cbs alive h' a = channel_calls cbs alive h a" if "a \<in> set active" for a
    using parts [OF that] by (cases "h a"; cases "h' a") (auto simp: channel_calls_def io_part_def)
  then show ?thesis by (simp add: turn_calls_def cong: map_cong)
qed

section \<open>A turn on any poller\<close>

text \<open>
  The contract of a poller that also polls: \<open>good\<close> are the answers that the system may give. It looks only
  at the channels in its map, and reports some of them, each once.
\<close>

locale polling_contract = poller_contract upd rem inv watched
  for upd :: "address \<Rightarrow> 'p io \<Rightarrow> 'p io result" and rem :: "address \<Rightarrow> 'p io \<Rightarrow> 'p io result"
    and inv :: "'p io \<Rightarrow> bool" and watched :: "'p io \<Rightarrow> int \<Rightarrow> event_bits" +
  fixes poll :: "int \<Rightarrow> 'o \<Rightarrow> 'p io \<Rightarrow> (int \<times> address list \<times> 'p io) result"
    and good :: "'o \<Rightarrow> 'p io \<Rightarrow> bool"
  assumes inv_heap: "inv s \<Longrightarrow> (\<And>f a. channels s f = Some a \<Longrightarrow> h a = heap s a) \<Longrightarrow> inv (s\<lparr>heap := h\<rparr>)"
    and watched_heap: "watched (s\<lparr>heap := h\<rparr>) = watched s"
    and poll_reports: "inv s \<Longrightarrow> good ans s \<Longrightarrow> \<exists>active s'. poll now ans s = Inr (now, active, s') \<and> inv s' \<and>
        channels s' = channels s \<and> watched s' = watched s \<and> distinct active \<and>
        (\<forall>a \<in> set active. \<exists>f. channels s f = Some a) \<and>
        (\<forall>a. map_option (\<lambda>c. c\<lparr>revents := 0\<rparr>) (heap s' a) = map_option (\<lambda>c. c\<lparr>revents := 0\<rparr>) (heap s a))"
begin

lemma implements_inv: "implements sp s \<Longrightarrow> inv s"
  by (simp add: implements_def)

lemma implements_dom: "implements sp s \<Longrightarrow> (life_of sp a = None) = (heap s a = None)"
  by (simp add: implements_def)

lemma implements_heap_change:
  assumes imp: "implements sp s" and inv: "inv (s\<lparr>heap := h\<rparr>)"
    and dom: "\<And>b. (life_of sp' b = None) = (h b = None)"
    and cont: "\<And>b c. h b = Some c \<Longrightarrow> fd c = fd_of sp' b \<and> 0 \<le> fd c \<and> events c = interest sp' b \<and>
        events_ok (events c) \<and> (life_of sp' b = Some Fresh \<longrightarrow> index c = -1)"
    and reg: "\<And>b. life_of sp b = Some Registered \<or> life_of sp' b = Some Registered \<Longrightarrow>
        life_of sp' b = life_of sp b \<and> fd_of sp' b = fd_of sp b \<and> interest sp' b = interest sp b"
  shows "implements sp' (s\<lparr>heap := h\<rparr>)"
proof -
  have chan: "channels s f = Some b \<longleftrightarrow> life_of sp' b = Some Registered \<and> fd_of sp' b = f" for f b
    using implements_channels [OF imp, of f b] reg [of b] by metis
  have "watched s f = (case channels s f of Some b \<Rightarrow> interest sp' b | None \<Rightarrow> 0)" for f
  proof (cases "channels s f")
    case (Some b)
    with chan [of f b] reg [of b] watches_interest(1) [OF imp, of f] show ?thesis by simp
  qed (simp add: watches_interest(1) [OF imp, of f])
  moreover have eqs: "heap (s\<lparr>heap := h\<rparr>) = h" "channels (s\<lparr>heap := h\<rparr>) = channels s" "watched (s\<lparr>heap := h\<rparr>) = watched s"
    by (simp_all add: watched_heap)
  ultimately show ?thesis unfolding implements_def eqs using inv dom cont chan by blast
qed

lemma implements_put:
  assumes "implements sp s" and "heap s a = Some c"
  shows "implements sp (mark_handling a b s)"
proof -
  have "inv (put_channel a (c\<lparr>eventHandling := b\<rparr>) s)"
    by (rule inv_put [OF implements_inv [OF assms(1)] assms(2)]) simp_all
  then have "inv (s\<lparr>heap := (heap s)(a \<mapsto> c\<lparr>eventHandling := b\<rparr>)\<rparr>)" by (simp add: put_channel_def)
  then have "implements sp (s\<lparr>heap := (heap s)(a \<mapsto> c\<lparr>eventHandling := b\<rparr>)\<rparr>)"
    using implements_dom [OF assms(1)] implements_heap [OF assms(1)] assms(2)
    by (intro implements_heap_change [OF assms(1)]) (auto split: if_splits)
  with assms(2) show ?thesis by (simp add: mark_handling_def)
qed

lemma implements_destroy:
  assumes imp: "implements sp s" and "life_of sp a \<noteq> Some Registered"
  shows "implements (op_spec (Destroy a) sp) (s\<lparr>heap := (heap s)(a := None)\<rparr>)"
proof -
  have "channels s f \<noteq> Some a" for f using implements_channels [OF imp] assms(2) by simp
  then have "inv (s\<lparr>heap := (heap s)(a := None)\<rparr>)" by (intro inv_heap implements_inv [OF imp]) auto
  then show ?thesis
    using implements_dom [OF imp] implements_heap [OF imp] assms(2)
    by (intro implements_heap_change [OF imp]) (auto split: if_splits)
qed

lemma implements_create:
  assumes imp: "implements sp s" and ok: "op_ok (Create a f) sp"
  shows "implements (op_spec (Create a f) sp) (s\<lparr>heap := (heap s)(a \<mapsto> Channel_new f)\<rparr>)"
proof -
  have "channels s g \<noteq> Some a" for g using implements_channels [OF imp] ok by simp
  then have inv: "inv (s\<lparr>heap := (heap s)(a \<mapsto> Channel_new f)\<rparr>)" by (intro inv_heap implements_inv [OF imp]) auto
  have new: "fd (Channel_new f) = f" "events (Channel_new f) = 0" "index (Channel_new f) = -1" by (simp_all add: Channel_new_def)
  show ?thesis
    using inv implements_dom [OF imp, symmetric] implements_heap [OF imp] ok new
    by (intro implements_heap_change [OF imp]) (auto simp: events_ok_def split: if_splits)
qed

text \<open>A call of a callback: it fails with an assertion or does what its specification says.\<close>

lemma loop_io_outcome:
  assumes imp: "implements sp s" and ok: "op_ok (Io op) sp"
  shows "outcome (view_ok v \<and> op_careful (guarded_channels v) (currentActiveChannel v) (Io op) sp)
     (\<lambda>s'. implements (op_spec (Io op) sp) s' \<and> keeps v sp (op_spec (Io op) sp) (heap s) (heap s') \<and>
        (tidy sp (heap s) (currentActiveChannel v) \<longrightarrow> tidy (op_spec (Io op) sp) (heap s') (currentActiveChannel v)))
     (call_op v upd rem (Io op) s)"
proof -
  define P where "P s' \<longleftrightarrow> implements (op_spec (Io op) sp) s' \<and> keeps v sp (op_spec (Io op) sp) (heap s) (heap s') \<and>
     (tidy sp (heap s) (currentActiveChannel v) \<longrightarrow> tidy (op_spec (Io op) sp) (heap s') (currentActiveChannel v))" for s'
  have "outcome (view_ok v \<and> op_careful (guarded_channels v) (currentActiveChannel v) (Io op) sp) P (call_op v upd rem (Io op) s)"
  proof (cases op)
    case (Change ch b)
    with ok have io: "io_ok (Change ch b) sp" by simp
    then have "life_of sp b \<noteq> None" by auto
    then obtain c where c: "heap s b = Some c" using implements_dom [OF imp] by (metis not_None_eq)
    obtain s' where s': "change_events upd ch b s = Inr s'" "implements (io_spec (Change ch b) sp) s'"
      "cores (heap s') = (cores (heap s))(b := map_option (\<lambda>c. c\<lparr>addedToLoop := True\<rparr>) (cores (heap s) b))"
      using change_refines [OF imp io] by blast
    have run: "call_op v upd rem (Io op) s = channel_in_loop v b (change_events upd ch b s)"
      using c by (simp add: Change change_events_def channel_update_def the_channel_def put_channel_def loop_updateChannel_def)
    have "P s'"
      using s'(2) cores_dest [OF s'(3)] by (fastforce simp: P_def Change keeps_def tidy_def)
    then show ?thesis unfolding run s'(1) by (intro outcome_in_loop [where t = True]) simp_all
  next
    case (Remove b)
    with ok have io: "io_ok (Remove b) sp" by simp
    then have "life_of sp b \<noteq> None" by auto
    then obtain c where c: "heap s b = Some c" using implements_dom [OF imp] by (metis not_None_eq)
    obtain s' where s': "channel_remove rem b s = Inr s'" "implements (io_spec (Remove b) sp) s'"
      "cores (heap s') = (cores (heap s))(b := map_option (\<lambda>c. c\<lparr>addedToLoop := False\<rparr>) (cores (heap s) b))"
      using remove_refines [OF imp io] by blast
    have none: "isNoneEvent c" using implements_heap(4) [OF imp c] io by (simp add: isNoneEvent_def kNoneEvent_def)
    let ?safe = "currentActiveChannel v = Some b \<or> b \<notin> set (guarded_channels v)"
    have run: "call_op v upd rem (Io op) s = channel_in_loop v b (check ?safe (channel_remove rem b s))"
      using c none
      by (simp add: Remove guarded_channels_def channel_remove_def the_channel_def put_channel_def loop_removeChannel_def check_def)
    have "P s'" if ?safe
    proof -
      have "keeps v sp (op_spec (Io op) sp) (heap s) (heap s')"
        using cores_dest(1,2) [OF s'(3)] that by (auto simp: Remove keeps_def)
      moreover have "tidy (op_spec (Io op) sp) (heap s') (currentActiveChannel v)" if "tidy sp (heap s) (currentActiveChannel v)"
        unfolding tidy_def
      proof (intro allI impI)
        fix d c'
        assume "heap s' d = Some c'"
        from cores_dest(3) [OF s'(3) this] that show "(eventHandling c' \<longrightarrow> currentActiveChannel v = Some d) \<and>
            (addedToLoop c' \<longrightarrow> life_of (op_spec (Io op) sp) d = Some Registered)"
          by (auto simp: Remove tidy_def)
      qed
      ultimately show ?thesis using s'(2) by (simp add: P_def Remove)
    qed
    then have "outcome ?safe P (check ?safe (channel_remove rem b s))" unfolding s'(1) by (simp add: check_def)
    then show ?thesis unfolding run by (rule outcome_in_loop) (auto simp: Remove)
  qed
  then show ?thesis unfolding P_def .
qed

lemma call_op_outcome:
  assumes imp: "implements sp s" and ok: "op_ok op sp" and thread: "isInLoopThread v" and cur: "currentActiveChannel v = cur"
  shows "outcome (view_ok v \<and> tidy sp (heap s) cur \<and> op_careful (guarded_channels v) cur op sp)
     (\<lambda>s'. implements (op_spec op sp) s' \<and> keeps v sp (op_spec op sp) (heap s) (heap s') \<and>
        (tidy sp (heap s) cur \<longrightarrow> tidy (op_spec op sp) (heap s') cur))
     (call_op v upd rem op s)"
proof (cases op)
  case (Io io)
  from loop_io_outcome [OF imp ok [unfolded Io], of v] show ?thesis
    unfolding Io cur by (rule outcome_weaken) auto
next
  case (Create b f)
  with ok have b: "heap s b = None" using implements_dom [OF imp, of b] by simp
  have "keeps v sp (op_spec op sp) (heap s) ((heap s)(b \<mapsto> Channel_new f))"
    using b ok by (auto simp: Create keeps_def handled_at_def)
  moreover have "tidy (op_spec op sp) ((heap s)(b \<mapsto> Channel_new f)) cur" if "tidy sp (heap s) cur"
    using that ok by (auto simp: Create tidy_def Channel_new_def)
  ultimately show ?thesis using implements_create [OF imp] ok by (simp add: Create)
next
  case (Destroy b)
  with ok obtain c where c: "heap s b = Some c" using implements_dom [OF imp, of b] by auto
  let ?h = "(heap s)(b := None)"
  have has: "loop_hasChannel v b s = channel_in_loop v b (Inr (life_of sp b = Some Registered))"
    using implements_channels [OF imp, of "fd c" b] implements_heap(2) [OF imp c] c
    by (simp add: loop_hasChannel_def hasChannel_def the_channel_def)
  have run: "call_op v upd rem op s = check (\<not> eventHandling c) (check (\<not> addedToLoop c)
      (if isInLoopThread v then and_then (channel_in_loop v b (Inr (life_of sp b = Some Registered)))
         (\<lambda>has. check (\<not> has) (Inr (s\<lparr>heap := ?h\<rparr>))) else Inr (s\<lparr>heap := ?h\<rparr>)))"
    using c by (simp add: Destroy Channel_delete_def the_channel_def has Let_def)
  show ?thesis
  proof (cases "eventHandling c \<or> addedToLoop c \<or> life_of sp b = Some Registered")
    case True
    then have "\<not> (tidy sp (heap s) cur \<and> op_careful (guarded_channels v) cur op sp)"
      using c by (auto simp: Destroy tidy_def)
    moreover have "\<exists>e. call_op v upd rem op s = Inl e \<and> (e = Assert_failed \<or> e = Abort)"
      using True thread by (auto simp: run check_def channel_in_loop_def assertInLoopThread_def)
    ultimately show ?thesis by auto
  next
    case False
    have "keeps v sp (op_spec op sp) (heap s) ?h"
      using False c by (auto simp: Destroy keeps_def handled_at_def)
    moreover have "tidy (op_spec op sp) ?h cur" if "tidy sp (heap s) cur"
      using that by (auto simp: Destroy tidy_def)
    ultimately show ?thesis
      unfolding run using False implements_destroy [OF imp, of b]
      by (auto simp: Destroy check_def channel_in_loop_def assertInLoopThread_def abortNotInLoopThread_def view_ok_def)
  qed
qed

text \<open>A loop that is constructed and destroyed outside of a turn takes its wake-up channel with it.\<close>

lemma loop_life:
  assumes imp: "implements sp s" and ok: "io_ok (Change EnableReading w) sp" and v: "view_ok v" "\<not> loopHandling v"
  shows "\<exists>s1 s2. EventLoop_construct v upd w None s = Inr (Some (this_loop v), s1) \<and>
     EventLoop_destruct v upd rem w (Some (this_loop v)) s1 = Inr (None, s2) \<and>
     implements (fold io_spec [Change EnableReading w, Change DisableAll w, Remove w] sp) s2"
proof -
  have step: "\<exists>s'. io_step (loop_updateChannel v upd) (loop_removeChannel v rem) op s = Inr s' \<and> implements (io_spec op sp) s'"
    if "implements sp s" "io_ok op sp" for op sp s
    using loop_io_outcome [OF that(1), of op v] that(2) v
    by (cases op; cases "io_step (loop_updateChannel v upd) (loop_removeChannel v rem) op s")
      (auto simp: guarded_channels_def)
  let ?sp1 = "io_spec (Change EnableReading w) sp" and ?sp2 = "io_spec (Change DisableAll w) (io_spec (Change EnableReading w) sp)"
  obtain s1 where s1: "change_events (loop_updateChannel v upd) EnableReading w s = Inr s1" "implements ?sp1 s1"
    using step [OF imp ok] by auto
  obtain s2 where s2: "change_events (loop_updateChannel v upd) DisableAll w s1 = Inr s2" "implements ?sp2 s2"
    using step [OF s1(2), of "Change DisableAll w"] by auto
  obtain s3 where s3: "channel_remove (loop_removeChannel v rem) w s2 = Inr s3" "implements (io_spec (Remove w) ?sp2) s3"
    using step [OF s2(2), of "Remove w"] by (auto simp: kNoneEvent_def)
  from s1(1) s2(1) s3 show ?thesis by (simp add: EventLoop_construct_def EventLoop_destruct_def)
qed

text \<open>A callback, and the callbacks of a channel.\<close>

lemma call_ops_outcome:
  assumes "implements sp s" and "calls_ok (map (Pair cur) ops) sp" and cur: "currentActiveChannel v = cur" and thread: "isInLoopThread v"
  shows "outcome (view_ok v \<and> tidy sp (heap s) cur \<and> calls_careful (guarded_channels v) (map (Pair cur) ops) sp)
     (\<lambda>s'. implements (fold op_spec ops sp) s' \<and> keeps v sp (fold op_spec ops sp) (heap s) (heap s') \<and>
        (tidy sp (heap s) cur \<longrightarrow> tidy (fold op_spec ops sp) (heap s') cur))
     (call_ops v upd rem ops s)"
  using assms(1,2)
proof (induction ops arbitrary: sp s)
  case Nil
  then show ?case by (simp add: keeps_refl)
next
  case (Cons op ops)
  have ok: "op_ok op sp" "calls_ok (map (Pair cur) ops) (op_spec op sp)" using Cons.prems(2) by simp_all
  show ?case unfolding call_ops.simps
  proof (rule outcome_and_then [OF call_op_outcome [OF Cons.prems(1) ok(1) thread cur]])
    fix s1
    assume s1: "implements (op_spec op sp) s1 \<and> keeps v sp (op_spec op sp) (heap s) (heap s1) \<and>
        (tidy sp (heap s) cur \<longrightarrow> tidy (op_spec op sp) (heap s1) cur)"
    from Cons.IH [OF _ ok(2), of s1] s1
    show "outcome (view_ok v \<and> tidy sp (heap s) cur \<and> calls_careful (guarded_channels v) (map (Pair cur) (op # ops)) sp)
       (\<lambda>s'. implements (fold op_spec (op # ops) sp) s' \<and> keeps v sp (fold op_spec (op # ops) sp) (heap s) (heap s') \<and>
          (tidy sp (heap s) cur \<longrightarrow> tidy (fold op_spec (op # ops) sp) (heap s') cur))
       (call_ops v upd rem ops s1)"
      by (auto elim!: outcome_weaken intro: keeps_trans)
  qed simp
qed

lemma handle_channel_outcome:
  assumes imp: "implements sp s" and c: "heap s a = Some c" and ok: "calls_ok (map (Pair (Some a)) (channel_calls cbs alive (heap s) a)) sp"
    and handling: "loopHandling v" and thread: "isInLoopThread v"
  shows "outcome (view_ok v \<and> tidy sp (heap s) None \<and>
       calls_careful (activeChannels v) (map (Pair (Some a)) (channel_calls cbs alive (heap s) a)) sp)
     (\<lambda>s'. implements (fold op_spec (channel_calls cbs alive (heap s) a) sp) s' \<and>
        spares (activeChannels v) sp (fold op_spec (channel_calls cbs alive (heap s) a) sp) (heap s) (heap s') a \<and>
        (tidy sp (heap s) None \<longrightarrow> tidy (fold op_spec (channel_calls cbs alive (heap s) a) sp) (heap s') None))
     (handle_channel (v\<lparr>currentActiveChannel := Some a\<rparr>) upd rem cbs alive now a s)"
proof (cases "tied c \<and> \<not> alive a")
  case True
  with imp c show ?thesis by (simp add: handle_channel_def the_channel_def handleEvent_def channel_calls_def spares_def)
next
  case False
  let ?v = "v\<lparr>currentActiveChannel := Some a\<rparr>"
  let ?ops = "called (revents c) (cbs a)"
  let ?s0 = "mark_handling a True s"
  have ops: "channel_calls cbs alive (heap s) a = ?ops" using c False by (auto simp: channel_calls_def)
  have v: "currentActiveChannel ?v = Some a" "isInLoopThread ?v" "guarded_channels ?v = activeChannels v"
    "view_ok ?v = view_ok v"
    using handling thread by (simp_all add: isInLoopThread_def view_ok_def guarded_channels_def)
  have run: "handle_channel ?v upd rem cbs alive now a s =
      and_then (call_ops ?v upd rem ?ops ?s0) (\<lambda>s1. and_then (the_channel (mark_handling a False s1) a) (\<lambda>_. Inr (mark_handling a False s1)))"
    using c False by (auto simp: handle_channel_def the_channel_def handleEvent_def guarded_calls and_then_assoc)
  note calls = call_ops_outcome [OF implements_put [OF imp c, of True] ok [unfolded ops] v(1,2)]
  show ?thesis unfolding run ops
  proof (rule outcome_and_then [OF calls])
    fix s1
    assume s1: "implements (fold op_spec ?ops sp) s1 \<and> keeps ?v sp (fold op_spec ?ops sp) (heap ?s0) (heap s1) \<and>
        (tidy sp (heap ?s0) (Some a) \<longrightarrow> tidy (fold op_spec ?ops sp) (heap s1) (Some a))"
    then have "handled_at (heap s1) a" using mark_handling_simps(2) [OF c] by (simp add: keeps_def)
    then obtain c1 where c1: "heap s1 a = Some c1" by (auto simp: handled_at_def)
    then have alive: "the_channel (mark_handling a False s1) a = Inr (c1\<lparr>eventHandling := False\<rparr>)"
      by (simp add: mark_handling_def the_channel_def)
    have "spares (activeChannels v) sp (fold op_spec ?ops sp) (heap s) (heap (mark_handling a False s1)) a"
      using s1 v by (auto simp: keeps_def spares_def mark_handling_simps(1))
    then show "outcome (view_ok v \<and> tidy sp (heap s) None \<and> calls_careful (activeChannels v) (map (Pair (Some a)) ?ops) sp)
        (\<lambda>s'. implements (fold op_spec ?ops sp) s' \<and> spares (activeChannels v) sp (fold op_spec ?ops sp) (heap s) (heap s') a \<and>
           (tidy sp (heap s) None \<longrightarrow> tidy (fold op_spec ?ops sp) (heap s') None))
        (and_then (the_channel (mark_handling a False s1) a) (\<lambda>_. Inr (mark_handling a False s1)))"
      unfolding alive using s1 implements_put [OF _ c1] by (auto intro: mark_handling_simps(3,4))
  qed (use v mark_handling_simps(3) in auto)
qed

text \<open>All active channels, one after the other.\<close>

lemma handle_all_outcome:
  assumes "implements sp s" and "distinct as" and "set as \<subseteq> set (activeChannels v)"
    and "\<forall>a \<in> set as. life_of sp a = Some Registered" and "calls_ok (turn_calls cbs alive (heap s) as) sp"
    and handling: "loopHandling v" and thread: "isInLoopThread v"
  shows "outcome (view_ok v \<and> tidy sp (heap s) None \<and> calls_careful (activeChannels v) (turn_calls cbs alive (heap s) as) sp)
     (\<lambda>s'. implements (fold (\<lambda>(a, op). op_spec op) (turn_calls cbs alive (heap s) as) sp) s' \<and>
        (tidy sp (heap s) None \<longrightarrow> tidy (fold (\<lambda>(a, op). op_spec op) (turn_calls cbs alive (heap s) as) sp) (heap s') None))
     (handle_all v upd rem cbs alive now as s)"
  using assms(1-5)
proof (induction as arbitrary: sp s)
  case Nil
  then show ?case by (simp add: turn_calls_def)
next
  case (Cons a as)
  obtain c where c: "heap s a = Some c" using Cons.prems(4) implements_dom [OF Cons.prems(1), of a] by auto
  let ?ops = "channel_calls cbs alive (heap s) a"
  let ?sp = "fold op_spec ?ops sp"
  have calls: "turn_calls cbs alive (heap s) (a # as) = map (Pair (Some a)) ?ops @ turn_calls cbs alive (heap s) as"
    by (simp add: turn_calls_def)
  have ok: "calls_ok (map (Pair (Some a)) ?ops) sp" "calls_ok (turn_calls cbs alive (heap s) as) ?sp"
    using Cons.prems(5) by (simp_all add: calls fold_pairs)
  show ?case unfolding handle_all.simps
  proof (rule outcome_and_then [OF handle_channel_outcome [OF Cons.prems(1) c ok(1) handling thread]])
    fix s1
    assume s1: "implements ?sp s1 \<and> spares (activeChannels v) sp ?sp (heap s) (heap s1) a \<and>
        (tidy sp (heap s) None \<longrightarrow> tidy ?sp (heap s1) None)"
    have "life_of ?sp b = Some Registered \<and> io_part (heap s1 b) = io_part (heap s b)" if "b \<in> set as" for b
      using s1 that Cons.prems(2-4) by (auto simp: spares_def)
    then have same: "turn_calls cbs alive (heap s1) as = turn_calls cbs alive (heap s) as" "\<forall>b \<in> set as. life_of ?sp b = Some Registered"
      by (auto intro: turn_calls_cong)
    from Cons.IH [of ?sp s1] s1 same ok(2) Cons.prems(2,3)
    show "outcome (view_ok v \<and> tidy sp (heap s) None \<and> calls_careful (activeChannels v) (turn_calls cbs alive (heap s) (a # as)) sp)
       (\<lambda>s'. implements (fold (\<lambda>(a, op). op_spec op) (turn_calls cbs alive (heap s) (a # as)) sp) s' \<and>
        (tidy sp (heap s) None \<longrightarrow> tidy (fold (\<lambda>(a, op). op_spec op) (turn_calls cbs alive (heap s) (a # as)) sp) (heap s') None))
       (handle_all v upd rem cbs alive now as s1)"
      by (auto simp: calls fold_pairs elim!: outcome_weaken)
  qed (simp add: calls)
qed

lemma poll_implements:
  assumes imp: "implements sp s" and "good ans s"
  obtains active s' where "poll now ans s = Inr (now, active, s')" and "implements sp s'" and "distinct active"
    and "\<forall>a \<in> set active. life_of sp a = Some Registered" and "\<And>cur. tidy sp (heap s) cur \<Longrightarrow> tidy sp (heap s') cur"
proof -
  obtain active s' where p: "poll now ans s = Inr (now, active, s')" "inv s'" "channels s' = channels s" "watched s' = watched s"
    "distinct active" "\<forall>a \<in> set active. \<exists>f. channels s f = Some a"
    "\<forall>a. map_option (\<lambda>c. c\<lparr>revents := 0\<rparr>) (heap s' a) = map_option (\<lambda>c. c\<lparr>revents := 0\<rparr>) (heap s a)"
    using poll_reports [OF implements_inv [OF imp] assms(2)] by blast
  have old: "\<exists>c. heap s a = Some c \<and> fd c' = fd c \<and> events c' = events c \<and> index c' = index c \<and>
      eventHandling c' = eventHandling c \<and> addedToLoop c' = addedToLoop c" if "heap s' a = Some c'" for a c'
  proof -
    have "map_option (\<lambda>c. c\<lparr>revents := 0\<rparr>) (heap s a) = Some (c'\<lparr>revents := 0\<rparr>)" using p(7) that by (metis option.simps(9))
    then obtain c where "heap s a = Some c" "c\<lparr>revents := 0\<rparr> = c'\<lparr>revents := 0\<rparr>" by auto
    then show ?thesis by (cases c, cases c') auto
  qed
  have dom: "(life_of sp a = None) = (heap s' a = None)" for a
    using implements_dom [OF imp, of a] p(7) by (metis option.map_disc_iff)
  have cont: "fd c = fd_of sp a \<and> 0 \<le> fd c \<and> events c = interest sp a \<and> events_ok (events c) \<and>
      (life_of sp a = Some Fresh \<longrightarrow> index c = -1)" if "heap s' a = Some c" for a c
    using old [OF that] implements_heap [OF imp, of a] by auto
  have "implements sp s'"
    unfolding implements_def p(3,4)
    using p(2) dom cont implements_channels [OF imp] watches_interest(1) [OF imp] by blast
  moreover have "\<forall>a \<in> set active. life_of sp a = Some Registered"
    using p(6) implements_channels [OF imp] by blast
  moreover have "tidy sp (heap s') cur" if "tidy sp (heap s) cur" for cur
    using that old unfolding tidy_def by metis
  ultimately show thesis using that p(1,5) by blast
qed

text \<open>The whole turn: the callbacks of the active channels and then the functors.\<close>

lemma turn_outcome:
  assumes imp: "implements sp s" and "good ans s"
    and ok: "\<And>active s'. poll now ans s = Inr (now, active, s') \<Longrightarrow>
      calls_ok (turn_calls cbs alive (heap s') active @ map (Pair None) functors) sp"
  obtains active s' where "poll now ans s = Inr (now, active, s')"
    and "outcome (view_ok v \<and> tidy sp (heap s) None \<and> turn_careful active (turn_calls cbs alive (heap s') active) functors sp)
       (\<lambda>s''. implements (turn_spec (turn_calls cbs alive (heap s') active) functors sp) s'' \<and>
          (tidy sp (heap s) None \<longrightarrow> tidy (turn_spec (turn_calls cbs alive (heap s') active) functors sp) (heap s'') None))
       (loop_turn v upd rem (poll now ans) cbs alive functors s)"
proof -
  obtain active s' where p: "poll now ans s = Inr (now, active, s')" "implements sp s'" "distinct active"
    "\<forall>a \<in> set active. life_of sp a = Some Registered" "\<And>cur. tidy sp (heap s) cur \<Longrightarrow> tidy sp (heap s') cur"
    using poll_implements [OF assms(1,2), where now = now] by metis
  let ?v = "v\<lparr>activeChannels := active, loopHandling := True\<rparr>"
  let ?w = "?v\<lparr>currentActiveChannel := None, loopHandling := False\<rparr>"
  let ?calls = "turn_calls cbs alive (heap s') active"
  let ?sp = "fold (\<lambda>(a, op). op_spec op) ?calls sp"
  let ?t = "view_ok v \<and> tidy sp (heap s) None \<and> turn_careful active ?calls functors sp"
  let ?P = "\<lambda>s''. implements (turn_spec ?calls functors sp) s'' \<and>
      (tidy sp (heap s) None \<longrightarrow> tidy (turn_spec ?calls functors sp) (heap s'') None)"
  have "outcome ?t ?P (loop_turn v upd rem (poll now ans) cbs alive functors s)"
  proof (cases "isInLoopThread v")
    case True
    have views: "isInLoopThread ?v" "view_ok ?v = view_ok v" "isInLoopThread ?w" "view_ok ?w = view_ok v" "currentActiveChannel ?w = None"
      "guarded_channels ?w = []"
      using True by (simp_all add: isInLoopThread_def view_ok_def guarded_channels_def)
    have calls: "calls_ok ?calls sp" "calls_ok (map (Pair None) functors) ?sp" using ok [OF p(1)] by simp_all
    have "outcome (view_ok ?v \<and> tidy sp (heap s') None \<and> calls_careful (activeChannels ?v) ?calls sp)
        (\<lambda>s1. implements ?sp s1 \<and> (tidy sp (heap s') None \<longrightarrow> tidy ?sp (heap s1) None))
        (handle_all ?v upd rem cbs alive now active s')"
      by (rule handle_all_outcome [OF p(2,3) _ p(4) calls(1) _ views(1)]) simp_all
    then have "outcome ?t ?P (and_then (handle_all ?v upd rem cbs alive now active s') (call_ops ?w upd rem functors))"
    proof (rule outcome_and_then)
      fix s1
      assume s1: "implements ?sp s1 \<and> (tidy sp (heap s') None \<longrightarrow> tidy ?sp (heap s1) None)"
      then have "implements ?sp s1" by simp
      from call_ops_outcome [OF this calls(2) views(5,3), unfolded views(4,6)] s1 p(5)
      show "outcome ?t ?P (call_ops ?w upd rem functors s1)"
        by (auto simp: views turn_careful_def turn_spec_def elim!: outcome_weaken)
    qed (use p(5) views(2) in \<open>simp add: turn_careful_def\<close>)
    with True p(1) show ?thesis by (simp add: loop_turn_def assertInLoopThread_def Let_def)
  next
    case False
    then show ?thesis by (simp add: loop_turn_def assertInLoopThread_def abortNotInLoopThread_def view_ok_def)
  qed
  with p(1) show thesis by (rule that)
qed

lemma turns_outcome:
  assumes "implements sp s" and "tidy sp (heap s) None" and "turns_ok careful v upd rem poll good ts sp s"
  shows "outcome (view_ok v \<and> careful) (\<lambda>s'. \<exists>sp'. implements sp' s') (loop_turns v upd rem poll ts s)"
  using assms
proof (induction ts arbitrary: sp s)
  case (Cons t ts)
  let ?fs = "t_functors t"
  have good: "good (t_answer t) s" and now: "poll (t_now t) (t_answer t) s = Inr (t_now t, active, s') \<Longrightarrow>
      calls_ok (turn_calls (t_scripts t) (t_alive t) (heap s') active @ map (Pair None) ?fs) sp" for active s'
    using Cons.prems(3) by (simp_all add: Let_def)
  obtain active s' where p: "poll (t_now t) (t_answer t) s = Inr (t_now t, active, s')"
    and "outcome (view_ok v \<and> tidy sp (heap s) None \<and>
          turn_careful active (turn_calls (t_scripts t) (t_alive t) (heap s') active) ?fs sp)
       (\<lambda>s''. implements (turn_spec (turn_calls (t_scripts t) (t_alive t) (heap s') active) ?fs sp) s'' \<and>
          (tidy sp (heap s) None \<longrightarrow> tidy (turn_spec (turn_calls (t_scripts t) (t_alive t) (heap s') active) ?fs sp) (heap s'') None))
       (loop_turn v upd rem (poll (t_now t) (t_answer t)) (t_scripts t) (t_alive t) ?fs s)"
    by (rule turn_outcome [OF Cons.prems(1) good now, where v = v])
  note out = this(2)
  show ?case
  proof (cases "loop_turn v upd rem (poll (t_now t) (t_answer t)) (t_scripts t) (t_alive t) ?fs s")
    case (Inl e)
    with out Cons.prems(2,3) p show ?thesis by (auto simp: Let_def)
  next
    case (Inr s2)
    let ?sp = "turn_spec (turn_calls (t_scripts t) (t_alive t) (heap s') active) ?fs sp"
    have "implements ?sp s2" "tidy ?sp (heap s2) None" "turns_ok careful v upd rem poll good ts ?sp s2"
      using out Inr Cons.prems(2,3) p by (simp_all add: Let_def)
    from Cons.IH [OF this] Inr show ?thesis by simp
  qed
qed auto

lemma implements_registered: "implements sp s \<Longrightarrow> channels s f = Some a \<Longrightarrow> \<exists>c. heap s a = Some c \<and> fd c = f"
  using implements_channels [of sp s f a] implements_dom [of sp s a] implements_heap(2) [of sp s a] by auto

end

end
