(* ===== verification/LoopTurns.thy ===== *)
theory LoopTurns
  imports LoopChannels
begin

text \<open>
  The turns of theory \<open>LoopChannels\<close> on the two pollers of the library and on the one that
  \<^verbatim>\<open>Poller::newDefaultPoller\<close> chooses.
\<close>

section \<open>Both pollers keep the contract\<close>

definition revents_only :: "(address \<rightharpoonup> channel) \<Rightarrow> (address \<rightharpoonup> channel) \<Rightarrow> bool" where
  "revents_only h h' \<longleftrightarrow> (\<forall>a. map_option (\<lambda>c. c\<lparr>revents := 0\<rparr>) (h' a) = map_option (\<lambda>c. c\<lparr>revents := 0\<rparr>) (h a))"

lemma revents_only_put: "heap s a = Some c \<Longrightarrow> revents_only (heap (put_channel a (c\<lparr>revents := ev\<rparr>) s)) h \<Longrightarrow> revents_only (heap s) h"
  by (auto simp: revents_only_def put_channel_def split: if_splits)

lemma ep_fill_frame: "ep_fill evs s active = Inr (active', s') \<Longrightarrow> revents_only (heap s) (heap s') \<and> poller s' = poller s"
proof (induction evs s active rule: ep_fill.induct)
  case (1 s active)
  then show ?case by (simp add: revents_only_def)
next
  case (2 ev a evs s active)
  then obtain c where c: "heap s a = Some c" "channels s (fd c) = Some a"
    "ep_fill evs (put_channel a (c\<lparr>revents := ev\<rparr>) s) (active @ [a]) = Inr (active', s')"
    by (auto simp: the_channel_def check_def split: option.splits if_splits)
  from "2.IH" [of c] c have "revents_only (heap (put_channel a (c\<lparr>revents := ev\<rparr>) s)) (heap s') \<and> poller s' = poller s"
    by (simp add: the_channel_def put_channel_def fun_upd_def)
  with revents_only_put [of s a c] c(1) show ?case by blast
qed

lemma pp_fill_frame: "pp_fill n ps s active = Inr (active', s') \<Longrightarrow> revents_only (heap s) (heap s') \<and> poller s' = poller s"
proof (induction n ps s active rule: pp_fill.induct)
  case (1 n s active)
  then show ?case by (simp add: revents_only_def)
next
  case (2 n p ps s active)
  consider (none) "n = 0" | (hit) "n \<noteq> 0" "0 < sint (pfd_revents p)" | (miss) "n \<noteq> 0" "\<not> 0 < sint (pfd_revents p)" by blast
  then show ?case
  proof cases
    case none
    with 2 show ?thesis by (simp add: revents_only_def)
  next
    case hit
    with "2.prems" obtain a c where c: "channels s (pfd_fd p) = Some a" "heap s a = Some c" "fd c = pfd_fd p"
      "pp_fill (n - 1) ps (put_channel a (c\<lparr>revents := scast (pfd_revents p)\<rparr>) s) (active @ [a]) = Inr (active', s')"
      by (auto simp: the_channel_def check_def split: option.splits if_splits)
    from "2.IH"(1) [OF hit c(1), of c] c
    have "revents_only (heap (put_channel a (c\<lparr>revents := scast (pfd_revents p)\<rparr>) s)) (heap s') \<and> poller s' = poller s"
      by (simp add: the_channel_def put_channel_def fun_upd_def)
    with revents_only_put [of s a c] c(2) show ?thesis by blast
  next
    case miss
    with 2 show ?thesis by simp
  qed
qed

lemma pp_poll_frame:
  assumes "pp_poll now (Poll_events rs) s = Inr (n, active, s')"
  shows "revents_only (heap s) (heap s') \<and> poller s' = written rs s"
proof (cases "length (filter (\<lambda>r. r \<noteq> 0) rs) > 0")
  case True
  with assms obtain act where "pp_fill (length (filter (\<lambda>r. r \<noteq> 0) rs)) (written rs s) (s\<lparr>poller := written rs s\<rparr>) [] = Inr (act, s')"
    by (auto simp: pp_poll_def Let_def written_def map_sum_def split: sum.splits)
  from pp_fill_frame [OF this] show ?thesis by simp
next
  case False
  with assms show ?thesis by (auto simp: pp_poll_def Let_def written_def revents_only_def)
qed

lemma written_watched:
  assumes "length rs = length (poller s)" and "poller s' = written rs s"
  shows "pp_watched s' = pp_watched s"
proof -
  let ?find = "\<lambda>f. List.find (\<lambda>p. pfd_fd p = f \<and> 0 \<le> f)"
  have "map_option pfd_events (?find f (map2 (\<lambda>p r. p\<lparr>pfd_revents := r\<rparr>) ps rs)) = map_option pfd_events (?find f ps)"
    if "length rs = length ps" for f ps
    using that by (induction rs ps rule: list_induct2) auto
  from this [OF assms(1)] have same: "map_option pfd_events (?find f (poller s')) = map_option pfd_events (?find f (poller s))" for f
    by (simp add: assms(2) written_def)
  have view: "pp_watched t f = (case map_option pfd_events (?find f (poller t)) of Some e \<Rightarrow> ucast e | None \<Rightarrow> 0)" for t f
    by (simp add: pp_watched_def split: option.split)
  show ?thesis by (rule ext) (simp only: view same)
qed

definition epoll_good :: "epoll_outcome \<Rightarrow> epoll_io \<Rightarrow> bool" where
  "epoll_good ans s = (case ans of Epoll_events evs \<Rightarrow> epoll_contract evs s | Epoll_error e \<Rightarrow> True)"

definition poll_good :: "poll_outcome \<Rightarrow> poll_io \<Rightarrow> bool" where
  "poll_good ans s = (case ans of Poll_events rs \<Rightarrow> poll_contract rs s | Poll_error e \<Rightarrow> True)"

interpretation ept: polling_contract ep_updateChannel ep_removeChannel ep_inv ep_watched ep_poll epoll_good
proof unfold_locales
  fix s :: epoll_io and h :: "address \<rightharpoonup> channel"
  assume "ep_inv s" and "\<And>f a. channels s f = Some a \<Longrightarrow> h a = heap s a"
  then show "ep_inv (s\<lparr>heap := h\<rparr>)" by (fastforce simp: ep_inv_def)
next
  fix s :: epoll_io and ans now
  assume inv: "ep_inv s" and good: "epoll_good ans s"
  show "\<exists>active s'. ep_poll now ans s = Inr (now, active, s') \<and> ep_inv s' \<and> channels s' = channels s \<and> ep_watched s' = ep_watched s \<and>
      distinct active \<and> (\<forall>a \<in> set active. \<exists>f. channels s f = Some a) \<and>
      (\<forall>a. map_option (\<lambda>c. c\<lparr>revents := 0\<rparr>) (heap s' a) = map_option (\<lambda>c. c\<lparr>revents := 0\<rparr>) (heap s a))"
  proof (cases ans)
    case (Epoll_error e)
    with inv show ?thesis by (simp add: ep_poll_def)
  next
    case (Epoll_events evs)
    with good have con: "epoll_contract evs s" by (simp add: epoll_good_def)
    obtain s' where s': "ep_poll now ans s = Inr (now, map snd evs, s')" "ep_inv s'" "channels s' = channels s"
      "interest_list (poller s') = interest_list (poller s)"
      using ep_poll_reports [OF inv con, of now] Epoll_events by blast
    have "revents_only (heap s) (heap s')"
      using s'(1) Epoll_events ep_fill_frame [of evs s "[]"]
      by (fastforce simp: ep_poll_def Let_def check_def revents_only_def split: if_splits)
    moreover have "\<exists>f. channels s f = Some a" if "a \<in> set (map snd evs)" for a
    proof -
      obtain f ev where f: "interest_list (poller s) f = Some (ev, a)" using con \<open>a \<in> set (map snd evs)\<close> by (fastforce simp: epoll_contract_def)
      then obtain b where b: "channels s f = Some b" using ep_inv_none [OF inv, of f] by fastforce
      show ?thesis by (rule ep_inv_channel [OF inv b]) (use f b in auto)
    qed
    moreover have "distinct (map snd evs)" using con by (simp add: epoll_contract_def)
    moreover have "ep_watched s' = ep_watched s" using s'(4) by (simp add: ep_watched_def fun_eq_iff)
    ultimately show ?thesis using s' unfolding revents_only_def by blast
  qed
qed (simp add: ep_watched_def fun_eq_iff)

interpretation ppt: polling_contract pp_updateChannel pp_removeChannel pp_inv pp_watched pp_poll poll_good
proof unfold_locales
  fix s :: poll_io and h :: "address \<rightharpoonup> channel"
  assume inv: "pp_inv s" and "\<And>f a. channels s f = Some a \<Longrightarrow> h a = heap s a"
  then have h: "channels s f = Some a \<Longrightarrow> h a = heap s a" for f a by blast
  show "pp_inv (s\<lparr>heap := h\<rparr>)"
  proof (rule pp_invI)
    fix f a
    assume "channels (s\<lparr>heap := h\<rparr>) f = Some a"
    then have reg: "channels s f = Some a" by simp
    then obtain c where c: "heap s a = Some c" by (rule pp_inv_heap [OF inv])
    from pp_inv_channel [OF inv reg c] h [OF reg] c
    show "\<exists>c. heap (s\<lparr>heap := h\<rparr>) a = Some c \<and> fd c = f \<and> 0 \<le> f \<and> 0 \<le> index c \<and>
        nat (index c) < length (poller (s\<lparr>heap := h\<rparr>)) \<and> pfd_of (poller (s\<lparr>heap := h\<rparr>) ! nat (index c)) = f" by simp
  next
    fix i
    assume "i < length (poller (s\<lparr>heap := h\<rparr>))"
    then have "i < length (poller s)" by simp
    then obtain a c where "channels s (pfd_of (poller s ! i)) = Some a" "heap s a = Some c" "index c = int i"
      by (rule pp_inv_index [OF inv])
    with h show "\<exists>a c. channels (s\<lparr>heap := h\<rparr>) (pfd_of (poller (s\<lparr>heap := h\<rparr>) ! i)) = Some a \<and>
        heap (s\<lparr>heap := h\<rparr>) a = Some c \<and> index c = int i" by simp
  qed (use pp_inv_sign [OF inv] in simp)
next
  fix s :: poll_io and ans now
  assume inv: "pp_inv s" and good: "poll_good ans s"
  show "\<exists>active s'. pp_poll now ans s = Inr (now, active, s') \<and> pp_inv s' \<and> channels s' = channels s \<and> pp_watched s' = pp_watched s \<and>
      distinct active \<and> (\<forall>a \<in> set active. \<exists>f. channels s f = Some a) \<and>
      (\<forall>a. map_option (\<lambda>c. c\<lparr>revents := 0\<rparr>) (heap s' a) = map_option (\<lambda>c. c\<lparr>revents := 0\<rparr>) (heap s a))"
  proof (cases ans)
    case (Poll_error e)
    with inv show ?thesis by (simp add: pp_poll_def)
  next
    case (Poll_events rs)
    with good have con: "poll_contract rs s" by (simp add: poll_good_def)
    let ?I = "filter (\<lambda>i. rs ! i \<noteq> 0) [0..<length (poller s)]"
    let ?chan = "\<lambda>i. the (channels s (pfd_fd (poller s ! i)))"
    obtain s' where s': "pp_poll now ans s = Inr (now, map ?chan ?I, s')" "pp_inv s'" "channels s' = channels s"
      using pp_poll_reports [OF inv con, of now] Poll_events by blast
    have frame: "revents_only (heap s) (heap s')" "poller s' = written rs s"
      using pp_poll_frame [of now rs s] s'(1) Poll_events by auto
    have reg: "channels s (pfd_fd (poller s ! i)) = Some (?chan i) \<and> (\<exists>c. heap s (?chan i) = Some c \<and> fd c = pfd_fd (poller s ! i))"
      if "i \<in> set ?I" for i
    proof -
      have i: "i < length (poller s)" "rs ! i \<noteq> 0" using that by auto
      have "written rs s ! i \<in> set (written rs s)" using i length_written [OF con] by simp
      from written_fillable [OF inv con this] nth_written [OF con i(1)] i(2) show ?thesis
        by (auto simp: fillable_def happened_def)
    qed
    have "inj_on ?chan (set ?I)"
    proof (rule inj_onI)
      fix i j
      assume ij: "i \<in> set ?I" "j \<in> set ?I" "?chan i = ?chan j"
      then have "pfd_fd (poller s ! i) = pfd_fd (poller s ! j)" using reg [OF ij(1)] reg [OF ij(2)] by auto
      then have "pfd_of (poller s ! i) = pfd_of (poller s ! j)" by (simp add: pfd_of_def)
      with ij show "i = j" using pfd_of_inj [OF inv] by auto
    qed
    then have "distinct (map ?chan ?I)" by (simp add: distinct_map)
    moreover have "pp_watched s' = pp_watched s"
      using con frame(2) by (intro written_watched) (simp_all add: poll_contract_def)
    moreover have "\<forall>a \<in> set (map ?chan ?I). \<exists>f. channels s f = Some a" using reg by auto
    ultimately show ?thesis using s' frame(1) unfolding revents_only_def by blast
  qed
qed (simp add: pp_watched_def fun_eq_iff)

section \<open>The properties\<close>

definition PollPoller_new :: "(address \<rightharpoonup> channel) \<Rightarrow> poll_io" where
  "PollPoller_new chs = \<lparr>heap = chs, channels = Map.empty, poller = []\<rparr>"

text \<open>\<open>use_poll\<close>: the variable \<^verbatim>\<open>USE_POLL\<close> is in the environment.\<close>

definition newDefaultPoller :: "bool \<Rightarrow> (address \<rightharpoonup> channel) \<Rightarrow> poll_io + epoll_io" where
  "newDefaultPoller use_poll chs = (if use_poll then Inl (PollPoller_new chs) else Inr (EPollPoller_new chs))"

lemma tidy_fresh: "all_fresh chs \<Longrightarrow> tidy (fresh_spec chs) chs None"
  unfolding all_fresh_def tidy_def by (metis Channel_new_def channel.select_convs(7,8))

text \<open>Only an assertion stops the loop, none a careful client, and whoever is in the map of the poller exists.\<close>

definition turns_safe :: "bool \<Rightarrow> loop_view \<Rightarrow> 'p io result \<Rightarrow> bool" where
  "turns_safe careful v r \<longleftrightarrow>
     (case r of
        Inl e \<Rightarrow> \<not> (view_ok v \<and> careful) \<and> (e = Assert_failed \<or> e = Abort)
      | Inr s \<Rightarrow> \<forall>f a. channels s f = Some a \<longrightarrow> (\<exists>c. heap s a = Some c \<and> fd c = f))"

text \<open>
  C15. A turn of the loop never follows a pointer to a destroyed channel, although the callbacks and the
  functors create, register, change, remove and destroy channels while the loop goes over its vector:
  whatever they do within the contract of the poller, only an assertion can stop them, and whoever is in
  the map of the poller exists. Callbacks that remove no waiting channel and destroy only channels that
  are not registered meet no assertion at all. This holds for the poller that the loop gets, whichever
  it is.
\<close>

theorem turns_never_dangle:
  assumes "all_fresh chs"
  shows "case newDefaultPoller use_poll chs of
       Inl s \<Rightarrow> turns_ok careful v pp_updateChannel pp_removeChannel pp_poll poll_good pts (fresh_spec chs) s \<longrightarrow>
         turns_safe careful v (loop_turns v pp_updateChannel pp_removeChannel pp_poll pts s)
     | Inr s \<Rightarrow> turns_ok careful v ep_updateChannel ep_removeChannel ep_poll epoll_good ets (fresh_spec chs) s \<longrightarrow>
         turns_safe careful v (loop_turns v ep_updateChannel ep_removeChannel ep_poll ets s)"
proof (cases use_poll)
  case True
  have "pp.implements (fresh_spec chs) (PollPoller_new chs)"
    using pp.implements_fresh [of "PollPoller_new chs"] assms by (simp add: PollPoller_new_def pp_inv_def pp_watched_def fun_eq_iff)
  from ppt.turns_outcome [OF this, of careful v pts] tidy_fresh [OF assms] True show ?thesis
    by (auto simp: newDefaultPoller_def PollPoller_new_def turns_safe_def outcome_def ppt.implements_registered split: sum.splits)
next
  case False
  have heap: "heap (EPollPoller_new chs) = chs" by (simp add: EPollPoller_new_def)
  have "ep.implements (fresh_spec chs) (EPollPoller_new chs)"
    using ep.implements_fresh [of "EPollPoller_new chs"] assms by (simp add: heap)
  from ept.turns_outcome [OF this, of careful v ets] tidy_fresh [OF assms] False show ?thesis
    by (auto simp: heap newDefaultPoller_def turns_safe_def outcome_def ept.implements_registered split: sum.splits)
qed

section \<open>A run\<close>

text \<open>
  Two channels are registered by functors; then the callback of the first creates and registers a third,
  that of the second removes itself, and a functor destroys it.
\<close>

definition no_script :: channel_script where
  "no_script = \<lparr>on_read = [], on_write = [], on_close = [], on_error = []\<rparr>"

definition sample_view :: loop_view where
  "sample_view = \<lparr>this_loop = 1, threadId = 3, caller = 3, ownerLoop = (\<lambda>a. 1), activeChannels = [],
     currentActiveChannel = None, loopHandling = False\<rparr>"

definition sample_channels :: "address \<rightharpoonup> channel" where
  "sample_channels = [7 \<mapsto> Channel_new 5, 8 \<mapsto> Channel_new 6]"

definition sample_turns :: "epoll_outcome turn_input list" where
  "sample_turns =
     [\<lparr>t_now = 1, t_answer = Epoll_events [], t_scripts = (\<lambda>a. no_script), t_alive = (\<lambda>a. True),
        t_functors = [Io (Change EnableReading 7), Io (Change EnableReading 8)]\<rparr>,
      \<lparr>t_now = 2, t_answer = Epoll_events [(1, 7), (1, 8)],
        t_scripts = (\<lambda>a. if a = 7 then no_script\<lparr>on_read := [Create 9 12, Io (Change EnableReading 9)]\<rparr>
                         else no_script\<lparr>on_read := [Io (Change DisableAll 8), Io (Remove 8)]\<rparr>),
        t_alive = (\<lambda>a. True), t_functors = [Destroy 8]\<rparr>]"

lemmas run_turns = sample_turns_def sample_channels_def sample_view_def no_script_def loop_turn_def handle_channel_def
  handleEvent_def handleEventWithGuard_def script_callbacks_def call_def change_events_def channel_update_def channel_remove_def
  the_channel_def put_channel_def mark_handling_def loop_updateChannel_def loop_removeChannel_def loop_hasChannel_def hasChannel_def
  Channel_delete_def channel_in_loop_def assertInLoopThread_def isInLoopThread_def check_def isNoneEvent_def Channel_new_def
  ep_updateChannel_def ep_removeChannel_def ep_update_def ep_poll_def epoll_good_def index_defs event_defs
  EPollPoller_new_def kInitEventListSize_def Let_def

lemma epoll_contract_sample [simp]:
  "epoll_contract [(1, 7), (1, 8)] \<lparr>heap = h, channels = m, poller = \<lparr>interest_list = k(5 \<mapsto> (e, 7), 6 \<mapsto> (e', 8)), events_size = 64\<rparr>\<rparr>"
proof -
  have "\<exists>f ev'. (k(5 \<mapsto> (e, 7), 6 \<mapsto> (e', 8))) f = Some (ev', 7)" by (rule exI [of _ 5]) simp
  moreover have "\<exists>f ev'. (k(5 \<mapsto> (e, 7), 6 \<mapsto> (e', 8))) f = Some (ev', 8)" by (rule exI [of _ 6]) simp
  ultimately show ?thesis by (simp add: epoll_contract_def)
qed

lemma epoll_contract_Nil [simp]: "epoll_contract [] s"
  by (simp add: epoll_contract_def)

lemma sample_turns_ok:
  "turns_ok True sample_view ep_updateChannel ep_removeChannel ep_poll epoll_good sample_turns (fresh_spec sample_channels)
     (EPollPoller_new sample_channels)"
  by (simp add: run_turns turn_calls_def channel_calls_def called_def turn_careful_def turn_spec_def fresh_spec_def)

lemma turns_never_dangle_witness:
  "\<exists>s. loop_turns sample_view ep_updateChannel ep_removeChannel ep_poll sample_turns (EPollPoller_new sample_channels) = Inr s \<and>
     (\<forall>f a. channels s f = Some a \<longrightarrow> (\<exists>c. heap s a = Some c \<and> fd c = f))"
proof -
  have fresh: "all_fresh sample_channels" by (auto simp: all_fresh_def sample_channels_def Channel_new_def split: if_splits)
  have view: "view_ok sample_view" by (simp add: view_ok_def sample_view_def isInLoopThread_def)
  have "turns_safe True sample_view (loop_turns sample_view ep_updateChannel ep_removeChannel ep_poll sample_turns (EPollPoller_new sample_channels))"
    using turns_never_dangle [OF fresh, where use_poll = False and careful = True] sample_turns_ok by (simp add: newDefaultPoller_def)
  with view show ?thesis by (simp add: turns_safe_def split: sum.splits)
qed

text \<open>
  The assertion of \<^verbatim>\<open>removeChannel\<close> compares addresses: a new channel at the address of one that was active
  in this turn, removed and destroyed, cannot be removed before the turn is over.
\<close>

lemma reused_address_asserts:
  "loop_turns sample_view ep_updateChannel ep_removeChannel ep_poll
     [hd sample_turns, (sample_turns ! 1)\<lparr>t_scripts := (\<lambda>a. if a = 7 then no_script\<lparr>on_read := [Io (Change DisableAll 7), Io (Remove 7)]\<rparr>
        else no_script\<lparr>on_read := [Destroy 7, Create 7 12, Io (Change EnableReading 7), Io (Change DisableAll 7), Io (Remove 7)]\<rparr>)\<rparr>]
     (EPollPoller_new sample_channels) = Inl Assert_failed"
  by (simp add: run_turns)

end
