(* ===== verification/Sockets.thy ===== *)
theory Sockets
  imports InetAddress
begin

text \<open>
  \<^verbatim>\<open>namespace sockets\<close> and class \<^verbatim>\<open>Socket\<close> of \<^verbatim>\<open>gg_lib/net/SocketsHelper.cc\<close>, and the descriptors of
  \<^verbatim>\<open>Acceptor.cc\<close>: who owns a descriptor and who closes it. The kernel is a table of open descriptors
  with the calls that were made; the descriptor that a new file gets and the failures of the calls are
  arguments. An error message is counted, a fatal one aborts.
\<close>

section \<open>The kernel\<close>

datatype sock_option = TCP_NODELAY | TCP_CORK | SO_REUSEADDR | SO_REUSEPORT | SO_KEEPALIVE

datatype sys_call =
    Sys_socket "16 word"
  | Sys_open_null
  | Sys_accept int
  | Sys_connect int bytes
  | Sys_bind int bytes
  | Sys_listen int
  | Sys_shutdown_write int
  | Sys_setsockopt int sock_option bool
  | Sys_close int

record kernel =
  open_fds :: "int list"
  sys_calls :: "sys_call list"
  bad_closes :: "int list"
  logged_errors :: nat

text \<open>
  \<open>pick_fd\<close> is the descriptor that the kernel gives when those of the list are open, \<open>sys_fails\<close> the error
  of the call with a number.
\<close>

record sys_env =
  pick_fd :: "int list \<Rightarrow> int"
  sys_fails :: "nat \<Rightarrow> int option"

definition sys_outcome :: "sys_env \<Rightarrow> kernel \<Rightarrow> int option" where
  "sys_outcome env k = sys_fails env (length (sys_calls k))"

definition sys_call :: "sys_call \<Rightarrow> kernel \<Rightarrow> kernel" where
  "sys_call c k = k\<lparr>sys_calls := sys_calls k @ [c]\<rparr>"

text \<open>A call that makes a descriptor: \<open>-1\<close> and \<^verbatim>\<open>errno\<close> when it fails.\<close>

definition sys_new_fd :: "sys_env \<Rightarrow> sys_call \<Rightarrow> kernel \<Rightarrow> int \<times> int \<times> kernel" where
  "sys_new_fd env c k =
     (case sys_outcome env k of
        Some e \<Rightarrow> (-1, e, sys_call c k)
      | None \<Rightarrow> let fd = pick_fd env (open_fds k) in (fd, 0, (sys_call c k)\<lparr>open_fds := open_fds k @ [fd]\<rparr>))"

text \<open>\<^verbatim>\<open>close\<close> releases an open descriptor even when it reports an error.\<close>

definition sys_close :: "sys_env \<Rightarrow> int \<Rightarrow> kernel \<Rightarrow> bool \<times> kernel" where
  "sys_close env fd k =
     (if fd \<in> set (open_fds k)
      then (sys_outcome env k = None, (sys_call (Sys_close fd) k)\<lparr>open_fds := remove1 fd (open_fds k)\<rparr>)
      else (False, (sys_call (Sys_close fd) k)\<lparr>bad_closes := bad_closes k @ [fd]\<rparr>))"

definition log_error :: "bool \<Rightarrow> kernel \<Rightarrow> kernel" where
  "log_error ok k = (if ok then k else k\<lparr>logged_errors := logged_errors k + 1\<rparr>)"

section \<open>namespace sockets\<close>

definition createNonblockingOrDie :: "sys_env \<Rightarrow> 16 word \<Rightarrow> kernel \<Rightarrow> (int \<times> kernel) result" where
  "createNonblockingOrDie env family k =
     (case sys_new_fd env (Sys_socket family) k of (sockfd, e, k1) \<Rightarrow>
        if sockfd < 0 then Inl Abort else Inr (sockfd, k1))"

definition sockets_connect :: "sys_env \<Rightarrow> int \<Rightarrow> bytes \<Rightarrow> kernel \<Rightarrow> int \<times> kernel" where
  "sockets_connect env sockfd addr k =
     (if sys_outcome env k = None then 0 else -1, sys_call (Sys_connect sockfd addr) k)"

definition bindOrDie :: "sys_env \<Rightarrow> int \<Rightarrow> bytes \<Rightarrow> kernel \<Rightarrow> kernel result" where
  "bindOrDie env sockfd addr k =
     (if sys_outcome env k = None then Inr (sys_call (Sys_bind sockfd addr) k) else Inl Abort)"

definition listenOrDie :: "sys_env \<Rightarrow> int \<Rightarrow> kernel \<Rightarrow> kernel result" where
  "listenOrDie env sockfd k =
     (if sys_outcome env k = None then Inr (sys_call (Sys_listen sockfd) k) else Inl Abort)"

text \<open>Errors that are expected are returned, with a message but for two of them; others are fatal.\<close>

definition silent_errors :: "int list" where
  "silent_errors = [11, 4]"

definition expected_errors :: "int list" where
  "expected_errors = [103, 71, 1, 24]"

definition sockets_accept :: "sys_env \<Rightarrow> int \<Rightarrow> kernel \<Rightarrow> (int \<times> int \<times> kernel) result" where
  "sockets_accept env sockfd k =
     (case sys_new_fd env (Sys_accept sockfd) k of (connfd, e, k1) \<Rightarrow>
        if connfd < 0 then
          if e \<in> set silent_errors then Inr (connfd, e, k1)
          else if e \<in> set expected_errors then Inr (connfd, e, log_error False k1)
          else Inl Abort
        else Inr (connfd, e, k1))"

definition sockets_close :: "sys_env \<Rightarrow> int \<Rightarrow> kernel \<Rightarrow> kernel" where
  "sockets_close env sockfd k = (case sys_close env sockfd k of (ok, k1) \<Rightarrow> log_error ok k1)"

definition sockets_shutdownWrite :: "sys_env \<Rightarrow> int \<Rightarrow> kernel \<Rightarrow> kernel" where
  "sockets_shutdownWrite env sockfd k =
     log_error (sys_outcome env k = None) (sys_call (Sys_shutdown_write sockfd) k)"

text \<open>\<open>optval\<close> is what \<^verbatim>\<open>getsockopt\<close> wrote, \<open>e\<close> its error.\<close>

definition getSocketError :: "int option \<Rightarrow> int \<Rightarrow> int" where
  "getSocketError e optval = (case e of Some e \<Rightarrow> e | None \<Rightarrow> optval)"

text \<open>The address that the kernel writes; a failure leaves the zeros and a message.\<close>

definition getLocalAddr :: "bytes option \<Rightarrow> kernel \<Rightarrow> bytes \<times> kernel" where
  "getLocalAddr r k =
     (case r of Some a \<Rightarrow> (store 0 a (replicate 28 (CHR 0x00)), k) | None \<Rightarrow> (replicate 28 (CHR 0x00), log_error False k))"

definition getPeerAddr :: "bytes option \<Rightarrow> kernel \<Rightarrow> bytes \<times> kernel" where
  "getPeerAddr r k =
     (case r of Some a \<Rightarrow> (store 0 a (replicate 28 (CHR 0x00)), k) | None \<Rightarrow> (replicate 28 (CHR 0x00), log_error False k))"

section \<open>class Socket\<close>

text \<open>A \<^verbatim>\<open>Socket\<close> is its descriptor, which it owns; \<open>-1\<close> after a move.\<close>

definition Socket_move :: "int \<Rightarrow> int \<times> int" where
  "Socket_move rhs = (rhs, -1)"

definition Socket_delete :: "sys_env \<Rightarrow> int \<Rightarrow> kernel \<Rightarrow> kernel" where
  "Socket_delete env sockfd k = (if sockfd \<ge> 0 then sockets_close env sockfd k else k)"

definition Socket_close :: "sys_env \<Rightarrow> int \<Rightarrow> kernel \<Rightarrow> kernel" where
  "Socket_close env sockfd k = sockets_close env sockfd k"

definition Socket_bindAddress :: "sys_env \<Rightarrow> int \<Rightarrow> bytes \<Rightarrow> kernel \<Rightarrow> kernel result" where
  "Socket_bindAddress env sockfd localaddr k = bindOrDie env sockfd localaddr k"

definition Socket_listen :: "sys_env \<Rightarrow> int \<Rightarrow> kernel \<Rightarrow> kernel result" where
  "Socket_listen env sockfd k = listenOrDie env sockfd k"

text \<open>\<open>addr\<close> is the address that \<^verbatim>\<open>accept4\<close> writes; without a connection \<open>peeraddr\<close> stays.\<close>

definition Socket_accept ::
  "sys_env \<Rightarrow> int \<Rightarrow> bytes \<Rightarrow> bytes \<Rightarrow> kernel \<Rightarrow> (int \<times> int \<times> bytes \<times> kernel) result" where
  "Socket_accept env sockfd addr peeraddr k =
     and_then (sockets_accept env sockfd k) (\<lambda>(connfd, e, k1).
       Inr (connfd, e, if connfd \<ge> 0 then setSockAddrInet6 addr peeraddr else peeraddr, k1))"

definition Socket_shutdownWrite :: "sys_env \<Rightarrow> int \<Rightarrow> kernel \<Rightarrow> kernel" where
  "Socket_shutdownWrite env sockfd k = sockets_shutdownWrite env sockfd k"

text \<open>Options; a failure is reported for one of them only.\<close>

definition setTcpNoDelay :: "int \<Rightarrow> bool \<Rightarrow> kernel \<Rightarrow> kernel" where
  "setTcpNoDelay sockfd on k = sys_call (Sys_setsockopt sockfd TCP_NODELAY on) k"

definition setTcpCork :: "int \<Rightarrow> bool \<Rightarrow> kernel \<Rightarrow> kernel" where
  "setTcpCork sockfd on k = sys_call (Sys_setsockopt sockfd TCP_CORK on) k"

definition setReuseAddr :: "int \<Rightarrow> bool \<Rightarrow> kernel \<Rightarrow> kernel" where
  "setReuseAddr sockfd on k = sys_call (Sys_setsockopt sockfd SO_REUSEADDR on) k"

definition setReusePort :: "sys_env \<Rightarrow> int \<Rightarrow> bool \<Rightarrow> kernel \<Rightarrow> kernel" where
  "setReusePort env sockfd on k =
     log_error (\<not> (sys_outcome env k \<noteq> None \<and> on)) (sys_call (Sys_setsockopt sockfd SO_REUSEPORT on) k)"

definition setKeepAlive :: "int \<Rightarrow> bool \<Rightarrow> kernel \<Rightarrow> kernel" where
  "setKeepAlive sockfd on k = sys_call (Sys_setsockopt sockfd SO_KEEPALIVE on) k"

text \<open>The text of the fields of \<^verbatim>\<open>tcp_info\<close> that are printed, in their order.\<close>

type_synonym tcp_info = "32 word list"

definition tcp_info_names :: "string list" where
  "tcp_info_names = [''unrecovered='', '' rto='', '' ato='', '' snd_mss='', '' rcv_mss='', '' lost='', '' retrans='',
     '' rtt='', '' rttvar='', '' sshthresh='', '' cwnd='', '' total_retrans='']"

definition tcp_info_text :: "tcp_info \<Rightarrow> string" where
  "tcp_info_text info = concat (map2 (\<lambda>name v. name @ show_nat (unat v)) tcp_info_names info)"

definition getTcpInfo :: "tcp_info option \<Rightarrow> bool \<times> tcp_info" where
  "getTcpInfo r = (case r of Some info \<Rightarrow> (True, info) | None \<Rightarrow> (False, replicate 12 0))"

definition getTcpInfoString :: "tcp_info option \<Rightarrow> string \<Rightarrow> nat \<Rightarrow> bool \<times> string" where
  "getTcpInfoString r buf len =
     (case getTcpInfo r of (ok, info) \<Rightarrow> (ok, if ok then snprintf len (tcp_info_text info) else buf))"

end
