(* ===== verification/SocketsProps.thy ===== *)
theory SocketsProps
  imports Runs Sockets "HOL-Library.Multiset"
begin

text \<open>
  The descriptors of a server. \<open>server_fds\<close> has the \<^verbatim>\<open>Acceptor\<close> with its listening socket and its idle
  descriptor, the descriptors of the connections it has handed over, and those that the rest of the
  process has opened; the events are the turns of \<^verbatim>\<open>Acceptor::handleRead\<close>, the ends of connections, and
  what others open and close.
\<close>

section \<open>The acceptor and its descriptors\<close>

record server_fds =
  ac_fd :: int
  ac_idle :: int
  ac_listening :: bool
  ac_callback :: bool
  ac_conns :: "int list"
  other_fds :: "int list"
  fd_kernel :: kernel

definition with_kernel :: "kernel \<Rightarrow> server_fds \<Rightarrow> server_fds" where
  "with_kernel k s = s\<lparr>fd_kernel := k\<rparr>"

text \<open>The constructor, in a process whose open descriptors are \<open>others\<close>.\<close>

definition Acceptor_new :: "sys_env \<Rightarrow> bytes \<Rightarrow> bool \<Rightarrow> bool \<Rightarrow> kernel \<Rightarrow> server_fds result" where
  "Acceptor_new env listenAddr reuseport has_callback k =
     and_then (createNonblockingOrDie env (addr_family listenAddr) k) (\<lambda>(fd, k1).
       case sys_new_fd env Sys_open_null k1 of (idle, e, k2) \<Rightarrow>
         check (idle \<ge> 0)
           (and_then (Socket_bindAddress env fd listenAddr (setReusePort env fd reuseport (setReuseAddr fd True k2))) (\<lambda>k3.
              Inr \<lparr>ac_fd = fd, ac_idle = idle, ac_listening = False, ac_callback = has_callback, ac_conns = [],
                   other_fds = open_fds k, fd_kernel = k3\<rparr>)))"

definition acceptor_listen_fd :: "sys_env \<Rightarrow> server_fds \<Rightarrow> server_fds result" where
  "acceptor_listen_fd env s =
     map_sum id (\<lambda>k. with_kernel k (s\<lparr>ac_listening := True\<rparr>)) (Socket_listen env (ac_fd s) (fd_kernel s))"

text \<open>\<^verbatim>\<open>EMFILE\<close>: the idle descriptor gives way to a connection that is closed at once.\<close>

definition shed_fd :: "sys_env \<Rightarrow> server_fds \<Rightarrow> server_fds" where
  "shed_fd env s =
     (case sys_close env (ac_idle s) (fd_kernel s) of (_, k1) \<Rightarrow>
      case sys_new_fd env (Sys_accept (ac_fd s)) k1 of (conn, _, k2) \<Rightarrow>
      case sys_close env conn k2 of (_, k3) \<Rightarrow>
      case sys_new_fd env Sys_open_null k3 of (idle, _, k4) \<Rightarrow> with_kernel k4 (s\<lparr>ac_idle := idle\<rparr>))"

text \<open>A turn of the loop; the new connection's \<^verbatim>\<open>Socket\<close> sets an option. \<open>True\<close> is \<^verbatim>\<open>break\<close>.\<close>

definition accept_fd :: "sys_env \<Rightarrow> server_fds \<Rightarrow> (bool \<times> server_fds) result" where
  "accept_fd env s =
     and_then (sockets_accept env (ac_fd s) (fd_kernel s)) (\<lambda>(connfd, e, k1).
       if connfd \<ge> 0 then
         Inr (False, if ac_callback s then with_kernel (setKeepAlive connfd True k1) (s\<lparr>ac_conns := ac_conns s @ [connfd]\<rparr>)
                     else with_kernel (sockets_close env connfd k1) s)
       else if e = 11 then Inr (True, with_kernel k1 s)
       else let s1 = with_kernel (log_error False k1) s in Inr (False, if e = 24 then shed_fd env s1 else s1))"

text \<open>The end of a connection: the destructor of its \<^verbatim>\<open>Socket\<close>.\<close>

definition conn_gone :: "sys_env \<Rightarrow> int \<Rightarrow> server_fds \<Rightarrow> server_fds" where
  "conn_gone env fd s = with_kernel (Socket_delete env fd (fd_kernel s)) (s\<lparr>ac_conns := remove1 fd (ac_conns s)\<rparr>)"

definition Acceptor_delete :: "sys_env \<Rightarrow> server_fds \<Rightarrow> server_fds" where
  "Acceptor_delete env s =
     with_kernel (Socket_delete env (ac_fd s) (sockets_close env (ac_idle s) (fd_kernel s))) s"

datatype fd_event = Fd_listen | Fd_accept | Fd_conn_gone int | Fd_other_open | Fd_other_close int

fun fd_step :: "sys_env \<Rightarrow> fd_event \<Rightarrow> server_fds \<Rightarrow> server_fds result" where
  "fd_step env Fd_listen s = acceptor_listen_fd env s"
| "fd_step env Fd_accept s = map_sum id snd (accept_fd env s)"
| "fd_step env (Fd_conn_gone fd) s = Inr (if fd \<in> set (ac_conns s) then conn_gone env fd s else s)"
| "fd_step env Fd_other_open s =
     (case sys_new_fd env Sys_open_null (fd_kernel s) of (fd, _, k) \<Rightarrow>
        Inr (with_kernel k (if fd \<ge> 0 then s\<lparr>other_fds := other_fds s @ [fd]\<rparr> else s)))"
| "fd_step env (Fd_other_close fd) s =
     Inr (if fd \<in> set (other_fds s)
          then with_kernel (snd (sys_close env fd (fd_kernel s))) (s\<lparr>other_fds := remove1 fd (other_fds s)\<rparr>) else s)"

fun fd_run :: "sys_env \<Rightarrow> fd_event list \<Rightarrow> server_fds \<Rightarrow> server_fds result" where
  "fd_run env [] s = Inr s"
| "fd_run env (e # es) s = and_then (fd_step env e s) (fd_run env es)"

interpretation fr: sequential "fd_step env" "fd_run env" for env
  by unfold_locales simp_all

section \<open>Ownership\<close>

text \<open>What the kernel promises: a new descriptor is not negative and was not open.\<close>

definition kernel_ok :: "sys_env \<Rightarrow> bool" where
  "kernel_ok env \<longleftrightarrow> (\<forall>fds. 0 \<le> pick_fd env fds \<and> pick_fd env fds \<notin> set fds)"

definition table_ok :: "int multiset \<Rightarrow> kernel \<Rightarrow> bool" where
  "table_ok owned k \<longleftrightarrow> mset (open_fds k) = owned \<and> distinct (open_fds k) \<and> (\<forall>fd \<in> set (open_fds k). 0 \<le> fd) \<and>
     set (bad_closes k) \<subseteq> {-1}"

definition fd_mset :: "int \<Rightarrow> int multiset" where
  "fd_mset fd = (if fd \<ge> 0 then {#fd#} else {#})"

lemma fd_mset_simps [simp]: "0 \<le> fd \<Longrightarrow> fd_mset fd = {#fd#}" "fd_mset (-1) = {#}"
  by (simp_all add: fd_mset_def)

lemma table_ok_simps [simp]:
  "table_ok owned (sys_call c k) = table_ok owned k" "table_ok owned (log_error ok k) = table_ok owned k"
  "open_fds (sys_call c k) = open_fds k" "bad_closes (sys_call c k) = bad_closes k"
  "open_fds (log_error ok k) = open_fds k"
  by (simp_all add: table_ok_def sys_call_def log_error_def)

lemma table_new_fd:
  assumes "kernel_ok env" and "table_ok owned k" and "sys_new_fd env c k = (fd, e, k')"
  shows "table_ok (owned + fd_mset fd) k'" and "fd \<ge> 0 \<or> fd = -1"
  using assms
  by (auto simp: sys_new_fd_def table_ok_def kernel_ok_def Let_def sys_call_def fd_mset_def split: option.splits)

lemma table_close:
  assumes "table_ok owned k" and "sys_close env fd k = (ok, k')" and "fd_mset fd \<subseteq># owned" and "fd \<ge> 0 \<or> fd = -1"
  shows "table_ok (owned - fd_mset fd) k'"
proof (cases "fd \<ge> 0")
  case True
  with assms(1,3) have "fd \<in> set (open_fds k)" by (auto simp: table_ok_def)
  with assms(1,2) True show ?thesis
    by (auto simp: sys_close_def table_ok_def sys_call_def set_remove1_eq)
next
  case False
  with assms(4) have "fd = -1" by simp
  moreover from this assms(1) have "fd \<notin> set (open_fds k)" by (auto simp: table_ok_def)
  ultimately show ?thesis using assms(1,2) by (auto simp: sys_close_def table_ok_def sys_call_def)
qed

text \<open>The owned descriptors.\<close>

definition owned :: "server_fds \<Rightarrow> int multiset" where
  "owned s = add_mset (ac_fd s) (fd_mset (ac_idle s)) + mset (ac_conns s) + mset (other_fds s)"

definition fds_inv :: "server_fds \<Rightarrow> bool" where
  "fds_inv s \<longleftrightarrow> table_ok (owned s) (fd_kernel s) \<and> (ac_idle s \<ge> 0 \<or> ac_idle s = -1) \<and> 0 \<le> ac_fd s"

lemma sockets_close_table:
  assumes "table_ok ow k" and "fd_mset fd \<subseteq># ow" and "fd \<ge> 0 \<or> fd = -1"
  shows "table_ok (ow - fd_mset fd) (sockets_close env fd k)"
  using table_close [OF assms(1) _ assms(2,3)] by (auto simp: sockets_close_def split: prod.split)

lemma sockets_accept_table:
  assumes "kernel_ok env" and "table_ok ow k" and "sockets_accept env fd k = Inr (c, e, k')"
  shows "table_ok (ow + fd_mset c) k'" and "c \<ge> 0 \<or> c = -1"
proof -
  obtain k1 where n: "sys_new_fd env (Sys_accept fd) k = (c, e, k1)" and "k' = k1 \<or> k' = log_error False k1"
    using assms(3) by (auto simp: sockets_accept_def split: prod.splits if_splits)
  then show "table_ok (ow + fd_mset c) k'" "c \<ge> 0 \<or> c = -1" using table_new_fd [OF assms(1,2) n] by auto
qed

lemma owned_less:
  "fd \<in> set (ac_conns s) \<Longrightarrow> owned (s\<lparr>ac_conns := remove1 fd (ac_conns s), fd_kernel := k\<rparr>) = owned s - {#fd#}"
  "fd \<in> set (other_fds s) \<Longrightarrow> owned (s\<lparr>other_fds := remove1 fd (other_fds s), fd_kernel := k\<rparr>) = owned s - {#fd#}"
proof -
  assume "fd \<in> set (ac_conns s)"
  then obtain M where "mset (ac_conns s) = add_mset fd M" by (metis multi_member_split set_mset_mset)
  then show "owned (s\<lparr>ac_conns := remove1 fd (ac_conns s), fd_kernel := k\<rparr>) = owned s - {#fd#}" by (simp add: owned_def)
next
  assume "fd \<in> set (other_fds s)"
  then obtain M where "mset (other_fds s) = add_mset fd M" by (metis multi_member_split set_mset_mset)
  then show "owned (s\<lparr>other_fds := remove1 fd (other_fds s), fd_kernel := k\<rparr>) = owned s - {#fd#}" by (simp add: owned_def)
qed

lemma Acceptor_new_inv:
  assumes "kernel_ok env" and "table_ok (mset (open_fds k)) k"
  shows "case Acceptor_new env addr reuse cb k of
     Inl e \<Rightarrow> e = Abort \<or> e = Assert_failed
   | Inr s \<Rightarrow> fds_inv s \<and> other_fds s = open_fds k \<and> ac_conns s = []"
proof -
  obtain fd e k1 where n1: "sys_new_fd env (Sys_socket (addr_family addr)) k = (fd, e, k1)" by (metis prod_cases3)
  obtain idle e2 k2 where n2: "sys_new_fd env Sys_open_null k1 = (idle, e2, k2)" by (metis prod_cases3)
  note t1 = table_new_fd [OF assms n1]
  note t2 = table_new_fd [OF assms(1) t1(1) n2]
  show ?thesis
    using t1(2) t2 n1 n2
    by (auto simp: Acceptor_new_def createNonblockingOrDie_def check_def Socket_bindAddress_def bindOrDie_def setReuseAddr_def
        setReusePort_def fds_inv_def owned_def add_mset_commute split: if_splits)
qed

lemma shed_inv:
  assumes env: "kernel_ok env" and inv: "fds_inv s"
  shows "fds_inv (shed_fd env s) \<and> ac_conns (shed_fd env s) = ac_conns s \<and> other_fds (shed_fd env s) = other_fds s"
proof -
  define rest where "rest = {#ac_fd s#} + mset (ac_conns s) + mset (other_fds s)"
  have ow: "owned s = rest + fd_mset (ac_idle s)" by (simp add: owned_def rest_def)
  obtain b1 k1 where c1: "sys_close env (ac_idle s) (fd_kernel s) = (b1, k1)" by fastforce
  obtain conn e2 k2 where n2: "sys_new_fd env (Sys_accept (ac_fd s)) k1 = (conn, e2, k2)" by (metis prod_cases3)
  obtain b3 k3 where c3: "sys_close env conn k2 = (b3, k3)" by fastforce
  obtain idle e4 k4 where n4: "sys_new_fd env Sys_open_null k3 = (idle, e4, k4)" by (metis prod_cases3)
  have "table_ok (owned s - fd_mset (ac_idle s)) k1"
    using inv by (intro table_close [OF _ c1]) (auto simp: fds_inv_def ow)
  then have "table_ok rest k1" by (simp add: ow)
  note t2 = table_new_fd [OF env this n2]
  have "table_ok (rest + fd_mset conn - fd_mset conn) k3" by (rule table_close [OF t2(1) c3 _ t2(2)]) simp
  then have "table_ok rest k3" by simp
  note t4 = table_new_fd [OF env this n4]
  show ?thesis using t4 inv c1 n2 c3 n4
    by (simp add: shed_fd_def fds_inv_def owned_def with_kernel_def rest_def ac_simps)
qed

lemma fd_step_inv:
  assumes env: "kernel_ok env" and inv: "fds_inv s"
  shows "case fd_step env e s of Inl x \<Rightarrow> x = Abort | Inr s' \<Rightarrow> fds_inv s'"
proof (cases e)
  case Fd_listen
  with inv show ?thesis
    by (auto simp: acceptor_listen_fd_def Socket_listen_def listenOrDie_def fds_inv_def owned_def with_kernel_def split: if_splits)
next
  case Fd_accept
  show ?thesis
  proof (cases "sockets_accept env (ac_fd s) (fd_kernel s)")
    case (Inl x)
    then have "x = Abort" by (auto simp: sockets_accept_def split: prod.splits if_splits)
    with Inl Fd_accept show ?thesis by (simp add: accept_fd_def)
  next
    case (Inr y)
    then obtain connfd err k1 where a: "sockets_accept env (ac_fd s) (fd_kernel s) = Inr (connfd, err, k1)" by (cases y) auto
    have "table_ok (owned s) (fd_kernel s)" using inv by (simp add: fds_inv_def)
    note t = sockets_accept_table [OF env this a]
    show ?thesis
    proof (cases "connfd \<ge> 0")
      case True
      have "table_ok (owned s + fd_mset connfd - fd_mset connfd) (sockets_close env connfd k1)"
        by (rule sockets_close_table [OF t(1) _ t(2)]) simp
      with True a t(1) inv Fd_accept show ?thesis
        by (auto simp: accept_fd_def with_kernel_def fds_inv_def owned_def setKeepAlive_def ac_simps)
    next
      case False
      then have keep: "fds_inv (with_kernel k1 s)" "fds_inv (with_kernel (log_error False k1) s)"
        using t inv by (simp_all add: with_kernel_def fds_inv_def owned_def)
      with shed_inv [OF env keep(2)] False a Fd_accept show ?thesis by (simp add: accept_fd_def Let_def)
    qed
  qed
next
  case (Fd_conn_gone fd)
  show ?thesis
  proof (cases "fd \<in> set (ac_conns s)")
    case True
    then have "fd \<in># owned s" by (simp add: owned_def)
    then have "0 \<le> fd" using inv unfolding fds_inv_def table_ok_def by (metis set_mset_mset)
    have "table_ok (owned s - fd_mset fd) (sockets_close env fd (fd_kernel s))"
      using inv \<open>0 \<le> fd\<close> \<open>fd \<in># owned s\<close> by (intro sockets_close_table) (auto simp: fds_inv_def)
    with inv \<open>0 \<le> fd\<close> Fd_conn_gone True show ?thesis
      by (simp add: conn_gone_def Socket_delete_def with_kernel_def fds_inv_def owned_less)
  qed (use inv Fd_conn_gone in simp)
next
  case Fd_other_open
  obtain fd err k where n: "sys_new_fd env Sys_open_null (fd_kernel s) = (fd, err, k)" by (metis prod_cases3)
  have "table_ok (owned s) (fd_kernel s)" using inv by (simp add: fds_inv_def)
  note t = table_new_fd [OF env this n]
  show ?thesis
  proof (cases "fd \<ge> 0")
    case True
    with t(1) inv n Fd_other_open show ?thesis by (simp add: with_kernel_def fds_inv_def owned_def)
  next
    case False
    with t inv n Fd_other_open show ?thesis by (simp add: with_kernel_def fds_inv_def owned_def)
  qed
next
  case (Fd_other_close fd)
  show ?thesis
  proof (cases "fd \<in> set (other_fds s)")
    case True
    obtain ok k where c: "sys_close env fd (fd_kernel s) = (ok, k)" by fastforce
    have "fd \<in># owned s" using True by (simp add: owned_def)
    then have "0 \<le> fd" using inv unfolding fds_inv_def table_ok_def by (metis set_mset_mset)
    have "table_ok (owned s - fd_mset fd) k"
      using inv \<open>0 \<le> fd\<close> \<open>fd \<in># owned s\<close> by (intro table_close [OF _ c]) (auto simp: fds_inv_def)
    then show ?thesis using inv \<open>0 \<le> fd\<close> Fd_other_close True c
      by (simp add: with_kernel_def fds_inv_def owned_less)
  qed (use inv Fd_other_close in simp)
qed

lemma fd_run_inv:
  assumes "kernel_ok env" and "fds_inv s"
  shows "case fd_run env es s of Inl x \<Rightarrow> x = Abort | Inr s' \<Rightarrow> fds_inv s'"
proof -
  have step: "case fd_step env op s of Inl x \<Rightarrow> x = Abort | Inr s' \<Rightarrow> fds_inv s' \<and> True" if "fds_inv s" for op s
    using fd_step_inv [OF assms(1) that, of op] by (simp split: sum.splits)
  have "case fd_run env es s of Inl x \<Rightarrow> x = Abort | Inr s' \<Rightarrow> fds_inv s' \<and> True"
    by (rule fr.run_sound [where inv = fds_inv and rel = "\<lambda>_ _. True" and err = "\<lambda>x. x = Abort", OF step _ _ assms(2)])
      simp_all
  then show ?thesis by (simp split: sum.splits)
qed

lemma Acceptor_delete_table:
  assumes "fds_inv s"
  shows "table_ok (mset (ac_conns s) + mset (other_fds s)) (fd_kernel (Acceptor_delete env s))"
proof -
  let ?k = "sockets_close env (ac_idle s) (fd_kernel s)"
  have "table_ok (owned s - fd_mset (ac_idle s)) ?k"
    using assms by (intro sockets_close_table) (auto simp: fds_inv_def owned_def fd_mset_def)
  then have "table_ok (add_mset (ac_fd s) (mset (ac_conns s) + mset (other_fds s))) ?k"
    by (simp add: owned_def)
  from sockets_close_table [OF this, of "ac_fd s" env] assms show ?thesis
    by (simp add: Acceptor_delete_def Socket_delete_def with_kernel_def fds_inv_def)
qed

section \<open>The properties\<close>

text \<open>
  C25. Every descriptor of a server has one owner, who closes it once: whatever calls of \<^verbatim>\<open>accept4\<close>,
  \<^verbatim>\<open>open\<close> and \<^verbatim>\<open>close\<close> fail, when connections come, are shed or end, and whatever the rest of the process opens
  and closes, the open descriptors are the listening socket, the idle one, those of the connections and
  those of the others; nobody closes a descriptor that is not his (only \<open>-1\<close> is ever closed in vain), and
  after the destructor only the connections and the others are left.
\<close>

theorem descriptors_have_one_owner:
  assumes "kernel_ok env" and "distinct (open_fds k)" and "\<forall>fd \<in> set (open_fds k). 0 \<le> fd" and "bad_closes k = []"
  shows "case and_then (Acceptor_new env addr reuse cb k) (fd_run env es) of
       Inl e \<Rightarrow> e = Abort \<or> e = Assert_failed
     | Inr s \<Rightarrow> mset (open_fds (fd_kernel s)) = owned s \<and> distinct (open_fds (fd_kernel s)) \<and>
         set (bad_closes (fd_kernel (Acceptor_delete env s))) \<subseteq> {-1} \<and>
         mset (open_fds (fd_kernel (Acceptor_delete env s))) = mset (ac_conns s) + mset (other_fds s)"
proof -
  have "table_ok (mset (open_fds k)) k" using assms(2-4) by (simp add: table_ok_def)
  note new = Acceptor_new_inv [OF assms(1) this, of addr reuse cb]
  show ?thesis
  proof (cases "Acceptor_new env addr reuse cb k")
    case (Inl e)
    with new show ?thesis by simp
  next
    case (Inr s0)
    with new have "fds_inv s0" by simp
    note run = fd_run_inv [OF assms(1) this, of es]
    show ?thesis
    proof (cases "fd_run env es s0")
      case (Inl e)
      with run \<open>Acceptor_new env addr reuse cb k = Inr s0\<close> show ?thesis by simp
    next
      case (Inr s1)
      with run have "fds_inv s1" by simp
      with Acceptor_delete_table [OF this, of env] Inr \<open>Acceptor_new env addr reuse cb k = Inr s0\<close> show ?thesis
        by (simp add: fds_inv_def table_ok_def)
    qed
  qed
qed

definition sample_kernel :: kernel where
  "sample_kernel = \<lparr>open_fds = [0, 1, 2], sys_calls = [], bad_closes = [], logged_errors = 0\<rparr>"

definition max_fd :: "int list \<Rightarrow> int" where
  "max_fd fds = fold max fds 2 + 1"

lemma max_fd_above: "fd \<in> set fds \<Longrightarrow> fd < max_fd fds" and max_fd_pos: "2 < max_fd fds"
proof -
  have ge: "b \<le> fold max fds b \<and> (\<forall>x \<in> set fds. x \<le> fold max fds b)" for b :: int
  proof (induction fds arbitrary: b)
    case (Cons x xs)
    from Cons [of "max x b"] show ?case by auto
  qed simp
  show "fd \<in> set fds \<Longrightarrow> fd < max_fd fds" "2 < max_fd fds" using ge [of 2] by (auto simp: max_fd_def)
qed

definition sample_sys :: sys_env where
  "sample_sys = \<lparr>pick_fd = max_fd, sys_fails = (\<lambda>i. if i = 5 then Some 24 else None)\<rparr>"

lemma sample_sys_ok: "kernel_ok sample_sys"
proof -
  have "0 \<le> max_fd fds" "max_fd fds \<notin> set fds" for fds using max_fd_pos [of fds] max_fd_above [of "max_fd fds" fds] by auto
  then show ?thesis by (simp add: kernel_ok_def sample_sys_def)
qed

text \<open>The process is out of descriptors once: a connection is shed.\<close>

definition sample_owner_run :: "server_fds result" where
  "sample_owner_run = and_then (Acceptor_new sample_sys (replicate 28 (CHR 0x00)) True True sample_kernel)
     (fd_run sample_sys [Fd_accept, Fd_accept, Fd_accept, Fd_conn_gone 5])"

lemma descriptors_have_one_owner_witness:
  "case sample_owner_run of Inl e \<Rightarrow> False
   | Inr s \<Rightarrow> ac_conns s = [6] \<and> set (bad_closes (fd_kernel (Acceptor_delete sample_sys s))) \<subseteq> {-1} \<and>
       mset (open_fds (fd_kernel (Acceptor_delete sample_sys s))) = {#0, 1, 2, 6#}"
proof -
  have run: "case sample_owner_run of Inl e \<Rightarrow> False | Inr s \<Rightarrow> ac_conns s = [6] \<and> other_fds s = [0, 1, 2]"
    by code_simp
  have "distinct (open_fds sample_kernel)" "\<forall>fd \<in> set (open_fds sample_kernel). 0 \<le> fd" "bad_closes sample_kernel = []"
    by (simp_all add: sample_kernel_def)
  note own = descriptors_have_one_owner [OF sample_sys_ok this, of "replicate 28 (CHR 0x00)" True True
      "[Fd_accept, Fd_accept, Fd_accept, Fd_conn_gone 5]", folded sample_owner_run_def]
  obtain r where r: "sample_owner_run = r" by simp
  show ?thesis using own run unfolding r by (cases r) (simp_all add: add_mset_commute)
qed

text \<open>
  \<^verbatim>\<open>Socket::close\<close> leaves the descriptor in the object, whose destructor closes it again: if another part of
  the process has got the number meanwhile, its descriptor is closed.
\<close>

lemma Socket_close_twice:
  "\<exists>k1 k2. Socket_close sample_sys 3 (sample_kernel\<lparr>open_fds := [0, 1, 2, 3]\<rparr>) = k1 \<and>
     sys_new_fd sample_sys Sys_open_null k1 = (3, 0, k2) \<and> 3 \<in> set (open_fds k2) \<and>
     3 \<notin> set (open_fds (Socket_delete sample_sys 3 k2))"
  by (simp add: Socket_close_def Socket_delete_def sockets_close_def sys_close_def sys_new_fd_def sys_outcome_def sys_call_def
      sample_sys_def sample_kernel_def max_fd_def log_error_def Let_def)

text \<open>The text of \<^verbatim>\<open>getTcpInfoString\<close> fits the buffer of \<^verbatim>\<open>TcpConnection\<close>.\<close>

lemma tcp_info_text_fits:
  assumes "length info = 12"
  shows "getTcpInfoString (Some info) buf 1023 = (True, tcp_info_text info)"
proof -
  have num: "length (show_nat (unat v)) \<le> 10" for v :: "32 word"
    using unsigned_less [of v, where ?'a = nat] by (intro length_show_nat) simp_all
  have "length (concat (map2 (\<lambda>name v. name @ show_nat (unat v)) names vs)) \<le> length (concat names) + 10 * length names"
    for names :: "string list" and vs :: "32 word list"
  proof (induction names arbitrary: vs)
    case (Cons n ns)
    show ?case
    proof (cases vs)
      case (Cons v ws)
      with Cons.IH [of ws] num [of v] show ?thesis by simp
    qed simp
  qed simp
  from this [of tcp_info_names info] have "length (tcp_info_text info) < 1023"
    by (simp add: tcp_info_text_def tcp_info_names_def)
  then show ?thesis by (simp add: getTcpInfoString_def getTcpInfo_def snprintf_def)
qed

end
