(* ===== verification/SmallFile.thy ===== *)
theory SmallFile
  imports Prelude
begin

text \<open>
  \<^verbatim>\<open>ReadSmallFile\<close> and \<^verbatim>\<open>readFile\<close> of \<^verbatim>\<open>gg_lib/FileUtil.cc\<close> and \<^verbatim>\<open>FileUtil.h\<close>. The file is its bytes; what \<^verbatim>\<open>open\<close> and
  \<^verbatim>\<open>fstat\<close> return and how many bytes each call of \<^verbatim>\<open>read\<close> gives at most, or its error, are arguments.
\<close>

record small_file =
  sf_fd :: int
  sf_err :: int
  sf_offset :: nat
  sf_calls :: nat

text \<open>\<open>Inl\<close> is an error number; for \<^verbatim>\<open>fstat\<close>, whether the file is a regular one, and its size.\<close>

record file_env =
  open_result :: "int + int"
  stat_result :: "int + bool \<times> int"
  read_gives :: "nat \<Rightarrow> int + nat"
  file_bytes :: bytes

text \<open>\<^verbatim>\<open>read\<close> gives at least one byte if there is one.\<close>

definition reads_ok :: "file_env \<Rightarrow> bool" where
  "reads_ok env \<longleftrightarrow> (\<forall>i k. read_gives env i = Inr k \<longrightarrow> 0 < k)"

definition small_kBufferSize :: nat where
  "small_kBufferSize = 64 * 1024"

definition ReadSmallFile_new :: "file_env \<Rightarrow> small_file" where
  "ReadSmallFile_new env =
     (case open_result env of
        Inr fd \<Rightarrow> \<lparr>sf_fd = fd, sf_err = 0, sf_offset = 0, sf_calls = 0\<rparr>
      | Inl e \<Rightarrow> \<lparr>sf_fd = -1, sf_err = e, sf_offset = 0, sf_calls = 0\<rparr>)"

text \<open>The destructor; \<open>closed\<close> are the descriptors that were closed.\<close>

definition ReadSmallFile_delete :: "small_file \<Rightarrow> int list \<Rightarrow> int list" where
  "ReadSmallFile_delete f closed = (if sf_fd f \<ge> 0 then closed @ [sf_fd f] else closed)"

definition small_ok :: "small_file \<Rightarrow> bool" where
  "small_ok f \<longleftrightarrow> sf_fd f > 0 \<and> sf_err f = 0"

text \<open>The loop; each call of \<^verbatim>\<open>read\<close> moves the offset of the descriptor.\<close>

function small_loop :: "file_env \<Rightarrow> nat \<Rightarrow> bytes \<Rightarrow> small_file \<Rightarrow> bytes \<times> small_file" where
  "small_loop env maxSize content f =
     (if length content < maxSize then
        (let toRead = min (maxSize - length content) small_kBufferSize;
             f1 = f\<lparr>sf_calls := sf_calls f + 1\<rparr>
         in case read_gives env (sf_calls f) of
              Inl e \<Rightarrow> (content, f1\<lparr>sf_err := e\<rparr>)
            | Inr k \<Rightarrow>
                (let chunk = take (min k toRead) (drop (sf_offset f) (file_bytes env))
                 in if length chunk > 0 then small_loop env maxSize (content @ chunk) (f1\<lparr>sf_offset := sf_offset f + length chunk\<rparr>)
                    else (content, f1)))
      else (content, f))"
  by pat_completeness auto
termination
  by (relation "measure (\<lambda>(env, maxSize, content, f). maxSize - length content)", simp)
    (simp only: in_measure split_conv length_append, linarith)

declare small_loop.simps [simp del]

text \<open>
  A negative size becomes a huge \<^verbatim>\<open>size_t\<close> in the loop, and in \<^verbatim>\<open>reserve\<close>, which throws.
\<close>

definition as_size :: "int \<Rightarrow> nat" where
  "as_size n = unat (word_of_int n :: 64 word)"

definition readToString :: "file_env \<Rightarrow> int \<Rightarrow> bytes \<Rightarrow> int option \<Rightarrow> small_file \<Rightarrow> (int \<times> bytes \<times> int option \<times> small_file) result" where
  "readToString env maxSize content fileSize f =
     (if sf_fd f < 0 \<or> sf_err f \<noteq> 0 then Inr (sf_err f, content, fileSize, f)
      else case stat_result env of
        Inl e \<Rightarrow> Inr (e, [], fileSize, f\<lparr>sf_err := e\<rparr>)
      | Inr (regular, file_size) \<Rightarrow>
          if \<not> regular then Inr (22, [], fileSize, f\<lparr>sf_err := 22\<rparr>)
          else if min maxSize file_size < 0 then Inl (Logic_error ''length_error'')
          else case small_loop env (as_size maxSize) [] f of
            (content1, f1) \<Rightarrow> Inr (sf_err f1, content1, map_option (\<lambda>_. file_size) fileSize, f1))"

definition readFile :: "file_env \<Rightarrow> int \<Rightarrow> bytes \<Rightarrow> int option \<Rightarrow> (int \<times> bytes \<times> int option) result" where
  "readFile env maxSize content fileSize =
     map_sum id (\<lambda>(e, c, n, f). (e, c, n)) (readToString env maxSize content fileSize (ReadSmallFile_new env))"

section \<open>What is read\<close>

lemma take_after_take: "take m xs @ take n (drop (length (take m xs)) xs) = take (length (take m xs) + n) xs"
  by (cases "m \<le> length xs") (simp_all add: take_add)

text \<open>
  Whatever the calls give, the loop collects the bytes of the file from the offset on; without an error it
  stops only at the size that was asked for or at the end of the file.
\<close>

lemma small_loop_reads:
  assumes "reads_ok env" and "sf_err f = 0" and "small_loop env maxSize content f = (content', f')" and "length content \<le> maxSize"
  shows "\<exists>more. content' = content @ more \<and> sf_offset f' = sf_offset f + length more \<and> sf_fd f' = sf_fd f \<and> length content' \<le> maxSize \<and>
     more = take (length more) (drop (sf_offset f) (file_bytes env)) \<and>
     (if \<exists>i. read_gives env i = Inl (sf_err f') then True
      else sf_err f' = 0 \<and> more = take (maxSize - length content) (drop (sf_offset f) (file_bytes env)))"
  using assms
proof (induction env maxSize content f arbitrary: content' f' rule: small_loop.induct)
  case (1 env maxSize content f)
  let ?rest = "drop (sf_offset f) (file_bytes env)"
  let ?toRead = "min (maxSize - length content) small_kBufferSize"
  let ?f1 = "f\<lparr>sf_calls := sf_calls f + 1\<rparr>"
  show ?case
  proof (cases "length content < maxSize")
    case False
    with 1 show ?thesis by (simp add: small_loop.simps [of env maxSize content])
  next
    case True
    show ?thesis
    proof (cases "read_gives env (sf_calls f)")
      case (Inl e)
      with True 1 show ?thesis by (auto simp: small_loop.simps [of env maxSize content] Let_def)
    next
      case (Inr k)
      let ?chunk = "take (min k ?toRead) ?rest"
      let ?f2 = "?f1\<lparr>sf_offset := sf_offset f + length ?chunk\<rparr>"
      show ?thesis
      proof (cases "length ?chunk > 0")
        case False
        then have "?rest = [] \<or> min k ?toRead = 0" by auto
        moreover have "0 < k" using Inr "1.prems"(1) unfolding reads_ok_def by blast
        then have "0 < min k ?toRead" using True by (simp add: small_kBufferSize_def)
        ultimately have "?rest = []" by simp
        with True Inr False 1 show ?thesis by (auto simp: small_loop.simps [of env maxSize content] Let_def)
      next
        case chunk: True
        have rec: "small_loop env maxSize (content @ ?chunk) ?f2 = (content', f')"
          using True Inr chunk "1.prems"(3) by (simp add: small_loop.simps [of env maxSize content] Let_def)
        have err: "sf_err ?f2 = 0" using "1.prems"(2) by simp
        have len: "length (content @ ?chunk) \<le> maxSize" using True by simp
        obtain more where more: "content' = (content @ ?chunk) @ more" "sf_offset f' = sf_offset ?f2 + length more"
          "sf_fd f' = sf_fd ?f2" "length content' \<le> maxSize" "more = take (length more) (drop (sf_offset ?f2) (file_bytes env))"
          "if \<exists>i. read_gives env i = Inl (sf_err f') then True
           else sf_err f' = 0 \<and> more = take (maxSize - length (content @ ?chunk)) (drop (sf_offset ?f2) (file_bytes env))"
          using "1.IH" [OF True refl refl Inr refl chunk "1.prems"(1) err rec len] by (elim exE conjE)
        have rest: "drop (sf_offset ?f2) (file_bytes env) = drop (length ?chunk) ?rest" by (simp add: add.commute)
        have split: "?chunk @ take n (drop (length ?chunk) ?rest) = take (length ?chunk + n) ?rest" for n
          by (rule take_after_take)
        define chunk where "chunk = ?chunk"
        define new where "new = chunk @ more"
        have new: "new = take (length new) ?rest"
          using split [of "length more"] more(5) unfolding rest new_def chunk_def by (metis length_append)
        have all: "new = take (maxSize - length content) ?rest" 
          if "more = take (maxSize - length (content @ ?chunk)) (drop (sf_offset ?f2) (file_bytes env))"
        proof -
          have "length chunk + (maxSize - length (content @ chunk)) = maxSize - length content" using len by (simp add: chunk_def del: length_take)
          with that split [of "maxSize - length (content @ chunk)"] show ?thesis unfolding rest by (simp only: new_def chunk_def)
        qed
        have "content' = content @ new" "sf_offset f' = sf_offset f + length new" "sf_fd f' = sf_fd f"
          using more(1-3) by (simp_all add: new_def chunk_def del: length_take)
        moreover have "if \<exists>i. read_gives env i = Inl (sf_err f') then True
            else sf_err f' = 0 \<and> new = take (maxSize - length content) ?rest"
          using all more(6) by (metis (full_types))
        ultimately show ?thesis using new more(4) by blast
      qed
    qed
  qed
qed

text \<open>
  Reading a regular file: the content is what follows the offset, up to the size asked for; if no call of
  \<^verbatim>\<open>read\<close> fails, all of it and no error. A second call goes on where the first one stopped.
\<close>

lemma readToString_reads:
  assumes "reads_ok env" and "0 \<le> sf_fd f" and "sf_err f = 0" and "stat_result env = Inr (True, file_size)" and "0 \<le> file_size"
    and "0 \<le> maxSize" and "maxSize < 2 ^ 31"
  shows "\<exists>e c f'. readToString env maxSize content fileSize f = Inr (e, c, map_option (\<lambda>_. file_size) fileSize, f') \<and>
     sf_offset f' = sf_offset f + length c \<and> sf_fd f' = sf_fd f \<and> length c \<le> nat maxSize \<and>
     c = take (length c) (drop (sf_offset f) (file_bytes env)) \<and>
     ((\<forall>i e. read_gives env i \<noteq> Inl e) \<longrightarrow> e = 0 \<and> c = take (nat maxSize) (drop (sf_offset f) (file_bytes env)))"
proof -
  have sz: "as_size maxSize = nat maxSize" using assms(6,7) by (simp add: as_size_def unsigned_of_int nat_take_bit_eq take_bit_int_eq_self)
  obtain c f' where loop: "small_loop env (nat maxSize) [] f = (c, f')" by fastforce
  have run: "readToString env maxSize content fileSize f = Inr (sf_err f', c, map_option (\<lambda>_. file_size) fileSize, f')"
    using assms loop by (simp add: readToString_def sz)
  from small_loop_reads [OF assms(1,3) loop]
  have "sf_offset f' = sf_offset f + length c \<and> sf_fd f' = sf_fd f \<and> length c \<le> nat maxSize \<and>
     c = take (length c) (drop (sf_offset f) (file_bytes env)) \<and>
     (if \<exists>i. read_gives env i = Inl (sf_err f') then True
      else sf_err f' = 0 \<and> c = take (nat maxSize) (drop (sf_offset f) (file_bytes env)))" by auto
  with run show ?thesis by (metis (full_types))
qed

lemma negative_size_throws:
  "stat_result env = Inr (True, file_size) \<Longrightarrow> 0 \<le> sf_fd f \<Longrightarrow> sf_err f = 0 \<Longrightarrow> maxSize < 0 \<Longrightarrow>
     readToString env maxSize content fileSize f = Inl (Logic_error ''length_error'')"
  by (simp add: readToString_def min_less_iff_disj)

end
