(* ===== verification/Spec2Isabelle.thy ===== *)
theory Spec2Isabelle
  imports BufferInts EchoServer LoopTimers Comparable Conveniences EPollPoller ConnLife ServerThreads TimeZoneProps EventLoopProps TcpServerProps LogPipeline LoggingProps AnyValue ThreadPool InetAddress Threads LoopThread LoopTurns SocketsProps SmallFile
begin

text \<open>
  A verification library for \<^verbatim>\<open>gg_lib\<close>, a C++ network library in the reactor style: one event loop per
  thread, channels that bind a descriptor to callbacks, pollers, timers, TCP servers and an HTTP server on
  top of them, and logging to files by a thread of its own. Paths below are under \<^verbatim>\<open>src/\<close>; a source file
  without a directory is in \<^verbatim>\<open>gg_lib/\<close>, \<^verbatim>\<open>gg_lib/net/\<close> or \<^verbatim>\<open>include/gg_lib/\<close>.

  \<^bold>\<open>The program and the theories.\<close>

  \<^item> Shared. \<open>Prelude\<close> has the outcomes of an operation that may fail (\<open>gg_error\<close>, \<open>result\<close>, \<open>check\<close> for
    \<^verbatim>\<open>assert\<close>, \<open>and_then\<close> for the sequence of two operations) and the lists that stand for memory. \<open>Runs\<close>
    has the locales for sequences of operations.
  \<^item> Bytes. \<open>Buffer\<close>: \<^verbatim>\<open>net/Buffer.h\<close>, the vector with its two indices. \<open>BufferInts\<close>, \<open>Endian\<close>: the integers in
    network byte order of \<^verbatim>\<open>Buffer.h\<close> and \<^verbatim>\<open>SocketsHelper.h\<close>. \<open>StringView\<close>: the part of the vendored
    \<^verbatim>\<open>string_view\<close> that the parser uses, as the standard describes it.
  \<^item> HTTP. \<open>HttpRequest\<close>, \<open>HttpContext\<close>: \<^verbatim>\<open>net/http/HttpRequest.h\<close> and the incremental parser of
    \<^verbatim>\<open>HttpContext.cc\<close>; \<open>HttpParsing\<close>: what it guarantees. \<open>HttpResponse\<close>: \<^verbatim>\<open>HttpResponse.cc\<close>. \<open>HttpServer\<close>:
    \<^verbatim>\<open>HttpServer.cc\<close>. \<open>HttpStream\<close>: its \<^verbatim>\<open>onMessage\<close> over the segments of a stream. \<open>HttpOverTcp\<close>: the server on
    a connection of \<open>TcpConnection\<close>, with the kernel that takes and gives bytes in any portions.
  \<^item> The loop. \<open>Channel\<close>: \<^verbatim>\<open>Channel.cc\<close>. \<open>Poller\<close>: the contract of \<^verbatim>\<open>Poller.h\<close>. \<open>PollPoller\<close>, \<open>EPollPoller\<close>: the two
    implementations. \<open>EventLoop\<close>, \<open>EventLoopProps\<close>: \<^verbatim>\<open>EventLoop.cc\<close> as atomic steps of the loop and of other
    threads. \<open>LoopChannels\<close>, \<open>LoopTurns\<close>: whole turns of the loop over a poller and over channels that the
    callbacks create and destroy. \<open>LoopThread\<close>: \<^verbatim>\<open>EventLoopThread.cc\<close>.
  \<^item> Timers. \<open>Timestamp\<close>: \<^verbatim>\<open>Timestamp.cc\<close>. \<open>TimerQueue\<close>, \<open>TimerInvariant\<close>, \<open>TimerProps\<close>: \<^verbatim>\<open>TimerQueue.cc\<close>.
    \<open>LoopTimers\<close>: timers that other threads add and cancel, and the functors that bring them to the loop.
  \<^item> TCP. \<open>TcpConnection\<close>, \<open>TcpInvariant\<close>, \<open>TcpProps\<close>: \<^verbatim>\<open>TcpConnection.cc\<close>. \<open>ConnLife\<close>: who owns a connection and
    when it is destroyed. \<open>TcpServer\<close>, \<open>TcpServerProps\<close>: \<^verbatim>\<open>Acceptor.cc\<close>, \<^verbatim>\<open>EventLoopThreadPool.cc\<close>, \<^verbatim>\<open>TcpServer.cc\<close>.
    \<open>ServerThreads\<close>: the server with its connections in the loops of other threads. \<open>EchoServer\<close>: the client
    \<^verbatim>\<open>example/simple/EchoServerExample.cc\<close>, which stops reading while too much waits to be written.
  \<^item> Sockets. \<open>InetAddress\<close>: class \<^verbatim>\<open>InetAddress\<close> and the address functions of \<^verbatim>\<open>SocketsHelper.cc\<close>. \<open>Sockets\<close>: the
    rest of \<^verbatim>\<open>SocketsHelper.cc\<close> over a table of open descriptors. \<open>SocketsProps\<close>: the descriptors of a server.
  \<^item> Threads. \<open>Threads\<close>: \<^verbatim>\<open>ThreadHelper.cc\<close>, \<^verbatim>\<open>CountDownLatch.cc\<close>, \<^verbatim>\<open>CurrentThread\<close>. \<open>ThreadPool\<close>: \<^verbatim>\<open>ThreadPool.cc\<close>.
  \<^item> Time. \<open>Date\<close>: \<^verbatim>\<open>Date.cc\<close>. \<open>Comparable\<close>: \<^verbatim>\<open>comparable.h\<close>, the operators of \<^verbatim>\<open>Date\<close> and \<^verbatim>\<open>Timestamp\<close>.
    \<open>TimeZone\<close>, \<open>TimeZoneProps\<close>: \<^verbatim>\<open>TimeZone.cc\<close> and the reader of time zone files.
  \<^item> Logging. \<open>LogStream\<close>: \<^verbatim>\<open>LogStream.cc\<close>, \<^verbatim>\<open>FixedBuffer.h\<close>. \<open>Logging\<close>, \<open>LoggingProps\<close>: \<^verbatim>\<open>Logging.cc\<close>. \<open>LogFile\<close>,
    \<open>LogFileProps\<close>: \<^verbatim>\<open>AppendFile\<close> and \<^verbatim>\<open>LogFile\<close> of \<^verbatim>\<open>FileUtil.cc\<close>. \<open>AsyncLogging\<close>: \<^verbatim>\<open>AsyncLogging.cc\<close>. \<open>LogPipeline\<close>: the front end and
    the files together.
  \<^item> Other. \<open>AnyValue\<close>: \<^verbatim>\<open>any.h\<close>. \<open>SmallFile\<close>: \<^verbatim>\<open>ReadSmallFile\<close> and \<^verbatim>\<open>readFile\<close> of \<^verbatim>\<open>FileUtil.h\<close>. \<open>Conveniences\<close>:
    \<^verbatim>\<open>FmtHelper\<close> of \<^verbatim>\<open>Utils.h\<close>, the constructors of \<^verbatim>\<open>Logger\<close> and \<^verbatim>\<open>CheckNotNull\<close>.

  \<^bold>\<open>How state and operations correspond.\<close> A class is a record with the fields of the class; its methods are
  functions from the record to the record or to a \<open>result\<close>. \<open>Inl\<close> is the way a method ends without returning: a
  failed \<^verbatim>\<open>assert\<close>, \<^verbatim>\<open>abort\<close>, an exception by its type, an access out of bounds, or \<open>Dangling\<close> for a pointer to a
  destroyed object. Objects that are shared live in a heap of addresses (channels of a poller, holders of
  \<^verbatim>\<open>any\<close>) or have a mark that says whether they exist (\<open>object_alive\<close>, \<open>exists_obj\<close>). Machine integers are words
  where a bit or a wrap-around matters, and integers with the division of C++ otherwise. Calls of the system
  and of the C library are arguments: a function from the number of the call to its outcome, a list of the
  outcomes, or the value itself; what Linux documents of them is a hypothesis with a witness. Some records have
  fields for the proofs only (\<open>sent\<close>, \<open>accepted\<close>, \<open>taken\<close>, \<open>posted\<close>); nothing is decided by them.

  Concurrency. Where threads meet (\<open>EventLoop\<close>, \<open>LoopThread\<close>, \<open>LoopTimers\<close>, \<open>ServerThreads\<close>, \<open>Threads\<close>, \<open>ThreadPool\<close>,
  \<open>AsyncLogging\<close>) a program is a set of atomic steps with a program counter, one step per access to shared data or per critical section;
  an \<open>inductive\<close> relation has the interleavings, and the invariants hold for all of them. A mutex appears as the
  atomicity of the steps under it; a wait on a condition may end at any time.

  \<^bold>\<open>The interfaces.\<close>

  \<^item> \<open>sequential\<close>, \<open>guarded\<close>, \<open>interleaving\<close> (theory \<open>Runs\<close>): the runs of a component; invariants, totality of
    runs whose operations are allowed, and invariants of every interleaving, proved once. Interpreted for the
    buffer, the connection and its owners, the server, the timer queue, the descriptors, the calls of a turn,
    and for every model with threads.
  \<^item> \<open>byte_queue\<close>: what a client of the buffer relies on; \<open>Buffer\<close> provides it.
  \<^item> \<open>priority_queue\<close>: what the timer queue asks of \<^verbatim>\<open>std::priority_queue\<close>; provided by sorted lists.
  \<^item> \<open>poller_contract\<close>: an abstract poller is the map from addresses to the events that are watched; both
    implementations refine it. \<open>polling_contract\<close> extends it by \<^verbatim>\<open>poll\<close>, and the turns of the loop are proved
    under it, for both pollers and the choice between them.
  \<^item> \<open>comparable\<close>: what \<^verbatim>\<open><\<close> and \<^verbatim>\<open>==\<close> of a class must promise; provided by \<^verbatim>\<open>Timestamp\<close> and \<^verbatim>\<open>Date\<close>.

  \<^bold>\<open>What the lemmas show.\<close> The buffer holds the bytes that went in and not out, and keeps room in front. The
  parser gives the same result however its input is cut, and requests are answered in order over any
  segmentation. A connection sends what it accepted, in order; its life goes forward; with clients that leave
  reading alone no assertion fails, and it exists exactly while it has an owner. Timers run when due and repeat,
  none is forgotten, whichever thread adds it, and none runs after its queued cancellation was carried out. The
  echo server returns what it receives within bounded memory. The pollers watch what the channels ask for; turns of the
  loop never follow a pointer to a destroyed channel. Functors run once and in order, and no wake-up is lost.
  Servers name and establish each connection once; every descriptor has one owner. Threads do not outlive what
  they use; pools and log threads deliver in order. Conversions of time, addresses, integers and time zone files
  are inverse to each other. Beside them, lemmas show the sequences in which the code does not do this.

  \<^bold>\<open>Termination.\<close> The loops of the parser, of \<^verbatim>\<open>onMessage\<close> and of \<^verbatim>\<open>AppendFile::append\<close> are partial functions in
  the option monad, and that they return is a theorem. The loop of the acceptor has fuel, one more than the
  connections that wait, and the theorem says that this is enough; with an exhausted process it may never
  return, which is the lemma \<open>acceptor_spins\<close>. The other loops are structural.

  \<^bold>\<open>What is not modelled.\<close> \<^verbatim>\<open>noncopyable\<close>, \<^verbatim>\<open>copyable\<close> and \<^verbatim>\<open>NetUtils.h\<close> have no state and no operations;
  \<^verbatim>\<open>BlockingQueue.h\<close> declares a class without
  operations. \<^verbatim>\<open>fmt\<close>, \<^verbatim>\<open>grisu3\<close> and \<^verbatim>\<open>std::thread\<close> are other people's code: the texts they produce are arguments.
  Names and addresses that are only printed, socket options beyond their success, and the levels of log calls
  inside the library are left out of the models of the network. Doubles outside the normal range, times outside
  64 bits, and memory that cannot be had are not considered. The programs under \<^verbatim>\<open>test/\<close>, and those
  under \<^verbatim>\<open>example/\<close> beside the echo server, are clients with no logic of their own. The constructors that only make
  a descriptor or die, and \<^verbatim>\<open>checkConnAlive\<close>, a debugging aid that counts and prints, are left out.
\<close>

end
